(* ===== verification/Prelude.thy ===== *)
theory Prelude
  imports Complex_Main "HOL-Library.Word" "HOL-Library.Multiset"
begin

unbundle bit_operations_syntax

text \<open>
  Shared vocabulary of the development: the machine types of the C++ sources, the values that
  stand for exceptions and for undefined behaviour, the collections of lemmas the component
  theories declare into, and the generic facts on words, lists and maps they rest on.

  A \<open>size_t\<close>, \<open>uintptr_t\<close> or object pointer is a 64-bit word (the sources target 64-bit
  platforms; \<^verbatim>\<open>TaggedPointer.hpp\<close> says so), with \<open>nullptr\<close> the word 0.  An operation that
  may throw, or whose C++ meaning is undefined on some input, returns \<open>cpp_error + 'a\<close>.
\<close>

type_synonym u32 = "32 word"
type_synonym u64 = "64 word"
type_synonym size_t = "64 word"
type_synonym ptr = "64 word"

abbreviation (input) nullptr :: ptr where
  "nullptr \<equiv> 0"

text \<open>
  \<open>Undefined\<close> marks a read or write that the language leaves undefined (an index out of range,
  \<open>front()\<close> of an empty container, a null dereference); \<open>No_return\<close> stands for a call that does
  not return; the other constructors are the exceptions the sources throw.
\<close>

datatype cpp_error =
    Bad_alloc
  | Bad_array_new_length
  | Runtime_error
  | Undefined
  | No_return

type_synonym 'a result = "cpp_error + 'a"

named_theorems align_simps \<open>what the bit tricks of the alignment code compute, on naturals\<close>
named_theorems inv_intros \<open>operations keep their component's invariant\<close>
named_theorems frame_simps \<open>fields an operation does not change\<close>

subsection \<open>Words\<close>

lemma unat_pow2 [simp]: "n < LENGTH('a) \<Longrightarrow> unat (2 ^ n :: 'a::len word) = 2 ^ n"
proof -
  assume "n < LENGTH('a)"
  then have "(2::nat) ^ n < 2 ^ LENGTH('a)" by simp
  then have "unat (of_nat (2 ^ n) :: 'a word) = 2 ^ n"
    by (simp only: unat_of_nat mod_less)
  then show ?thesis by simp
qed

lemma and_not_mask_push_drop: "x AND NOT (mask n) = push_bit n (drop_bit n x)"
  for x :: "'a::len word"
  by (rule bit_eqI) (auto simp: bit_simps)

lemma div_mult_less_len: "unat x div 2 ^ n * 2 ^ n < 2 ^ LENGTH('a)" for x :: "'a::len word"
  by (metis le_less_trans div_times_less_eq_dividend unsigned_less)

lemma unat_and_not_mask [align_simps]: "unat (x AND NOT (mask n)) = unat x div 2 ^ n * 2 ^ n"
  for x :: "'a::len word"
proof -
  have "unat (push_bit n (drop_bit n x)) = take_bit LENGTH('a) (push_bit n (drop_bit n (unat x)))"
    by (simp only: unsigned_push_bit_eq unat_drop_bit_eq)
  then show ?thesis
    by (simp only: and_not_mask_push_drop push_bit_eq_mult drop_bit_eq_div take_bit_eq_mod)
       (simp add: div_mult_less_len)
qed

lemma bit_word_odd: "bit x n = odd (unat x div 2 ^ n)" for x :: "'a::len word"
proof -
  have "bit x n = bit (unat x) n"
    by (auto simp: bit_unsigned_iff dest: bit_imp_le_length)
  then show ?thesis by (simp add: bit_iff_odd)
qed

text \<open>Clearing and flipping one bit are a subtraction or an addition of that power of two.\<close>

lemma and_not_pow2: "x AND NOT (2 ^ n) = (if bit x n then x - 2 ^ n else x)"
  for x :: "'a::len word"
  using unset_bit_eq [of n x] by (simp add: unset_bit_def push_bit_eq_mult)

lemma xor_pow2: "x XOR 2 ^ n = (if bit x n then x - 2 ^ n else x + 2 ^ n)"
  for x :: "'a::len word"
  using flip_bit_eq_if [of n x] unset_bit_eq [of n x] set_bit_eq [of n x]
  by (simp add: flip_bit_def push_bit_eq_mult)

lemma pow2_le_of_bit: "bit x n \<Longrightarrow> 2 ^ n \<le> unat x" for x :: "'a::len word"
proof -
  assume "bit x n"
  then have "unat x div 2 ^ n \<noteq> 0" by (auto simp: bit_word_odd intro: ccontr)
  then show ?thesis by (metis div_less not_le)
qed

lemma unat_minus_pow2: "bit x n \<Longrightarrow> unat (x - 2 ^ n) = unat x - 2 ^ n" for x :: "'a::len word"
  using pow2_le_of_bit [of x n] bit_imp_le_length [of x n] by (simp add: unat_sub_if')

lemma unat_plus_less: "unat a + unat b < 2 ^ LENGTH('a) \<Longrightarrow> unat (a + b) = unat a + unat b"
  for a b :: "'a::len word"
  by (simp add: unat_add_lem)

lemma word_plus_diff_eq: "p - b = q - b \<longleftrightarrow> p = q" for p q b :: "'a::len word"
  by simp

lemma unat_push_bit_small:
  "unat w * 2 ^ n < 2 ^ LENGTH('a) \<Longrightarrow> unat (push_bit n w) = unat w * 2 ^ n" for w :: "'a::len word"
proof -
  assume "unat w * 2 ^ n < 2 ^ LENGTH('a)"
  moreover have "unat (push_bit n w) = take_bit LENGTH('a) (push_bit n (unat w))"
    by (rule unsigned_push_bit_eq)
  ultimately show ?thesis by (simp add: push_bit_eq_mult take_bit_eq_mod)
qed

end
