(* ===== verification/MemoryUtils.thy ===== *)
theory MemoryUtils
  imports Prelude
begin

text \<open>
  \<^verbatim>\<open>include/MemoryUtils.hpp\<close> and \<^verbatim>\<open>include/VirtualMemory.hpp\<close>: alignment arithmetic and the RAII
  owner of a region of OS memory.  The kernel's \<open>mmap\<close> and \<open>munmap\<close> are not part of the
  repository: they are the two fields of an \<open>os_api\<close> record, over an arbitrary type of OS
  states.  The POSIX branch of the \<open>#ifdef\<close> is modelled.
\<close>

subsection \<open>Alignment\<close>

definition AlignUp :: "size_t \<Rightarrow> size_t \<Rightarrow> size_t" where
  "AlignUp sz alignment = (sz + alignment - 1) AND NOT (alignment - 1)"

definition AlignPtr :: "ptr \<Rightarrow> size_t \<Rightarrow> ptr" where
  "AlignPtr p alignment = AlignUp p alignment"

subsection \<open>OS memory\<close>

record 'os os_api =
  os_mmap :: "'os \<Rightarrow> size_t \<Rightarrow> ptr \<times> 'os"
  os_munmap :: "'os \<Rightarrow> ptr \<Rightarrow> size_t \<Rightarrow> 'os"

text \<open>POSIX: \<open>mmap\<close> reports failure by returning \<open>MAP_FAILED\<close>, that is \<open>(void *) -1\<close>.\<close>

definition MAP_FAILED :: ptr where
  "MAP_FAILED = - 1"

definition AllocateVirtualMemory :: "'os os_api \<Rightarrow> 'os \<Rightarrow> size_t \<Rightarrow> ptr \<times> 'os" where
  "AllocateVirtualMemory api os sz = os_mmap api os sz"

definition FreeVirtualMemory :: "'os os_api \<Rightarrow> 'os \<Rightarrow> ptr \<Rightarrow> size_t \<Rightarrow> 'os" where
  "FreeVirtualMemory api os p sz = (if p = nullptr then os else os_munmap api os p sz)"

subsection \<open>VirtualMemory\<close>

record VirtualMemory =
  vm_ptr :: ptr
  vm_size :: size_t

definition VirtualMemory_default :: VirtualMemory where
  "VirtualMemory_default = \<lparr>vm_ptr = nullptr, vm_size = 0\<rparr>"

definition VirtualMemory_new :: "'os os_api \<Rightarrow> 'os \<Rightarrow> size_t \<Rightarrow> VirtualMemory result \<times> 'os" where
  "VirtualMemory_new api os bytes =
     (let sz = AlignUp bytes 4096;
          (p, os') = AllocateVirtualMemory api os sz
      in if p = nullptr then (Inl Runtime_error, os')
         else (Inr \<lparr>vm_ptr = p, vm_size = sz\<rparr>, os'))"

definition VirtualMemory_Free :: "'os os_api \<Rightarrow> 'os \<Rightarrow> VirtualMemory \<Rightarrow> VirtualMemory \<times> 'os" where
  "VirtualMemory_Free api os v =
     (if vm_ptr v \<noteq> nullptr
      then (v\<lparr>vm_ptr := nullptr, vm_size := 0\<rparr>, FreeVirtualMemory api os (vm_ptr v) (vm_size v))
      else (v, os))"

text \<open>
  Objects live in a store indexed by their address, so that the self-assignment test
  \<open>this != &other\<close> of the move assignment is a comparison of indices.  The move constructor
  creates the object \<open>i\<close> from \<open>j\<close>; the destructor runs \<open>Free\<close> and the object is gone (its
  slot returns to the default value).
\<close>

type_synonym vm_store = "nat \<Rightarrow> VirtualMemory"

definition VirtualMemory_move :: "vm_store \<Rightarrow> nat \<Rightarrow> nat \<Rightarrow> vm_store" where
  "VirtualMemory_move st i j =
     (let other = st j
      in st(j := other\<lparr>vm_ptr := nullptr, vm_size := 0\<rparr>,
            i := \<lparr>vm_ptr = vm_ptr other, vm_size = vm_size other\<rparr>))"

definition VirtualMemory_move_assign ::
  "'os os_api \<Rightarrow> 'os \<Rightarrow> vm_store \<Rightarrow> nat \<Rightarrow> nat \<Rightarrow> vm_store \<times> 'os" where
  "VirtualMemory_move_assign api os st i j =
     (if i \<noteq> j then
        (let (v, os') = VirtualMemory_Free api os (st i);
             other = st j
         in (st(j := other\<lparr>vm_ptr := nullptr, vm_size := 0\<rparr>,
                i := v\<lparr>vm_ptr := vm_ptr other, vm_size := vm_size other\<rparr>), os'))
      else (st, os))"

definition VirtualMemory_destroy :: "'os os_api \<Rightarrow> 'os \<Rightarrow> vm_store \<Rightarrow> nat \<Rightarrow> vm_store \<times> 'os" where
  "VirtualMemory_destroy api os st i =
     (let (v, os') = VirtualMemory_Free api os (st i) in (st(i := VirtualMemory_default), os'))"

subsection \<open>Correctness of the alignment arithmetic\<close>

lemma pow2_minus_1_mask: "(2::64 word) ^ n - 1 = mask n"
  by (simp add: mask_eq_exp_minus_1)

lemma unat_pow2_minus_1: "n < 64 \<Longrightarrow> unat ((2::64 word) ^ n - 1) = 2 ^ n - 1"
proof -
  assume "n < 64"
  then have a: "unat ((2::64 word) ^ n) = 2 ^ n" by simp
  have "(2::64 word) ^ n \<noteq> 0"
  proof
    assume "(2::64 word) ^ n = 0"
    with a show False by simp
  qed
  with a show ?thesis by (simp add: unat_minus_one)
qed

lemma AlignUp_nat [align_simps]:
  assumes n: "n < 64" and room: "unat x + 2 ^ n \<le> 2 ^ 64"
  shows "unat (AlignUp x (2 ^ n)) = (unat x + (2 ^ n - 1)) div 2 ^ n * 2 ^ n"
proof -
  have "(0::nat) < 2 ^ n" by simp
  with room have "unat x + (2 ^ n - 1) < 2 ^ 64" by linarith
  with unat_pow2_minus_1 [OF n] have "unat (x + (2 ^ n - 1)) = unat x + (2 ^ n - 1)"
    by (simp add: unat_plus_less)
  then show ?thesis
    by (simp add: AlignUp_def add_diff_eq [symmetric] pow2_minus_1_mask unat_and_not_mask)
qed

lemma round_up_bounds:
  fixes x a :: nat
  assumes "0 < a"
  shows "x \<le> (x + (a - 1)) div a * a" and "(x + (a - 1)) div a * a < x + a"
proof -
  let ?y = "x + (a - 1)"
  have "?y = ?y div a * a + ?y mod a" by simp
  moreover have "?y mod a < a" using assms by simp
  ultimately show "x \<le> ?y div a * a" and "?y div a * a < x + a" using assms by linarith+
qed

lemma round_up_least:
  fixes x a y :: nat
  assumes "0 < a" "a dvd y" "x \<le> y"
  shows "(x + (a - 1)) div a * a \<le> y"
proof -
  obtain k where k: "y = a * k" using assms(2) by blast
  have "x + (a - 1) < (k + 1) * a" using assms k by (simp add: algebra_simps)
  then have "(x + (a - 1)) div a < k + 1" by (rule less_mult_imp_div_less)
  then have "(x + (a - 1)) div a \<le> k" by simp
  then have "(x + (a - 1)) div a * a \<le> k * a" by (rule mult_le_mono1)
  with k show ?thesis by (simp add: mult.commute)
qed

lemma AlignUp_wrap:
  assumes n: "n < 64" and over: "2 ^ 64 < unat x + 2 ^ n"
  shows "AlignUp x (2 ^ n) = 0"
proof -
  have x: "unat x < 2 ^ 64" using unsigned_less [of x] by simp
  have "(2::nat) ^ n \<le> 2 ^ 64" using n by (intro power_increasing) auto
  with x over have "unat (x + (2 ^ n - 1)) = unat x + (2 ^ n - 1) - 2 ^ 64"
    by (simp add: unat_plus_if' unat_pow2_minus_1 [OF n])
  moreover have "(0::nat) < 2 ^ n" by simp
  ultimately have "unat (x + (2 ^ n - 1)) < 2 ^ n" using x by linarith
  then have "unat (AlignUp x (2 ^ n)) = 0"
    by (simp add: AlignUp_def add_diff_eq [symmetric] pow2_minus_1_mask unat_and_not_mask)
  then show ?thesis by (simp add: unat_eq_0)
qed

text \<open>
  For a power-of-two alignment, \<open>AlignUp\<close> returns the least multiple of the alignment that
  is at least the argument whenever that multiple fits in 64 bits, and 0 (the sum wraps around)
  for the arguments within one alignment of \<open>2 ^ 64\<close>.
\<close>

theorem AlignUp_least_multiple:
  assumes n: "n < 64"
  shows "if unat x + 2 ^ n \<le> 2 ^ 64
         then 2 ^ n dvd unat (AlignUp x (2 ^ n)) \<and> unat x \<le> unat (AlignUp x (2 ^ n)) \<and>
              (\<forall>y. 2 ^ n dvd y \<longrightarrow> unat x \<le> y \<longrightarrow> unat (AlignUp x (2 ^ n)) \<le> y)
         else AlignUp x (2 ^ n) = 0"
  using n AlignUp_wrap [OF n, of x] round_up_bounds(1) [of "2 ^ n" "unat x"]
    round_up_least [of "2 ^ n" _ "unat x"]
  by (auto simp: AlignUp_nat)

theorem AlignUp_least_multiple_witness:
  "unat (AlignUp 5000 (2 ^ 12)) \<ge> 5000 \<and> AlignUp 18446744073709551615 (2 ^ 12) = 0"
  using AlignUp_least_multiple [of 12 5000] AlignUp_least_multiple [of 12 18446744073709551615] by simp

subsection \<open>Ownership of OS regions\<close>

text \<open>
  The life of a set of \<open>VirtualMemory\<close> objects as a step relation: an object is constructed in an
  unused slot, moved into an unused slot, move-assigned (to itself too), freed early or
  destroyed, in any order.  A construction whose \<open>mmap\<close> fails is one of the steps: the constructor
  does not notice, and the object holds the address \<open>MAP_FAILED\<close> (\<open>mmap_failure_undetected\<close> below).
\<close>

inductive vm_step ::
  "'os os_api \<Rightarrow> vm_store \<times> 'os \<Rightarrow> vm_store \<times> 'os \<Rightarrow> bool" for api :: "'os os_api" where
  construct: "st i = VirtualMemory_default \<Longrightarrow>
     VirtualMemory_new api os bytes = (Inr v, os') \<Longrightarrow>
     vm_step api (st, os) (st(i := v), os')"
| move: "st i = VirtualMemory_default \<Longrightarrow> i \<noteq> j \<Longrightarrow>
     vm_step api (st, os) (VirtualMemory_move st i j, os)"
| move_assign: "VirtualMemory_move_assign api os st i j = (st', os') \<Longrightarrow>
     vm_step api (st, os) (st', os')"
| free: "VirtualMemory_Free api os (st i) = (v, os') \<Longrightarrow> vm_step api (st, os) (st(i := v), os')"
| destroy: "VirtualMemory_destroy api os st i = (st', os') \<Longrightarrow> vm_step api (st, os) (st', os')"

text \<open>The addresses that stand for no region.\<close>

definition no_region :: "ptr \<Rightarrow> bool" where
  "no_region p \<longleftrightarrow> p = nullptr \<or> p = MAP_FAILED"

definition vm_owned :: "vm_store \<Rightarrow> (ptr \<times> size_t) set" where
  "vm_owned st = {(vm_ptr (st i), vm_size (st i)) | i. \<not> no_region (vm_ptr (st i))}"

definition vm_exclusive :: "vm_store \<Rightarrow> bool" where
  "vm_exclusive st \<longleftrightarrow> (\<forall>i j. \<not> no_region (vm_ptr (st i)) \<longrightarrow> vm_ptr (st i) = vm_ptr (st j) \<longrightarrow> i = j)"

text \<open>
  What the code relies on from the kernel, for a function \<open>live\<close> that reads the mapped regions
  off an OS state: a successful \<open>mmap\<close> returns a region whose address is not null and is not in
  use, and adds it; a failed one changes nothing; \<open>munmap\<close> of a mapped region removes that region, and
  of the address \<open>MAP_FAILED\<close>, which is not page-aligned, it fails and changes nothing.
\<close>

definition os_conforms :: "'os os_api \<Rightarrow> ('os \<Rightarrow> (ptr \<times> size_t) set) \<Rightarrow> bool" where
  "os_conforms api live \<longleftrightarrow>
     (\<forall>os sz p os'. os_mmap api os sz = (p, os') \<longrightarrow>
        (if p = MAP_FAILED then live os' = live os
         else p \<noteq> nullptr \<and> p \<notin> fst ` live os \<and> live os' = insert (p, sz) (live os))) \<and>
     (\<forall>os p sz. p \<noteq> MAP_FAILED \<longrightarrow> (p, sz) \<in> live os \<longrightarrow> live (os_munmap api os p sz) = live os - {(p, sz)}) \<and>
     (\<forall>os sz. live (os_munmap api os MAP_FAILED sz) = live os)"

lemma vm_owned_iff:
  "(p, n) \<in> vm_owned st \<longleftrightarrow> (\<exists>i. vm_ptr (st i) = p \<and> vm_size (st i) = n \<and> \<not> no_region p)"
  by (auto simp: vm_owned_def)

lemma vm_owned_clear:
  assumes "vm_exclusive st" "no_region (vm_ptr v)"
  shows "vm_owned (st(i := v)) =
    (if no_region (vm_ptr (st i)) then vm_owned st else vm_owned st - {(vm_ptr (st i), vm_size (st i))})"
  using assms unfolding vm_owned_def vm_exclusive_def by (auto; metis)

lemma vm_exclusive_clear: "vm_exclusive st \<Longrightarrow> no_region (vm_ptr v) \<Longrightarrow> vm_exclusive (st(i := v))"
  by (auto simp: vm_exclusive_def)

lemma vm_owned_fill:
  assumes "no_region (vm_ptr (st i))" "\<not> no_region (vm_ptr v)"
  shows "vm_owned (st(i := v)) = insert (vm_ptr v, vm_size v) (vm_owned st)"
  using assms unfolding vm_owned_def by auto

lemma vm_exclusive_fill:
  assumes x: "vm_exclusive st" and v: "vm_ptr v \<notin> fst ` vm_owned st"
  shows "vm_exclusive (st(i := v))"
proof -
  have n: "vm_ptr (st k) \<noteq> vm_ptr v" if "\<not> no_region (vm_ptr v)" for k
  proof
    assume "vm_ptr (st k) = vm_ptr v"
    with that have "(vm_ptr v, vm_size (st k)) \<in> vm_owned st" by (auto simp: vm_owned_iff)
    with v show False by (metis fst_conv image_eqI)
  qed
  have "a = b" if "\<not> no_region (vm_ptr ((st(i := v)) a))"
    "vm_ptr ((st(i := v)) a) = vm_ptr ((st(i := v)) b)" for a b
    using that x n [of a] n [of b] unfolding vm_exclusive_def by (metis fun_upd_apply)
  then show ?thesis unfolding vm_exclusive_def by blast
qed

definition vm_raii :: "('os \<Rightarrow> (ptr \<times> size_t) set) \<Rightarrow> vm_store \<times> 'os \<Rightarrow> bool" where
  "vm_raii live s \<longleftrightarrow> vm_exclusive (fst s) \<and> live (snd s) = vm_owned (fst s)"

lemma vm_raii_free:
  assumes c: "os_conforms api live" and r: "vm_raii live (st, os)"
    and f: "VirtualMemory_Free api os (st i) = (v, os')" and w: "no_region (vm_ptr w)"
  shows "vm_raii live (st(i := w), os') \<and> vm_ptr v = nullptr"
proof -
  have v: "vm_ptr v = nullptr" using f by (auto simp: VirtualMemory_Free_def split: if_splits)
  have "live os' = (if no_region (vm_ptr (st i)) then live os else live os - {(vm_ptr (st i), vm_size (st i))})"
  proof (cases "no_region (vm_ptr (st i))")
    case True
    then show ?thesis using f c
      by (auto simp: VirtualMemory_Free_def FreeVirtualMemory_def no_region_def os_conforms_def split: if_splits)
  next
    case False
    then have "(vm_ptr (st i), vm_size (st i)) \<in> live os" using r by (auto simp: vm_raii_def vm_owned_iff)
    with c False have "live (os_munmap api os (vm_ptr (st i)) (vm_size (st i))) = live os - {(vm_ptr (st i), vm_size (st i))}"
      by (simp add: os_conforms_def no_region_def)
    then show ?thesis using False f by (auto simp: VirtualMemory_Free_def FreeVirtualMemory_def no_region_def)
  qed
  then show ?thesis using v r w by (auto simp: vm_raii_def vm_owned_clear vm_exclusive_clear)
qed

lemma vm_raii_transfer:
  assumes r: "vm_raii live (st, os)" and i: "no_region (vm_ptr (st i))" and ij: "i \<noteq> j"
    and v: "vm_ptr v = vm_ptr (st j)" "vm_size v = vm_size (st j)" and w: "no_region (vm_ptr w)"
  shows "vm_raii live (st(j := w, i := v), os)"
proof (cases "no_region (vm_ptr (st j))")
  case True
  with assms show ?thesis
    by (simp add: vm_raii_def vm_owned_clear vm_exclusive_clear)
next
  case False
  let ?st = "st(j := w)"
  have x: "vm_exclusive ?st" and o: "vm_owned ?st = vm_owned st - {(vm_ptr (st j), vm_size (st j))}"
    using r w False by (auto simp: vm_raii_def vm_owned_clear vm_exclusive_clear)
  have "vm_ptr v \<notin> fst ` vm_owned ?st"
    using r v False unfolding o by (fastforce simp: vm_raii_def vm_owned_def vm_exclusive_def)
  with x have "vm_exclusive (?st(i := v))" by (rule vm_exclusive_fill)
  moreover have "vm_owned (?st(i := v)) = vm_owned st"
    using vm_owned_fill [of ?st i v] i ij v False o r by (auto simp: vm_owned_iff)
  ultimately show ?thesis using r by (simp add: vm_raii_def)
qed

lemma vm_step_raii:
  assumes c: "os_conforms api live"
  shows "vm_step api s t \<Longrightarrow> vm_raii live s \<Longrightarrow> vm_raii live t"
proof (induction rule: vm_step.induct)
  case (construct st i os bytes v os')
  then have n: "vm_ptr v \<noteq> nullptr" and m: "os_mmap api os (vm_size v) = (vm_ptr v, os')"
    by (auto simp: VirtualMemory_new_def AllocateVirtualMemory_def Let_def split: prod.splits if_splits)
  have e: "no_region (vm_ptr (st i))" using construct.hyps(1) by (simp add: VirtualMemory_default_def no_region_def)
  show ?case
  proof (cases "vm_ptr v = MAP_FAILED")
    case True
    then have "live os' = live os" using c m unfolding os_conforms_def by metis
    moreover have "no_region (vm_ptr v)" using True by (simp add: no_region_def)
    ultimately show ?thesis using e construct.prems by (auto simp: vm_raii_def vm_owned_clear vm_exclusive_clear)
  next
    case False
    then have "vm_ptr v \<notin> fst ` live os" "live os' = insert (vm_ptr v, vm_size v) (live os)"
      using c m unfolding os_conforms_def by metis+
    moreover have "\<not> no_region (vm_ptr v)" using False n by (simp add: no_region_def)
    ultimately show ?thesis using e construct.prems by (auto simp: vm_raii_def vm_owned_fill vm_exclusive_fill)
  qed
next
  case (move st i j os)
  then show ?case
    using vm_raii_transfer [of live st os i j]
    by (simp add: VirtualMemory_move_def Let_def VirtualMemory_default_def no_region_def)
next
  case (move_assign os st i j st' os')
  show ?case
  proof (cases "i = j")
    case True
    with move_assign show ?thesis by (simp add: VirtualMemory_move_assign_def)
  next
    case False
    obtain v os1 where f: "VirtualMemory_Free api os (st i) = (v, os1)" by force
    with vm_raii_free [OF c move_assign.prems f, of v]
    have r: "vm_raii live (st(i := v), os1)" and v: "vm_ptr v = nullptr"
      using vm_raii_free [OF c move_assign.prems f, of VirtualMemory_default]
      by (auto simp: VirtualMemory_default_def no_region_def)
    show ?thesis
      using vm_raii_transfer [OF r, of i j "v\<lparr>vm_ptr := vm_ptr (st j), vm_size := vm_size (st j)\<rparr>"
          "(st j)\<lparr>vm_ptr := nullptr, vm_size := 0\<rparr>"] move_assign.hyps f v False
      by (auto simp: VirtualMemory_move_assign_def Let_def fun_upd_twist no_region_def)
  qed
next
  case (free os st i v os')
  then show ?case
    using vm_raii_free [OF c free.prems free.hyps, of v]
      vm_raii_free [OF c free.prems free.hyps, of VirtualMemory_default]
    by (simp add: VirtualMemory_default_def no_region_def)
next
  case (destroy os st i st' os')
  then show ?case
    using vm_raii_free [OF c destroy.prems, of i _ _ VirtualMemory_default]
    by (auto simp: VirtualMemory_destroy_def VirtualMemory_default_def no_region_def split: prod.splits)
qed

lemma vm_steps_raii:
  "(vm_step api)\<^sup>*\<^sup>* s t \<Longrightarrow> os_conforms api live \<Longrightarrow> vm_raii live s \<Longrightarrow> vm_raii live t"
  by (induction rule: rtranclp_induct) (auto intro: vm_step_raii)

text \<open>
  C37.  RAII: however \<open>VirtualMemory\<close> objects are constructed (with a \<open>mmap\<close> that succeeds or one that
  fails), moved, assigned, freed and destroyed, the regions mapped in the OS are exactly the ones that
  the objects hold at an address other than null and \<open>MAP_FAILED\<close>, each held by one object: no region
  leaks, none is unmapped twice and none is unmapped while it is held.  An object whose \<open>mmap\<close> failed holds
  no region although it reports a size.
\<close>

theorem VirtualMemory_raii:
  assumes "os_conforms api live" and "live os0 = {}"
    and "(vm_step api)\<^sup>*\<^sup>* ((\<lambda>_. VirtualMemory_default), os0) (st, os)"
  shows "live os = vm_owned st \<and> vm_exclusive st"
proof -
  have "vm_raii live ((\<lambda>_. VirtualMemory_default), os0)"
    using assms(2) by (auto simp: vm_raii_def vm_owned_def vm_exclusive_def VirtualMemory_default_def no_region_def)
  from vm_steps_raii [OF assms(3) assms(1) this] show ?thesis by (simp add: vm_raii_def)
qed

text \<open>A small kernel for the witness: one page-aligned address, refused while it is mapped.\<close>

definition one_region_os :: "(ptr \<times> size_t) list os_api" where
  "one_region_os =
     \<lparr>os_mmap = \<lambda>os sz. if 4096 \<in> fst ` set os then (MAP_FAILED, os) else (4096, (4096, sz) # os),
      os_munmap = \<lambda>os p sz. if p = MAP_FAILED then os else filter (\<lambda>r. r \<noteq> (p, sz)) os\<rparr>"

lemma one_region_os_conforms: "os_conforms one_region_os set"
proof -
  have "MAP_FAILED \<noteq> 4096" by (simp add: MAP_FAILED_def)
  then show ?thesis by (auto simp: os_conforms_def one_region_os_def)
qed

theorem VirtualMemory_raii_witness:
  "\<exists>st os. (vm_step one_region_os)\<^sup>*\<^sup>* ((\<lambda>_. VirtualMemory_default), []) (st, os) \<and>
     vm_ptr (st 1) = 4096 \<and> vm_ptr (st 2) = MAP_FAILED \<and> set os = {(4096, 4096)} \<and> set os = vm_owned st \<and> vm_exclusive st"
proof -
  let ?st0 = "\<lambda>_::nat. VirtualMemory_default"
  let ?v = "\<lparr>vm_ptr = 4096, vm_size = 4096\<rparr>"
  let ?w = "\<lparr>vm_ptr = MAP_FAILED, vm_size = 4096\<rparr>"
  let ?os = "[(4096, 4096)] :: (ptr \<times> size_t) list"
  let ?moved = "VirtualMemory_move (?st0(0 := ?v)) 1 0"
  have "VirtualMemory_new one_region_os [] 100 = (Inr ?v, ?os)"
    by (simp add: VirtualMemory_new_def AllocateVirtualMemory_def one_region_os_def AlignUp_def)
  then have a: "vm_step one_region_os (?st0, []) (?st0(0 := ?v), ?os)"
    by (rule vm_step.construct [rotated]) simp
  have b: "vm_step one_region_os (?st0(0 := ?v), ?os) (?moved, ?os)"
    by (rule vm_step.move [where i = 1]) simp_all
  have "VirtualMemory_new one_region_os ?os 100 = (Inr ?w, ?os)"
    by (simp add: VirtualMemory_new_def AllocateVirtualMemory_def one_region_os_def AlignUp_def MAP_FAILED_def)
  then have d: "vm_step one_region_os (?moved, ?os) (?moved(2 := ?w), ?os)"
    by (rule vm_step.construct [where st = ?moved and i = 2, rotated]) (simp add: VirtualMemory_move_def Let_def)
  have r: "(vm_step one_region_os)\<^sup>*\<^sup>* (?st0, []) (?moved(2 := ?w), ?os)"
    using a b d by (meson converse_rtranclp_into_rtranclp rtranclp.rtrancl_refl)
  have "set [] = {}" by simp
  from VirtualMemory_raii [OF one_region_os_conforms this r] r show ?thesis
    by (intro exI [of _ "?moved(2 := ?w)"] exI [of _ ?os]) (simp add: VirtualMemory_move_def Let_def)
qed

text \<open>
  The constructor tests \<open>mmap\<close>'s result against null only, so a failed \<open>mmap\<close> is not
  reported: no exception is thrown and the object claims the whole size at address \<open>MAP_FAILED\<close>.
\<close>

theorem mmap_failure_undetected:
  assumes "os_mmap api os (AlignUp bytes 4096) = (MAP_FAILED, os')"
  shows "VirtualMemory_new api os bytes =
           (Inr \<lparr>vm_ptr = MAP_FAILED, vm_size = AlignUp bytes 4096\<rparr>, os')"
  using assms by (simp add: VirtualMemory_new_def AllocateVirtualMemory_def MAP_FAILED_def)

theorem mmap_failure_undetected_witness:
  "VirtualMemory_new one_region_os [(4096, 4096)] 1024 =
     (Inr \<lparr>vm_ptr = MAP_FAILED, vm_size = 4096\<rparr>, [(4096, 4096)])"
  using mmap_failure_undetected [of one_region_os "[(4096, 4096)]" 1024 "[(4096, 4096)]"]
  by (simp add: one_region_os_def AlignUp_def)

end
