(* ===== verification/Arenas.thy ===== *)
theory Arenas
  imports MemoryUtils
begin

text \<open>
  \<^verbatim>\<open>include/LinearArena.hpp\<close> (the arena and its scope guard) and \<^verbatim>\<open>include/StackArena.hpp\<close>.  The
  two \<open>Allocate\<close> routines promise the same thing over different storage; the locale
  \<open>bump_arena\<close> states that contract, its lemmas are proved once, and both classes interpret it.
\<close>

subsection \<open>LinearArena\<close>

record LinearArena =
  la_storage :: VirtualMemory
  la_offset :: size_t

definition LinearArena_new :: "'os os_api \<Rightarrow> 'os \<Rightarrow> size_t \<Rightarrow> LinearArena result \<times> 'os" where
  "LinearArena_new api os totalSize =
     (case VirtualMemory_new api os totalSize of
        (Inl e, os') \<Rightarrow> (Inl e, os')
      | (Inr v, os') \<Rightarrow> (Inr \<lparr>la_storage = v, la_offset = 0\<rparr>, os'))"

definition LinearArena_Allocate :: "LinearArena \<Rightarrow> size_t \<Rightarrow> size_t \<Rightarrow> ptr \<times> LinearArena" where
  "LinearArena_Allocate a sz alignment =
     (let base = vm_ptr (la_storage a);
          currentPtr = base + la_offset a;
          alignedPtr = AlignPtr currentPtr alignment;
          newOffset = alignedPtr - base + sz
      in if newOffset > vm_size (la_storage a) then (nullptr, a)
         else (alignedPtr, a\<lparr>la_offset := newOffset\<rparr>))"

definition LinearArena_Reset :: "LinearArena \<Rightarrow> LinearArena" where
  "LinearArena_Reset a = a\<lparr>la_offset := 0\<rparr>"

definition LinearArena_GetUsedMemory :: "LinearArena \<Rightarrow> size_t" where
  "LinearArena_GetUsedMemory a = la_offset a"

definition LinearArena_GetCapacity :: "LinearArena \<Rightarrow> size_t" where
  "LinearArena_GetCapacity a = vm_size (la_storage a)"

text \<open>A block guarded by an \<open>ArenaScope\<close>: the body runs on the arena, then the destructor.\<close>

definition ArenaScope_run :: "(LinearArena \<Rightarrow> 'r \<times> LinearArena) \<Rightarrow> LinearArena \<Rightarrow> 'r \<times> LinearArena" where
  "ArenaScope_run body a = (let (r, a') = body a in (r, LinearArena_Reset a'))"

subsection \<open>StackArena\<close>

text \<open>\<open>sa_Size\<close> is the template parameter, \<open>sa_buffer\<close> the address of the member array.\<close>

record StackArena =
  sa_buffer :: ptr
  sa_Size :: size_t
  sa_offset :: size_t

definition StackArena_new :: "ptr \<Rightarrow> size_t \<Rightarrow> StackArena" where
  "StackArena_new buf n = \<lparr>sa_buffer = buf, sa_Size = n, sa_offset = 0\<rparr>"

definition StackArena_Allocate :: "StackArena \<Rightarrow> size_t \<Rightarrow> size_t \<Rightarrow> ptr \<times> StackArena" where
  "StackArena_Allocate a sz alignment =
     (let currentPtr = sa_buffer a + sa_offset a;
          alignedPtr = AlignPtr currentPtr alignment;
          newOffset = alignedPtr - sa_buffer a + sz
      in if newOffset > sa_Size a then (nullptr, a)
         else (alignedPtr, a\<lparr>sa_offset := newOffset\<rparr>))"

definition StackArena_Reset :: "StackArena \<Rightarrow> StackArena" where
  "StackArena_Reset a = a\<lparr>sa_offset := 0\<rparr>"

definition StackArena_GetUsedMemory :: "StackArena \<Rightarrow> size_t" where
  "StackArena_GetUsedMemory a = sa_offset a"

definition StackArena_GetCapacity :: "StackArena \<Rightarrow> size_t" where
  "StackArena_GetCapacity a = sa_Size a"

subsection \<open>The bump-allocation contract\<close>

text \<open>
  A run of requests (size, binary logarithm of the alignment) and the regions granted, in order;
  a refused request grants nothing.
\<close>

fun alloc_seq :: "('a \<Rightarrow> size_t \<Rightarrow> size_t \<Rightarrow> ptr \<times> 'a) \<Rightarrow> 'a \<Rightarrow> (size_t \<times> nat) list \<Rightarrow>
    (ptr \<times> size_t) list \<times> 'a" where
  "alloc_seq alloc a [] = ([], a)"
| "alloc_seq alloc a ((sz, n) # rs) =
     (let (p, a') = alloc a sz (2 ^ n); (gs, a'') = alloc_seq alloc a' rs
      in ((if p = nullptr then gs else (p, sz) # gs), a''))"

text \<open>
  A request is \<open>moderate\<close> for an arena when neither the alignment step nor the size can carry
  the 64-bit sums past \<open>2 ^ 64\<close>.  The code does not test this (see \<open>LinearArena_size_wraps\<close>).
\<close>

definition moderate :: "nat \<Rightarrow> nat \<Rightarrow> size_t \<times> nat \<Rightarrow> bool" where
  "moderate base cap = (\<lambda>(sz, n). n < 64 \<and> base + cap + 2 ^ n \<le> 2 ^ 64 \<and> cap + 2 ^ n + unat sz \<le> 2 ^ 64)"

locale bump_arena =
  fixes alloc :: "'a \<Rightarrow> size_t \<Rightarrow> size_t \<Rightarrow> ptr \<times> 'a"
    and reset :: "'a \<Rightarrow> 'a"
    and base :: "'a \<Rightarrow> ptr" and used :: "'a \<Rightarrow> size_t" and cap :: "'a \<Rightarrow> size_t"
  assumes alloc_refuse: "cap a < AlignPtr (base a + used a) al - base a + sz \<Longrightarrow> alloc a sz al = (nullptr, a)"
    and alloc_grant: "\<not> cap a < AlignPtr (base a + used a) al - base a + sz \<Longrightarrow> alloc a sz al = (p, a') \<Longrightarrow>
      p = AlignPtr (base a + used a) al \<and> used a' = p - base a + sz"
    and alloc_frame: "alloc a sz al = (p, a') \<Longrightarrow> base a' = base a \<and> cap a' = cap a"
    and reset_used: "used (reset a) = 0" and reset_frame: "base (reset a) = base a" "cap (reset a) = cap a"
begin

definition wf :: "'a \<Rightarrow> bool" where
  "wf a \<longleftrightarrow> base a \<noteq> nullptr \<and> used a \<le> cap a"

lemma sums_fit:
  assumes "wf a" and "moderate (unat (base a)) (unat (cap a)) (sz, n)"
  shows "n < 64" and "unat (used a) \<le> unat (cap a)"
    and "unat (base a + used a) = unat (base a) + unat (used a)"
    and "unat (base a) + unat (used a) + 2 ^ n \<le> 2 ^ 64"
proof -
  show n: "n < 64" and u: "unat (used a) \<le> unat (cap a)"
    using assms by (auto simp: moderate_def wf_def word_le_nat_alt)
  show r: "unat (base a) + unat (used a) + 2 ^ n \<le> 2 ^ 64"
    using assms(2) u by (auto simp: moderate_def)
  moreover have "(0::nat) < 2 ^ n" by simp
  ultimately have "unat (base a) + unat (used a) < 2 ^ 64" by linarith
  then show "unat (base a + used a) = unat (base a) + unat (used a)"
    by (simp add: unat_plus_less)
qed

lemma aligned_position:
  assumes "wf a" and m: "moderate (unat (base a)) (unat (cap a)) (sz, n)"
  shows "unat (AlignPtr (base a + used a) (2 ^ n)) =
      (unat (base a) + unat (used a) + (2 ^ n - 1)) div 2 ^ n * 2 ^ n"
    and "2 ^ n dvd unat (AlignPtr (base a + used a) (2 ^ n))"
    and "unat (base a) + unat (used a) \<le> unat (AlignPtr (base a + used a) (2 ^ n))"
    and "unat (AlignPtr (base a + used a) (2 ^ n)) < unat (base a) + unat (used a) + 2 ^ n"
    and "unat (AlignPtr (base a + used a) (2 ^ n) - base a + sz) =
      unat (AlignPtr (base a + used a) (2 ^ n)) - unat (base a) + unat sz"
proof -
  let ?q = "AlignPtr (base a + used a) (2 ^ n)"
  note f = sums_fit [OF assms]
  show q: "unat ?q = (unat (base a) + unat (used a) + (2 ^ n - 1)) div 2 ^ n * 2 ^ n"
    using AlignUp_nat [OF f(1), of "base a + used a"] f(3,4) by (simp add: AlignPtr_def)
  show "2 ^ n dvd unat ?q" by (simp add: q)
  show ge: "unat (base a) + unat (used a) \<le> unat ?q"
    and lt: "unat ?q < unat (base a) + unat (used a) + 2 ^ n"
    using round_up_bounds [of "2 ^ n" "unat (base a) + unat (used a)"] by (simp_all add: q)
  have d: "unat (?q - base a) = unat ?q - unat (base a)" using ge by (simp add: unat_sub_if')
  have "unat ?q - unat (base a) + unat sz < 2 ^ LENGTH(64)"
    using lt ge f(2) m by (auto simp: moderate_def)
  then show "unat (?q - base a + sz) = unat ?q - unat (base a) + unat sz"
    by (simp add: d unat_plus_less)
qed

text \<open>What one request does, on natural numbers: position, alignment, bounds and the new offset.\<close>

lemma alloc_cases:
  assumes w: "wf a" and m: "moderate (unat (base a)) (unat (cap a)) (sz, n)"
    and r: "alloc a sz (2 ^ n) = (p, a')"
  shows "wf a'" and "base a' = base a" and "cap a' = cap a" and "unat (used a) \<le> unat (used a')"
    and "p = nullptr \<Longrightarrow> a' = a"
    and "p \<noteq> nullptr \<Longrightarrow> 2 ^ n dvd unat p \<and> unat (base a) + unat (used a) \<le> unat p \<and>
           unat p + unat sz = unat (base a) + unat (used a')"
proof -
  let ?q = "AlignPtr (base a + used a) (2 ^ n)"
  note q = aligned_position [OF w m]
  have "unat (base a) \<noteq> 0" using w by (simp add: wf_def unat_eq_0)
  then have nz: "?q \<noteq> nullptr" using q(3) by auto
  consider "cap a < ?q - base a + sz" "p = nullptr" "a' = a"
    | "\<not> cap a < ?q - base a + sz" "p = ?q" "used a' = ?q - base a + sz"
    using alloc_refuse [of a "2 ^ n" sz] alloc_grant [of a "2 ^ n" sz p a'] r by fastforce
  then show "wf a'" and "base a' = base a" and "cap a' = cap a" and "unat (used a) \<le> unat (used a')"
    and "p = nullptr \<Longrightarrow> a' = a"
    and "p \<noteq> nullptr \<Longrightarrow> 2 ^ n dvd unat p \<and> unat (base a) + unat (used a) \<le> unat p \<and>
           unat p + unat sz = unat (base a) + unat (used a')"
    using w q nz alloc_frame [OF r] by (cases; auto simp: wf_def)+
qed

lemma alloc_exact:
  assumes "wf a" and "moderate (unat (base a)) (unat (cap a)) (sz, n)" and "alloc a sz (2 ^ n) = (p, a')"
  shows "p = nullptr \<longleftrightarrow>
    unat (cap a) < (unat (base a) + unat (used a) + (2 ^ n - 1)) div 2 ^ n * 2 ^ n - unat (base a) + unat sz"
proof -
  let ?q = "AlignPtr (base a + used a) (2 ^ n)"
  note q = aligned_position [OF assms(1,2)]
  have "unat (base a) \<noteq> 0" using assms(1) by (simp add: wf_def unat_eq_0)
  then have "?q \<noteq> nullptr" using q(3) by auto
  then have "p = nullptr \<longleftrightarrow> cap a < ?q - base a + sz"
    using alloc_refuse [of a "2 ^ n" sz] alloc_grant [of a "2 ^ n" sz p a'] assms(3)
    by (cases "cap a < ?q - base a + sz") auto
  then show ?thesis using q(1,5) by (simp add: word_less_nat_alt)
qed

lemma alloc_seq_regions:
  assumes "wf a" and "\<forall>r \<in> set rs. moderate (unat (base a)) (unat (cap a)) r"
    and "alloc_seq alloc a rs = (gs, a')"
  shows "(\<forall>(p, sz) \<in> set gs. unat (base a) + unat (used a) \<le> unat p \<and>
            unat p + unat sz \<le> unat (base a) + unat (cap a)) \<and>
         sorted_wrt (\<lambda>(p, sz) (q, _). unat p + unat sz \<le> unat q) gs"
  using assms
proof (induction rs arbitrary: a gs)
  case Nil
  then show ?case by simp
next
  case (Cons r rs)
  obtain sz n where r: "r = (sz, n)" by force
  obtain p a1 where a1: "alloc a sz (2 ^ n) = (p, a1)" by force
  obtain gs1 where gs1: "alloc_seq alloc a1 rs = (gs1, a')"
    using Cons.prems(3) r a1 by (auto split: prod.splits)
  have m: "moderate (unat (base a)) (unat (cap a)) (sz, n)" using Cons.prems(2) r by simp
  note step = alloc_cases [OF Cons.prems(1) m a1]
  have IH: "(\<forall>(p, sz) \<in> set gs1. unat (base a) + unat (used a1) \<le> unat p \<and>
            unat p + unat sz \<le> unat (base a) + unat (cap a)) \<and>
         sorted_wrt (\<lambda>(p, sz) (q, _). unat p + unat sz \<le> unat q) gs1"
    using Cons.IH [OF step(1) _ gs1] Cons.prems(2) step(2,3) by simp
  have le: "unat (used a1) \<le> unat (cap a)" using step(1,3) by (simp add: wf_def word_le_nat_alt)
  have "gs = (if p = nullptr then gs1 else (p, sz) # gs1)"
    using Cons.prems(3) r a1 gs1 by simp
  then show ?case using IH step(4,6) le by (fastforce split: if_splits)
qed

end

interpretation linear: bump_arena LinearArena_Allocate LinearArena_Reset
  "\<lambda>a. vm_ptr (la_storage a)" la_offset "\<lambda>a. vm_size (la_storage a)"
  by unfold_locales (auto simp: LinearArena_Allocate_def LinearArena_Reset_def Let_def split: if_splits)

interpretation stack: bump_arena StackArena_Allocate StackArena_Reset sa_buffer sa_offset sa_Size
  by unfold_locales (auto simp: StackArena_Allocate_def StackArena_Reset_def Let_def split: if_splits)

subsection \<open>Properties of the two arenas\<close>

text \<open>
  C38.  Every run of moderate requests (size and alignment do not carry the 64-bit sums of the bounds check past
  \<open>2 ^ 64\<close>) on a fresh or partly used linear arena grants regions that lie inside the arena, after everything handed out before, in increasing order and without
  overlap.
\<close>

theorem LinearArena_regions_disjoint:
  assumes "vm_ptr (la_storage a) \<noteq> nullptr" and "la_offset a \<le> vm_size (la_storage a)"
    and "\<forall>r \<in> set rs. moderate (unat (vm_ptr (la_storage a))) (unat (vm_size (la_storage a))) r"
    and "alloc_seq LinearArena_Allocate a rs = (gs, a')"
  shows "(\<forall>(p, sz) \<in> set gs. unat (vm_ptr (la_storage a)) + unat (la_offset a) \<le> unat p \<and>
            unat p + unat sz \<le> unat (vm_ptr (la_storage a)) + unat (vm_size (la_storage a))) \<and>
         sorted_wrt (\<lambda>(p, sz) (q, _). unat p + unat sz \<le> unat q) gs"
  using linear.alloc_seq_regions [OF _ assms(3,4)] assms(1,2) by (simp add: linear.wf_def)

definition demo_arena :: LinearArena where
  "demo_arena = \<lparr>la_storage = \<lparr>vm_ptr = 8192, vm_size = 4096\<rparr>, la_offset = 0\<rparr>"

theorem LinearArena_regions_disjoint_witness:
  "alloc_seq LinearArena_Allocate demo_arena [(100, 3), (5000, 3), (10, 6)] =
     ([(8192, 100), (8320, 10)], demo_arena\<lparr>la_offset := 138\<rparr>) \<and>
   sorted_wrt (\<lambda>(p, sz) (q, _). unat p + unat sz \<le> unat q) [(8192 :: ptr, 100 :: size_t), (8320, 10)]"
proof -
  have e: "alloc_seq LinearArena_Allocate demo_arena [(100, 3), (5000, 3), (10, 6)] =
      ([(8192, 100), (8320, 10)], demo_arena\<lparr>la_offset := 138\<rparr>)"
    by (simp add: demo_arena_def LinearArena_Allocate_def AlignPtr_def AlignUp_def Let_def)
  then show ?thesis
    using LinearArena_regions_disjoint [OF _ _ _ e] by (simp add: demo_arena_def moderate_def)
qed

text \<open>
  One request to a \<open>StackArena\<close>, exactly: it is refused, leaving the arena as it was, if and
  only if the region after rounding the current position up to the alignment would pass the end of
  the buffer; otherwise the pointer is that aligned position and the offset moves to its end.
\<close>

theorem StackArena_Allocate_exact:
  assumes "sa_buffer a \<noteq> nullptr" and "sa_offset a \<le> sa_Size a"
    and "moderate (unat (sa_buffer a)) (unat (sa_Size a)) (sz, n)"
    and "StackArena_Allocate a sz (2 ^ n) = (p, a')"
  shows "(p = nullptr \<longleftrightarrow> unat (sa_Size a) <
            (unat (sa_buffer a) + unat (sa_offset a) + (2 ^ n - 1)) div 2 ^ n * 2 ^ n
              - unat (sa_buffer a) + unat sz) \<and>
         (p = nullptr \<longrightarrow> a' = a) \<and>
         (p \<noteq> nullptr \<longrightarrow> 2 ^ n dvd unat p \<and>
            unat (sa_buffer a) + unat (sa_offset a) \<le> unat p \<and>
            unat p + unat sz = unat (sa_buffer a) + unat (sa_offset a')) \<and>
         sa_offset a' \<le> sa_Size a'"
proof -
  have w: "stack.wf a" using assms(1,2) by (simp add: stack.wf_def)
  from stack.alloc_cases [OF w assms(3,4)] stack.alloc_exact [OF w assms(3,4)]
  show ?thesis by (simp add: stack.wf_def)
qed

theorem StackArena_Allocate_exact_witness:
  "StackArena_Allocate (StackArena_new 4096 16) 16 (2 ^ 3) =
     (4096, (StackArena_new 4096 16)\<lparr>sa_offset := 16\<rparr>) \<and>
   (16::nat) \<le> unat (sa_Size (StackArena_new 4096 16))"
proof -
  have e: "StackArena_Allocate (StackArena_new 4096 16) 16 (2 ^ 3) =
     (4096, (StackArena_new 4096 16)\<lparr>sa_offset := 16\<rparr>)"
    by (simp add: StackArena_Allocate_def StackArena_new_def AlignPtr_def AlignUp_def Let_def)
  then show ?thesis
    using StackArena_Allocate_exact [OF _ _ _ e] by (simp add: StackArena_new_def moderate_def)
qed

text \<open>
  The size check of \<open>LinearArena::Allocate\<close> is made on a sum that wraps: in every state, with
  \<open>d\<close> the distance of the next aligned position from the base, a request of \<open>2 ^ 64 - d\<close> bytes
  is granted, whatever the capacity, and moves the offset back to 0, so that later requests reuse
  memory already handed out.
\<close>

theorem LinearArena_size_wraps:
  "LinearArena_Allocate a (- (AlignPtr (vm_ptr (la_storage a) + la_offset a) al - vm_ptr (la_storage a))) al =
     (AlignPtr (vm_ptr (la_storage a) + la_offset a) al, LinearArena_Reset a)"
  by (simp add: LinearArena_Allocate_def LinearArena_Reset_def Let_def)

text \<open>The guard returns the arena as a fresh one over the same storage.\<close>

lemma ArenaScope_run_releases:
  assumes "body a = (r, a')" and "la_storage a' = la_storage a"
  shows "ArenaScope_run body a = (r, LinearArena_Reset a)"
  using assms by (simp add: ArenaScope_run_def LinearArena_Reset_def)

end
