(* ===== verification/Freelist.thy ===== *)
theory Freelist
  imports Prelude
begin

text \<open>
  Intrusive singly linked lists.  \<open>PoolAllocator\<close>, \<open>Slab\<close>, \<open>BuddyAllocator\<close> and
  \<open>LockFreeFreelist\<close> all keep their free blocks in a list threaded through the blocks
  themselves: the first word of a free block is a \<open>Node\<close> whose only field is \<open>next\<close>.  The
  memory these classes see is therefore a map from addresses to the \<open>next\<close> word stored there.
  This theory relates such a memory and a head pointer to the list of addresses it holds.
\<close>

type_synonym node_mem = "ptr \<Rightarrow> ptr"

subsection \<open>The list a head pointer denotes\<close>

primrec nodes :: "node_mem \<Rightarrow> ptr \<Rightarrow> ptr list \<Rightarrow> bool" where
  "nodes m p [] \<longleftrightarrow> p = nullptr"
| "nodes m p (x # xs) \<longleftrightarrow> p = x \<and> x \<noteq> nullptr \<and> nodes m (m x) xs"

lemma nodes_null [simp]: "nodes m 0 xs \<longleftrightarrow> xs = []"
  by (cases xs) auto

lemma nodes_nonnull: "p \<noteq> 0 \<Longrightarrow> nodes m p xs \<longleftrightarrow> (\<exists>ys. xs = p # ys \<and> nodes m (m p) ys)"
  by (cases xs) auto

lemma nodes_unique: "nodes m p xs \<Longrightarrow> nodes m p ys \<Longrightarrow> xs = ys"
  by (induction xs arbitrary: p ys) (auto simp: nodes_nonnull)

lemma nodes_not_null: "nodes m p xs \<Longrightarrow> 0 \<notin> set xs"
  by (induction xs arbitrary: p) auto

lemma nodes_update [simp]: "a \<notin> set xs \<Longrightarrow> nodes (m(a := v)) p xs \<longleftrightarrow> nodes m p xs"
  by (induction xs arbitrary: p) auto

lemma nodes_cong: "(\<And>x. x \<in> set xs \<Longrightarrow> m x = m' x) \<Longrightarrow> nodes m p xs \<longleftrightarrow> nodes m' p xs"
  by (induction xs arbitrary: p) auto

lemma nodes_push: "nodes m p xs \<Longrightarrow> a \<notin> set xs \<Longrightarrow> a \<noteq> 0 \<Longrightarrow> nodes (m(a := p)) a (a # xs)"
  by simp

lemma nodes_append:
  "nodes m p (xs @ y # ys) \<Longrightarrow> nodes m y (y # ys)"
  by (induction xs arbitrary: p) auto

lemma nodes_distinct: "nodes m p xs \<Longrightarrow> distinct xs"
proof (induction xs arbitrary: p)
  case Nil
  then show ?case by simp
next
  case (Cons x xs)
  have "x \<notin> set xs"
  proof
    assume "x \<in> set xs"
    then obtain us vs where xs: "xs = us @ x # vs" by (auto simp: in_set_conv_decomp)
    with Cons.prems have "nodes m x (x # vs)" using nodes_append by fastforce
    moreover have "nodes m x (x # xs)" using Cons.prems by simp
    ultimately have "x # vs = x # xs" by (rule nodes_unique)
    with xs show False by simp
  qed
  with Cons show ?case by auto
qed

text \<open>The list, computed by following at most \<open>k\<close> links.\<close>

fun walk :: "nat \<Rightarrow> node_mem \<Rightarrow> ptr \<Rightarrow> ptr list" where
  "walk 0 m p = []"
| "walk (Suc k) m p = (if p = nullptr then [] else p # walk k m (m p))"

lemma walk_nodes: "nodes m p xs \<Longrightarrow> length xs \<le> k \<Longrightarrow> walk k m p = xs"
proof (induction k arbitrary: p xs)
  case 0
  then show ?case by simp
next
  case (Suc k)
  then show ?case by (cases xs) auto
qed

subsection \<open>Linking an array of slots\<close>

text \<open>
  The constructors of \<open>PoolAllocator\<close> and \<open>Slab\<close> share one loop: starting at \<open>current\<close>, store
  the address of the following slot in \<open>k\<close> slots in turn, then end the list in the last one.
\<close>

fun link_slots :: "nat \<Rightarrow> size_t \<Rightarrow> node_mem \<Rightarrow> ptr \<Rightarrow> node_mem" where
  "link_slots 0 stride m current = m(current := nullptr)"
| "link_slots (Suc k) stride m current =
     link_slots k stride (m(current := current + stride)) (current + stride)"

definition slot_list :: "nat \<Rightarrow> size_t \<Rightarrow> ptr \<Rightarrow> ptr list" where
  "slot_list k stride base = map (\<lambda>i. base + of_nat i * stride) [0..<k]"

lemma slot_list_Suc: "slot_list (Suc k) stride base = base # slot_list k stride (base + stride)"
  by (simp add: slot_list_def upt_conv_Cons map_Suc_upt [symmetric] algebra_simps del: upt_Suc)

lemma length_slot_list [simp]: "length (slot_list k stride base) = k"
  by (simp add: slot_list_def)

lemma link_slots_outside: "a \<notin> set (slot_list (Suc k) stride p) \<Longrightarrow> link_slots k stride m p a = m a"
proof (induction k arbitrary: m p)
  case 0
  then show ?case by (simp add: slot_list_Suc)
next
  case (Suc k)
  then show ?case by (simp add: slot_list_Suc [of "Suc k"])
qed

lemma link_slots_nodes:
  assumes "distinct (slot_list (Suc k) stride p)" and "0 \<notin> set (slot_list (Suc k) stride p)"
  shows "nodes (link_slots k stride m p) p (slot_list (Suc k) stride p)"
  using assms
proof (induction k arbitrary: m p)
  case 0
  then show ?case by (simp add: slot_list_Suc) (simp add: slot_list_def)
next
  case (Suc k)
  have p: "p \<notin> set (slot_list (Suc k) stride (p + stride))" "p \<noteq> 0"
    using Suc.prems by (auto simp: slot_list_Suc [of "Suc k"])
  have "nodes (link_slots k stride (m(p := p + stride)) (p + stride)) (p + stride)
      (slot_list (Suc k) stride (p + stride))"
    using Suc.prems by (intro Suc.IH) (auto simp: slot_list_Suc [of "Suc k"])
  then show ?case
    using p link_slots_outside [OF p(1), of "m(p := p + stride)"]
    by (simp add: slot_list_Suc [of "Suc k"])
qed

lemma unat_slot:
  fixes base stride :: "64 word"
  assumes "unat base + k * unat stride \<le> 2 ^ 64" and "i < k" and "0 < unat stride"
  shows "unat (base + of_nat i * stride) = unat base + i * unat stride"
proof -
  have a: "i * unat stride + unat stride \<le> k * unat stride"
    using assms(2) by (metis Suc_leI add.commute mult_Suc mult_le_mono1)
  have l: "unat base + i * unat stride < 2 ^ 64" using a assms(1,3) by linarith
  have "i \<le> i * unat stride" using assms(3) by simp
  then have "i < 2 ^ 64" using l by linarith
  then have "unat (of_nat i :: 64 word) = i" by (simp add: unat_of_nat)
  moreover have "i * unat stride < 2 ^ 64" using l by linarith
  ultimately have "unat (of_nat i * stride) = i * unat stride"
    by (simp add: unat_word_ariths)
  then show ?thesis using l by (simp add: unat_plus_less)
qed

lemma slot_list_distinct:
  assumes "unat base + k * unat stride \<le> 2 ^ 64" and "0 < unat stride"
  shows "distinct (slot_list k stride base)"
proof -
  have "inj_on (\<lambda>i. base + of_nat i * stride) {0..<k}"
  proof (rule inj_onI)
    fix i j assume "i \<in> {0..<k}" "j \<in> {0..<k}" "base + of_nat i * stride = base + of_nat j * stride"
    then have "unat base + i * unat stride = unat base + j * unat stride"
      using unat_slot [OF assms(1) _ assms(2), of i] unat_slot [OF assms(1) _ assms(2), of j] by auto
    then show "i = j" using assms(2) by auto
  qed
  then show ?thesis by (simp add: slot_list_def distinct_map)
qed

lemma slot_list_nonnull:
  assumes "unat base + k * unat stride \<le> 2 ^ 64" and "0 < unat stride" and "base \<noteq> 0"
  shows "0 \<notin> set (slot_list k stride base)"
proof
  assume "0 \<in> set (slot_list k stride base)"
  then obtain i where "i < k" "base + of_nat i * stride = 0" by (auto simp: slot_list_def)
  with unat_slot [OF assms(1) _ assms(2), of i] assms(3) show False by (simp add: unat_eq_0 [symmetric])
qed

subsection \<open>The free-list contract\<close>

text \<open>
  Clients of a free list pop blocks off it and push back blocks they hold.  \<open>run_ops\<close> runs such a
  sequence, tracking the set of blocks outstanding; freeing a block that is not outstanding is
  misuse and has no run.
\<close>

datatype list_op = OpPop | OpPush ptr

fun run_ops :: "('s \<Rightarrow> ptr \<times> 's) \<Rightarrow> ('s \<Rightarrow> ptr \<Rightarrow> 's) \<Rightarrow> list_op list \<Rightarrow> 's \<times> ptr set \<Rightarrow>
    ('s \<times> ptr set) option" where
  "run_ops pop push [] st = Some st"
| "run_ops pop push (OpPop # ops) (s, out) =
     (let (p, s') = pop s in run_ops pop push ops (s', if p = nullptr then out else insert p out))"
| "run_ops pop push (OpPush p # ops) (s, out) =
     (if p \<in> out then run_ops pop push ops (push s p, out - {p}) else None)"

locale lifo_freelist =
  fixes pop :: "'s \<Rightarrow> ptr \<times> 's" and push :: "'s \<Rightarrow> ptr \<Rightarrow> 's" and holds :: "'s \<Rightarrow> ptr list \<Rightarrow> bool"
  assumes holds_distinct: "holds s xs \<Longrightarrow> distinct xs \<and> nullptr \<notin> set xs"
    and pop_empty: "holds s [] \<Longrightarrow> pop s = (nullptr, s)"
    and pop_cons: "holds s (x # xs) \<Longrightarrow> fst (pop s) = x \<and> holds (snd (pop s)) xs"
    and push_cons: "holds s xs \<Longrightarrow> x \<notin> set xs \<Longrightarrow> x \<noteq> nullptr \<Longrightarrow> holds (push s x) (x # xs)"
begin

text \<open>Between the free list and its clients, every block is in exactly one place.\<close>

definition partitions :: "'s \<Rightarrow> ptr list \<Rightarrow> ptr set \<Rightarrow> ptr set \<Rightarrow> bool" where
  "partitions s xs out S \<longleftrightarrow> holds s xs \<and> set xs \<union> out = S \<and> set xs \<inter> out = {} \<and> nullptr \<notin> out"

lemma pop_partitions:
  assumes "partitions s xs out S"
  obtains "xs = []" "pop s = (nullptr, s)"
  | x ys where "xs = x # ys" "fst (pop s) = x" "x \<noteq> nullptr" "partitions (snd (pop s)) ys (insert x out) S"
proof (cases xs)
  case Nil
  with assms that(1) show ?thesis by (auto simp: partitions_def pop_empty)
next
  case (Cons x ys)
  with assms have "holds s (x # ys)" by (simp add: partitions_def)
  note h = pop_cons [OF this] holds_distinct [OF this]
  with Cons assms have "partitions (snd (pop s)) ys (insert x out) S"
    by (auto simp: partitions_def)
  with h Cons that(2) show ?thesis by auto
qed

lemma push_partitions:
  "partitions s xs out S \<Longrightarrow> p \<in> out \<Longrightarrow> partitions (push s p) (p # xs) (out - {p}) S"
  by (auto simp: partitions_def intro!: push_cons)

lemma run_ops_partitions:
  "run_ops pop push ops (s, out) = Some (s', out') \<Longrightarrow> partitions s xs out S \<Longrightarrow>
     \<exists>xs'. partitions s' xs' out' S"
proof (induction ops arbitrary: s out xs)
  case Nil
  then show ?case by auto
next
  case (Cons c ops)
  show ?case
  proof (cases c)
    case OpPop
    from Cons.prems(2) show ?thesis
      by (rule pop_partitions) (use Cons.IH Cons.prems OpPop in \<open>auto split: prod.splits\<close>)
  next
    case (OpPush p)
    with Cons.prems have "p \<in> out" and "run_ops pop push ops (push s p, out - {p}) = Some (s', out')"
      by (auto split: if_splits)
    with Cons.IH [OF _ push_partitions] Cons.prems(2) show ?thesis by blast
  qed
qed

text \<open>
  After any legal history, the next pop fails exactly when everything is outstanding and
  otherwise hands out a block nobody holds.
\<close>

lemma run_ops_pop:
  assumes "run_ops pop push ops (s, {}) = Some (s', out')" and "holds s xs"
  shows "out' \<subseteq> set xs \<and> (fst (pop s') = nullptr \<longleftrightarrow> out' = set xs) \<and>
    (fst (pop s') \<noteq> nullptr \<longrightarrow> fst (pop s') \<in> set xs - out')"
proof -
  have "partitions s xs {} (set xs)" using assms(2) by (simp add: partitions_def)
  from run_ops_partitions [OF assms(1) this]
  obtain xs' where xs': "partitions s' xs' out' (set xs)" ..
  then show ?thesis by (rule pop_partitions) (use xs' in \<open>auto simp: partitions_def\<close>)
qed

end

end
