(* ===== verification/PoolAllocator.thy ===== *)
theory PoolAllocator
  imports MemoryUtils Freelist
begin

text \<open>
  \<^verbatim>\<open>include/PoolAllocator.hpp\<close>.  The template parameters \<open>sizeof(T)\<close> and \<open>Alignment\<close> are
  arguments; the memory holding the \<open>Node\<close>s is passed along with the pool.  The constructor's
  loop bound \<open>numSlots_ - 1\<close> is computed in \<open>size_t\<close>, so it wraps for 0 slots; a write
  outside the storage is undefined.
\<close>

definition SlotSize :: "size_t \<Rightarrow> size_t \<Rightarrow> size_t" where
  "SlotSize sizeof_T alignment = AlignUp (if sizeof_T > 8 then sizeof_T else 8) alignment"

record PoolAllocator =
  pool_numSlots :: size_t
  pool_storage :: VirtualMemory
  pool_freeList :: ptr

definition PoolAllocator_new ::
  "'os os_api \<Rightarrow> 'os \<Rightarrow> node_mem \<Rightarrow> size_t \<Rightarrow> size_t \<Rightarrow> size_t \<Rightarrow> (PoolAllocator \<times> node_mem) result \<times> 'os" where
  "PoolAllocator_new api os m sizeof_T alignment numSlots =
     (let slot = SlotSize sizeof_T alignment in
      case VirtualMemory_new api os (numSlots * slot) of
        (Inl e, os') \<Rightarrow> (Inl e, os')
      | (Inr v, os') \<Rightarrow>
          (let k = unat (numSlots - 1) in
           if k * unat slot + 8 \<le> unat (vm_size v)
           then (Inr (\<lparr>pool_numSlots = numSlots, pool_storage = v, pool_freeList = vm_ptr v\<rparr>,
                      link_slots k slot m (vm_ptr v)), os')
           else (Inl Undefined, os')))"

definition PoolAllocator_Allocate :: "PoolAllocator \<times> node_mem \<Rightarrow> ptr \<times> PoolAllocator \<times> node_mem" where
  "PoolAllocator_Allocate s =
     (let (pool, m) = s in
      if pool_freeList pool = nullptr then (nullptr, pool, m)
      else (let node = pool_freeList pool
            in (node, pool\<lparr>pool_freeList := m (pool_freeList pool)\<rparr>, m)))"

definition PoolAllocator_Free :: "PoolAllocator \<times> node_mem \<Rightarrow> ptr \<Rightarrow> PoolAllocator \<times> node_mem" where
  "PoolAllocator_Free s p =
     (let (pool, m) = s in
      if p = nullptr then (pool, m)
      else (pool\<lparr>pool_freeList := p\<rparr>, m(p := pool_freeList pool)))"

definition PoolAllocator_GetCapacity :: "PoolAllocator \<Rightarrow> size_t" where
  "PoolAllocator_GetCapacity pool = pool_numSlots pool"

subsection \<open>The free list of a pool\<close>

definition pool_holds :: "PoolAllocator \<times> node_mem \<Rightarrow> ptr list \<Rightarrow> bool" where
  "pool_holds s xs \<longleftrightarrow> nodes (snd s) (pool_freeList (fst s)) xs"

interpretation pool: lifo_freelist PoolAllocator_Allocate PoolAllocator_Free pool_holds
proof (unfold_locales, goal_cases)
  case (1 s xs)
  then show ?case by (auto simp: pool_holds_def dest: nodes_distinct nodes_not_null)
next
  case (2 s)
  then show ?case by (cases s) (simp add: pool_holds_def PoolAllocator_Allocate_def)
next
  case (3 s x xs)
  then show ?case by (cases s) (auto simp: pool_holds_def PoolAllocator_Allocate_def)
next
  case (4 s xs x)
  then show ?case by (cases s) (auto simp: pool_holds_def PoolAllocator_Free_def)
qed

lemma SlotSize_pos:
  assumes "n < 64" and "unat sizeof_T + 8 + 2 ^ n \<le> 2 ^ 64"
  shows "8 \<le> unat (SlotSize sizeof_T (2 ^ n))" and "unat sizeof_T \<le> unat (SlotSize sizeof_T (2 ^ n))"
    and "2 ^ n dvd unat (SlotSize sizeof_T (2 ^ n))"
proof -
  let ?x = "if sizeof_T > 8 then sizeof_T else 8"
  have x: "8 \<le> unat ?x" "unat sizeof_T \<le> unat ?x" "unat ?x + 2 ^ n \<le> 2 ^ 64"
    using assms(2) by (auto simp: word_less_nat_alt not_less)
  have "unat (SlotSize sizeof_T (2 ^ n)) = (unat ?x + (2 ^ n - 1)) div 2 ^ n * 2 ^ n"
    using AlignUp_nat [OF assms(1) x(3)] by (simp add: SlotSize_def)
  with round_up_bounds(1) [of "2 ^ n" "unat ?x"] x(1,2)
  show "8 \<le> unat (SlotSize sizeof_T (2 ^ n))" and "unat sizeof_T \<le> unat (SlotSize sizeof_T (2 ^ n))"
    and "2 ^ n dvd unat (SlotSize sizeof_T (2 ^ n))" by simp_all
qed

lemma VirtualMemory_new_size:
  "VirtualMemory_new api os bytes = (Inr v, os') \<Longrightarrow> vm_size v = AlignUp bytes 4096 \<and> vm_ptr v \<noteq> nullptr"
  by (auto simp: VirtualMemory_new_def Let_def split: prod.splits if_splits)

text \<open>
  The hypotheses under which a constructed pool is looked at: the kernel's region does not wrap
  around the address space, and neither the slot size nor the pool's byte count overflows.
\<close>

definition pool_fits :: "PoolAllocator \<Rightarrow> size_t \<Rightarrow> nat \<Rightarrow> bool" where
  "pool_fits pool sizeof_T n \<longleftrightarrow>
     unat (vm_ptr (pool_storage pool)) + unat (vm_size (pool_storage pool)) \<le> 2 ^ 64 \<and>
     n < 64 \<and> unat sizeof_T + 8 + 2 ^ n \<le> 2 ^ 64 \<and>
     unat (pool_numSlots pool) * unat (SlotSize sizeof_T (2 ^ n)) + 4096 \<le> 2 ^ 64"

definition pool_slots :: "PoolAllocator \<Rightarrow> size_t \<Rightarrow> nat \<Rightarrow> ptr list" where
  "pool_slots pool sizeof_T n =
     slot_list (unat (pool_numSlots pool)) (SlotSize sizeof_T (2 ^ n)) (vm_ptr (pool_storage pool))"

lemma PoolAllocator_new_storage:
  assumes new: "PoolAllocator_new api os m sizeof_T (2 ^ n) k = (Inr (pool, m'), os')"
    and fits: "pool_fits pool sizeof_T n"
  shows "pool_numSlots pool = k" and "k \<noteq> 0" and "vm_ptr (pool_storage pool) \<noteq> nullptr"
    and "unat k * unat (SlotSize sizeof_T (2 ^ n)) \<le> unat (vm_size (pool_storage pool))"
    and "pool_freeList pool = vm_ptr (pool_storage pool)"
    and "m' = link_slots (unat (k - 1)) (SlotSize sizeof_T (2 ^ n)) m (vm_ptr (pool_storage pool))"
proof -
  let ?s = "SlotSize sizeof_T (2 ^ n)"
  obtain v where v: "VirtualMemory_new api os (k * ?s) = (Inr v, os')"
    and p: "pool = \<lparr>pool_numSlots = k, pool_storage = v, pool_freeList = vm_ptr v\<rparr>"
    and b: "unat (k - 1) * unat ?s + 8 \<le> unat (vm_size v)"
    and m': "m' = link_slots (unat (k - 1)) ?s m (vm_ptr v)"
    using new by (auto simp: PoolAllocator_new_def Let_def split: prod.splits sum.splits if_splits)
  note vm = VirtualMemory_new_size [OF v]
  have s8: "8 \<le> unat ?s" using fits SlotSize_pos(1) by (simp add: pool_fits_def)
  show "k \<noteq> 0"
  proof
    assume "k = 0"
    then have "vm_size v = 0" using vm by (simp add: AlignUp_def)
    with b show False by simp
  qed
  have le: "unat k * unat ?s + 2 ^ 12 \<le> 2 ^ 64" using fits p by (simp add: pool_fits_def)
  then have "unat (k * ?s) = unat k * unat ?s" by (simp add: unat_word_ariths)
  moreover from this le have "unat (AlignUp (k * ?s) (2 ^ 12)) =
      (unat (k * ?s) + (2 ^ 12 - 1)) div 2 ^ 12 * 2 ^ 12"
    by (intro AlignUp_nat) simp_all
  ultimately show "unat k * unat ?s \<le> unat (vm_size (pool_storage pool))"
    using vm p round_up_bounds(1) [of "2 ^ 12" "unat k * unat ?s"] by simp
  show "pool_numSlots pool = k" and "vm_ptr (pool_storage pool) \<noteq> nullptr"
    and "pool_freeList pool = vm_ptr (pool_storage pool)"
    and "m' = link_slots (unat (k - 1)) ?s m (vm_ptr (pool_storage pool))"
    using p vm m' by simp_all
qed

lemma PoolAllocator_new_holds:
  assumes new: "PoolAllocator_new api os m sizeof_T (2 ^ n) k = (Inr (pool, m'), os')"
    and fits: "pool_fits pool sizeof_T n"
  shows "pool_holds (pool, m') (pool_slots pool sizeof_T n)"
proof -
  let ?s = "SlotSize sizeof_T (2 ^ n)" and ?b = "vm_ptr (pool_storage pool)"
  note st = PoolAllocator_new_storage [OF assms]
  have b: "unat ?b + unat k * unat ?s \<le> 2 ^ 64" using st(4) fits by (simp add: pool_fits_def)
  have s0: "0 < unat ?s" using fits SlotSize_pos(1) [of n sizeof_T] by (simp add: pool_fits_def)
  have k: "Suc (unat (k - 1)) = unat k" using st(2) by (simp add: unat_minus_one unat_gt_0)
  have "distinct (slot_list (unat k) ?s ?b)" "0 \<notin> set (slot_list (unat k) ?s ?b)"
    using slot_list_distinct [OF b s0] slot_list_nonnull [OF b s0 st(3)] by simp_all
  then have "nodes m' ?b (slot_list (unat k) ?s ?b)"
    using link_slots_nodes [of "unat (k - 1)" ?s ?b m] k st(6) by simp
  then show ?thesis using st(1,5) by (simp add: pool_holds_def pool_slots_def)
qed

text \<open>
  C39.  A pool of \<open>k\<close> slots: through any sequence of allocations and of frees of slots that are
  outstanding, a request is refused exactly when all \<open>k\<close> slots are outstanding, and otherwise
  returns a slot of the pool that nobody holds.
\<close>

theorem PoolAllocator_exclusive_slots:
  assumes new: "PoolAllocator_new api os m sizeof_T (2 ^ n) k = (Inr (pool, m'), os')"
    and fits: "pool_fits pool sizeof_T n"
    and run: "run_ops PoolAllocator_Allocate PoolAllocator_Free ops ((pool, m'), {}) = Some (s, out)"
  shows "out \<subseteq> set (pool_slots pool sizeof_T n) \<and>
    (fst (PoolAllocator_Allocate s) = nullptr \<longleftrightarrow> card out = unat k) \<and>
    (fst (PoolAllocator_Allocate s) \<noteq> nullptr \<longrightarrow>
       fst (PoolAllocator_Allocate s) \<in> set (pool_slots pool sizeof_T n) - out)"
proof -
  let ?S = "set (pool_slots pool sizeof_T n)"
  note h = PoolAllocator_new_holds [OF new fits]
  have "card ?S = unat k"
    using pool.holds_distinct [OF h] PoolAllocator_new_storage(1) [OF new fits]
    by (simp add: distinct_card pool_slots_def)
  moreover note r = pool.run_ops_pop [OF run h]
  moreover have "out = ?S \<longleftrightarrow> card out = card ?S"
    using r card_subset_eq [of ?S out] by auto
  ultimately show ?thesis by auto
qed

definition page_pool_os :: "nat os_api" where
  "page_pool_os = \<lparr>os_mmap = \<lambda>os sz. (8192, os), os_munmap = \<lambda>os p sz. os\<rparr>"

definition demo_pool :: "PoolAllocator \<times> node_mem" where
  "demo_pool = (\<lparr>pool_numSlots = 2, pool_storage = \<lparr>vm_ptr = 8192, vm_size = 4096\<rparr>, pool_freeList = 8192\<rparr>,
     (\<lambda>_. 0)(8192 := 8200, 8200 := 0))"

lemma demo_pool_new:
  "PoolAllocator_new page_pool_os 0 (\<lambda>_. 0) 4 (2 ^ 2) 2 = (Inr demo_pool, 0)"
  by (simp add: PoolAllocator_new_def SlotSize_def AlignUp_def VirtualMemory_new_def page_pool_os_def
      AllocateVirtualMemory_def demo_pool_def Let_def)

lemma demo_pool_slots: "pool_slots (fst demo_pool) 4 2 = [8192, 8200]"
  by (simp add: pool_slots_def slot_list_def demo_pool_def SlotSize_def AlignUp_def upt_conv_Cons)

theorem PoolAllocator_exclusive_slots_witness:
  "run_ops PoolAllocator_Allocate PoolAllocator_Free [OpPop, OpPop, OpPush 8192] (demo_pool, {}) =
     Some ((fst demo_pool, (snd demo_pool)(8192 := 0)), {8200}) \<and>
   fst (PoolAllocator_Allocate (fst demo_pool, (snd demo_pool)(8192 := 0))) \<in> {8192, 8200} - {8200}"
proof -
  let ?pool = "fst demo_pool" and ?m = "snd demo_pool"
  have e: "run_ops PoolAllocator_Allocate PoolAllocator_Free [OpPop, OpPop, OpPush 8192] ((?pool, ?m), {}) =
     Some ((?pool, ?m(8192 := 0)), {8200})"
    by (auto simp: demo_pool_def PoolAllocator_Allocate_def PoolAllocator_Free_def)
  have f: "pool_fits ?pool 4 2"
    by (simp add: pool_fits_def demo_pool_def SlotSize_def AlignUp_def)
  have n: "PoolAllocator_new page_pool_os 0 (\<lambda>_. 0) 4 (2 ^ 2) 2 = (Inr (?pool, ?m), 0)"
    using demo_pool_new by simp
  have "fst (PoolAllocator_Allocate (?pool, ?m(8192 := 0))) \<noteq> 0"
    by (simp add: demo_pool_def PoolAllocator_Allocate_def)
  with PoolAllocator_exclusive_slots [OF n f e] e show ?thesis
    by (auto simp: demo_pool_slots)
qed

text \<open>
  The slots of a pool lie inside its storage, are aligned as the template parameter asks when
  the region is (a page-aligned region is, for alignments up to 4096), and two different slots
  are at least \<open>sizeof(T)\<close> bytes apart.
\<close>

theorem PoolAllocator_slot_layout:
  assumes new: "PoolAllocator_new api os m sizeof_T (2 ^ n) k = (Inr (pool, m'), os')"
    and fits: "pool_fits pool sizeof_T n" and al: "2 ^ n dvd unat (vm_ptr (pool_storage pool))"
    and x: "x \<in> set (pool_slots pool sizeof_T n)" and y: "y \<in> set (pool_slots pool sizeof_T n)"
  shows "2 ^ n dvd unat x \<and> unat (vm_ptr (pool_storage pool)) \<le> unat x \<and>
    unat x + unat sizeof_T \<le> unat (vm_ptr (pool_storage pool)) + unat (vm_size (pool_storage pool)) \<and>
    (unat x < unat y \<longrightarrow> unat x + unat sizeof_T \<le> unat y)"
proof -
  let ?s = "SlotSize sizeof_T (2 ^ n)" and ?b = "vm_ptr (pool_storage pool)"
  note st = PoolAllocator_new_storage [OF new fits]
  have s: "0 < unat ?s" "unat sizeof_T \<le> unat ?s" "2 ^ n dvd unat ?s"
    using fits SlotSize_pos [of n sizeof_T] by (auto simp: pool_fits_def)
  have b: "unat ?b + unat k * unat ?s \<le> 2 ^ 64" using st(4) fits by (simp add: pool_fits_def)
  obtain i j where i: "i < unat k" "unat x = unat ?b + i * unat ?s"
    and j: "j < unat k" "unat y = unat ?b + j * unat ?s"
    using x y unat_slot [OF b _ s(1)] st(1) by (fastforce simp: pool_slots_def slot_list_def)
  have step: "a * unat ?s + unat ?s \<le> c * unat ?s" if "a < c" for a c
    using that by (metis Suc_leI add.commute mult_Suc mult_le_mono1)
  have "i < j" if "unat x < unat y" using that i j s(1) by (simp add: mult_less_cancel2)
  then show ?thesis using i(2) j(2) step [OF i(1)] step [of i j] st(4) s al by auto
qed

theorem PoolAllocator_slot_layout_witness:
  "2 ^ 2 dvd unat (8192 :: ptr) \<and> unat (8192 :: ptr) + 4 \<le> unat (8200 :: ptr) \<and>
     8192 \<in> set (pool_slots (fst demo_pool) 4 2)"
proof -
  have n: "PoolAllocator_new page_pool_os 0 (\<lambda>_. 0) 4 (2 ^ 2) 2 = (Inr (fst demo_pool, snd demo_pool), 0)"
    using demo_pool_new by simp
  have f: "pool_fits (fst demo_pool) 4 2"
    by (simp add: pool_fits_def demo_pool_def SlotSize_def AlignUp_def)
  from PoolAllocator_slot_layout [OF n f, of 8192 8200] demo_pool_slots show ?thesis
    by (simp add: demo_pool_def)
qed

text \<open>
  A pool of 0 slots is not refused: the loop bound \<open>0 - 1\<close> wraps to \<open>2 ^ 64 - 1\<close> and the
  constructor writes outside its (empty) storage.
\<close>

theorem PoolAllocator_zero_slots_undefined:
  assumes "VirtualMemory_new api os 0 = (Inr v, os')"
  shows "PoolAllocator_new api os m sizeof_T alignment 0 = (Inl Undefined, os')"
  using assms VirtualMemory_new_size [OF assms]
  by (simp add: PoolAllocator_new_def Let_def AlignUp_def)

theorem PoolAllocator_zero_slots_undefined_witness:
  "PoolAllocator_new page_pool_os 0 (\<lambda>_. 0) 4 4 0 = (Inl Undefined, 0)"
  using PoolAllocator_zero_slots_undefined [of page_pool_os 0 "\<lparr>vm_ptr = 8192, vm_size = 0\<rparr>" 0 "\<lambda>_. 0" 4 4]
  by (simp add: VirtualMemory_new_def AllocateVirtualMemory_def page_pool_os_def AlignUp_def)

end
