(* ===== verification/BuddySpec.thy ===== *)
theory BuddySpec
  imports Prelude
begin

text \<open>
  The abstract buddy system.  An arena of \<open>2 ^ N\<close> units is cut into blocks; the block \<open>(k, i)\<close> of
  order \<open>k\<close> covers the \<open>2 ^ k\<close> units \<open>u\<close> with \<open>u div 2 ^ k = i\<close>.  A set of blocks \<open>tiles\<close> the
  arena when every unit is covered by exactly one of them.  Splitting a block in two halves and
  merging two buddies keep a tiling, and a tiling in which no two free buddies are left
  unmerged has, once nothing is allocated, one block only.
\<close>

type_synonym block = "nat \<times> nat"

definition covers :: "block \<Rightarrow> nat \<Rightarrow> bool" where
  "covers = (\<lambda>(k, i) u. u div 2 ^ k = i)"

definition valid_block :: "nat \<Rightarrow> block \<Rightarrow> bool" where
  "valid_block N = (\<lambda>(k, i). k \<le> N \<and> i < 2 ^ (N - k))"

definition tiles :: "nat \<Rightarrow> block set \<Rightarrow> bool" where
  "tiles N D \<longleftrightarrow> (\<forall>d \<in> D. valid_block N d) \<and> (\<forall>u < 2 ^ N. \<exists>!d. d \<in> D \<and> covers d u)"

text \<open>The other half of the block of order \<open>k + 1\<close> a block of order \<open>k\<close> lies in.\<close>

definition buddy_of :: "nat \<Rightarrow> nat" where
  "buddy_of i = (if even i then i + 1 else i - 1)"

definition coalesced :: "nat \<Rightarrow> block set \<Rightarrow> bool" where
  "coalesced N D \<longleftrightarrow> (\<forall>k i. k < N \<longrightarrow> (k, i) \<in> D \<longrightarrow> (k, buddy_of i) \<notin> D)"

subsection \<open>Blocks and units\<close>

lemma covers_iff [simp]: "covers (k, i) u \<longleftrightarrow> u div 2 ^ k = i"
  by (simp add: covers_def)

lemma first_unit_covered: "covers (k, i) (i * 2 ^ k)"
  by simp

lemma first_unit_bound: "valid_block N (k, i) \<Longrightarrow> i * 2 ^ k < 2 ^ N"
proof -
  assume "valid_block N (k, i)"
  then have "k \<le> N" "i < 2 ^ (N - k)" by (auto simp: valid_block_def)
  then have "i * 2 ^ k < 2 ^ (N - k) * 2 ^ k" by simp
  then show ?thesis using \<open>k \<le> N\<close> by (simp flip: power_add)
qed

lemma tiles_valid: "tiles N D \<Longrightarrow> d \<in> D \<Longrightarrow> valid_block N d"
  by (simp add: tiles_def)

lemma tiles_unique:
  assumes "tiles N D" "d \<in> D" "e \<in> D" "covers d u" "covers e u" "u < 2 ^ N"
  shows "d = e"
  using assms unfolding tiles_def by blast

lemma covered_unit_bound: "valid_block N (k, i) \<Longrightarrow> u div 2 ^ k = i \<Longrightarrow> u < 2 ^ N"
proof -
  assume v: "valid_block N (k, i)" and u: "u div 2 ^ k = i"
  have "u < (i + 1) * 2 ^ k"
    using u by (metis Suc_eq_plus1 add_0 dividend_less_div_times mult.commute mult_Suc_right zero_less_numeral
        zero_less_power)
  also have "\<dots> \<le> 2 ^ (N - k) * 2 ^ k" using v by (intro mult_le_mono1) (auto simp: valid_block_def)
  also have "\<dots> = 2 ^ N" using v by (simp add: valid_block_def flip: power_add)
  finally show ?thesis .
qed

lemma tiles_no_overlap:
  assumes "tiles N D" "(k, i) \<in> D" "(l, j) \<in> D" "u div 2 ^ k = i" "u div 2 ^ l = j"
  shows "k = l \<and> i = j"
  using tiles_unique [OF assms(1-3), of u] covered_unit_bound [of N k i u] tiles_valid [OF assms(1,2)] assms(4,5)
  by auto

text \<open>Distinct blocks of a tiling start at distinct units.\<close>

lemma tiles_start_inj:
  assumes "tiles N D" "(k, i) \<in> D" "(l, j) \<in> D" "i * 2 ^ k = j * 2 ^ l"
  shows "k = l \<and> i = j"
proof -
  have "i * 2 ^ k div 2 ^ k = i" by simp
  moreover have "i * 2 ^ k div 2 ^ l = j" unfolding assms(4) by simp
  ultimately show ?thesis by (rule tiles_no_overlap [OF assms(1-3)])
qed

subsection \<open>Splitting and merging\<close>

lemma div_pow2_Suc: "u div 2 ^ Suc k = (u div 2 ^ k) div (2::nat)"
  by (metis div_mult2_eq power_Suc2)

lemma half_cases: "u div 2 ^ Suc k = i \<longleftrightarrow> u div 2 ^ k = 2 * i \<or> u div 2 ^ k = Suc (2 * i)"
  for u :: nat
  unfolding div_pow2_Suc by linarith

lemma halves_not_in:
  assumes "tiles N D" "(Suc k, i) \<in> D"
  shows "(k, 2 * i) \<notin> D" and "(k, Suc (2 * i)) \<notin> D"
proof -
  have a: "(2 * i) * 2 ^ k div 2 ^ Suc k = i" by simp
  have b: "Suc (2 * i) * 2 ^ k div 2 ^ Suc k = i" by (simp add: half_cases del: mult_Suc)
  show "(k, 2 * i) \<notin> D" using tiles_no_overlap [OF assms _ a, of k "2 * i"] by auto
  show "(k, Suc (2 * i)) \<notin> D"
    using tiles_no_overlap [OF assms _ b, of k "Suc (2 * i)"] by (auto simp del: mult_Suc)
qed

lemma valid_halves:
  assumes "valid_block N (Suc k, i)"
  shows "valid_block N (k, 2 * i)" and "valid_block N (k, Suc (2 * i))"
proof -
  have k: "Suc k \<le> N" and "i < 2 ^ (N - Suc k)" using assms by (auto simp: valid_block_def)
  moreover have "(2::nat) ^ (N - k) = 2 * 2 ^ (N - Suc k)"
    using k by (metis Suc_diff_Suc Suc_le_lessD power_Suc)
  ultimately show "valid_block N (k, 2 * i)" and "valid_block N (k, Suc (2 * i))"
    by (auto simp: valid_block_def)
qed

lemma valid_whole:
  assumes "valid_block N (k, j)" "k < N"
  shows "valid_block N (Suc k, j div 2)"
proof -
  have "j < 2 ^ (N - k)" using assms by (auto simp: valid_block_def)
  moreover have "(2::nat) ^ (N - k) = 2 * 2 ^ (N - Suc k)"
    using assms(2) by (metis Suc_diff_Suc power_Suc)
  ultimately show ?thesis using assms(2) by (auto simp: valid_block_def)
qed

lemma tiles_split:
  assumes t: "tiles N D" and d: "(Suc k, i) \<in> D"
  shows "tiles N (insert (k, 2 * i) (insert (k, Suc (2 * i)) (D - {(Suc k, i)})))" (is "tiles N ?E")
proof -
  have v: "\<forall>d \<in> ?E. valid_block N d"
    using valid_halves [OF tiles_valid [OF t d]] tiles_valid [OF t] by auto
  have "\<exists>!e. e \<in> ?E \<and> covers e u" if u: "u < 2 ^ N" for u
  proof -
    obtain e where e: "e \<in> D" "covers e u" and uni: "\<And>e'. e' \<in> D \<Longrightarrow> covers e' u \<Longrightarrow> e' = e"
      using t u unfolding tiles_def by blast
    show ?thesis
    proof (cases "u div 2 ^ Suc k = i")
      case True
      then have "e = (Suc k, i)" using uni [OF d] by simp
      then have no: "\<not> covers e' u" if "e' \<in> D - {(Suc k, i)}" for e' using that uni by blast
      from True have h: "u div 2 ^ k = 2 * i \<or> u div 2 ^ k = Suc (2 * i)" by (simp only: half_cases)
      show ?thesis
        by (rule ex1I [of _ "(k, u div 2 ^ k)"]) (use h no in auto)
    next
      case False
      then have ne: "e \<noteq> (Suc k, i)" using e by auto
      from False have h: "u div 2 ^ k \<noteq> 2 * i" "u div 2 ^ k \<noteq> Suc (2 * i)"
        unfolding half_cases by blast+
      then have "\<not> covers (k, 2 * i) u" "\<not> covers (k, Suc (2 * i)) u" by simp_all
      with e ne uni show ?thesis by blast
    qed
  qed
  with v show ?thesis by (simp add: tiles_def)
qed

lemma buddy_pair: "{j, buddy_of j} = {2 * (j div 2), Suc (2 * (j div 2))}"
  by (auto simp: buddy_of_def elim!: evenE oddE)

lemma buddy_half: "x = j \<or> x = buddy_of j \<longleftrightarrow> x = 2 * (j div 2) \<or> x = Suc (2 * (j div 2))"
  using buddy_pair [of j] by blast

lemma whole_covers: "u div 2 ^ Suc k = j div 2 \<longleftrightarrow> u div 2 ^ k = j \<or> u div 2 ^ k = buddy_of j"
  for u :: nat
  unfolding half_cases by (rule buddy_half [symmetric])

lemma tiles_merge:
  assumes t: "tiles N D" and a: "(k, j) \<in> D" and b: "(k, buddy_of j) \<in> D" and k: "k < N"
  shows "tiles N (insert (Suc k, j div 2) (D - {(k, j), (k, buddy_of j)}))" (is "tiles N ?E")
proof -
  let ?i = "j div 2"
  have v: "\<forall>d \<in> ?E. valid_block N d"
    using valid_whole [OF tiles_valid [OF t a] k] tiles_valid [OF t] by auto
  have "\<exists>!e. e \<in> ?E \<and> covers e u" if u: "u < 2 ^ N" for u
  proof -
    obtain e where e: "e \<in> D" "covers e u" and uni: "\<And>e'. e' \<in> D \<Longrightarrow> covers e' u \<Longrightarrow> e' = e"
      using t u unfolding tiles_def by blast
    show ?thesis
    proof (cases "u div 2 ^ Suc k = ?i")
      case True
      then have "e = (k, j) \<or> e = (k, buddy_of j)" using whole_covers [of u k j] uni [OF a] uni [OF b] by auto
      then have no: "\<not> covers e' u" if "e' \<in> D - {(k, j), (k, buddy_of j)}" for e'
        using that uni by blast
      show ?thesis by (rule ex1I [of _ "(Suc k, ?i)"]) (use True no in auto)
    next
      case False
      then have ne: "e \<notin> {(k, j), (k, buddy_of j)}" using e whole_covers [of u k j] by auto
      from False have "\<not> covers (Suc k, ?i) u" by simp
      with e ne uni show ?thesis by blast
    qed
  qed
  with v show ?thesis by (simp add: tiles_def)
qed

lemma tiles_whole: "tiles N {(N, 0)}"
  unfolding tiles_def by (auto simp: valid_block_def)

text \<open>Distinct blocks of a tiling do not overlap.\<close>

lemma tiles_apart:
  assumes t: "tiles N D" and x: "(k, i) \<in> D" and y: "(l, j) \<in> D" and ne: "(k, i) \<noteq> (l, j)"
  shows "i * 2 ^ k + 2 ^ k \<le> j * 2 ^ l \<or> j * 2 ^ l + 2 ^ l \<le> i * 2 ^ k"
proof (rule ccontr)
  assume "\<not> ?thesis"
  then have o: "j * 2 ^ l < i * 2 ^ k + 2 ^ k" "i * 2 ^ k < j * 2 ^ l + 2 ^ l" by auto
  define u where "u = max (i * 2 ^ k) (j * 2 ^ l)"
  have "i * 2 ^ k \<le> u" "u < Suc i * 2 ^ k" "j * 2 ^ l \<le> u" "u < Suc j * 2 ^ l" using o by (auto simp: u_def)
  then have "u div 2 ^ k = i" "u div 2 ^ l = j" by (auto intro: div_nat_eqI simp: mult.commute)
  with tiles_no_overlap [OF t x y] ne show False by simp
qed

subsection \<open>Full coalescing\<close>

text \<open>
  In a coalesced tiling of the whole arena by free blocks there is no block below the top order:
  the buddy of a smallest block would have to be cut into still smaller ones.
\<close>

lemma buddy_valid: "valid_block N (k, i) \<Longrightarrow> k < N \<Longrightarrow> valid_block N (k, buddy_of i)"
proof -
  assume v: "valid_block N (k, i)" and k: "k < N"
  then have "valid_block N (k, 2 * (i div 2))" "valid_block N (k, Suc (2 * (i div 2)))"
    using valid_halves [OF valid_whole [OF v k]] by auto
  then show ?thesis using buddy_half [of "buddy_of i" i] by auto
qed

lemma tiles_coalesced_whole:
  assumes t: "tiles N D" and c: "coalesced N D"
  shows "D = {(N, 0)}"
proof -
  have "\<exists>d. d \<in> D \<and> covers d 0" using t unfolding tiles_def by (metis zero_less_numeral zero_less_power)
  then have ne: "\<exists>k i. (k, i) \<in> D" by auto
  define k where "k = (LEAST k. \<exists>i. (k, i) \<in> D)"
  obtain i where i: "(k, i) \<in> D" using LeastI_ex [OF ne] unfolding k_def by blast
  have least: "k \<le> l" if "(l, j) \<in> D" for l j
    unfolding k_def by (rule Least_le) (use that in blast)
  have v: "valid_block N (k, i)" by (rule tiles_valid [OF t i])
  have "\<not> k < N"
  proof
    assume k: "k < N"
    let ?j = "buddy_of i" and ?u = "buddy_of i * 2 ^ k"
    have "?u < 2 ^ N" by (rule first_unit_bound [OF buddy_valid [OF v k]])
    then obtain l m where lm: "(l, m) \<in> D" "?u div 2 ^ l = m"
      using t unfolding tiles_def by (metis covers_iff surj_pair)
    have "l \<noteq> k"
    proof
      assume "l = k"
      then have "m = ?j" using lm(2) by simp
      then show False using c i k lm(1) \<open>l = k\<close> by (auto simp: coalesced_def)
    qed
    with least [OF lm(1)] obtain d where l: "l = Suc k + d" by (metis less_iff_Suc_add le_neq_implies_less add_Suc)
    have "?u div 2 ^ l = (?u div 2 ^ Suc k) div 2 ^ d"
      unfolding l by (simp add: power_add div_mult2_eq mult.assoc)
    also have "?u div 2 ^ Suc k = i div 2" unfolding whole_covers by simp
    also have "i div 2 = (i * 2 ^ k) div 2 ^ Suc k" by simp
    finally have "(i * 2 ^ k) div 2 ^ l = m"
      using lm(2) unfolding l by (simp add: power_add div_mult2_eq mult.assoc)
    then have "l = k" using tiles_no_overlap [OF t lm(1) i, of "i * 2 ^ k"] by simp
    with \<open>l \<noteq> k\<close> show False by simp
  qed
  with v have ki: "k = N" "i = 0" by (auto simp: valid_block_def)
  have "(l, j) = (N, 0)" if "(l, j) \<in> D" for l j
    using least [OF that] ki tiles_valid [OF t that] by (auto simp: valid_block_def)
  then have "D \<subseteq> {(N, 0)}" by (metis singletonI subsetI surj_pair)
  with i ki show ?thesis by blast
qed

end
