(* ===== verification/RegionAllocator.thy ===== *)
theory RegionAllocator
  imports Prelude
begin

text \<open>
  The contract of an allocator of memory regions, as its clients use it: requests by size, frees by
  address and size.  A client's history is run against the allocator together with the set of
  regions the client holds.  \<open>BuddyAllocator\<close> provides the contract; the typed STL allocator of
  \<^verbatim>\<open>MemoryAllocator.hpp\<close> and the process simulator of \<^verbatim>\<open>Scheduler.hpp\<close> rely on it.
\<close>

datatype mem_op = Request size_t | Release ptr size_t

text \<open>
  \<open>Misused\<close> is a history that frees what it does not hold (undefined for the code); \<open>Diverged\<close>
  is a call of the allocator that does not return.
\<close>

datatype 's mem_outcome = Ran 's "(ptr \<times> size_t) set" | Misused | Diverged

fun run_mem :: "('s \<Rightarrow> size_t \<Rightarrow> ptr \<times> 's) \<Rightarrow> ('s \<Rightarrow> ptr \<Rightarrow> size_t \<Rightarrow> 's option) \<Rightarrow>
    mem_op list \<Rightarrow> 's \<Rightarrow> (ptr \<times> size_t) set \<Rightarrow> 's mem_outcome" where
  "run_mem al fr [] s L = Ran s L"
| "run_mem al fr (Request n # ops) s L =
     (let (p, s') = al s n in run_mem al fr ops s' (if p = nullptr then L else insert (p, n) L))"
| "run_mem al fr (Release p n # ops) s L =
     (if (p, n) \<in> L
      then case fr s p n of None \<Rightarrow> Diverged | Some s' \<Rightarrow> run_mem al fr ops s' (L - {(p, n)})
      else Misused)"

definition disjoint_regions :: "nat \<Rightarrow> nat \<Rightarrow> nat \<Rightarrow> nat \<Rightarrow> bool" where
  "disjoint_regions p n q m \<longleftrightarrow> p + n \<le> q \<or> q + m \<le> p"

locale region_allocator =
  fixes al :: "'s \<Rightarrow> size_t \<Rightarrow> ptr \<times> 's"
    and fr :: "'s \<Rightarrow> ptr \<Rightarrow> size_t \<Rightarrow> 's option"
    and rinv :: "'s \<Rightarrow> (ptr \<times> size_t) set \<Rightarrow> bool"
    and reserved :: "'s \<Rightarrow> size_t \<Rightarrow> nat"
    and lo :: "'s \<Rightarrow> nat" and hi :: "'s \<Rightarrow> nat"
  assumes alloc_null: "rinv s L \<Longrightarrow> al s n = (nullptr, s') \<Longrightarrow> s' = s"
    and alloc_ok: "rinv s L \<Longrightarrow> al s n = (p, s') \<Longrightarrow> p \<noteq> nullptr \<Longrightarrow>
      rinv s' (insert (p, n) L) \<and> (\<forall>m. (p, m) \<notin> L) \<and> lo s' = lo s \<and> hi s' = hi s \<and> reserved s' = reserved s"
    and free_ok: "rinv s L \<Longrightarrow> (p, n) \<in> L \<Longrightarrow>
      \<exists>s'. fr s p n = Some s' \<and> rinv s' (L - {(p, n)}) \<and> lo s' = lo s \<and> hi s' = hi s \<and> reserved s' = reserved s"
    and live_inside: "rinv s L \<Longrightarrow> (p, n) \<in> L \<Longrightarrow>
      p \<noteq> nullptr \<and> lo s \<le> unat p \<and> unat p + reserved s n \<le> hi s \<and> unat n \<le> reserved s n"
    and live_disjoint: "rinv s L \<Longrightarrow> (p, n) \<in> L \<Longrightarrow> (q, m) \<in> L \<Longrightarrow> (p, n) \<noteq> (q, m) \<Longrightarrow>
      disjoint_regions (unat p) (reserved s n) (unat q) (reserved s m)"
begin

lemma run_mem_inv:
  "rinv s L \<Longrightarrow> run_mem al fr ops s L = Ran s' L' \<Longrightarrow>
     rinv s' L' \<and> lo s' = lo s \<and> hi s' = hi s \<and> reserved s' = reserved s"
proof (induction ops arbitrary: s L)
  case Nil
  then show ?case by simp
next
  case (Cons x ops)
  show ?case
  proof (cases x)
    case (Request n)
    obtain p t where a: "al s n = (p, t)" by fastforce
    show ?thesis
    proof (cases "p = nullptr")
      case True
      with Cons.prems a alloc_null Request show ?thesis by (intro Cons.IH) auto
    next
      case False
      with Cons.prems Request a have "run_mem al fr ops t (insert (p, n) L) = Ran s' L'" by simp
      with Cons.IH alloc_ok [OF Cons.prems(1) a False] show ?thesis by metis
    qed
  next
    case (Release p n)
    with Cons.prems have l: "(p, n) \<in> L" by (auto split: if_splits)
    from free_ok [OF Cons.prems(1) l] obtain t where t: "fr s p n = Some t" "rinv t (L - {(p, n)})"
      "lo t = lo s" "hi t = hi s" "reserved t = reserved s" by blast
    with Cons.prems Release l have "run_mem al fr ops t (L - {(p, n)}) = Ran s' L'" by simp
    from Cons.IH [OF t(2) this] t(3-5) show ?thesis by simp
  qed
qed

lemma run_mem_returns: "rinv s L \<Longrightarrow> run_mem al fr ops s L \<noteq> Diverged"
proof (induction ops arbitrary: s L)
  case Nil
  then show ?case by simp
next
  case (Cons x ops)
  show ?case
  proof (cases x)
    case (Request n)
    obtain p t where a: "al s n = (p, t)" by fastforce
    show ?thesis
    proof (cases "p = nullptr")
      case True
      with Cons a alloc_null [OF Cons.prems] Request show ?thesis by auto
    next
      case False
      with Cons.IH alloc_ok [OF Cons.prems a] a Request show ?thesis by simp
    qed
  next
    case (Release p n)
    show ?thesis
    proof (cases "(p, n) \<in> L")
      case True
      with free_ok [OF Cons.prems True] Cons.IH Release show ?thesis by auto
    next
      case False
      with Release show ?thesis by simp
    qed
  qed
qed

text \<open>What a client may rely on after any history: its regions are inside the arena and apart.\<close>

lemma run_mem_safe:
  assumes "rinv s {}" and "run_mem al fr ops s {} = Ran s' L"
  shows "\<forall>(p, n) \<in> L. p \<noteq> nullptr \<and> lo s \<le> unat p \<and> unat p + reserved s n \<le> hi s \<and> unat n \<le> reserved s n \<and>
    (\<forall>(q, m) \<in> L. (p, n) \<noteq> (q, m) \<longrightarrow> disjoint_regions (unat p) (reserved s n) (unat q) (reserved s m))"
proof -
  have r: "rinv s' L" "lo s' = lo s" "hi s' = hi s" "reserved s' = reserved s"
    using run_mem_inv [OF assms] by auto
  have "p \<noteq> nullptr \<and> lo s \<le> unat p \<and> unat p + reserved s n \<le> hi s \<and> unat n \<le> reserved s n" if "(p, n) \<in> L" for p n
    using live_inside [OF r(1) that] r(2-4) by simp
  moreover have "disjoint_regions (unat p) (reserved s n) (unat q) (reserved s m)"
    if "(p, n) \<in> L" "(q, m) \<in> L" "(p, n) \<noteq> (q, m)" for p n q m
    using live_disjoint [OF r(1) that] r(4) by simp
  ultimately show ?thesis by fast
qed

end

text \<open>
  Some clients free by the size of the block they were granted rather than by the size they asked
  for, and rely on the allocator to serve any request up to its capacity when nothing is held.
\<close>

locale admission_allocator = region_allocator +
  fixes block :: "'a \<Rightarrow> size_t \<Rightarrow> size_t" and capacity :: "'a \<Rightarrow> nat"
  assumes reblock: "rinv s L \<Longrightarrow> al s n = (p, s') \<Longrightarrow> p \<noteq> nullptr \<Longrightarrow>
      rinv s' (insert (p, block s' n) L) \<and> block s' = block s \<and> capacity s' = capacity s \<and>
      unat n \<le> unat (block s' n) \<and> reserved s' (block s' n) = unat (block s' n)"
    and free_capacity: "rinv s L \<Longrightarrow> (p, n) \<in> L \<Longrightarrow> fr s p n = Some s' \<Longrightarrow>
      block s' = block s \<and> capacity s' = capacity s"
    and empty_grants: "rinv s {} \<Longrightarrow> unat n \<le> capacity s \<Longrightarrow> fst (al s n) \<noteq> nullptr"
begin

text \<open>
  A holding is admissible when each region is recorded with the size of its block.  Granting and
  freeing keep it so.
\<close>

definition blocks_only :: "'a \<Rightarrow> (ptr \<times> size_t) set \<Rightarrow> bool" where
  "blocks_only s L \<longleftrightarrow> rinv s L \<and> (\<forall>r \<in> L. reserved s (snd r) = unat (snd r))"

lemma blocks_only_grant:
  assumes "blocks_only s L" "al s n = (p, s')" "p \<noteq> nullptr"
  shows "blocks_only s' (insert (p, block s' n) L)" "\<forall>m. (p, m) \<notin> L" "unat n \<le> unat (block s' n)"
    "lo s' = lo s" "hi s' = hi s" "capacity s' = capacity s"
  using assms alloc_ok [of s L n p s'] reblock [of s L n p s'] by (auto simp: blocks_only_def)

lemma blocks_only_free:
  assumes "blocks_only s L" "(p, n) \<in> L"
  obtains s' where "fr s p n = Some s'" "blocks_only s' (L - {(p, n)})" "lo s' = lo s" "hi s' = hi s"
    "capacity s' = capacity s"
  using assms free_ok [of s L p n] free_capacity [of s L p n] by (auto simp: blocks_only_def)

lemma blocks_only_apart:
  assumes "blocks_only s L" "(p, n) \<in> L" "(q, m) \<in> L" "(p, n) \<noteq> (q, m)"
  shows "disjoint_regions (unat p) (unat n) (unat q) (unat m)"
  using assms live_disjoint [of s L p n q m] unfolding blocks_only_def by (metis snd_conv)

lemma blocks_only_inside:
  assumes "blocks_only s L" "(p, n) \<in> L"
  shows "p \<noteq> nullptr \<and> lo s \<le> unat p \<and> unat p + unat n \<le> hi s"
  using assms live_inside [of s L p n] unfolding blocks_only_def by (metis snd_conv)

end

end
