(* ===== verification/BuddyAllocator.thy ===== *)
theory BuddyAllocator
  imports MemoryUtils Freelist BuddySpec RegionAllocator
begin

text \<open>
  \<^verbatim>\<open>include/BuddyAllocator.hpp\<close>.  The record holds the class's fields and the memory its free
  lists are threaded through; the mutex makes every public call atomic, so calls are modelled one
  after the other.  \<open>std::log2\<close> and \<open>std::ceil\<close> are taken over the reals (they are exact for the
  quotients that occur until sizes near \<open>2 ^ 48\<close>, where the double nearest to the logarithm
  starts to hide the difference from a whole number).  The list search of
  \<open>RemoveNodeIfPresent\<close> has no bound in the code, so it is a partial function; that it returns
  on every list the allocator builds is part of what is proved.

  Free blocks hold a \<open>Node\<close> of 8 bytes.  The access to one is defined only when it lies inside the mapped
  storage and at a multiple of 8 (\<open>node_ok\<close>); \<open>bd_defined\<close> turns false at the first access that is not, and what the
  model computes after that says nothing about the program.  Two legal accesses are to the same word or to
  disjoint words, so that one word per address is an exact memory as long as \<open>bd_defined\<close> holds.
\<close>

record BuddyAllocator =
  bd_storage :: VirtualMemory
  bd_minBlockSize :: size_t
  bd_maxOrder :: nat
  bd_freeLists :: "ptr list"
  bd_mem :: node_mem
  bd_defined :: bool

definition bd_base :: "BuddyAllocator \<Rightarrow> ptr" where
  "bd_base b = vm_ptr (bd_storage b)"

definition node_ok :: "BuddyAllocator \<Rightarrow> ptr \<Rightarrow> bool" where
  "node_ok b node \<longleftrightarrow> 8 dvd unat node \<and> unat (bd_base b) \<le> unat node \<and>
     unat node + 8 \<le> unat (bd_base b) + unat (vm_size (bd_storage b))"

definition access_node :: "BuddyAllocator \<Rightarrow> ptr \<Rightarrow> BuddyAllocator" where
  "access_node b node = b\<lparr>bd_defined := (bd_defined b \<and> node_ok b node)\<rparr>"

lemma access_node_ok [simp]: "node_ok b node \<Longrightarrow> access_node b node = b"
  by (simp add: access_node_def)

lemma access_node_frame [frame_simps, simp]:
  "bd_maxOrder (access_node b p) = bd_maxOrder b" "bd_storage (access_node b p) = bd_storage b"
  "bd_minBlockSize (access_node b p) = bd_minBlockSize b" "bd_freeLists (access_node b p) = bd_freeLists b"
  "bd_mem (access_node b p) = bd_mem b" "bd_defined (access_node b p) = (bd_defined b \<and> node_ok b p)"
  by (simp_all add: access_node_def)

definition GetOrder :: "BuddyAllocator \<Rightarrow> size_t \<Rightarrow> nat" where
  "GetOrder b sz =
     (if sz \<le> bd_minBlockSize b then 0
      else nat \<lceil>log 2 (real (unat sz) / real (unat (bd_minBlockSize b)))\<rceil>)"

definition blockSize :: "BuddyAllocator \<Rightarrow> nat \<Rightarrow> size_t" where
  "blockSize b order = push_bit order (bd_minBlockSize b)"

definition PushNode :: "BuddyAllocator \<Rightarrow> nat \<Rightarrow> ptr \<Rightarrow> BuddyAllocator" where
  "PushNode b order node =
     (access_node b node)\<lparr>bd_mem := (bd_mem b)(node := bd_freeLists b ! order),
       bd_freeLists := (bd_freeLists b)[order := node]\<rparr>"

definition PopNode :: "BuddyAllocator \<Rightarrow> nat \<Rightarrow> ptr \<times> BuddyAllocator" where
  "PopNode b order =
     (let node = bd_freeLists b ! order
      in (node, (access_node b node)\<lparr>bd_freeLists := (bd_freeLists b)[order := bd_mem b node]\<rparr>))"

text \<open>The cursor \<open>Node** curr\<close>: the head slot of an order, or the \<open>next\<close> field of a node.\<close>

datatype cursor = Head nat | Next ptr

fun cursor_read :: "BuddyAllocator \<Rightarrow> cursor \<Rightarrow> ptr" where
  "cursor_read b (Head order) = bd_freeLists b ! order"
| "cursor_read b (Next node) = bd_mem b node"

fun cursor_write :: "BuddyAllocator \<Rightarrow> cursor \<Rightarrow> ptr \<Rightarrow> BuddyAllocator" where
  "cursor_write b (Head order) v = b\<lparr>bd_freeLists := (bd_freeLists b)[order := v]\<rparr>"
| "cursor_write b (Next node) v = b\<lparr>bd_mem := (bd_mem b)(node := v)\<rparr>"

partial_function (option) RemoveLoop ::
  "BuddyAllocator \<Rightarrow> ptr \<Rightarrow> cursor \<Rightarrow> (bool \<times> BuddyAllocator) option" where
  "RemoveLoop b target cur =
     (let c = cursor_read b cur in
      if c = nullptr then Some (False, b)
      else if c = target then Some (True, cursor_write (access_node b c) cur (bd_mem b c))
      else RemoveLoop (access_node b c) target (Next c))"

definition RemoveNodeIfPresent :: "BuddyAllocator \<Rightarrow> nat \<Rightarrow> ptr \<Rightarrow> (bool \<times> BuddyAllocator) option" where
  "RemoveNodeIfPresent b order target = RemoveLoop b target (Head order)"

function AllocateInternal :: "BuddyAllocator \<Rightarrow> nat \<Rightarrow> ptr \<times> BuddyAllocator" where
  "AllocateInternal b order =
     (if order > bd_maxOrder b then (nullptr, b)
      else if bd_freeLists b ! order \<noteq> nullptr then PopNode b order
      else (let (block, b') = AllocateInternal b (order + 1) in
            if block \<noteq> nullptr then (block, PushNode b' order (block + blockSize b' order))
            else (nullptr, b')))"
  by pat_completeness auto
termination by (relation "measure (\<lambda>(b, order). Suc (bd_maxOrder b) - order)") auto

declare AllocateInternal.simps [simp del]

text \<open>Unlinking a node leaves the allocator's parameters alone (needed to see \<open>FreeInternal\<close> end).\<close>

lemma cursor_write_frame [frame_simps, simp]:
  "bd_maxOrder (cursor_write b c v) = bd_maxOrder b"
  "bd_storage (cursor_write b c v) = bd_storage b"
  "bd_minBlockSize (cursor_write b c v) = bd_minBlockSize b"
  by (cases c; simp)+

lemma RemoveLoop_frame:
  assumes "RemoveLoop b target cur = Some (found, b')"
  shows "bd_maxOrder b' = bd_maxOrder b \<and> bd_storage b' = bd_storage b \<and>
    bd_minBlockSize b' = bd_minBlockSize b"
proof -
  let ?P = "\<lambda>b target cur r. bd_maxOrder (snd r) = bd_maxOrder b \<and>
    bd_storage (snd r) = bd_storage b \<and> bd_minBlockSize (snd r) = bd_minBlockSize b"
  have "?P b target cur (found, b')"
    by (rule RemoveLoop.raw_induct [where P = ?P, OF _ assms])
       (auto simp: Let_def split: if_splits)
  then show ?thesis by simp
qed

function FreeInternal :: "BuddyAllocator \<Rightarrow> ptr \<Rightarrow> nat \<Rightarrow> BuddyAllocator option" where
  "FreeInternal b p order =
     (if order \<ge> bd_maxOrder b then Some (PushNode b (bd_maxOrder b) p)
      else (let bs = blockSize b order;
                offset = p - bd_base b;
                buddyOffset = offset XOR bs;
                buddy = bd_base b + buddyOffset
            in case RemoveNodeIfPresent b order buddy of
                 None \<Rightarrow> None
               | Some (found, b') \<Rightarrow>
                   if found then FreeInternal b' (p AND NOT bs) (order + 1)
                   else Some (PushNode b' order p)))"
  by pat_completeness auto
termination
  by (relation "measure (\<lambda>(b, p, order). bd_maxOrder b - order)")
     (auto simp: RemoveNodeIfPresent_def dest!: RemoveLoop_frame)

declare FreeInternal.simps [simp del]

definition BuddyAllocator_Allocate :: "BuddyAllocator \<Rightarrow> size_t \<Rightarrow> ptr \<times> BuddyAllocator" where
  "BuddyAllocator_Allocate b sz =
     (let order = GetOrder b sz in
      if order > bd_maxOrder b then (nullptr, b) else AllocateInternal b order)"

definition BuddyAllocator_Free :: "BuddyAllocator \<Rightarrow> ptr \<Rightarrow> size_t \<Rightarrow> BuddyAllocator option" where
  "BuddyAllocator_Free b p sz =
     (if p = nullptr then Some b else FreeInternal b p (GetOrder b sz))"

text \<open>
  The constructor.  The quotient is a \<open>size_t\<close> division; a zero divisor and the conversion of
  \<open>log2(0)\<close> to \<open>size_t\<close> are undefined.
\<close>

definition BuddyAllocator_new ::
  "'os os_api \<Rightarrow> 'os \<Rightarrow> node_mem \<Rightarrow> size_t \<Rightarrow> size_t \<Rightarrow> BuddyAllocator result \<times> 'os" where
  "BuddyAllocator_new api os m totalSize minBlockSize =
     (case VirtualMemory_new api os totalSize of
        (Inl e, os') \<Rightarrow> (Inl e, os')
      | (Inr v, os') \<Rightarrow>
          if minBlockSize = 0 \<or> totalSize div minBlockSize = 0 then (Inl Undefined, os')
          else (let maxOrder = nat \<lfloor>log 2 (real (unat (totalSize div minBlockSize)))\<rfloor>;
                    b = \<lparr>bd_storage = v, bd_minBlockSize = minBlockSize, bd_maxOrder = maxOrder,
                         bd_freeLists = replicate (maxOrder + 1) nullptr, bd_mem = m, bd_defined = True\<rparr>
                in (Inr (PushNode b maxOrder (bd_base b)), os')))"

definition GetBasePtr :: "BuddyAllocator \<Rightarrow> ptr" where
  "GetBasePtr b = vm_ptr (bd_storage b)"

definition GetTotalSize :: "BuddyAllocator \<Rightarrow> size_t" where
  "GetTotalSize b = vm_size (bd_storage b)"

definition BlockSizeForRequest :: "BuddyAllocator \<Rightarrow> size_t \<Rightarrow> size_t" where
  "BlockSizeForRequest b sz = push_bit (GetOrder b sz) (bd_minBlockSize b)"

definition OffsetOf :: "BuddyAllocator \<Rightarrow> ptr \<Rightarrow> size_t" where
  "OffsetOf b p = p - vm_ptr (bd_storage b)"

subsection \<open>Geometry\<close>

text \<open>
  The allocator's parameters are \<open>sound\<close>, for a minimum block of \<open>2 ^ c\<close> bytes, when a block can hold a
  node (\<open>3 \<le> c\<close>), the arena lies in the mapped storage, fits in the address space, is not at address 0, and
  starts at a multiple of its own size, and no access so far was undefined.  The condition on the start is
  not promised by \<open>mmap\<close>; \<open>buddy_free_unaligned_base\<close> shows what happens without it.
\<close>

definition sound_params :: "BuddyAllocator \<Rightarrow> nat \<Rightarrow> bool" where
  "sound_params b c \<longleftrightarrow>
     bd_defined b \<and> 3 \<le> c \<and> bd_minBlockSize b = 2 ^ c \<and> bd_base b \<noteq> nullptr \<and>
     2 ^ (c + bd_maxOrder b) \<le> unat (vm_size (bd_storage b)) \<and>
     2 ^ (c + bd_maxOrder b) dvd unat (bd_base b) \<and>
     unat (bd_base b) + 2 ^ (c + bd_maxOrder b) \<le> 2 ^ 64"

definition addr :: "BuddyAllocator \<Rightarrow> nat \<Rightarrow> block \<Rightarrow> ptr" where
  "addr b c = (\<lambda>(k, i). bd_base b + of_nat (i * 2 ^ (c + k)))"

lemma sound_exponent: "sound_params b c \<Longrightarrow> k \<le> bd_maxOrder b \<Longrightarrow> c + k < 64"
proof -
  assume s: "sound_params b c" and k: "k \<le> bd_maxOrder b"
  then have "0 < unat (bd_base b)" by (simp add: sound_params_def unat_gt_0)
  with s have "(2::nat) ^ (c + bd_maxOrder b) < 2 ^ 64" by (simp add: sound_params_def)
  then have "c + bd_maxOrder b < 64" using power_less_imp_less_exp [of "2::nat" "c + bd_maxOrder b" 64] by simp
  with k show ?thesis by simp
qed

lemma blockSize_pow: "sound_params b c \<Longrightarrow> blockSize b k = 2 ^ (c + k)"
  by (simp add: blockSize_def sound_params_def push_bit_eq_mult power_add)

lemma block_end:
  assumes "valid_block N (k, i)"
  shows "i * 2 ^ (c + k) + 2 ^ (c + k) \<le> 2 ^ (c + N)"
proof -
  have "i + 1 \<le> 2 ^ (N - k)" and k: "k \<le> N" using assms by (auto simp: valid_block_def)
  then have "(i + 1) * 2 ^ (c + k) \<le> 2 ^ (N - k) * 2 ^ (c + k)" by (intro mult_le_mono1)
  also have "\<dots> = 2 ^ (c + N)" using k by (simp flip: power_add)
  finally show ?thesis by simp
qed

lemma unat_addr:
  assumes s: "sound_params b c" and v: "valid_block (bd_maxOrder b) (k, i)"
  shows "unat (addr b c (k, i)) = unat (bd_base b) + i * 2 ^ (c + k)"
proof -
  have "i * 2 ^ (c + k) + 2 ^ (c + k) \<le> 2 ^ (c + bd_maxOrder b)" by (rule block_end [OF v])
  moreover have "(0::nat) < 2 ^ (c + k)" by simp
  ultimately have "unat (bd_base b) + i * 2 ^ (c + k) < 2 ^ 64"
    using s unfolding sound_params_def by linarith
  then have "unat (of_nat (i * 2 ^ (c + k)) :: 64 word) = i * 2 ^ (c + k)"
    and "unat (bd_base b) + i * 2 ^ (c + k) < 2 ^ LENGTH(64)"
    by (simp_all only: unat_of_nat) simp_all
  then show ?thesis by (simp only: addr_def prod.case unat_plus_less)
qed

lemma addr_nonnull:
  assumes "sound_params b c" "valid_block (bd_maxOrder b) (k, i)"
  shows "addr b c (k, i) \<noteq> 0"
proof
  assume "addr b c (k, i) = 0"
  with unat_addr [OF assms] assms(1) show False by (simp add: sound_params_def unat_eq_0)
qed

lemma addr_node_ok:
  assumes s: "sound_params b c" and v: "valid_block (bd_maxOrder b) (k, i)"
  shows "node_ok b (addr b c (k, i))"
proof -
  have c: "3 \<le> c" and al: "2 ^ (c + bd_maxOrder b) dvd unat (bd_base b)"
    and sz: "2 ^ (c + bd_maxOrder b) \<le> unat (vm_size (bd_storage b))" using s by (simp_all add: sound_params_def)
  have d: "8 dvd (2::nat) ^ (c + l)" for l using le_imp_power_dvd [of 3 "c + l" "2::nat"] c by simp
  then have "8 dvd unat (bd_base b)" using al by (rule dvd_trans)
  then have "8 dvd unat (addr b c (k, i))" unfolding unat_addr [OF s v] using d [of k] by simp
  moreover have "8 \<le> (2::nat) ^ (c + k)" using d [of k] by (simp add: dvd_imp_le)
  ultimately show ?thesis using unat_addr [OF s v] block_end [OF v, of c] sz by (simp add: node_ok_def)
qed

text \<open>The three address computations of the code, on blocks: halves, buddies and merged pairs.\<close>

lemma addr_left_half: "addr b c (Suc k, i) = addr b c (k, 2 * i)"
  by (simp add: addr_def mult.assoc mult.left_commute)

lemma addr_right_half: "addr b c (k, 2 * i) + 2 ^ (c + k) = addr b c (k, Suc (2 * i))"
  by (simp add: addr_def algebra_simps)

lemma addr_step: "addr b c (k, Suc i) = addr b c (k, i) + 2 ^ (c + k)"
  by (simp add: addr_def algebra_simps)

lemma addr_buddy:
  assumes s: "sound_params b c" and v: "valid_block (bd_maxOrder b) (k, i)"
  shows "bd_base b + ((addr b c (k, i) - bd_base b) XOR 2 ^ (c + k)) = addr b c (k, buddy_of i)"
proof -
  let ?w = "of_nat (i * 2 ^ (c + k)) :: 64 word"
  have w: "addr b c (k, i) - bd_base b = ?w" by (simp add: addr_def)
  have "unat (addr b c (k, i) - bd_base b) = i * 2 ^ (c + k)"
    using unat_addr [OF s v] by (simp add: unat_sub_if')
  then have "unat ?w = i * 2 ^ (c + k)" by (simp only: w)
  then have "bit ?w (c + k) = odd i" by (simp only: bit_word_odd) simp
  then have x: "?w XOR 2 ^ (c + k) = (if odd i then ?w - 2 ^ (c + k) else ?w + 2 ^ (c + k))"
    by (simp only: xor_pow2)
  show ?thesis
  proof (cases "even i")
    case True
    with x show ?thesis unfolding w by (simp add: buddy_of_def addr_def algebra_simps)
  next
    case False
    then obtain m where m: "i = Suc m" using odd_pos Suc_pred by (metis odd_pos gr0_conv_Suc)
    from False x show ?thesis unfolding w m by (simp add: buddy_of_def addr_def algebra_simps)
  qed
qed

lemma addr_merge:
  assumes s: "sound_params b c" and v: "valid_block (bd_maxOrder b) (k, i)" and k: "k < bd_maxOrder b"
  shows "addr b c (k, i) AND NOT (2 ^ (c + k)) = addr b c (Suc k, i div 2)"
proof -
  have "(2::nat) ^ (c + Suc k) dvd 2 ^ (c + bd_maxOrder b)" using k by (intro le_imp_power_dvd) simp
  then have "2 ^ (c + Suc k) dvd unat (bd_base b)" using s unfolding sound_params_def by (metis dvd_trans)
  then obtain m where "unat (bd_base b) = 2 ^ (c + Suc k) * m" ..
  then have "unat (addr b c (k, i)) = (2 * m + i) * 2 ^ (c + k)"
    using unat_addr [OF s v] by (simp add: algebra_simps)
  then have "bit (addr b c (k, i)) (c + k) = odd i" by (simp add: bit_word_odd)
  then have e: "addr b c (k, i) AND NOT (2 ^ (c + k)) =
      (if odd i then addr b c (k, i) - 2 ^ (c + k) else addr b c (k, i))"
    by (simp only: and_not_pow2)
  show ?thesis
  proof (cases "even i")
    case True
    then have "2 * (i div 2) = i" by simp
    with e True show ?thesis by (simp add: addr_left_half)
  next
    case False
    then have "i = Suc (2 * (i div 2))" by presburger
    with e False addr_step [of b c k "2 * (i div 2)"] show ?thesis by (simp add: addr_left_half)
  qed
qed

subsection \<open>The free lists a state denotes\<close>

definition free_blocks :: "nat \<Rightarrow> (nat \<Rightarrow> nat list) \<Rightarrow> block set" where
  "free_blocks N F = {(k, i). k \<le> N \<and> i \<in> set (F k)}"

text \<open>
  \<open>denotes b c F\<close>: the free list of every order \<open>k\<close> holds, in order, the blocks \<open>F k\<close>.
\<close>

definition denotes :: "BuddyAllocator \<Rightarrow> nat \<Rightarrow> (nat \<Rightarrow> nat list) \<Rightarrow> bool" where
  "denotes b c F \<longleftrightarrow> length (bd_freeLists b) = Suc (bd_maxOrder b) \<and>
     (\<forall>k \<le> bd_maxOrder b. nodes (bd_mem b) (bd_freeLists b ! k) (map (\<lambda>i. addr b c (k, i)) (F k)))"

definition same_params :: "BuddyAllocator \<Rightarrow> BuddyAllocator \<Rightarrow> bool" where
  "same_params b b' \<longleftrightarrow> bd_storage b' = bd_storage b \<and> bd_minBlockSize b' = bd_minBlockSize b \<and>
     bd_maxOrder b' = bd_maxOrder b \<and> bd_defined b' = bd_defined b"

lemma same_params_refl [simp]: "same_params b b"
  by (simp add: same_params_def)

lemma same_params_trans: "same_params a b \<Longrightarrow> same_params b d \<Longrightarrow> same_params a d"
  by (simp add: same_params_def)

lemma same_params_simps:
  assumes "same_params b b'"
  shows "bd_base b' = bd_base b" and "bd_maxOrder b' = bd_maxOrder b" and "addr b' c = addr b c"
    and "sound_params b' c = sound_params b c" and "GetOrder b' = GetOrder b"
    and "blockSize b' = blockSize b"
  using assms by (auto simp: same_params_def bd_base_def addr_def sound_params_def GetOrder_def
      blockSize_def fun_eq_iff)

lemma same_params_Push: "node_ok b p \<Longrightarrow> same_params b (PushNode b k p)"
  by (simp add: same_params_def PushNode_def)

text \<open>A tiling has no two blocks at one address, so a write to one free block touches one list.\<close>

lemma addr_inj:
  assumes s: "sound_params b c" and t: "tiles (bd_maxOrder b) D"
    and x: "(k, i) \<in> D" and y: "(l, j) \<in> D" and e: "addr b c (k, i) = addr b c (l, j)"
  shows "k = l \<and> i = j"
proof -
  have "i * 2 ^ (c + k) = j * 2 ^ (c + l)"
    using unat_addr [OF s tiles_valid [OF t x]] unat_addr [OF s tiles_valid [OF t y]] e by simp
  then have "2 ^ c * (i * 2 ^ k) = 2 ^ c * (j * 2 ^ l)" by (simp add: power_add algebra_simps)
  then have "i * 2 ^ k = j * 2 ^ l" by simp
  then show ?thesis by (rule tiles_start_inj [OF t x y])
qed

lemma addr_fresh:
  assumes s: "sound_params b c" and t: "tiles (bd_maxOrder b) (insert (k, i) D)" and n: "(k, i) \<notin> D"
    and f: "free_blocks (bd_maxOrder b) F \<subseteq> D" and l: "l \<le> bd_maxOrder b"
  shows "addr b c (k, i) \<notin> set (map (\<lambda>j. addr b c (l, j)) (F l))"
proof
  assume "addr b c (k, i) \<in> set (map (\<lambda>j. addr b c (l, j)) (F l))"
  then obtain j where j: "j \<in> set (F l)" "addr b c (k, i) = addr b c (l, j)" by auto
  then have "(l, j) \<in> D" using f l by (auto simp: free_blocks_def)
  with addr_inj [OF s t _ _ j(2)] n show False by auto
qed

lemma denotes_push:
  assumes s: "sound_params b c" and d: "denotes b c F"
    and t: "tiles (bd_maxOrder b) (insert (k, i) D)" and n: "(k, i) \<notin> D"
    and f: "free_blocks (bd_maxOrder b) F \<subseteq> D" and k: "k \<le> bd_maxOrder b"
  shows "denotes (PushNode b k (addr b c (k, i))) c (F(k := i # F k))"
proof -
  let ?p = "addr b c (k, i)" and ?b = "PushNode b k (addr b c (k, i))"
  have ok: "node_ok b ?p" using addr_node_ok [OF s tiles_valid [OF t]] by simp
  have a: "addr ?b c = addr b c" using same_params_simps(3) [OF same_params_Push [OF ok]] .
  have p0: "?p \<noteq> 0" using addr_nonnull [OF s tiles_valid [OF t]] by simp
  have len: "length (bd_freeLists b) = Suc (bd_maxOrder b)" using d by (simp add: denotes_def)
  have "nodes (bd_mem ?b) (bd_freeLists ?b ! l) (map (\<lambda>j. addr b c (l, j)) ((F(k := i # F k)) l))"
    if l: "l \<le> bd_maxOrder b" for l
  proof -
    have nl: "nodes (bd_mem b) (bd_freeLists b ! l) (map (\<lambda>j. addr b c (l, j)) (F l))"
      using d l by (simp add: denotes_def)
    have "?p \<notin> set (map (\<lambda>j. addr b c (l, j)) (F l))" by (rule addr_fresh [OF s t n f l])
    with nl have "nodes ((bd_mem b)(?p := bd_freeLists b ! k)) (bd_freeLists b ! l)
        (map (\<lambda>j. addr b c (l, j)) (F l))" by simp
    then show ?thesis using p0 len l k by (cases "l = k") (simp_all add: PushNode_def)
  qed
  moreover have "bd_maxOrder ?b = bd_maxOrder b" "length (bd_freeLists ?b) = Suc (bd_maxOrder b)"
    using len by (simp_all add: PushNode_def)
  ultimately show ?thesis unfolding denotes_def a by simp
qed

lemma denotes_pop:
  assumes d: "denotes b c F" and k: "k \<le> bd_maxOrder b" and F: "F k = i # is" and ok: "node_ok b (addr b c (k, i))"
  shows "\<exists>b'. PopNode b k = (addr b c (k, i), b') \<and> denotes b' c (F(k := is)) \<and> same_params b b'"
proof -
  have n: "nodes (bd_mem b) (bd_freeLists b ! k) (addr b c (k, i) # map (\<lambda>j. addr b c (k, j)) is)"
    using d k F by (auto simp: denotes_def)
  let ?b = "b\<lparr>bd_freeLists := (bd_freeLists b)[k := bd_mem b (bd_freeLists b ! k)]\<rparr>"
  have sp: "same_params b ?b" by (simp add: same_params_def)
  have "denotes ?b c (F(k := is))"
    using d n k F same_params_simps(3) [OF sp] by (auto simp: denotes_def nth_list_update)
  with n sp ok show ?thesis by (auto simp: PopNode_def Let_def)
qed

subsection \<open>Searching a free list\<close>

lemma RemoveLoop_absent:
  "nodes (bd_mem b) (cursor_read b cur) xs \<Longrightarrow> \<forall>x \<in> set xs. node_ok b x \<Longrightarrow> target \<notin> set xs \<Longrightarrow>
     RemoveLoop b target cur = Some (False, b)"
proof (induction xs arbitrary: cur)
  case Nil
  then show ?case by (simp add: RemoveLoop.simps [of b target cur])
next
  case (Cons x xs)
  then have "cursor_read b cur = x" "x \<noteq> 0" "x \<noteq> target" "node_ok b x" by auto
  then have "RemoveLoop b target cur = RemoveLoop b target (Next x)"
    by (simp add: RemoveLoop.simps [of b target cur])
  also have "\<dots> = Some (False, b)" using Cons.prems by (intro Cons.IH) auto
  finally show ?case .
qed

text \<open>
  When the target is in the list, the loop stops there and redirects the link that leads to it.
\<close>

lemma RemoveLoop_present:
  "nodes (bd_mem b) (cursor_read b cur) (xs @ target # ys) \<Longrightarrow> \<forall>x \<in> set (xs @ [target]). node_ok b x \<Longrightarrow>
     RemoveLoop b target cur =
       Some (True, cursor_write b (if xs = [] then cur else Next (last xs)) (bd_mem b target))"
proof (induction xs arbitrary: cur)
  case Nil
  then show ?case by (simp add: RemoveLoop.simps [of b target cur])
next
  case (Cons x xs)
  have "x \<noteq> target" using nodes_distinct [OF Cons.prems(1)] by auto
  with Cons.prems have "RemoveLoop b target cur = RemoveLoop b target (Next x)"
    by (simp add: RemoveLoop.simps [of b target cur])
  moreover have "nodes (bd_mem b) (cursor_read b (Next x)) (xs @ target # ys)" "\<forall>y \<in> set (xs @ [target]). node_ok b y" using Cons.prems by simp_all
  note Cons.IH [OF this]
  ultimately show ?case by simp
qed

lemma nodes_unlink:
  "nodes m p (xs @ x # y # ys) \<Longrightarrow> nodes (m(x := m y)) p (xs @ x # ys)"
proof (induction xs arbitrary: p)
  case Nil
  have "x \<notin> set ys" using nodes_distinct [OF Nil] by auto
  with Nil have "nodes (m(x := m y)) (m y) ys" by simp
  with Nil show ?case by (simp add: fun_upd_def)
next
  case (Cons z xs)
  have "z \<noteq> x" using nodes_distinct [OF Cons.prems] by auto
  with Cons.prems Cons.IH [of "m z"] show ?case by simp
qed

lemma denotes_remove:
  assumes s: "sound_params b c" and d: "denotes b c F" and k: "k \<le> bd_maxOrder b"
    and t: "tiles (bd_maxOrder b) D" and f: "free_blocks (bd_maxOrder b) F \<subseteq> D"
    and i: "i \<in> set (F k)"
  shows "\<exists>b'. RemoveNodeIfPresent b k (addr b c (k, i)) = Some (True, b') \<and> same_params b b' \<and>
    denotes b' c (F(k := remove1 i (F k)))"
proof -
  let ?A = "\<lambda>l. map (\<lambda>j. addr b c (l, j))"
  obtain us vs where F: "F k = us @ i # vs" and us: "i \<notin> set us"
    using split_list_first [OF i] by blast
  then have rm: "remove1 i (F k) = us @ vs" by (simp add: remove1_append)
  have len: "length (bd_freeLists b) = Suc (bd_maxOrder b)"
    and nl: "\<And>l. l \<le> bd_maxOrder b \<Longrightarrow> nodes (bd_mem b) (bd_freeLists b ! l) (?A l (F l))"
    using d by (auto simp: denotes_def)
  have nk: "nodes (bd_mem b) (bd_freeLists b ! k) (?A k us @ addr b c (k, i) # ?A k vs)"
    using nl [OF k] F by simp
  let ?cur = "if ?A k us = [] then Head k else Next (last (?A k us))"
  let ?b = "cursor_write b ?cur (bd_mem b (addr b c (k, i)))"
  have ok: "node_ok b (addr b c (k, j))" if "j \<in> set (F k)" for j
    using that k f by (intro addr_node_ok [OF s tiles_valid [OF t]]) (auto simp: free_blocks_def)
  have r: "RemoveNodeIfPresent b k (addr b c (k, i)) = Some (True, ?b)"
    unfolding RemoveNodeIfPresent_def by (rule RemoveLoop_present) (use nk ok F in auto)
  have sp: "same_params b ?b" by (simp add: same_params_def)
  have "nodes (bd_mem ?b) (bd_freeLists ?b ! l) (?A l ((F(k := us @ vs)) l))" if l: "l \<le> bd_maxOrder b" for l
  proof (cases us rule: rev_cases)
    case Nil
    with nk nl [OF l] len l k show ?thesis by (cases "l = k") auto
  next
    case (snoc us' u)
    let ?u = "addr b c (k, u)"
    have m: "bd_mem ?b = (bd_mem b)(?u := bd_mem b (addr b c (k, i)))" "bd_freeLists ?b = bd_freeLists b"
      using snoc by simp_all
    show ?thesis
    proof (cases "l = k")
      case True
      then show ?thesis unfolding m using nodes_unlink [of "bd_mem b" "bd_freeLists b ! k" "?A k us'" ?u] nk snoc
        by simp
    next
      case False
      have "(k, u) \<in> D" using F snoc k f by (auto simp: free_blocks_def)
      then have "?u \<notin> set (?A l (F l))"
        using addr_inj [OF s t, of k u l] False l f by (fastforce simp: free_blocks_def)
      then show ?thesis unfolding m using nl [OF l] False by simp
    qed
  qed
  moreover have "length (bd_freeLists ?b) = Suc (bd_maxOrder b)" using len by (cases ?cur) simp_all
  ultimately have "denotes ?b c (F(k := us @ vs))"
    unfolding denotes_def same_params_simps(2,3) [OF sp] by simp
  with r sp rm show ?thesis by auto
qed

lemma addr_inj_order:
  assumes s: "sound_params b c" and v: "valid_block (bd_maxOrder b) (k, i)" "valid_block (bd_maxOrder b) (k, j)"
    and e: "addr b c (k, i) = addr b c (k, j)"
  shows "i = j"
proof -
  have "i * 2 ^ (c + k) = j * 2 ^ (c + k)" using unat_addr [OF s v(1)] unat_addr [OF s v(2)] e by (metis add_left_cancel)
  then show ?thesis by (simp only: mult_cancel2) simp
qed

lemma denotes_distinct: "denotes b c F \<Longrightarrow> k \<le> bd_maxOrder b \<Longrightarrow> distinct (F k)"
  unfolding denotes_def using nodes_distinct distinct_map by blast

lemma denotes_absent:
  assumes s: "sound_params b c" and d: "denotes b c F" and k: "k \<le> bd_maxOrder b"
    and t: "tiles (bd_maxOrder b) D" and f: "free_blocks (bd_maxOrder b) F \<subseteq> D"
    and v: "valid_block (bd_maxOrder b) (k, i)" and i: "i \<notin> set (F k)"
  shows "RemoveNodeIfPresent b k (addr b c (k, i)) = Some (False, b)"
proof -
  have "addr b c (k, i) \<noteq> addr b c (k, j)" if "j \<in> set (F k)" for j
  proof -
    have "(k, j) \<in> D" using that k f by (auto simp: free_blocks_def)
    from addr_inj_order [OF s v tiles_valid [OF t this]] that i show ?thesis by auto
  qed
  then have "addr b c (k, i) \<notin> set (map (\<lambda>j. addr b c (k, j)) (F k))" by auto
  moreover have "nodes (bd_mem b) (cursor_read b (Head k)) (map (\<lambda>j. addr b c (k, j)) (F k))"
    using d k by (simp add: denotes_def)
  moreover have "\<forall>x \<in> set (map (\<lambda>j. addr b c (k, j)) (F k)). node_ok b x"
    using k f by (auto simp: free_blocks_def intro!: addr_node_ok [OF s tiles_valid [OF t]])
  ultimately show ?thesis unfolding RemoveNodeIfPresent_def by (intro RemoveLoop_absent)
qed

subsection \<open>The invariant\<close>

text \<open>
  \<open>buddy_ok b c F A\<close>: the free lists denote \<open>F\<close>, the free blocks and the outstanding blocks \<open>A\<close>
  together tile the arena, and no two free buddies are left unmerged.
\<close>

definition buddy_ok :: "BuddyAllocator \<Rightarrow> nat \<Rightarrow> (nat \<Rightarrow> nat list) \<Rightarrow> block set \<Rightarrow> bool" where
  "buddy_ok b c F A \<longleftrightarrow> sound_params b c \<and> denotes b c F \<and>
     tiles (bd_maxOrder b) (free_blocks (bd_maxOrder b) F \<union> A) \<and>
     free_blocks (bd_maxOrder b) F \<inter> A = {} \<and> coalesced (bd_maxOrder b) (free_blocks (bd_maxOrder b) F)"

lemma free_blocks_Cons:
  "k \<le> N \<Longrightarrow> free_blocks N (F(k := i # F k)) = insert (k, i) (free_blocks N F)"
  by (auto simp: free_blocks_def split: if_splits)

lemma free_blocks_uncons:
  "k \<le> N \<Longrightarrow> F k = i # is \<Longrightarrow> distinct (F k) \<Longrightarrow>
     free_blocks N (F(k := is)) = free_blocks N F - {(k, i)} \<and> (k, i) \<in> free_blocks N F"
  by (auto simp: free_blocks_def split: if_splits)

lemma free_blocks_remove:
  "k \<le> N \<Longrightarrow> distinct (F k) \<Longrightarrow> free_blocks N (F(k := remove1 i (F k))) = free_blocks N F - {(k, i)}"
  by (auto simp: free_blocks_def split: if_splits)

lemma coalesced_mono: "coalesced N D \<Longrightarrow> E \<subseteq> D \<Longrightarrow> coalesced N E"
  by (auto simp: coalesced_def)

lemma buddy_of_twice [simp]: "buddy_of (buddy_of i) = i"
  by (auto simp: buddy_of_def elim: oddE)

lemma buddy_of_neq [simp]: "buddy_of i \<noteq> i"
  by (auto simp: buddy_of_def elim: oddE)

lemma coalesced_insert:
  "coalesced N D \<Longrightarrow> (k, buddy_of i) \<notin> D \<Longrightarrow> coalesced N (insert (k, i) D)"
proof -
  assume c: "coalesced N D" and b: "(k, buddy_of i) \<notin> D"
  have "(l, buddy_of j) \<notin> insert (k, i) D" if l: "l < N" and lj: "(l, j) \<in> insert (k, i) D" for l j
  proof -
    consider "l = k" "j = i" | "(l, j) \<in> D" using lj by auto
    then show ?thesis
    proof cases
      case 1
      then show ?thesis using b buddy_of_neq [of i] by simp
    next
      case 2
      then have "(l, buddy_of j) \<notin> D" using c l by (auto simp: coalesced_def)
      moreover have "\<not> (l = k \<and> buddy_of j = i)" using 2 b buddy_of_twice [of j] by auto
      ultimately show ?thesis by simp
    qed
  qed
  then show ?thesis unfolding coalesced_def by blast
qed

lemma buddy_ok_pop:
  assumes ok: "buddy_ok b c F A" and k: "k \<le> bd_maxOrder b" and F: "F k = i # is"
  shows "\<exists>b'. PopNode b k = (addr b c (k, i), b') \<and> same_params b b' \<and>
    buddy_ok b' c (F(k := is)) (insert (k, i) A) \<and> (k, i) \<notin> A"
proof -
  let ?N = "bd_maxOrder b"
  have d: "denotes b c F" using ok by (simp add: buddy_ok_def)
  have "node_ok b (addr b c (k, i))"
    using ok k F by (intro addr_node_ok tiles_valid) (auto simp: buddy_ok_def free_blocks_def)
  from denotes_pop [OF d k F this] obtain b' where b': "PopNode b k = (addr b c (k, i), b')"
    "denotes b' c (F(k := is))" "same_params b b'" by blast
  have f: "free_blocks ?N (F(k := is)) = free_blocks ?N F - {(k, i)}" "(k, i) \<in> free_blocks ?N F"
    using free_blocks_uncons [of k ?N F i "is"] k F denotes_distinct [OF d k] by simp_all
  then have "free_blocks ?N (F(k := is)) \<union> insert (k, i) A = free_blocks ?N F \<union> A"
    "free_blocks ?N (F(k := is)) \<inter> insert (k, i) A = {}" "(k, i) \<notin> A"
    using ok by (auto simp: buddy_ok_def)
  moreover have "coalesced ?N (free_blocks ?N (F(k := is)))"
    using ok f by (auto simp: buddy_ok_def intro: coalesced_mono)
  ultimately have "buddy_ok b' c (F(k := is)) (insert (k, i) A)"
    using ok b'(2) unfolding buddy_ok_def same_params_simps [OF b'(3)] by simp
  with b' \<open>(k, i) \<notin> A\<close> show ?thesis by blast
qed

lemma buddy_ok_push:
  assumes ok: "buddy_ok b c F (insert (k, i) A)" and n: "(k, i) \<notin> A" and k: "k \<le> bd_maxOrder b"
    and c: "k < bd_maxOrder b \<Longrightarrow> buddy_of i \<notin> set (F k)"
  shows "buddy_ok (PushNode b k (addr b c (k, i))) c (F(k := i # F k)) A"
proof -
  let ?N = "bd_maxOrder b" and ?b = "PushNode b k (addr b c (k, i))"
  let ?f = "free_blocks ?N F"
  have t: "tiles ?N (insert (k, i) (?f \<union> A))" and nf: "(k, i) \<notin> ?f \<union> A"
    using ok n by (auto simp: buddy_ok_def)
  have "denotes ?b c (F(k := i # F k))"
    using denotes_push [OF _ _ t nf _ k] ok by (auto simp: buddy_ok_def)
  moreover have "coalesced ?N (insert (k, i) ?f)"
  proof (cases "k < ?N")
    case True
    with c ok show ?thesis by (intro coalesced_insert) (auto simp: buddy_ok_def free_blocks_def)
  next
    case False
    with ok show ?thesis by (auto simp: buddy_ok_def coalesced_def)
  qed
  moreover have "node_ok b (addr b c (k, i))"
    using ok tiles_valid [OF t] by (intro addr_node_ok) (auto simp: buddy_ok_def)
  ultimately show ?thesis using ok t nf k
    unfolding buddy_ok_def same_params_simps [OF same_params_Push [OF \<open>node_ok b (addr b c (k, i))\<close>]] by (simp add: free_blocks_Cons)
qed

lemma buddy_ok_node:
  assumes "buddy_ok b c F (insert (k, i) A)"
  shows "same_params b (PushNode b l (addr b c (k, i)))"
  using assms by (intro same_params_Push addr_node_ok tiles_valid) (auto simp: buddy_ok_def)

lemma buddy_ok_split:
  assumes ok: "buddy_ok b c F (insert (Suc k, i) A)" and n: "(Suc k, i) \<notin> A"
  shows "buddy_ok b c F (insert (k, Suc (2 * i)) (insert (k, 2 * i) A)) \<and> (k, Suc (2 * i)) \<notin> insert (k, 2 * i) A \<and>
    (k, 2 * i) \<notin> A \<and> 2 * i \<notin> set (F k) \<and> Suc k \<le> bd_maxOrder b"
proof -
  let ?N = "bd_maxOrder b" and ?f = "free_blocks (bd_maxOrder b) F"
  let ?D = "?f \<union> insert (Suc k, i) A"
  have t: "tiles ?N ?D" and dj: "?f \<inter> insert (Suc k, i) A = {}" using ok by (auto simp: buddy_ok_def)
  have h: "(k, 2 * i) \<notin> ?D" "(k, Suc (2 * i)) \<notin> ?D" using halves_not_in [OF t] by auto
  have k: "Suc k \<le> ?N" using tiles_valid [OF t, of "(Suc k, i)"] by (simp add: valid_block_def)
  have "insert (k, 2 * i) (insert (k, Suc (2 * i)) (?D - {(Suc k, i)})) =
      ?f \<union> insert (k, Suc (2 * i)) (insert (k, 2 * i) A)"
    using n dj by auto
  with tiles_split [OF t, of k i] have "tiles ?N (?f \<union> insert (k, Suc (2 * i)) (insert (k, 2 * i) A))" by simp
  with ok h dj k show ?thesis by (auto simp: buddy_ok_def free_blocks_def)
qed

lemma AllocateInternal_spec:
  assumes "buddy_ok b c F A"
  shows "(fst (AllocateInternal b k) = 0 \<and> snd (AllocateInternal b k) = b \<and>
      (\<forall>l. k \<le> l \<longrightarrow> l \<le> bd_maxOrder b \<longrightarrow> F l = [])) \<or>
    (\<exists>i F'. fst (AllocateInternal b k) = addr b c (k, i) \<and> same_params b (snd (AllocateInternal b k)) \<and>
      buddy_ok (snd (AllocateInternal b k)) c F' (insert (k, i) A) \<and> (k, i) \<notin> A \<and>
      (\<exists>l. k \<le> l \<and> l \<le> bd_maxOrder b \<and> F l \<noteq> []))"
  using assms
proof (induction b k rule: AllocateInternal.induct)
  case (1 b k)
  have s: "sound_params b c" and d: "denotes b c F" using "1.prems" by (simp_all add: buddy_ok_def)
  show ?case
  proof (cases "k > bd_maxOrder b")
    case True
    then show ?thesis by (auto simp: AllocateInternal.simps [of b k])
  next
    case kN: False
    then have head: "bd_freeLists b ! k = 0 \<longleftrightarrow> F k = []"
      using d by (auto simp: denotes_def dest!: spec [of _ k])
    show ?thesis
    proof (cases "F k")
      case (Cons i "is")
      from buddy_ok_pop [OF "1.prems" _ Cons] kN obtain b' where
        "PopNode b k = (addr b c (k, i), b')" "same_params b b'"
        "buddy_ok b' c (F(k := is)) (insert (k, i) A)" "(k, i) \<notin> A" by auto
      moreover have "AllocateInternal b k = PopNode b k"
        using kN head Cons by (simp add: AllocateInternal.simps [of b k])
      moreover have "\<exists>l. k \<le> l \<and> l \<le> bd_maxOrder b \<and> F l \<noteq> []" using kN Cons by (intro exI [of _ k]) auto
      ultimately show ?thesis by (intro disjI2 exI [of _ i] exI [of _ "F(k := is)"]) (simp add: fun_upd_def)
    next
      case Nil
      with kN head have f0: "bd_freeLists b ! k = 0" and nk: "\<not> bd_maxOrder b < k" by auto
      obtain p b' where r: "AllocateInternal b (k + 1) = (p, b')" by fastforce
      have e: "AllocateInternal b k =
          (if p \<noteq> 0 then (p, PushNode b' k (p + blockSize b' k)) else (0, b'))"
        using f0 nk r by (simp add: AllocateInternal.simps [of b k])
      from "1.IH" [OF nk _ "1.prems"] f0 r
      consider (none) "p = 0" "b' = b" "\<forall>l. k + 1 \<le> l \<longrightarrow> l \<le> bd_maxOrder b \<longrightarrow> F l = []"
        | (some) i F' l where "p = addr b c (Suc k, i)" "same_params b b'"
            "buddy_ok b' c F' (insert (Suc k, i) A)" "(Suc k, i) \<notin> A" "Suc k \<le> l"
            "l \<le> bd_maxOrder b" "F l \<noteq> []"
        by auto
      then show ?thesis
      proof cases
        case none
        have "F l = []" if "k \<le> l" "l \<le> bd_maxOrder b" for l
          using none(3) that Nil by (cases "k = l") auto
        with none e show ?thesis by auto
      next
        case some
        note sp = same_params_simps [OF some(2)]
        note b = buddy_ok_split [OF some(3,4)]
        then have ok: "buddy_ok b' c F' (insert (k, Suc (2 * i)) (insert (k, 2 * i) A))" by blast
        have "valid_block (bd_maxOrder b') (Suc k, i)"
          using some(3) by (auto simp: buddy_ok_def intro: tiles_valid)
        then have p0: "p \<noteq> 0" using addr_nonnull [of b' c] some(1,3) sp by (simp add: buddy_ok_def)
        have p: "p = addr b' c (k, 2 * i)" using some(1) sp by (simp add: addr_left_half)
        have "p + blockSize b' k = addr b' c (k, Suc (2 * i))"
          using blockSize_pow [of b' c k] ok addr_right_half [of b' c k i] p by (simp add: buddy_ok_def)
        with e p0 have ek: "AllocateInternal b k = (p, PushNode b' k (addr b' c (k, Suc (2 * i))))" by simp
        have "buddy_ok (snd (AllocateInternal b k)) c (F'(k := Suc (2 * i) # F' k)) (insert (k, 2 * i) A)"
          unfolding ek snd_conv using b by (intro buddy_ok_push [OF ok]) (auto simp: buddy_of_def)
        moreover have "same_params b (snd (AllocateInternal b k))"
          unfolding ek using same_params_trans [OF some(2) buddy_ok_node [OF ok]] by simp
        moreover have "fst (AllocateInternal b k) = addr b c (k, 2 * i)" using ek p sp by simp
        moreover have "k \<le> l" "(k, 2 * i) \<notin> A" using some(5) b by auto
        ultimately show ?thesis using some(6,7) by blast
      qed
    qed
  qed
qed

lemma FreeInternal_spec:
  assumes "buddy_ok b c F (insert (k, i) A)" and "(k, i) \<notin> A"
  shows "\<exists>b' F'. FreeInternal b (addr b c (k, i)) k = Some b' \<and> same_params b b' \<and> buddy_ok b' c F' A"
  using assms
proof (induction "bd_maxOrder b - k" arbitrary: b F k i)
  case 0
  then have v: "valid_block (bd_maxOrder b) (k, i)"
    by (auto simp: buddy_ok_def intro: tiles_valid)
  with 0 have "k = bd_maxOrder b" by (simp add: valid_block_def)
  with 0 show ?case using buddy_ok_push [OF "0.prems"] buddy_ok_node [OF "0.prems"(1)] by (auto simp: FreeInternal.simps [of b])
next
  case (Suc n)
  let ?N = "bd_maxOrder b" and ?f = "free_blocks (bd_maxOrder b) F"
  let ?D = "?f \<union> insert (k, i) A"
  note ok = Suc.prems(1)
  have s: "sound_params b c" and d: "denotes b c F" and t: "tiles ?N ?D" and kN: "k < ?N"
    using ok Suc.hyps(2) by (auto simp: buddy_ok_def)
  have v: "valid_block ?N (k, i)" using tiles_valid [OF t] by simp
  note vb = buddy_valid [OF v kN]
  have e: "FreeInternal b (addr b c (k, i)) k =
      (case RemoveNodeIfPresent b k (addr b c (k, buddy_of i)) of None \<Rightarrow> None
       | Some (found, b') \<Rightarrow> if found then FreeInternal b' (addr b c (Suc k, i div 2)) (Suc k)
           else Some (PushNode b' k (addr b c (k, i))))"
    using kN addr_buddy [OF s v] addr_merge [OF s v kN]
    by (auto simp: FreeInternal.simps [of b] blockSize_pow [OF s] Let_def split: option.split)
  show ?case
  proof (cases "buddy_of i \<in> set (F k)")
    case True
    from denotes_remove [OF s d _ t _ True] kN obtain b1 where
      r: "RemoveNodeIfPresent b k (addr b c (k, buddy_of i)) = Some (True, b1)" and sp: "same_params b b1"
      and d1: "denotes b1 c (F(k := remove1 (buddy_of i) (F k)))" by auto
    let ?F1 = "F(k := remove1 (buddy_of i) (F k))"
    note sps = same_params_simps [OF sp]
    have f1: "free_blocks ?N ?F1 = ?f - {(k, buddy_of i)}" and bf: "(k, buddy_of i) \<in> ?f"
      using free_blocks_remove denotes_distinct [OF d] kN True by (auto simp: free_blocks_def)
    have dj: "?f \<inter> insert (k, i) A = {}" using ok by (simp add: buddy_ok_def)
    have "(Suc k, i div 2) \<notin> ?D"
      using halves_not_in [OF t, of k "i div 2"] buddy_half [of i i] by auto
    moreover have "insert (Suc k, i div 2) (?D - {(k, i), (k, buddy_of i)}) =
        free_blocks ?N ?F1 \<union> insert (Suc k, i div 2) A"
      unfolding f1 using dj bf Suc.prems(2) by auto
    with tiles_merge [OF t, of k i] bf kN
    have "tiles ?N (free_blocks ?N ?F1 \<union> insert (Suc k, i div 2) A)" by simp
    moreover have "coalesced ?N (free_blocks ?N ?F1)"
      using ok unfolding f1 by (auto simp: buddy_ok_def intro: coalesced_mono)
    ultimately have "buddy_ok b1 c ?F1 (insert (Suc k, i div 2) A)" and n: "(Suc k, i div 2) \<notin> A"
      using s d1 dj f1 unfolding buddy_ok_def sps by auto
    moreover have "n = bd_maxOrder b1 - Suc k" using Suc.hyps(2) sps(2) by simp
    ultimately obtain b' F' where "FreeInternal b1 (addr b1 c (Suc k, i div 2)) (Suc k) = Some b'" "same_params b1 b'" "buddy_ok b' c F' A"
      using Suc.hyps(1) by blast
    then show ?thesis using e r same_params_trans [OF sp] sps(3) by auto
  next
    case False
    have "RemoveNodeIfPresent b k (addr b c (k, buddy_of i)) = Some (False, b)"
      using denotes_absent [OF s d _ t _ vb False] kN by auto
    then show ?thesis using e buddy_ok_push [OF ok Suc.prems(2)] buddy_ok_node [OF ok] kN False by auto
  qed
qed

subsection \<open>Orders and sizes\<close>

lemma GetOrder_le_iff:
  assumes m: "bd_minBlockSize b = 2 ^ c" and c: "c < 64"
  shows "GetOrder b sz \<le> k \<longleftrightarrow> unat sz \<le> 2 ^ (c + k)"
proof (cases "sz \<le> bd_minBlockSize b")
  case True
  then have "unat sz \<le> 2 ^ c" using m c by (simp add: word_le_nat_alt)
  also have "(2::nat) ^ c \<le> 2 ^ (c + k)" by simp
  finally show ?thesis using True by (simp add: GetOrder_def)
next
  case False
  let ?x = "real (unat sz) / 2 ^ c"
  have "(2::nat) ^ c < unat sz" using False m c by (simp add: word_le_nat_alt)
  then have "0 < unat sz" by (metis less_trans zero_less_numeral zero_less_power)
  then have x: "0 < ?x" by (intro divide_pos_pos) (simp_all only: of_nat_0_less_iff, simp)
  have "GetOrder b sz = nat \<lceil>log 2 ?x\<rceil>" using False m c by (simp add: GetOrder_def)
  then have "GetOrder b sz \<le> k \<longleftrightarrow> log 2 ?x \<le> real k" by (simp add: ceiling_le_iff nat_le_iff)
  also have "\<dots> \<longleftrightarrow> ?x \<le> 2 ^ k" using x by (simp add: log_le_iff powr_realpow)
  also have "\<dots> \<longleftrightarrow> real (unat sz) \<le> real (2 ^ (c + k))" by (simp add: field_simps power_add)
  also have "\<dots> \<longleftrightarrow> unat sz \<le> 2 ^ (c + k)" by (rule of_nat_le_iff)
  finally show ?thesis .
qed

lemma GetOrder_pow:
  assumes "bd_minBlockSize b = 2 ^ c" and "c + k < 64"
  shows "GetOrder b (2 ^ (c + k)) = k"
proof -
  have "unat (2 ^ (c + k) :: size_t) = 2 ^ (c + k)" using assms(2) by simp
  then have "GetOrder b (2 ^ (c + k)) \<le> l \<longleftrightarrow> k \<le> l" for l
    using GetOrder_le_iff [OF assms(1), of "2 ^ (c + k)" l] assms(2) by simp
  then show ?thesis by (metis order_antisym order_refl)
qed

lemma floor_log_pow: "nat \<lfloor>log 2 (real (2 ^ N))\<rfloor> = N"
  by (simp add: log_nat_power)

subsection \<open>Outstanding regions\<close>

text \<open>
  What a client holds is an address and the size it asked for; \<open>block_of\<close> recovers the block.
\<close>

definition block_of :: "BuddyAllocator \<Rightarrow> nat \<Rightarrow> ptr \<times> size_t \<Rightarrow> block" where
  "block_of b c = (\<lambda>(p, n). (GetOrder b n, (unat p - unat (bd_base b)) div 2 ^ (c + GetOrder b n)))"

definition buddy_inv :: "nat \<Rightarrow> BuddyAllocator \<Rightarrow> (ptr \<times> size_t) set \<Rightarrow> bool" where
  "buddy_inv c b L \<longleftrightarrow> (\<exists>F. buddy_ok b c F (block_of b c ` L)) \<and> inj_on (block_of b c) L \<and>
     (\<forall>r \<in> L. fst r = addr b c (block_of b c r))"

lemma block_of_addr:
  assumes "sound_params b c" "valid_block (bd_maxOrder b) (GetOrder b n, i)"
  shows "block_of b c (addr b c (GetOrder b n, i), n) = (GetOrder b n, i)"
  using unat_addr [OF assms] by (simp add: block_of_def)

lemma same_params_block_of: "same_params b b' \<Longrightarrow> block_of b' c = block_of b c"
  using same_params_simps(1,5) [of b b'] by (simp add: block_of_def fun_eq_iff)

lemma Allocate_null:
  assumes "buddy_inv c b L" "BuddyAllocator_Allocate b n = (nullptr, b')"
  shows "b' = b"
proof (cases "GetOrder b n > bd_maxOrder b")
  case True
  with assms(2) show ?thesis by (simp add: BuddyAllocator_Allocate_def)
next
  case False
  with assms(2) have a: "AllocateInternal b (GetOrder b n) = (nullptr, b')"
    by (simp add: BuddyAllocator_Allocate_def)
  obtain F where ok: "buddy_ok b c F (block_of b c ` L)" using assms(1) by (auto simp: buddy_inv_def)
  have "addr b c (GetOrder b n, i) \<noteq> 0" if "same_params b b'"
    "buddy_ok b' c F' (insert (GetOrder b n, i) A)" for i F' A
    using that(2) addr_nonnull [of b' c] tiles_valid unfolding buddy_ok_def same_params_simps [OF that(1)] by blast
  with AllocateInternal_spec [OF ok, of "GetOrder b n"] a show ?thesis by fastforce
qed

lemma Allocate_ok:
  assumes inv: "buddy_inv c b L" and a: "BuddyAllocator_Allocate b n = (p, b')" and p: "p \<noteq> nullptr"
  shows "buddy_inv c b' (insert (p, n) L) \<and> (\<forall>m. (p, m) \<notin> L) \<and> same_params b b'"
proof -
  let ?k = "GetOrder b n"
  have a: "AllocateInternal b ?k = (p, b')"
    using a p by (auto simp: BuddyAllocator_Allocate_def Let_def split: if_splits)
  obtain F where ok: "buddy_ok b c F (block_of b c ` L)" and inj: "inj_on (block_of b c) L"
    and L: "\<forall>r \<in> L. fst r = addr b c (block_of b c r)" using inv by (auto simp: buddy_inv_def)
  from AllocateInternal_spec [OF ok, of ?k] a p obtain i F' where
    i: "p = addr b c (?k, i)" "same_params b b'" "buddy_ok b' c F' (insert (?k, i) (block_of b c ` L))"
    "(?k, i) \<notin> block_of b c ` L" by auto
  note sp = same_params_simps [OF i(2)] same_params_block_of [OF i(2)]
  have s: "sound_params b c" and t: "tiles (bd_maxOrder b) (insert (?k, i) (block_of b c ` L \<union> free_blocks (bd_maxOrder b) F'))"
    using i(3) unfolding buddy_ok_def sp by (auto simp: Un_commute)
  have bp: "block_of b c (p, n) = (?k, i)"
    unfolding i(1) using tiles_valid [OF t] by (intro block_of_addr [OF s]) simp
  have new: "(p, m) \<notin> L" for m
  proof
    assume m: "(p, m) \<in> L"
    obtain l j where lj: "block_of b c (p, m) = (l, j)" by fastforce
    with m have "(l, j) \<in> block_of b c ` L" by (metis image_eqI)
    moreover have "addr b c (?k, i) = addr b c (l, j)" using L m lj i(1) by fastforce
    ultimately show False using addr_inj [OF s t, of ?k i l j] i(4) by auto
  qed
  have "buddy_inv c b' (insert (p, n) L)"
    unfolding buddy_inv_def sp using i(1,3,4) bp inj L new by auto
  with new i(2) show ?thesis by blast
qed

lemma Free_ok:
  assumes inv: "buddy_inv c b L" and l: "(p, n) \<in> L"
  shows "\<exists>b'. BuddyAllocator_Free b p n = Some b' \<and> buddy_inv c b' (L - {(p, n)}) \<and> same_params b b'"
proof -
  let ?k = "GetOrder b n"
  obtain F where ok: "buddy_ok b c F (block_of b c ` L)" and inj: "inj_on (block_of b c) L"
    and L: "\<forall>r \<in> L. fst r = addr b c (block_of b c r)" using inv by (auto simp: buddy_inv_def)
  obtain i where i: "block_of b c (p, n) = (?k, i)" by (simp add: block_of_def)
  let ?A = "block_of b c ` (L - {(p, n)})"
  have A: "block_of b c ` L = insert (?k, i) ?A" using l i by (metis image_insert insert_Diff)
  have n: "(?k, i) \<notin> ?A" using inj l i by (auto dest: inj_onD)
  have pa: "p = addr b c (?k, i)" using L l i by fastforce
  from FreeInternal_spec [OF ok [unfolded A] n] obtain b' F' where
    b': "FreeInternal b p ?k = Some b'" "same_params b b'" "buddy_ok b' c F' ?A" unfolding pa by blast
  have "p \<noteq> 0" unfolding pa using ok unfolding A buddy_ok_def by (intro addr_nonnull) (auto intro: tiles_valid)
  moreover have "buddy_inv c b' (L - {(p, n)})"
    unfolding buddy_inv_def same_params_simps [OF b'(2)] same_params_block_of [OF b'(2)]
    using b'(3) inj L by (auto intro: inj_on_diff)
  ultimately show ?thesis using b' by (auto simp: BuddyAllocator_Free_def)
qed

lemma live_block:
  assumes inv: "buddy_inv c b L" and l: "(p, n) \<in> L"
  shows "\<exists>i. block_of b c (p, n) = (GetOrder b n, i) \<and> valid_block (bd_maxOrder b) (GetOrder b n, i) \<and>
    unat p = unat (bd_base b) + i * 2 ^ (c + GetOrder b n) \<and>
    unat (BlockSizeForRequest b n) = 2 ^ (c + GetOrder b n) \<and> unat n \<le> 2 ^ (c + GetOrder b n)"
proof -
  let ?k = "GetOrder b n"
  obtain F where ok: "buddy_ok b c F (block_of b c ` L)" and L: "fst (p, n) = addr b c (block_of b c (p, n))"
    using inv l by (auto simp: buddy_inv_def)
  then have s: "sound_params b c" and t: "tiles (bd_maxOrder b) (free_blocks (bd_maxOrder b) F \<union> block_of b c ` L)"
    by (auto simp: buddy_ok_def)
  obtain i where i: "block_of b c (p, n) = (?k, i)" by (simp add: block_of_def)
  then have v: "valid_block (bd_maxOrder b) (?k, i)" using l by (intro tiles_valid [OF t]) (metis UnI2 image_eqI)
  then have "?k \<le> bd_maxOrder b" by (simp add: valid_block_def)
  then have k: "c + ?k < 64" by (rule sound_exponent [OF s])
  have m: "bd_minBlockSize b = 2 ^ c" using s by (simp add: sound_params_def)
  have "BlockSizeForRequest b n = 2 ^ (c + ?k)"
    using blockSize_pow [OF s] by (simp add: BlockSizeForRequest_def blockSize_def)
  then have "unat (BlockSizeForRequest b n) = 2 ^ (c + ?k)" using k by simp
  moreover have "unat n \<le> 2 ^ (c + ?k)" using GetOrder_le_iff [OF m, of n ?k] k by simp
  ultimately show ?thesis using i v unat_addr [OF s v] L by auto
qed

definition bd_end :: "BuddyAllocator \<Rightarrow> nat" where
  "bd_end b = unat (bd_base b) + unat (blockSize b (bd_maxOrder b))"

lemma live_inside:
  assumes inv: "buddy_inv c b L" and l: "(p, n) \<in> L"
  shows "p \<noteq> 0 \<and> unat (bd_base b) \<le> unat p \<and> unat p + unat (BlockSizeForRequest b n) \<le> bd_end b \<and>
    unat n \<le> unat (BlockSizeForRequest b n)"
proof -
  have s: "sound_params b c" using inv by (auto simp: buddy_inv_def buddy_ok_def)
  obtain i where v: "valid_block (bd_maxOrder b) (GetOrder b n, i)"
    and p: "unat p = unat (bd_base b) + i * 2 ^ (c + GetOrder b n)"
    and n: "unat (BlockSizeForRequest b n) = 2 ^ (c + GetOrder b n)" "unat n \<le> 2 ^ (c + GetOrder b n)"
    using live_block [OF assms] by blast
  have "unat (blockSize b (bd_maxOrder b)) = 2 ^ (c + bd_maxOrder b)"
    using sound_exponent [OF s order_refl] by (simp add: blockSize_pow [OF s])
  with p n block_end [OF v, of c] have "unat p + unat (BlockSizeForRequest b n) \<le> bd_end b"
    by (simp add: bd_end_def)
  moreover have "p \<noteq> 0" using s p by (auto simp: sound_params_def unat_eq_0)
  ultimately show ?thesis using n p by simp
qed

lemma live_disjoint:
  assumes inv: "buddy_inv c b L" and l: "(p, n) \<in> L" "(q, m) \<in> L" and ne: "(p, n) \<noteq> (q, m)"
  shows "disjoint_regions (unat p) (unat (BlockSizeForRequest b n)) (unat q) (unat (BlockSizeForRequest b m))"
proof -
  obtain i where i: "block_of b c (p, n) = (GetOrder b n, i)"
    "unat p = unat (bd_base b) + i * 2 ^ (c + GetOrder b n)"
    "unat (BlockSizeForRequest b n) = 2 ^ (c + GetOrder b n)" using live_block [OF inv l(1)] by blast
  obtain j where j: "block_of b c (q, m) = (GetOrder b m, j)"
    "unat q = unat (bd_base b) + j * 2 ^ (c + GetOrder b m)"
    "unat (BlockSizeForRequest b m) = 2 ^ (c + GetOrder b m)" using live_block [OF inv l(2)] by blast
  obtain F where ok: "buddy_ok b c F (block_of b c ` L)" and inj: "inj_on (block_of b c) L"
    using inv by (auto simp: buddy_inv_def)
  have "(GetOrder b n, i) \<in> block_of b c ` L" "(GetOrder b m, j) \<in> block_of b c ` L"
    using l i(1) j(1) by (metis image_eqI)+
  moreover have "(GetOrder b n, i) \<noteq> (GetOrder b m, j)" using inj_onD [OF inj] l ne i(1) j(1) by metis
  ultimately consider "i * 2 ^ GetOrder b n + 2 ^ GetOrder b n \<le> j * 2 ^ GetOrder b m"
    | "j * 2 ^ GetOrder b m + 2 ^ GetOrder b m \<le> i * 2 ^ GetOrder b n"
    using tiles_apart [of "bd_maxOrder b" "free_blocks (bd_maxOrder b) F \<union> block_of b c ` L" "GetOrder b n" i "GetOrder b m" j]
      ok by (auto simp: buddy_ok_def)
  then show ?thesis
  proof cases
    case 1
    then have "2 ^ c * (i * 2 ^ GetOrder b n + 2 ^ GetOrder b n) \<le> 2 ^ c * (j * 2 ^ GetOrder b m)" by simp
    then show ?thesis unfolding i(2,3) j(2,3) disjoint_regions_def by (simp add: power_add algebra_simps)
  next
    case 2
    then have "2 ^ c * (j * 2 ^ GetOrder b m + 2 ^ GetOrder b m) \<le> 2 ^ c * (i * 2 ^ GetOrder b n)" by simp
    then show ?thesis unfolding i(2,3) j(2,3) disjoint_regions_def by (simp add: power_add algebra_simps)
  qed
qed

lemma same_params_arena:
  "same_params b b' \<Longrightarrow> bd_base b' = bd_base b \<and> bd_end b' = bd_end b \<and> BlockSizeForRequest b' = BlockSizeForRequest b"
  using same_params_simps [of b b']
  by (auto simp: bd_end_def BlockSizeForRequest_def same_params_def fun_eq_iff)

interpretation buddy: region_allocator BuddyAllocator_Allocate BuddyAllocator_Free "buddy_inv c"
  "\<lambda>b n. unat (BlockSizeForRequest b n)" "\<lambda>b. unat (bd_base b)" bd_end for c
proof
  fix b b' L n and p :: ptr
  assume "buddy_inv c b L" "BuddyAllocator_Allocate b n = (nullptr, b')"
  then show "b' = b" by (rule Allocate_null)
next
  fix b b' L n and p :: ptr
  assume "buddy_inv c b L" "BuddyAllocator_Allocate b n = (p, b')" "p \<noteq> nullptr"
  from Allocate_ok [OF this] same_params_arena [of b b']
  show "buddy_inv c b' (insert (p, n) L) \<and> (\<forall>m. (p, m) \<notin> L) \<and> unat (bd_base b') = unat (bd_base b) \<and>
    bd_end b' = bd_end b \<and> (\<lambda>n. unat (BlockSizeForRequest b' n)) = (\<lambda>n. unat (BlockSizeForRequest b n))" by simp
next
  fix b L n and p :: ptr
  assume "buddy_inv c b L" "(p, n) \<in> L"
  from Free_ok [OF this] same_params_arena [of b]
  show "\<exists>b'. BuddyAllocator_Free b p n = Some b' \<and> buddy_inv c b' (L - {(p, n)}) \<and>
    unat (bd_base b') = unat (bd_base b) \<and> bd_end b' = bd_end b \<and>
    (\<lambda>n. unat (BlockSizeForRequest b' n)) = (\<lambda>n. unat (BlockSizeForRequest b n))" by metis
qed (fact live_inside live_disjoint)+

subsection \<open>The constructor\<close>

lemma BuddyAllocator_new_shape:
  assumes new: "BuddyAllocator_new api os m (2 ^ (c + N)) (2 ^ c) = (Inr b, os')" and cN: "c + N < 64"
  shows "bd_minBlockSize b = 2 ^ c \<and> bd_maxOrder b = N \<and> bd_base b \<noteq> nullptr \<and>
    bd_freeLists b = (replicate (Suc N) nullptr)[N := bd_base b] \<and> bd_mem b = m(bd_base b := nullptr) \<and>
    bd_defined b = node_ok b (bd_base b) \<and> vm_size (bd_storage b) = AlignUp (2 ^ (c + N)) 4096"
proof -
  have "unat ((2::size_t) ^ (c + N) div 2 ^ c) = 2 ^ (c + N) div 2 ^ c" using cN by (simp add: unat_div)
  then have "unat ((2::size_t) ^ (c + N) div 2 ^ c) = 2 ^ N" by (simp add: power_add)
  moreover from this have "(2::size_t) ^ (c + N) div 2 ^ c \<noteq> 0" by (metis unat_0 power_not_zero zero_neq_numeral)
  moreover have "(2::size_t) ^ c \<noteq> 0" using cN unat_pow2 [of c, where 'a = 64] by (auto simp: unat_eq_zero dest!: arg_cong [of "2 ^ c :: size_t" 0 unat])
  ultimately show ?thesis
    using new floor_log_pow [of N]
    by (auto simp: BuddyAllocator_new_def VirtualMemory_new_def Let_def PushNode_def bd_base_def node_ok_def
        simp del: replicate_Suc split: prod.splits if_splits sum.splits)
qed

lemma page_round_up:
  assumes "e < 64" shows "(2::nat) ^ e \<le> unat (AlignUp (2 ^ e) 4096)"
proof -
  have "(2::nat) ^ e \<le> 2 ^ 63" using assms by (intro power_increasing) simp_all
  moreover have u: "unat (2 ^ e :: size_t) = 2 ^ e" using assms by simp
  ultimately have "unat (AlignUp (2 ^ e) (2 ^ 12)) = (2 ^ e + (2 ^ 12 - 1)) div 2 ^ 12 * 2 ^ 12"
    using AlignUp_nat [of 12 "2 ^ e"] unfolding u by simp
  then show ?thesis using round_up_bounds(1) [of "2 ^ 12" "2 ^ e"] by simp
qed

lemma BuddyAllocator_new_inv:
  assumes new: "BuddyAllocator_new api os m (2 ^ (c + N)) (2 ^ c) = (Inr b, os')" and c3: "3 \<le> c" and cN: "c + N < 64"
    and al: "2 ^ (c + N) dvd unat (bd_base b)" and fit: "unat (bd_base b) + 2 ^ (c + N) \<le> 2 ^ 64"
  shows "buddy_inv c b {}"
proof -
  note sh = BuddyAllocator_new_shape [OF new cN]
  have sz: "2 ^ (c + N) \<le> unat (vm_size (bd_storage b))" using sh page_round_up [OF cN] by simp
  have "(2::nat) ^ 3 dvd 2 ^ (c + N)" using c3 by (intro le_imp_power_dvd) simp
  then have "8 dvd (2::nat) ^ (c + N)" by simp
  then have "8 dvd unat (bd_base b)" "8 \<le> (2::nat) ^ (c + N)" using al by (auto intro: dvd_trans dvd_imp_le)
  then have "bd_defined b" using sh sz by (simp add: node_ok_def)
  then have s: "sound_params b c" using sh al fit sz c3 by (simp add: sound_params_def)
  let ?F = "(\<lambda>_. [])(N := [0])"
  have a: "addr b c (N, 0) = bd_base b" by (simp add: addr_def)
  have "denotes b c ?F"
    using sh a by (auto simp: denotes_def nth_list_update nth_replicate simp del: replicate_Suc)
  moreover have "free_blocks N ?F = {(N, 0)}" by (auto simp: free_blocks_def split: if_splits)
  ultimately have "buddy_ok b c ?F (block_of b c ` {})"
    using s sh by (simp add: buddy_ok_def tiles_whole coalesced_def)
  then show ?thesis unfolding buddy_inv_def by (intro conjI exI [of _ ?F]) simp_all
qed

lemma Allocate_fails_iff:
  assumes inv: "buddy_inv c b L"
  shows "fst (BuddyAllocator_Allocate b n) = nullptr \<longleftrightarrow>
    (\<forall>k \<le> bd_maxOrder b. unat n \<le> 2 ^ (c + k) \<longrightarrow> bd_freeLists b ! k = nullptr)"
proof -
  let ?k = "GetOrder b n"
  obtain F where ok: "buddy_ok b c F (block_of b c ` L)" using inv by (auto simp: buddy_inv_def)
  then have s: "sound_params b c" and d: "denotes b c F" by (auto simp: buddy_ok_def)
  have m: "bd_minBlockSize b = 2 ^ c" "c < 64" using s sound_exponent [OF s, of 0] by (auto simp: sound_params_def)
  have e: "bd_freeLists b ! l = 0 \<longleftrightarrow> F l = []" if "l \<le> bd_maxOrder b" for l
    using d that by (auto simp: denotes_def dest!: spec [of _ l])
  have "fst (BuddyAllocator_Allocate b n) = 0 \<longleftrightarrow> (\<forall>l. ?k \<le> l \<longrightarrow> l \<le> bd_maxOrder b \<longrightarrow> F l = [])"
  proof (cases "?k > bd_maxOrder b")
    case True
    then show ?thesis by (simp add: BuddyAllocator_Allocate_def)
  next
    case False
    then have a: "BuddyAllocator_Allocate b n = AllocateInternal b ?k" by (simp add: BuddyAllocator_Allocate_def)
    from AllocateInternal_spec [OF ok, of ?k] show ?thesis
    proof (elim disjE exE conjE)
      fix i F' l
      assume r: "fst (AllocateInternal b ?k) = addr b c (?k, i)" "same_params b (snd (AllocateInternal b ?k))"
        "buddy_ok (snd (AllocateInternal b ?k)) c F' (insert (?k, i) (block_of b c ` L))"
        and l: "?k \<le> l" "l \<le> bd_maxOrder b" "F l \<noteq> []"
      have "addr b c (?k, i) \<noteq> 0"
        using r(3) addr_nonnull [OF s] tiles_valid unfolding buddy_ok_def same_params_simps [OF r(2)] by blast
      with r(1) l a show ?thesis by auto
    qed (use a in auto)
  qed
  also have "\<dots> \<longleftrightarrow> (\<forall>k \<le> bd_maxOrder b. unat n \<le> 2 ^ (c + k) \<longrightarrow> bd_freeLists b ! k = 0)"
    using e GetOrder_le_iff [OF m, of n] by auto
  finally show ?thesis .
qed

lemma empty_whole_block:
  assumes inv: "buddy_inv c b {}"
  shows "\<exists>b'. BuddyAllocator_Allocate b (2 ^ (c + bd_maxOrder b)) = (bd_base b, b')"
proof -
  let ?N = "bd_maxOrder b"
  obtain F where ok: "buddy_ok b c F {}" using inv by (auto simp: buddy_inv_def)
  then have s: "sound_params b c" and d: "denotes b c F" by (auto simp: buddy_ok_def)
  have "free_blocks ?N F = {(?N, 0)}" using ok by (intro tiles_coalesced_whole) (auto simp: buddy_ok_def)
  then have "set (F ?N) = {0}" by (auto simp: free_blocks_def set_eq_iff)
  moreover have "distinct (F ?N)" by (rule denotes_distinct [OF d order_refl])
  ultimately have "length (F ?N) = Suc 0" using distinct_card [of "F ?N"] by simp
  then obtain x where x: "F ?N = [x]" by (auto simp: length_Suc_conv)
  with \<open>set (F ?N) = {0}\<close> have "x = 0" by simp
  with x have F: "F ?N = [0]" by simp
  have o: "GetOrder b (2 ^ (c + ?N)) = ?N"
    using s sound_exponent [OF s order_refl] by (intro GetOrder_pow) (auto simp: sound_params_def)
  have "node_ok b (addr b c (?N, 0))" by (rule addr_node_ok [OF s]) (simp add: valid_block_def)
  from denotes_pop [OF d order_refl F this] obtain b' where p: "PopNode b ?N = (addr b c (?N, 0), b')" by blast
  have "bd_freeLists b ! ?N \<noteq> 0" using d F by (auto simp: denotes_def dest!: spec [of _ ?N])
  with o p show ?thesis by (simp add: BuddyAllocator_Allocate_def AllocateInternal.simps [of b] addr_def)
qed

subsection \<open>Freeing by block size\<close>

lemma granted_order:
  assumes "BuddyAllocator_Allocate b n = (p, b')" "p \<noteq> nullptr"
  shows "GetOrder b n \<le> bd_maxOrder b"
  using assms by (auto simp: BuddyAllocator_Allocate_def Let_def split: if_splits)

lemma block_size_order:
  assumes "sound_params b c" "GetOrder b n \<le> bd_maxOrder b"
  shows "GetOrder b (BlockSizeForRequest b n) = GetOrder b n"
    "unat (BlockSizeForRequest b n) = 2 ^ (c + GetOrder b n)"
    "BlockSizeForRequest b (BlockSizeForRequest b n) = BlockSizeForRequest b n"
proof -
  have k: "c + GetOrder b n < 64" using sound_exponent [OF assms] .
  have m: "bd_minBlockSize b = 2 ^ c" using assms(1) by (simp add: sound_params_def)
  have s: "BlockSizeForRequest b n = 2 ^ (c + GetOrder b n)"
    using m by (simp add: BlockSizeForRequest_def push_bit_eq_mult power_add)
  show g: "GetOrder b (BlockSizeForRequest b n) = GetOrder b n" unfolding s by (rule GetOrder_pow [OF m k])
  show "unat (BlockSizeForRequest b n) = 2 ^ (c + GetOrder b n)" using k by (simp add: s)
  show "BlockSizeForRequest b (BlockSizeForRequest b n) = BlockSizeForRequest b n"
    unfolding BlockSizeForRequest_def [of b "BlockSizeForRequest b n"] g by (simp add: BlockSizeForRequest_def)
qed

lemma block_of_same_order: "GetOrder b n = GetOrder b m \<Longrightarrow> block_of b c (p, n) = block_of b c (p, m)"
  by (simp add: block_of_def)

lemma buddy_inv_reblock:
  assumes inv: "buddy_inv c b (insert (p, n) L)" and no: "(p, n) \<notin> L" and o: "GetOrder b m = GetOrder b n"
  shows "buddy_inv c b (insert (p, m) L)"
proof -
  have e: "block_of b c (p, m) = block_of b c (p, n)" using o by (rule block_of_same_order)
  have inj: "inj_on (block_of b c) (insert (p, n) L)" using inv by (simp add: buddy_inv_def)
  then have "block_of b c (p, n) \<notin> block_of b c ` L" using no by auto
  then have "inj_on (block_of b c) (insert (p, m) L)" using inj e by auto
  with inv e show ?thesis by (simp add: buddy_inv_def)
qed

lemma empty_serves:
  assumes "buddy_inv c b {}" "unat n \<le> 2 ^ (c + bd_maxOrder b)"
  shows "fst (BuddyAllocator_Allocate b n) \<noteq> nullptr"
proof -
  have s: "sound_params b c" using assms(1) by (auto simp: buddy_inv_def buddy_ok_def)
  have N: "unat ((2::size_t) ^ (c + bd_maxOrder b)) = 2 ^ (c + bd_maxOrder b)"
    using sound_exponent [OF s order_refl] by simp
  have "bd_base b \<noteq> 0" using s by (simp add: sound_params_def)
  then have "fst (BuddyAllocator_Allocate b (2 ^ (c + bd_maxOrder b))) \<noteq> 0"
    using empty_whole_block [OF assms(1)] by auto
  then obtain k where "k \<le> bd_maxOrder b" "(2::nat) ^ (c + bd_maxOrder b) \<le> 2 ^ (c + k)" "bd_freeLists b ! k \<noteq> 0"
    unfolding Allocate_fails_iff [OF assms(1)] N by blast
  then show ?thesis unfolding Allocate_fails_iff [OF assms(1)] using assms(2) by auto
qed

interpretation buddy_admission: admission_allocator BuddyAllocator_Allocate BuddyAllocator_Free "buddy_inv c"
  "\<lambda>b n. unat (BlockSizeForRequest b n)" "\<lambda>b. unat (bd_base b)" bd_end BlockSizeForRequest
  "\<lambda>b. 2 ^ (c + bd_maxOrder b)" for c
proof
  fix b b' L n and p :: ptr
  assume a: "buddy_inv c b L" "BuddyAllocator_Allocate b n = (p, b')" "p \<noteq> nullptr"
  note ok = Allocate_ok [OF a]
  have s: "sound_params b' c" using ok by (auto simp: buddy_inv_def buddy_ok_def)
  have p: "BlockSizeForRequest b' = BlockSizeForRequest b" "bd_maxOrder b' = bd_maxOrder b" "GetOrder b' = GetOrder b"
    using ok by (auto simp: same_params_def BlockSizeForRequest_def GetOrder_def fun_eq_iff)
  have k: "GetOrder b' n \<le> bd_maxOrder b'" using granted_order [OF a(2,3)] p by simp
  note bs = block_size_order [OF s k]
  have i: "buddy_inv c b' (insert (p, n) L)" "(p, n) \<notin> L" using ok by auto
  then have "buddy_inv c b' (insert (p, BlockSizeForRequest b' n) L)"
    using bs(1) by (rule buddy_inv_reblock)
  moreover have "unat n \<le> unat (BlockSizeForRequest b' n)"
    using live_inside [of c b' "insert (p, n) L" p n] ok by simp
  ultimately show "buddy_inv c b' (insert (p, BlockSizeForRequest b' n) L) \<and>
    BlockSizeForRequest b' = BlockSizeForRequest b \<and> (2::nat) ^ (c + bd_maxOrder b') = 2 ^ (c + bd_maxOrder b) \<and>
    unat n \<le> unat (BlockSizeForRequest b' n) \<and>
    unat (BlockSizeForRequest b' (BlockSizeForRequest b' n)) = unat (BlockSizeForRequest b' n)"
    using p bs(3) by simp
next
  fix b b' L n and p :: ptr
  assume a: "buddy_inv c b L" "(p, n) \<in> L" "BuddyAllocator_Free b p n = Some b'"
  then have "same_params b b'" using Free_ok [OF a(1,2)] by auto
  then show "BlockSizeForRequest b' = BlockSizeForRequest b \<and> (2::nat) ^ (c + bd_maxOrder b') = 2 ^ (c + bd_maxOrder b)"
    by (auto simp: same_params_def BlockSizeForRequest_def GetOrder_def fun_eq_iff)
next
  fix b and n :: size_t
  assume "buddy_inv c b {}" "unat n \<le> 2 ^ (c + bd_maxOrder b)"
  then show "fst (BuddyAllocator_Allocate b n) \<noteq> nullptr" by (rule empty_serves)
qed

subsection \<open>Refusal and bad bases\<close>

text \<open>Whatever the free lists look like, a request is refused exactly when all lists from its order on are empty.\<close>

lemma AllocateInternal_null_iff:
  "(fst (AllocateInternal b k) = nullptr \<longleftrightarrow> (\<forall>l. k \<le> l \<longrightarrow> l \<le> bd_maxOrder b \<longrightarrow> bd_freeLists b ! l = nullptr)) \<and>
   (fst (AllocateInternal b k) = nullptr \<longrightarrow> snd (AllocateInternal b k) = b)"
proof (induction b k rule: AllocateInternal.induct)
  case (1 b k)
  show ?case
  proof (cases "k > bd_maxOrder b \<or> bd_freeLists b ! k \<noteq> nullptr")
    case True
    then show ?thesis by (auto simp: AllocateInternal.simps [of b k] PopNode_def Let_def)
  next
    case False
    obtain p b' where r: "AllocateInternal b (k + 1) = (p, b')" by fastforce
    have e: "AllocateInternal b k = (if p \<noteq> 0 then (p, PushNode b' k (p + blockSize b' k)) else (0, b'))"
      using False r by (simp add: AllocateInternal.simps [of b k])
    have "(\<forall>l. k \<le> l \<longrightarrow> l \<le> bd_maxOrder b \<longrightarrow> bd_freeLists b ! l = 0) \<longleftrightarrow>
        (\<forall>l. k + 1 \<le> l \<longrightarrow> l \<le> bd_maxOrder b \<longrightarrow> bd_freeLists b ! l = 0)"
      using False by (metis Suc_eq_plus1 Suc_leI Suc_leD le_neq_implies_less)
    then show ?thesis using 1 False r e by auto
  qed
qed

text \<open>
  At a bad base: lists of at most one node are searched in two steps; once a block lies below the base it
  stays below, since merging clears bits, and the node that \<open>FreeInternal\<close> writes in the end is outside the storage.
\<close>

definition short_lists :: "BuddyAllocator \<Rightarrow> bool" where
  "short_lists b \<longleftrightarrow> length (bd_freeLists b) = Suc (bd_maxOrder b) \<and>
     (\<forall>l \<le> bd_maxOrder b. bd_freeLists b ! l \<noteq> nullptr \<longrightarrow> bd_mem b (bd_freeLists b ! l) = nullptr)"

lemma RemoveNode_short:
  assumes "short_lists b" "k \<le> bd_maxOrder b"
  shows "\<exists>found b'. RemoveNodeIfPresent b k target = Some (found, b') \<and> short_lists b' \<and>
    bd_base b' = bd_base b \<and> bd_maxOrder b' = bd_maxOrder b \<and> blockSize b' = blockSize b \<and>
    (found \<longleftrightarrow> bd_freeLists b ! k = target \<and> target \<noteq> nullptr)"
proof -
  let ?h = "bd_freeLists b ! k"
  consider (empty) "?h = 0" | (hit) "?h \<noteq> 0" "?h = target" | (miss) "?h \<noteq> 0" "?h \<noteq> target" by blast
  then show ?thesis
  proof cases
    case empty
    then have "RemoveNodeIfPresent b k target = Some (False, b)"
      by (simp add: RemoveNodeIfPresent_def RemoveLoop.simps [of b target "Head k"])
    then show ?thesis using assms empty by auto
  next
    case hit
    then have "bd_mem b target = 0" using assms by (auto simp: short_lists_def)
    with hit have "RemoveNodeIfPresent b k target = Some (True, (access_node b target)\<lparr>bd_freeLists := (bd_freeLists b)[k := 0]\<rparr>)"
      by (simp add: RemoveNodeIfPresent_def RemoveLoop.simps [of b target "Head k"] Let_def)
    then show ?thesis using assms hit
      by (auto simp: short_lists_def bd_base_def blockSize_def nth_list_update fun_eq_iff)
  next
    case miss
    then have "bd_mem b ?h = 0" using assms by (auto simp: short_lists_def)
    with miss have "RemoveNodeIfPresent b k target = Some (False, access_node b ?h)"
      by (simp add: RemoveNodeIfPresent_def RemoveLoop.simps [of b target "Head k"] RemoveLoop.simps [of "access_node b ?h"] Let_def)
    then show ?thesis using assms miss by (auto simp: short_lists_def bd_base_def blockSize_def fun_eq_iff)
  qed
qed

lemma FreeInternal_below:
  assumes "short_lists b" "unat p < unat (bd_base b)"
  shows "\<exists>b'. FreeInternal b p k = Some b' \<and> \<not> bd_defined b'"
  using assms
proof (induction "bd_maxOrder b - k" arbitrary: b p k)
  case 0
  then show ?case by (simp add: FreeInternal.simps [of b] PushNode_def node_ok_def)
next
  case (Suc n)
  then have k: "k < bd_maxOrder b" by simp
  let ?bs = "blockSize b k"
  let ?buddy = "bd_base b + ((p - bd_base b) XOR ?bs)"
  obtain found b' where r: "RemoveNodeIfPresent b k ?buddy = Some (found, b')" "short_lists b'" "bd_base b' = bd_base b"
    "bd_maxOrder b' = bd_maxOrder b"
    using RemoveNode_short [OF Suc.prems(1), of k ?buddy] k by auto
  have "p AND NOT ?bs \<le> p" by (rule word_and_le2)
  then have "unat (p AND NOT ?bs) \<le> unat p" by (simp only: word_le_nat_alt)
  then have "\<exists>b''. FreeInternal b' (p AND NOT ?bs) (Suc k) = Some b'' \<and> \<not> bd_defined b''"
    using Suc r by (intro Suc.hyps(1)) auto
  moreover have "\<not> bd_defined (PushNode b' k p)" using Suc.prems(2) r(3) by (simp add: PushNode_def node_ok_def)
  ultimately show ?case using r(1) k by (auto simp: FreeInternal.simps [of b] Let_def)
qed

text \<open>The first block taken from a fresh allocator is at the base, whatever its order; the halves split off wait as single nodes.\<close>

lemma AllocateInternal_fresh:
  assumes "bd_freeLists b = (replicate (Suc N) 0)[N := bd_base b]" "bd_maxOrder b = N" "bd_mem b (bd_base b) = 0"
    "bd_base b \<noteq> 0" "k \<le> N" "node_ok b (bd_base b)" "\<forall>l < N. node_ok b (bd_base b + blockSize b l)"
  shows "\<exists>b'. AllocateInternal b k = (bd_base b, b') \<and> short_lists b' \<and> bd_storage b' = bd_storage b \<and> bd_maxOrder b' = N \<and>
    bd_minBlockSize b' = bd_minBlockSize b \<and> bd_defined b' = bd_defined b \<and> (\<forall>l < k. bd_freeLists b' ! l = 0) \<and>
    (k < N \<longrightarrow> bd_freeLists b' ! k = bd_base b + blockSize b k)"
  using assms(5)
proof (induction "N - k" arbitrary: k)
  case 0
  then have "k = N" by simp
  then show ?case using assms
    by (auto simp: AllocateInternal.simps [of b] PopNode_def Let_def short_lists_def nth_list_update simp del: replicate_Suc)
next
  case (Suc n)
  then have k: "k < N" by simp
  have "n = N - Suc k" "Suc k \<le> N" using Suc.hyps(2) k by simp_all
  then obtain b' where b': "AllocateInternal b (Suc k) = (bd_base b, b')" "short_lists b'" "bd_storage b' = bd_storage b" "bd_maxOrder b' = N"
    "bd_minBlockSize b' = bd_minBlockSize b" "bd_defined b' = bd_defined b" "\<forall>l < Suc k. bd_freeLists b' ! l = 0"
    using Suc.hyps(1) [of "Suc k"] by blast
  have bs: "blockSize b' k = blockSize b k" using b'(5) by (simp add: blockSize_def)
  have "bd_freeLists b ! k = 0" using assms(1) k by (simp add: nth_list_update del: replicate_Suc)
  then have "AllocateInternal b k = (bd_base b, PushNode b' k (bd_base b + blockSize b k))"
    using b'(1) k assms(2,4) bs by (simp add: AllocateInternal.simps [of b k])
  moreover have "short_lists (PushNode b' k (bd_base b + blockSize b k))"
    using b'(2,4,7) k by (auto simp: short_lists_def PushNode_def nth_list_update)
  moreover have "length (bd_freeLists b') = Suc N" using b'(2,4) by (simp add: short_lists_def)
  moreover have "node_ok b' (bd_base b + blockSize b k)" using assms(7) k b'(3) by (simp add: node_ok_def bd_base_def)
  ultimately show ?case using b' k by (auto simp: PushNode_def nth_list_update)
qed

subsection \<open>Properties\<close>

text \<open>
  The order computed from a request is the least one whose block is large enough: the block a
  request of \<open>n\<close> bytes reserves is the smallest \<open>minBlockSize\<close> times a power of two that holds it.
\<close>

theorem BlockSizeForRequest_least:
  assumes m: "bd_minBlockSize b = 2 ^ c" and n: "unat n \<le> 2 ^ 63" and c: "c < 64"
  shows "unat n \<le> unat (BlockSizeForRequest b n) \<and>
    (\<forall>k. unat n \<le> 2 ^ (c + k) \<longrightarrow> unat (BlockSizeForRequest b n) \<le> 2 ^ (c + k)) \<and>
    GetOrder b (BlockSizeForRequest b n) = GetOrder b n"
proof -
  note le = GetOrder_le_iff [OF m c, of n]
  have "unat n \<le> 2 ^ (c + (63 - c))" using n c by simp
  then have k: "c + GetOrder b n < 64" using le [of "63 - c"] c by linarith
  have s: "BlockSizeForRequest b n = 2 ^ (c + GetOrder b n)"
    using m by (simp add: BlockSizeForRequest_def push_bit_eq_mult power_add)
  with k have u: "unat (BlockSizeForRequest b n) = 2 ^ (c + GetOrder b n)" by simp
  show ?thesis unfolding u unfolding s
  proof (intro conjI allI impI)
    show "unat n \<le> 2 ^ (c + GetOrder b n)" using le [of "GetOrder b n"] by simp
    show "2 ^ (c + GetOrder b n) \<le> (2::nat) ^ (c + k)" if "unat n \<le> 2 ^ (c + k)" for k
      using that le [of k] by (intro power_increasing) simp_all
    show "GetOrder b (2 ^ (c + GetOrder b n)) = GetOrder b n" by (rule GetOrder_pow [OF m k])
  qed
qed

text \<open>A kernel that maps everything at one address, and the allocators built on it.\<close>

definition fixed_os :: "ptr \<Rightarrow> unit os_api" where
  "fixed_os p = \<lparr>os_mmap = \<lambda>os sz. (p, os), os_munmap = \<lambda>os q sz. os\<rparr>"

definition demo_buddy :: BuddyAllocator where
  "demo_buddy = \<lparr>bd_storage = \<lparr>vm_ptr = 4096, vm_size = 4096\<rparr>, bd_minBlockSize = 64, bd_maxOrder = 1,
     bd_freeLists = [0, 4096], bd_mem = (\<lambda>_. 0), bd_defined = True\<rparr>"

lemma demo_buddy_new: "BuddyAllocator_new (fixed_os 4096) () (\<lambda>_. 0) (2 ^ (6 + 1)) (2 ^ 6) = (Inr demo_buddy, ())"
  by (auto simp: BuddyAllocator_new_def VirtualMemory_new_def AllocateVirtualMemory_def fixed_os_def AlignUp_def
      Let_def demo_buddy_def PushNode_def bd_base_def node_ok_def)

theorem BlockSizeForRequest_least_witness:
  "unat (100 :: size_t) \<le> unat (BlockSizeForRequest demo_buddy 100) \<and>
   GetOrder demo_buddy (BlockSizeForRequest demo_buddy 100) = GetOrder demo_buddy 100"
  using BlockSizeForRequest_least [of demo_buddy 6 100] by (simp add: demo_buddy_def)

text \<open>
  C1.  For an arena of \<open>2 ^ (c + N)\<close> bytes at an address aligned to its size, with minimum blocks of at least the
  8 bytes of a node, every history of requests and frees of what was granted runs to its end (no search of a
  free list diverges) without an access to a node outside the arena or across another one, and what the client then holds is safe: every region is inside the arena, at least as long as the
  request, and disjoint from every other, whole blocks counted.
\<close>

theorem BuddyAllocator_history_safe:
  assumes new: "BuddyAllocator_new api os m (2 ^ (c + N)) (2 ^ c) = (Inr b, os')" and c3: "3 \<le> c" and cN: "c + N < 64"
    and al: "2 ^ (c + N) dvd unat (bd_base b)" and fit: "unat (bd_base b) + 2 ^ (c + N) \<le> 2 ^ 64"
    and legal: "run_mem BuddyAllocator_Allocate BuddyAllocator_Free ops b {} \<noteq> Misused"
  shows "\<exists>b' L. run_mem BuddyAllocator_Allocate BuddyAllocator_Free ops b {} = Ran b' L \<and> bd_defined b' \<and>
    (\<forall>(p, n) \<in> L. p \<noteq> nullptr \<and> unat (bd_base b) \<le> unat p \<and>
       unat p + unat (BlockSizeForRequest b n) \<le> unat (bd_base b) + 2 ^ (c + N) \<and>
       unat n \<le> unat (BlockSizeForRequest b n) \<and>
       (\<forall>(q, k) \<in> L. (p, n) \<noteq> (q, k) \<longrightarrow>
          disjoint_regions (unat p) (unat (BlockSizeForRequest b n)) (unat q) (unat (BlockSizeForRequest b k))))"
proof -
  note inv = BuddyAllocator_new_inv [OF new c3 cN al fit]
  note sh = BuddyAllocator_new_shape [OF new cN]
  have "bd_end b = unat (bd_base b) + 2 ^ (c + N)"
    using sh cN by (simp add: bd_end_def blockSize_def push_bit_eq_mult flip: power_add)
  moreover obtain b' L where r: "run_mem BuddyAllocator_Allocate BuddyAllocator_Free ops b {} = Ran b' L"
    using buddy.run_mem_returns [OF inv] legal by (metis mem_outcome.exhaust)
  moreover have "bd_defined b'" using buddy.run_mem_inv [OF inv r] by (auto simp: buddy_inv_def buddy_ok_def sound_params_def)
  ultimately show ?thesis using buddy.run_mem_safe [OF inv r] by auto
qed

lemma demo_run:
  "run_mem BuddyAllocator_Allocate BuddyAllocator_Free [Request 10, Request 64, Release 4096 10] demo_buddy {} =
     Ran (demo_buddy\<lparr>bd_freeLists := [4096, 0]\<rparr>) {(4160, 64)}"
  by (auto simp: demo_buddy_def BuddyAllocator_Allocate_def BuddyAllocator_Free_def GetOrder_def
      AllocateInternal.simps FreeInternal.simps PopNode_def PushNode_def blockSize_def push_bit_eq_mult
      RemoveNodeIfPresent_def RemoveLoop.simps Let_def bd_base_def fun_eq_iff node_ok_def)

lemma run_maxOrder:
  assumes "buddy_inv c b L" "run_mem BuddyAllocator_Allocate BuddyAllocator_Free ops b L = Ran b' L'"
  shows "bd_maxOrder b' = bd_maxOrder b"
proof -
  have r: "buddy_inv c b' L'" "unat (bd_base b') = unat (bd_base b)" "bd_end b' = bd_end b"
    using buddy.run_mem_inv [OF assms] by auto
  have "bd_end b = unat (bd_base b) + 2 ^ (c + bd_maxOrder b)" if "buddy_inv c b L" for b L
  proof -
    have s: "sound_params b c" using that by (auto simp: buddy_inv_def buddy_ok_def)
    show ?thesis using sound_exponent [OF s order_refl] by (simp add: bd_end_def blockSize_pow [OF s])
  qed
  from this [OF assms(1)] this [OF r(1)] r(2,3) have "(2::nat) ^ (c + bd_maxOrder b') = 2 ^ (c + bd_maxOrder b)" by simp
  then show ?thesis using power_inject_exp [of "2::nat"] by simp
qed

theorem BuddyAllocator_history_safe_witness:
  "\<exists>b' L. run_mem BuddyAllocator_Allocate BuddyAllocator_Free [Request 10, Request 64, Release 4096 10] demo_buddy {} =
       Ran b' L \<and> L = {(4160, 64)} \<and> bd_defined b' \<and>
     (\<forall>(p, n) \<in> L. unat n \<le> unat (BlockSizeForRequest demo_buddy n) \<and>
        unat p + unat (BlockSizeForRequest demo_buddy n) \<le> unat (bd_base demo_buddy) + 2 ^ (6 + 1))"
proof -
  have b: "bd_base demo_buddy = 4096" by (simp add: demo_buddy_def bd_base_def)
  have "run_mem BuddyAllocator_Allocate BuddyAllocator_Free [Request 10, Request 64, Release 4096 10] demo_buddy {} \<noteq>
      Misused" unfolding demo_run by simp
  from BuddyAllocator_history_safe [OF demo_buddy_new _ _ _ _ this] b
  show ?thesis unfolding demo_run by auto
qed

text \<open>
  C5.  A request is refused only when it has to be: in every state \<open>Allocate\<close> returns null exactly when the free lists of
  all orders whose blocks could hold the request are empty, and then the allocator is unchanged.
\<close>

theorem BuddyAllocator_refuses_exactly:
  assumes "bd_minBlockSize b = 2 ^ c" and "c < 64"
  shows "(fst (BuddyAllocator_Allocate b n) = nullptr \<longleftrightarrow>
       (\<forall>k \<le> bd_maxOrder b. unat n \<le> 2 ^ (c + k) \<longrightarrow> bd_freeLists b ! k = nullptr)) \<and>
    (fst (BuddyAllocator_Allocate b n) = nullptr \<longrightarrow> snd (BuddyAllocator_Allocate b n) = b)"
proof (cases "GetOrder b n > bd_maxOrder b")
  case True
  then have "\<not> unat n \<le> 2 ^ (c + k)" if "k \<le> bd_maxOrder b" for k using GetOrder_le_iff [OF assms, of n k] that by simp
  with True show ?thesis by (auto simp: BuddyAllocator_Allocate_def)
next
  case False
  then show ?thesis
    using AllocateInternal_null_iff [of b "GetOrder b n"] GetOrder_le_iff [OF assms, of n] by (auto simp: BuddyAllocator_Allocate_def)
qed

theorem BuddyAllocator_refuses_exactly_witness:
  "fst (BuddyAllocator_Allocate (demo_buddy\<lparr>bd_freeLists := [4096, 0]\<rparr>) 128) = nullptr \<longleftrightarrow>
     (\<forall>k \<le> 1. unat (128 :: size_t) \<le> 2 ^ (6 + k) \<longrightarrow> [4096, 0] ! k = nullptr)"
  using BuddyAllocator_refuses_exactly [of "demo_buddy\<lparr>bd_freeLists := [4096, 0]\<rparr>" 6 128] by (simp add: demo_buddy_def)

text \<open>
  C4.  Freeing merges all the way up: after a legal history that leaves nothing outstanding,
  however the frees were ordered, the whole arena is again one block, and a request for all of it
  is granted at the base address.
\<close>

theorem BuddyAllocator_full_coalescing:
  assumes new: "BuddyAllocator_new api os m (2 ^ (c + N)) (2 ^ c) = (Inr b0, os')" and c3: "3 \<le> c" and cN: "c + N < 64"
    and al: "2 ^ (c + N) dvd unat (bd_base b0)" and fit: "unat (bd_base b0) + 2 ^ (c + N) \<le> 2 ^ 64"
    and run: "run_mem BuddyAllocator_Allocate BuddyAllocator_Free ops b0 {} = Ran b {}"
  shows "fst (BuddyAllocator_Allocate b (2 ^ (c + N))) = bd_base b0"
proof -
  note inv0 = BuddyAllocator_new_inv [OF new c3 cN al fit]
  have inv: "buddy_inv c b {}" and "bd_base b = bd_base b0"
    using buddy.run_mem_inv [OF inv0 run] unsigned_word_eqI [of "bd_base b" "bd_base b0"] by blast+
  moreover have "bd_maxOrder b = N" using run_maxOrder [OF inv0 run] BuddyAllocator_new_shape [OF new cN] by simp
  ultimately show ?thesis using empty_whole_block [OF inv] by auto
qed

theorem BuddyAllocator_full_coalescing_witness:
  "\<exists>b. run_mem BuddyAllocator_Allocate BuddyAllocator_Free
       [Request 10, Request 64, Release 4096 10, Release 4160 64] demo_buddy {} = Ran b {} \<and>
     fst (BuddyAllocator_Allocate b 128) = 4096"
proof -
  have b: "bd_base demo_buddy = 4096" by (simp add: demo_buddy_def bd_base_def)
  have r: "run_mem BuddyAllocator_Allocate BuddyAllocator_Free
       [Request 10, Request 64, Release 4096 10, Release 4160 64] demo_buddy {} = Ran demo_buddy {}"
  by (auto simp: demo_buddy_def BuddyAllocator_Allocate_def BuddyAllocator_Free_def GetOrder_def
      AllocateInternal.simps FreeInternal.simps PopNode_def PushNode_def blockSize_def push_bit_eq_mult
      RemoveNodeIfPresent_def RemoveLoop.simps Let_def bd_base_def fun_eq_iff node_ok_def)
  from BuddyAllocator_full_coalescing [OF demo_buddy_new _ _ _ _ this] b r show ?thesis by auto
qed

text \<open>
  C12.  \<open>FreeInternal\<close> clears the block-size bit of the absolute address, not of the offset.  \<open>mmap\<close> promises page alignment only.
  If any bit of the base address between the minimum block and half the arena is set, then allocating one block of
  that size from the fresh allocator is fine and returns the base, but freeing it is undefined: a node is
  written below the storage.
\<close>

theorem buddy_free_unaligned_base:
  assumes new: "BuddyAllocator_new api os m (2 ^ (c + N)) (2 ^ c) = (Inr b, os')" and c3: "3 \<le> c" and cN: "c + N < 64"
    and k: "k < N" and odd: "bit (bd_base b) (c + k)" and al: "8 dvd unat (bd_base b)"
    and fit: "unat (bd_base b) + 2 ^ (c + N) \<le> 2 ^ 64"
  shows "\<exists>b1 b2. BuddyAllocator_Allocate b (2 ^ (c + k)) = (bd_base b, b1) \<and> bd_defined b1 \<and>
    BuddyAllocator_Free b1 (bd_base b) (2 ^ (c + k)) = Some b2 \<and> \<not> bd_defined b2"
proof -
  let ?B = "bd_base b" and ?h = "2 ^ (c + k) :: size_t"
  note sh = BuddyAllocator_new_shape [OF new cN]
  have sz: "2 ^ (c + N) \<le> unat (vm_size (bd_storage b))" using sh page_round_up [OF cN] by simp
  have bs: "blockSize b l = 2 ^ (c + l)" for l using sh by (simp add: blockSize_def push_bit_eq_mult power_add)
  have d8: "8 dvd (2::nat) ^ (c + l)" for l using le_imp_power_dvd [of 3 "c + l" "2::nat"] c3 by simp
  have ok: "node_ok b (?B + 2 ^ (c + l))" "unat (?B + 2 ^ (c + l)) = unat ?B + 2 ^ (c + l)" if "l < N" for l
  proof -
    have "(2::nat) ^ Suc (c + l) \<le> 2 ^ (c + N)" using that by (intro power_increasing) simp_all
    then have "(2::nat) ^ (c + l) * 2 \<le> 2 ^ (c + N)" by simp
    moreover have "8 \<le> (2::nat) ^ (c + l)" using d8 [of l] by (simp add: dvd_imp_le)
    ultimately have lt: "unat ?B + 2 ^ (c + l) < 2 ^ 64" "2 ^ (c + l) + 8 \<le> unat (vm_size (bd_storage b))" using fit sz by linarith+
    then show u: "unat (?B + 2 ^ (c + l)) = unat ?B + 2 ^ (c + l)"
      using that cN unat_plus_less [of ?B "2 ^ (c + l)"] by simp
    show "node_ok b (?B + 2 ^ (c + l))" unfolding node_ok_def u using al d8 [of l] lt(2) by simp
  qed
  have okB: "node_ok b ?B" using al sz dvd_imp_le [OF d8 [of N]] by (simp add: node_ok_def)
  from AllocateInternal_fresh [of b N k] sh okB ok(1) k bs obtain b1 where
    b1: "AllocateInternal b k = (?B, b1)" "short_lists b1" "bd_storage b1 = bd_storage b" "bd_maxOrder b1 = N"
      "bd_minBlockSize b1 = bd_minBlockSize b" "bd_defined b1" "bd_freeLists b1 ! k = ?B + ?h" by auto
  have sp: "bd_base b1 = ?B" "blockSize b1 = blockSize b" "GetOrder b1 = GetOrder b"
    using b1(3,5) by (simp_all add: bd_base_def blockSize_def GetOrder_def fun_eq_iff)
  have o: "GetOrder b ?h = k" using sh k cN by (intro GetOrder_pow) simp_all
  have a: "BuddyAllocator_Allocate b ?h = (?B, b1)" using b1(1) o sh k by (simp add: BuddyAllocator_Allocate_def)
  have B0: "?B \<noteq> 0" using sh by simp
  then have "?B + ?h \<noteq> 0" using ok(2) [OF k] by (auto simp: unat_eq_0 dest!: arg_cong [of "?B + ?h" 0 unat])
  then obtain b' where r: "RemoveNodeIfPresent b1 k (?B + ?h) = Some (True, b')" "short_lists b'" "bd_base b' = ?B"
    using RemoveNode_short [OF b1(2), of k "?B + ?h"] b1(4,7) k sp(1) by auto
  have "?B AND NOT ?h = ?B - ?h" using odd by (simp add: and_not_pow2)
  moreover have "unat ?h \<noteq> 0" using k cN by simp
  then have "?h \<noteq> 0" by (metis unat_0)
  then have "?B AND NOT ?h \<noteq> ?B" unfolding calculation by (metis add.right_neutral diff_add_cancel add_left_cancel)
  with word_and_le2 [of ?B "NOT ?h"] have "unat (?B - ?h) < unat ?B"
    unfolding calculation word_less_nat_alt [symmetric] by (simp only: order_less_le) simp
  ultimately obtain b2 where "FreeInternal b' (?B AND NOT ?h) (Suc k) = Some b2" "\<not> bd_defined b2"
    using FreeInternal_below [OF r(2), of "?B - ?h" "Suc k"] r(3) by auto
  then have "FreeInternal b1 ?B k = Some b2" "\<not> bd_defined b2"
    using r(1) b1(4) k sp bs by (simp_all add: FreeInternal.simps [of b1] Let_def)
  then show ?thesis using a b1(6) o sp(3) B0 by (auto simp: BuddyAllocator_Free_def)
qed

theorem buddy_free_unaligned_base_witness:
  "\<exists>b b1 b2. BuddyAllocator_new (fixed_os 0x7F0000003000) () (\<lambda>_. 0) 8192 64 = (Inr b, ()) \<and>
     BuddyAllocator_Allocate b 4096 = (0x7F0000003000, b1) \<and> bd_defined b1 \<and>
     BuddyAllocator_Free b1 0x7F0000003000 4096 = Some b2 \<and> \<not> bd_defined b2"
proof -
  have "real (unat ((8192::size_t) div 64)) = 2 ^ 7" by simp
  then have "nat \<lfloor>log 2 (real (unat ((8192::size_t) div 64)))\<rfloor> = 7" using floor_log_pow [of 7] by simp
  then obtain b where b: "BuddyAllocator_new (fixed_os 0x7F0000003000) () (\<lambda>_. 0) 8192 64 = (Inr b, ())"
    and base: "bd_base b = 0x7F0000003000"
    by (auto simp: BuddyAllocator_new_def VirtualMemory_new_def AllocateVirtualMemory_def fixed_os_def AlignUp_def
      Let_def PushNode_def bd_base_def)
  have "bit (0x7F0000003000 :: ptr) 12" by simp
  with buddy_free_unaligned_base [of "fixed_os 0x7F0000003000" "()" "\<lambda>_. 0" 6 7 b "()" 6] b base
  show ?thesis by auto
qed

end
