(* ===== verification/MemoryAllocator.thy ===== *)
theory MemoryAllocator
  imports BuddyAllocator
begin







subsection \<open>Histories\<close>













subsection \<open>Properties\<close>





end
