(* ===== verification/LockFreeFreelist.thy ===== *)
theory LockFreeFreelist
  imports Freelist
begin

text \<open>
  \<^verbatim>\<open>include/TaggedPointer.hpp\<close> and \<^verbatim>\<open>include/LockFreeFreelist.hpp\<close>.  Threads run \<open>Push\<close> and
  \<open>Pop\<close> concurrently; a step of the system is one atomic access of one thread (a load of the
  head, a load or store of a \<open>next\<close> field, a compare-exchange), in any interleaving, and a weak
  compare-exchange may fail spuriously.  Accesses are interleaved as a total order: the weaker
  memory orders of the source are not modelled.  A block that was popped belongs to the client,
  who may write into it at any time, also while another thread still reads its \<open>next\<close> field.
\<close>

record TaggedPointer =
  tp_ptr :: ptr
  tp_tag :: u64

definition TaggedPointer_eq :: "TaggedPointer \<Rightarrow> TaggedPointer \<Rightarrow> bool" where
  "TaggedPointer_eq a b \<longleftrightarrow> tp_ptr a = tp_ptr b \<and> tp_tag a = tp_tag b"

record lf_list =
  lf_head :: TaggedPointer
  lf_next :: node_mem

definition LockFreeFreelist_new :: "node_mem \<Rightarrow> lf_list" where
  "LockFreeFreelist_new m = \<lparr>lf_head = \<lparr>tp_ptr = nullptr, tp_tag = 0\<rparr>, lf_next = m\<rparr>"

text \<open>
  \<open>compare_exchange_weak\<close>: whether it succeeded, and the values of the atomic and of
  \<open>expected\<close> afterwards.
\<close>

definition compare_exchange_weak ::
  "bool \<Rightarrow> TaggedPointer \<Rightarrow> TaggedPointer \<Rightarrow> TaggedPointer \<Rightarrow> bool \<times> TaggedPointer \<times> TaggedPointer" where
  "compare_exchange_weak spurious cur expected desired =
     (if TaggedPointer_eq cur expected \<and> \<not> spurious then (True, desired, expected)
      else (False, cur, cur))"

text \<open>
  Where a thread is: outside, before the store to \<open>node->next\<close> and before the compare-exchange of
  \<open>Push\<close>, at the loop test and before the compare-exchange of \<open>Pop\<close>.
\<close>

datatype lf_pc =
    Idle
  | Push_store ptr TaggedPointer
  | Push_cas ptr TaggedPointer
  | Pop_test TaggedPointer
  | Pop_cas TaggedPointer ptr

text \<open>The points at which an operation takes effect; every other step is silent.\<close>

datatype lf_event = Silent | Pushed ptr | Popped ptr | SawEmpty

definition saw :: "TaggedPointer \<Rightarrow> lf_event" where
  "saw h = (if tp_ptr h = nullptr then SawEmpty else Silent)"

definition Push_begin :: "lf_list \<Rightarrow> ptr \<Rightarrow> lf_pc" where
  "Push_begin s node = Push_store node (lf_head s)"

definition Pop_begin :: "lf_list \<Rightarrow> lf_event \<times> lf_pc" where
  "Pop_begin s = (saw (lf_head s), Pop_test (lf_head s))"

definition Push_store_next :: "lf_list \<Rightarrow> ptr \<Rightarrow> TaggedPointer \<Rightarrow> lf_list \<times> lf_pc" where
  "Push_store_next s node oldHead =
     (s\<lparr>lf_next := (lf_next s)(node := tp_ptr oldHead)\<rparr>, Push_cas node oldHead)"

definition Push_exchange :: "bool \<Rightarrow> lf_list \<Rightarrow> ptr \<Rightarrow> TaggedPointer \<Rightarrow> lf_event \<times> lf_list \<times> lf_pc" where
  "Push_exchange spurious s node oldHead =
     (let newHead = \<lparr>tp_ptr = node, tp_tag = tp_tag oldHead + 1\<rparr>;
          (ok, head', oldHead') = compare_exchange_weak spurious (lf_head s) oldHead newHead
      in if ok then (Pushed node, s\<lparr>lf_head := head'\<rparr>, Idle)
         else (Silent, s\<lparr>lf_head := head'\<rparr>, Push_store node oldHead'))"

definition Pop_load_next :: "lf_list \<Rightarrow> TaggedPointer \<Rightarrow> lf_pc" where
  "Pop_load_next s oldHead =
     (if tp_ptr oldHead = nullptr then Idle else Pop_cas oldHead (lf_next s (tp_ptr oldHead)))"

definition Pop_exchange ::
  "bool \<Rightarrow> lf_list \<Rightarrow> TaggedPointer \<Rightarrow> ptr \<Rightarrow> lf_event \<times> lf_list \<times> lf_pc" where
  "Pop_exchange spurious s oldHead nextNode =
     (let newHead = \<lparr>tp_ptr = nextNode, tp_tag = tp_tag oldHead + 1\<rparr>;
          (ok, head', oldHead') = compare_exchange_weak spurious (lf_head s) oldHead newHead
      in if ok then (Popped (tp_ptr oldHead), s\<lparr>lf_head := head'\<rparr>, Idle)
         else (saw oldHead', s\<lparr>lf_head := head'\<rparr>, Pop_test oldHead'))"

fun lf_atomic :: "bool \<Rightarrow> lf_list \<Rightarrow> lf_pc \<Rightarrow> lf_event \<times> lf_list \<times> lf_pc" where
  "lf_atomic spurious s Idle = (Silent, s, Idle)"
| "lf_atomic spurious s (Push_store node oldHead) = (Silent, Push_store_next s node oldHead)"
| "lf_atomic spurious s (Push_cas node oldHead) = Push_exchange spurious s node oldHead"
| "lf_atomic spurious s (Pop_test oldHead) = (Silent, s, Pop_load_next s oldHead)"
| "lf_atomic spurious s (Pop_cas oldHead nextNode) = Pop_exchange spurious s oldHead nextNode"

subsection \<open>The concurrent system\<close>

record lf_sys =
  ls_list :: lf_list
  ls_pc :: "nat \<Rightarrow> lf_pc"
  ls_held :: "ptr set"

definition lf_init :: "node_mem \<Rightarrow> ptr set \<Rightarrow> lf_sys" where
  "lf_init m S = \<lparr>ls_list = LockFreeFreelist_new m, ls_pc = (\<lambda>_. Idle), ls_held = S\<rparr>"

fun held_after :: "lf_event \<Rightarrow> ptr set \<Rightarrow> ptr set" where
  "held_after (Popped p) H = insert p H"
| "held_after e H = H"

inductive lf_step :: "lf_sys \<Rightarrow> lf_event \<Rightarrow> lf_sys \<Rightarrow> bool" where
  call_push: "ls_pc s t = Idle \<Longrightarrow> p \<in> ls_held s \<Longrightarrow>
     lf_step s Silent (s\<lparr>ls_pc := (ls_pc s)(t := Push_begin (ls_list s) p), ls_held := ls_held s - {p}\<rparr>)"
| call_pop: "ls_pc s t = Idle \<Longrightarrow> Pop_begin (ls_list s) = (e, pc) \<Longrightarrow>
     lf_step s e (s\<lparr>ls_pc := (ls_pc s)(t := pc)\<rparr>)"
| atomic: "ls_pc s t \<noteq> Idle \<Longrightarrow> lf_atomic spurious (ls_list s) (ls_pc s t) = (e, l, pc) \<Longrightarrow>
     lf_step s e (s\<lparr>ls_list := l, ls_pc := (ls_pc s)(t := pc), ls_held := held_after e (ls_held s)\<rparr>)"
| client_write: "p \<in> ls_held s \<Longrightarrow>
     lf_step s Silent (s\<lparr>ls_list := (ls_list s)\<lparr>lf_next := (lf_next (ls_list s))(p := v)\<rparr>\<rparr>)"

inductive lf_run :: "lf_sys \<Rightarrow> lf_event list \<Rightarrow> lf_sys \<Rightarrow> bool" where
  run_nil: "lf_run s [] s"
| run_step: "lf_run s es s' \<Longrightarrow> lf_step s' e s'' \<Longrightarrow> lf_run s (es @ [e]) s''"

text \<open>The specification: the events, one after the other, on a sequential stack.\<close>

fun stack_event :: "lf_event \<Rightarrow> ptr list \<Rightarrow> ptr list option" where
  "stack_event Silent xs = Some xs"
| "stack_event (Pushed p) xs = Some (p # xs)"
| "stack_event (Popped p) xs = (case xs of [] \<Rightarrow> None | x # ys \<Rightarrow> if x = p then Some ys else None)"
| "stack_event SawEmpty xs = (if xs = [] then Some xs else None)"

fun stack_run :: "lf_event list \<Rightarrow> ptr list \<Rightarrow> ptr list option" where
  "stack_run [] xs = Some xs"
| "stack_run (e # es) xs = (case stack_event e xs of None \<Rightarrow> None | Some ys \<Rightarrow> stack_run es ys)"

text \<open>Completed exchanges: each of them advances the tag.\<close>

fun exchange :: "lf_event \<Rightarrow> nat" where
  "exchange (Pushed p) = 1"
| "exchange (Popped p) = 1"
| "exchange e = 0"

definition exchanges :: "lf_event list \<Rightarrow> nat" where
  "exchanges es = sum_list (map exchange es)"

lemma stack_run_snoc:
  "stack_run (es @ [e]) xs = (case stack_run es xs of None \<Rightarrow> None | Some ys \<Rightarrow> stack_event e ys)"
  by (induction es arbitrary: xs) (auto split: option.splits)

lemma exchanges_snoc: "exchanges (es @ [e]) = exchanges es + exchange e"
  by (simp add: exchanges_def)

lemma TaggedPointer_eq_iff [simp]: "TaggedPointer_eq a b \<longleftrightarrow> a = b"
  by (auto simp: TaggedPointer_eq_def)

subsection \<open>The invariant\<close>

text \<open>The block a thread is pushing: neither in the list nor with the client.\<close>

fun in_flight :: "lf_pc \<Rightarrow> ptr set" where
  "in_flight (Push_store p h) = {p}"
| "in_flight (Push_cas p h) = {p}"
| "in_flight pc = {}"

text \<open>
  What a thread knows after \<open>n\<close> exchanges in all: a head it loaded with the tag \<open>n\<close> is the
  current head, and then what it read through it is current too.
\<close>

fun pc_ok :: "nat \<Rightarrow> lf_list \<Rightarrow> lf_pc \<Rightarrow> bool" where
  "pc_ok n s Idle \<longleftrightarrow> True"
| "pc_ok n s (Push_store p h) \<longleftrightarrow> unat (tp_tag h) \<le> n \<and> (unat (tp_tag h) = n \<longrightarrow> h = lf_head s)"
| "pc_ok n s (Push_cas p h) \<longleftrightarrow> unat (tp_tag h) \<le> n \<and> (unat (tp_tag h) = n \<longrightarrow> h = lf_head s) \<and>
     lf_next s p = tp_ptr h"
| "pc_ok n s (Pop_test h) \<longleftrightarrow> unat (tp_tag h) \<le> n \<and> (unat (tp_tag h) = n \<longrightarrow> h = lf_head s)"
| "pc_ok n s (Pop_cas h q) \<longleftrightarrow> unat (tp_tag h) \<le> n \<and> tp_ptr h \<noteq> nullptr \<and>
     (unat (tp_tag h) = n \<longrightarrow> h = lf_head s \<and> lf_next s (tp_ptr h) = q)"

text \<open>Every block is in one place: in the list, with the client, or on its way in.\<close>

definition places :: "ptr set \<Rightarrow> ptr set \<Rightarrow> ptr set \<Rightarrow> (nat \<Rightarrow> ptr set) \<Rightarrow> bool" where
  "places S X H fl \<longleftrightarrow> X \<union> H \<union> (\<Union>t. fl t) = S \<and> X \<inter> H = {} \<and>
     (\<forall>t. X \<inter> fl t = {} \<and> H \<inter> fl t = {}) \<and> (\<forall>t u. t \<noteq> u \<longrightarrow> fl t \<inter> fl u = {})"

lemma places_call: "places S X H fl \<Longrightarrow> p \<in> H \<Longrightarrow> fl t = {} \<Longrightarrow> places S X (H - {p}) (fl(t := {p}))"
  unfolding places_def by (auto split: if_splits)

lemma places_flight:
  assumes pl: "places S X H fl" and p: "p \<in> fl t"
  shows "p \<in> S \<and> p \<notin> X \<and> p \<notin> H \<and> (\<forall>u. u \<noteq> t \<longrightarrow> p \<notin> fl u)"
proof -
  have d: "\<forall>u v. u \<noteq> v \<longrightarrow> fl u \<inter> fl v = {}" and "\<forall>t. X \<inter> fl t = {} \<and> H \<inter> fl t = {}"
    and "X \<union> H \<union> (\<Union>t. fl t) = S" using pl unfolding places_def by blast+
  then have "p \<in> S" "X \<inter> fl t = {}" "H \<inter> fl t = {}" using p by blast+
  moreover have "p \<notin> fl u" if "u \<noteq> t" for u using d that p by blast
  ultimately show ?thesis using p by blast
qed

lemma places_pushed:
  assumes pl: "places S X H fl" and t: "fl t = {p}"
  shows "places S (insert p X) H (fl(t := {}))"
proof -
  have p: "p \<in> S" "p \<notin> H" "\<forall>u. u \<noteq> t \<longrightarrow> p \<notin> fl u" using places_flight [OF pl, of p t] t by auto
  have "X \<union> H \<union> (\<Union>u. fl u) = insert p X \<union> H \<union> (\<Union>u. (fl(t := {})) u)"
    using t p by (auto split: if_splits)
  then show ?thesis using pl p unfolding places_def by (auto split: if_splits)
qed

lemma places_popped: "places S X H fl \<Longrightarrow> p \<in> X \<Longrightarrow> places S (X - {p}) (insert p H) fl"
  unfolding places_def by (auto split: if_splits)

lemma in_flight_upd: "in_flight \<circ> (f(t := pc)) = (in_flight \<circ> f)(t := in_flight pc)"
  by (rule fun_upd_comp)

lemma in_flight_same: "in_flight pc = in_flight (f t) \<Longrightarrow> in_flight \<circ> (f(t := pc)) = in_flight \<circ> f"
  by (simp add: fun_eq_iff)

definition lf_inv :: "ptr set \<Rightarrow> nat \<Rightarrow> lf_sys \<Rightarrow> ptr list \<Rightarrow> bool" where
  "lf_inv S n s xs \<longleftrightarrow>
     nodes (lf_next (ls_list s)) (tp_ptr (lf_head (ls_list s))) xs \<and>
     unat (tp_tag (lf_head (ls_list s))) = n \<and>
     (\<forall>t. pc_ok n (ls_list s) (ls_pc s t)) \<and>
     places S (set xs) (ls_held s) (in_flight \<circ> ls_pc s)"

text \<open>An exchange makes every other thread's loaded head stale, without disturbing its own node.\<close>

lemma pc_ok_exchange: "pc_ok n s pc \<Longrightarrow> pc_ok (Suc n) (s\<lparr>lf_head := h\<rparr>) pc"
  by (cases pc) auto

lemma pc_ok_write:
  assumes "pc_ok n s pc" "nodes (lf_next s) (tp_ptr (lf_head s)) xs" "p \<notin> set xs" "p \<notin> in_flight pc"
  shows "pc_ok n (s\<lparr>lf_next := (lf_next s)(p := v)\<rparr>) pc"
proof (cases pc)
  case (Pop_cas h q)
  then show ?thesis using assms by (cases xs) auto
qed (use assms in auto)

lemma unat_tag_Suc: "unat w = n \<Longrightarrow> Suc n < 2 ^ 64 \<Longrightarrow> unat (w + 1) = Suc n" for w :: u64
  using unat_plus_less [of w 1] by simp

lemma inv_call_push:
  assumes i: "lf_inv S n s xs" and t: "ls_pc s t = Idle" and p: "p \<in> ls_held s"
  shows "lf_inv S n (s\<lparr>ls_pc := (ls_pc s)(t := Push_begin (ls_list s) p), ls_held := ls_held s - {p}\<rparr>) xs"
  using i places_call [of S "set xs" "ls_held s" "in_flight \<circ> ls_pc s" p t] t p
  by (auto simp: lf_inv_def Push_begin_def in_flight_upd)

lemma inv_call_pop:
  assumes i: "lf_inv S n s xs" and t: "ls_pc s t = Idle" and e: "Pop_begin (ls_list s) = (e, pc)"
  shows "stack_event e xs = Some xs \<and> lf_inv S n (s\<lparr>ls_pc := (ls_pc s)(t := pc)\<rparr>) xs \<and> exchange e = 0"
proof -
  have pc: "pc = Pop_test (lf_head (ls_list s))" and ev: "e = saw (lf_head (ls_list s))" using e by (auto simp: Pop_begin_def)
  have "lf_inv S n (s\<lparr>ls_pc := (ls_pc s)(t := pc)\<rparr>) xs"
    using i pc t in_flight_same [of pc "ls_pc s" t] by (auto simp: lf_inv_def)
  moreover have "stack_event e xs = Some xs \<and> exchange e = 0" using i ev by (auto simp: saw_def lf_inv_def)
  ultimately show ?thesis by blast
qed

lemma inv_write:
  assumes i: "lf_inv S n s xs" and p: "p \<in> ls_held s"
  shows "lf_inv S n (s\<lparr>ls_list := (ls_list s)\<lparr>lf_next := (lf_next (ls_list s))(p := v)\<rparr>\<rparr>) xs"
proof -
  have "p \<notin> set xs" "\<And>t. p \<notin> in_flight (ls_pc s t)" using i p by (auto simp: lf_inv_def places_def)
  with i show ?thesis using pc_ok_write [of n "ls_list s"] by (auto simp: lf_inv_def simp del: fun_upd_apply)
qed

text \<open>A step that leaves the list and what the thread has in flight alone only has to justify the new counter.\<close>

lemma inv_pc:
  assumes i: "lf_inv S n s xs" and f: "in_flight pc = in_flight (ls_pc s t)" and ok: "pc_ok n (ls_list s) pc"
  shows "lf_inv S n (s\<lparr>ls_pc := (ls_pc s)(t := pc)\<rparr>) xs"
  using i ok in_flight_same [of pc "ls_pc s" t] f by (auto simp: lf_inv_def)

lemma inv_store:
  assumes i: "lf_inv S n s xs" and t: "ls_pc s t = Push_store p h"
  shows "lf_inv S n (s\<lparr>ls_list := (ls_list s)\<lparr>lf_next := (lf_next (ls_list s))(p := tp_ptr h)\<rparr>,
    ls_pc := (ls_pc s)(t := Push_cas p h)\<rparr>) xs" (is "lf_inv S n ?s xs")
proof -
  have pl: "places S (set xs) (ls_held s) (in_flight \<circ> ls_pc s)" and nd: "nodes (lf_next (ls_list s)) (tp_ptr (lf_head (ls_list s))) xs"
    and ok: "\<And>u. pc_ok n (ls_list s) (ls_pc s u)"
    using i by (auto simp: lf_inv_def)
  have p: "p \<in> in_flight (ls_pc s t)" using t by simp
  then have px: "p \<notin> set xs" and pu: "\<And>u. u \<noteq> t \<Longrightarrow> p \<notin> in_flight (ls_pc s u)"
    using places_flight [OF pl, of p t] by auto
  have "places S (set xs) (ls_held ?s) (in_flight \<circ> ls_pc ?s)"
    using pl t in_flight_same [of "Push_cas p h" "ls_pc s" t] by simp
  moreover have "pc_ok n (ls_list ?s) (ls_pc ?s u)" for u
    using pc_ok_write [OF ok [of u] nd px pu] ok [of t] t by (cases "u = t") auto
  ultimately show ?thesis using i px by (auto simp: lf_inv_def simp del: fun_upd_apply)
qed

lemma inv_pushed:
  assumes i: "lf_inv S n s xs" and t: "ls_pc s t = Push_cas p h" and h: "lf_head (ls_list s) = h"
    and n: "Suc n < 2 ^ 64" and S: "nullptr \<notin> S"
  shows "lf_inv S (Suc n) (s\<lparr>ls_list := (ls_list s)\<lparr>lf_head := \<lparr>tp_ptr = p, tp_tag = tp_tag h + 1\<rparr>\<rparr>,
    ls_pc := (ls_pc s)(t := Idle)\<rparr>) (p # xs)" (is "lf_inv S (Suc n) ?s (p # xs)")
proof -
  have pl: "places S (set xs) (ls_held s) (in_flight \<circ> ls_pc s)"
    and nd: "nodes (lf_next (ls_list s)) (tp_ptr h) xs" and tag: "unat (tp_tag h) = n"
    and ok: "\<And>u. pc_ok n (ls_list s) (ls_pc s u)"
    using i h by (auto simp: lf_inv_def)
  have p: "p \<in> in_flight (ls_pc s t)" using t by simp
  then have "p \<in> S" using places_flight [OF pl, of p t] by auto
  then have "p \<noteq> 0" using S by auto
  moreover have "lf_next (ls_list s) p = tp_ptr h" using ok [of t] t by simp
  moreover have "pc_ok (Suc n) (ls_list ?s) (ls_pc ?s u)" for u
    using pc_ok_exchange [OF ok [of u]] by (cases "u = t") auto
  moreover have "places S (set (p # xs)) (ls_held ?s) (in_flight \<circ> ls_pc ?s)"
    using places_pushed [OF pl, of t p] t by (simp add: in_flight_upd del: fun_upd_apply)
  ultimately show ?thesis using nd unat_tag_Suc [OF tag n] by (simp add: lf_inv_def)
qed

lemma inv_popped:
  assumes i: "lf_inv S n s xs" and t: "ls_pc s t = Pop_cas h q" and h: "lf_head (ls_list s) = h"
    and n: "Suc n < 2 ^ 64"
  shows "\<exists>ys. xs = tp_ptr h # ys \<and> lf_inv S (Suc n) (s\<lparr>ls_list := (ls_list s)\<lparr>lf_head := \<lparr>tp_ptr = q, tp_tag = tp_tag h + 1\<rparr>\<rparr>,
    ls_pc := (ls_pc s)(t := Idle), ls_held := insert (tp_ptr h) (ls_held s)\<rparr>) ys" (is "\<exists>ys. _ \<and> lf_inv S (Suc n) ?s ys")
proof -
  have pl: "places S (set xs) (ls_held s) (in_flight \<circ> ls_pc s)"
    and nd: "nodes (lf_next (ls_list s)) (tp_ptr h) xs" and tag: "unat (tp_tag h) = n"
    and ok: "\<And>u. pc_ok n (ls_list s) (ls_pc s u)"
    using i h by (auto simp: lf_inv_def)
  have "tp_ptr h \<noteq> 0" and q: "lf_next (ls_list s) (tp_ptr h) = q" using ok [of t] t tag h by auto
  then obtain ys where xs: "xs = tp_ptr h # ys" and ny: "nodes (lf_next (ls_list s)) q ys"
    using nd by (cases xs) auto
  have "set xs - {tp_ptr h} = set ys" using nodes_distinct [OF nd] xs by auto
  moreover have "in_flight \<circ> (ls_pc s)(t := Idle) = in_flight \<circ> ls_pc s" using t by (intro in_flight_same) simp
  ultimately have "places S (set ys) (ls_held ?s) (in_flight \<circ> ls_pc ?s)"
    using places_popped [OF pl, of "tp_ptr h"] xs by simp
  moreover have "pc_ok (Suc n) (ls_list ?s) (ls_pc ?s u)" for u
    using pc_ok_exchange [OF ok [of u]] by (cases "u = t") auto
  ultimately have "lf_inv S (Suc n) ?s ys" using ny unat_tag_Suc [OF tag n] by (simp add: lf_inv_def)
  with xs show ?thesis by blast
qed

lemma lf_step_inv:
  assumes st: "lf_step s e s'" and i: "lf_inv S n s xs" and n: "n + exchange e < 2 ^ 64" and S: "nullptr \<notin> S"
  shows "\<exists>ys. stack_event e xs = Some ys \<and> lf_inv S (n + exchange e) s' ys"
  using st
proof cases
  case (call_push t p)
  then show ?thesis using inv_call_push [OF i] by simp
next
  case (call_pop t pc)
  then show ?thesis using inv_call_pop [OF i] by simp
next
  case (client_write p v)
  then show ?thesis using inv_write [OF i] by simp
next
  case (atomic t spurious l pc)
  have ok: "pc_ok n (ls_list s) (ls_pc s t)" and tag: "unat (tp_tag (lf_head (ls_list s))) = n"
    and nd: "nodes (lf_next (ls_list s)) (tp_ptr (lf_head (ls_list s))) xs" using i by (auto simp: lf_inv_def)
  show ?thesis
  proof (cases "ls_pc s t")
    case Idle
    with atomic show ?thesis by simp
  next
    case (Push_store p h)
    with atomic inv_store [OF i Push_store] show ?thesis by (simp add: Push_store_next_def)
  next
    case (Push_cas p h)
    show ?thesis
    proof (cases "lf_head (ls_list s) = h \<and> \<not> spurious")
      case True
      with atomic Push_cas have "e = Pushed p" by (simp add: Push_exchange_def compare_exchange_weak_def)
      with True atomic Push_cas n inv_pushed [OF i Push_cas _ _ S] show ?thesis
        by (simp add: Push_exchange_def compare_exchange_weak_def)
    next
      case False
      with atomic Push_cas inv_pc [OF i, of "Push_store p (lf_head (ls_list s))" t] tag show ?thesis
        by (auto simp: Push_exchange_def compare_exchange_weak_def)
    qed
  next
    case (Pop_test h)
    with atomic inv_pc [OF i, of pc t] ok show ?thesis by (auto simp: Pop_load_next_def)
  next
    case (Pop_cas h q)
    show ?thesis
    proof (cases "lf_head (ls_list s) = h \<and> \<not> spurious")
      case True
      with atomic Pop_cas have "e = Popped (tp_ptr h)" by (simp add: Pop_exchange_def compare_exchange_weak_def)
      with True atomic Pop_cas n inv_popped [OF i Pop_cas] show ?thesis
        by (auto simp: Pop_exchange_def compare_exchange_weak_def)
    next
      case False
      with atomic Pop_cas inv_pc [OF i, of "Pop_test (lf_head (ls_list s))" t] tag nd show ?thesis
        by (auto simp: Pop_exchange_def compare_exchange_weak_def saw_def)
    qed
  qed
qed

lemma lf_init_inv: "lf_inv S 0 (lf_init m S) []"
  by (simp add: lf_inv_def lf_init_def LockFreeFreelist_new_def places_def)

lemma lf_run_inv:
  assumes "lf_run s es s'" and "s = lf_init m S" and "exchanges es < 2 ^ 64" and "nullptr \<notin> S"
  shows "\<exists>xs. stack_run es [] = Some xs \<and> lf_inv S (exchanges es) s' xs"
  using assms
proof (induction rule: lf_run.induct)
  case (run_nil s)
  then show ?case by (simp add: lf_init_inv exchanges_def)
next
  case (run_step s es s' e s'')
  then obtain xs where xs: "stack_run es [] = Some xs" "lf_inv S (exchanges es) s' xs"
    by (auto simp: exchanges_snoc)
  from lf_step_inv [OF run_step.hyps(2) xs(2)] run_step.prems obtain ys where
    "stack_event e xs = Some ys" "lf_inv S (exchanges es + exchange e) s'' ys" by (auto simp: exchanges_snoc)
  with xs show ?case by (simp add: stack_run_snoc exchanges_snoc)
qed

subsection \<open>An interpreter for schedules\<close>

text \<open>A scheduler's choice, and the step it leads to.\<close>

datatype lf_choice = CallPush nat ptr | CallPop nat | Run nat bool | Write ptr ptr

fun lf_do :: "lf_choice \<Rightarrow> lf_sys \<Rightarrow> (lf_event \<times> lf_sys) option" where
  "lf_do (CallPush t p) s =
     (if ls_pc s t = Idle \<and> p \<in> ls_held s
      then Some (Silent, s\<lparr>ls_pc := (ls_pc s)(t := Push_begin (ls_list s) p), ls_held := ls_held s - {p}\<rparr>)
      else None)"
| "lf_do (CallPop t) s =
     (if ls_pc s t = Idle
      then let (e, pc) = Pop_begin (ls_list s) in Some (e, s\<lparr>ls_pc := (ls_pc s)(t := pc)\<rparr>) else None)"
| "lf_do (Run t spurious) s =
     (if ls_pc s t \<noteq> Idle
      then let (e, l, pc) = lf_atomic spurious (ls_list s) (ls_pc s t)
           in Some (e, s\<lparr>ls_list := l, ls_pc := (ls_pc s)(t := pc), ls_held := held_after e (ls_held s)\<rparr>)
      else None)"
| "lf_do (Write p v) s =
     (if p \<in> ls_held s
      then Some (Silent, s\<lparr>ls_list := (ls_list s)\<lparr>lf_next := (lf_next (ls_list s))(p := v)\<rparr>\<rparr>) else None)"

fun lf_exec :: "lf_choice list \<Rightarrow> lf_sys \<Rightarrow> (lf_event list \<times> lf_sys) option" where
  "lf_exec [] s = Some ([], s)"
| "lf_exec (c # cs) s =
     (case lf_do c s of None \<Rightarrow> None
      | Some (e, s') \<Rightarrow> (case lf_exec cs s' of None \<Rightarrow> None | Some (es, s'') \<Rightarrow> Some (e # es, s'')))"

lemma lf_do_step: "lf_do c s = Some (e, s') \<Longrightarrow> lf_step s e s'"
  by (cases c) (auto split: if_splits prod.splits intro: lf_step.intros)

lemma lf_run_trans: "lf_run s' es' s'' \<Longrightarrow> lf_run s es s' \<Longrightarrow> lf_run s (es @ es') s''"
proof (induction rule: lf_run.induct)
  case (run_nil s)
  then show ?case by simp
next
  case (run_step s1 es1 s2 e s3)
  then show ?case using lf_run.run_step [of s "es @ es1"] by simp
qed

lemma lf_run_one: "lf_step s e s' \<Longrightarrow> lf_run s [e] s'"
  using lf_run.run_step [OF lf_run.run_nil] by fastforce

lemma lf_exec_run: "lf_exec cs s = Some (es, s') \<Longrightarrow> lf_run s es s'"
proof (induction cs arbitrary: s es)
  case Nil
  then show ?case by (auto intro: lf_run.run_nil)
next
  case (Cons c cs)
  from Cons.prems obtain e t es' where "lf_do c s = Some (e, t)" "lf_exec cs t = Some (es', s')" "es = e # es'"
    by (auto split: option.splits)
  then show ?case using lf_run_trans [OF Cons.IH lf_run_one [OF lf_do_step]] by fastforce
qed

lemmas lf_eval = lf_init_def LockFreeFreelist_new_def Push_begin_def Pop_begin_def Push_store_next_def
  Push_exchange_def Pop_load_next_def Pop_exchange_def compare_exchange_weak_def saw_def exchanges_def

text \<open>
  The ABA schedule: thread 0 reads head 8 and its successor 16; thread 1 pops 8 and 16 and pushes 8
  back; the head pointer is 8 again, and thread 0's exchange has to fail.
\<close>

definition aba_schedule :: "lf_choice list" where
  "aba_schedule =
     [CallPush 1 16, Run 1 False, Run 1 False, CallPush 1 8, Run 1 False, Run 1 False,
      CallPop 0, Run 0 False,
      CallPop 1, Run 1 False, Run 1 False, CallPop 1, Run 1 False, Run 1 False,
      CallPush 1 8, Run 1 False, Run 1 False]"

definition aba_events :: "lf_event list" where
  "aba_events = [Silent, Silent, Pushed 16, Silent, Silent, Pushed 8, Silent, Silent,
     Silent, Silent, Popped 8, Silent, Silent, Popped 16, Silent, Silent, Pushed 8]"

lemma aba_run:
  "\<exists>s. lf_run (lf_init (\<lambda>_. 0) {8, 16}) aba_events s \<and>
     ls_pc s 0 = Pop_cas \<lparr>tp_ptr = 8, tp_tag = 2\<rparr> 16 \<and> lf_head (ls_list s) = \<lparr>tp_ptr = 8, tp_tag = 5\<rparr> \<and>
     ls_held s = {16} \<and> lf_next (ls_list s) 8 = 0 \<and> ls_pc s 1 = Idle"
proof -
  have h: "insert 16 (insert 8 ({8, 16} - {16})) - {8} = {16 :: ptr}" by auto
  obtain s where s: "lf_exec aba_schedule (lf_init (\<lambda>_. 0) {8, 16}) = Some (aba_events, s)"
    "ls_pc s 0 = Pop_cas \<lparr>tp_ptr = 8, tp_tag = 2\<rparr> 16" "lf_head (ls_list s) = \<lparr>tp_ptr = 8, tp_tag = 5\<rparr>"
    "ls_held s = {16}" "lf_next (ls_list s) 8 = 0" "ls_pc s 1 = Idle"
    by (auto simp: aba_schedule_def aba_events_def lf_eval Let_def h)
  with lf_exec_run show ?thesis by blast
qed

lemma aba_exchanges: "exchanges aba_events = 5"
  by (simp add: exchanges_def aba_events_def)

subsection \<open>Properties\<close>

text \<open>
  C2.  Linearizability and ABA safety: in every interleaving of pushes and pops by any number of
  threads, with spurious failures and with clients writing into blocks they hold, as long as the
  64-bit tag has not been used up, the completed exchanges and empty pops form a history of a
  sequential stack; the list then holds exactly that stack's contents, and every block is in
  exactly one place: on the list, with one client, or being pushed by one thread.
\<close>

theorem lf_linearizable:
  assumes run: "lf_run (lf_init m S) es s" and n: "exchanges es < 2 ^ 64" and S: "nullptr \<notin> S"
  shows "\<exists>xs. stack_run es [] = Some xs \<and>
    nodes (lf_next (ls_list s)) (tp_ptr (lf_head (ls_list s))) xs \<and> distinct xs \<and>
    places S (set xs) (ls_held s) (in_flight \<circ> ls_pc s)"
  using lf_run_inv [OF run refl n S] nodes_distinct unfolding lf_inv_def by blast

theorem lf_linearizable_witness:
  "\<exists>s xs. lf_run (lf_init (\<lambda>_. 0) {8, 16}) aba_events s \<and> stack_run aba_events [] = Some xs \<and> xs = [8] \<and>
     nodes (lf_next (ls_list s)) (tp_ptr (lf_head (ls_list s))) xs"
proof -
  obtain s where s: "lf_run (lf_init (\<lambda>_. 0) {8, 16}) aba_events s" using aba_run by blast
  have "stack_run aba_events [] = Some [8]" by (simp add: aba_events_def)
  with lf_linearizable [OF s] s aba_exchanges show ?thesis by auto
qed

text \<open>
  C6.  A popped block is exclusive: as long as fewer than \<open>2 ^ 64\<close> exchanges have succeeded, when a pop
  completes, the block it returns was neither held by a client nor being pushed by any thread.
\<close>

theorem lf_pop_exclusive:
  assumes run: "lf_run (lf_init m S) es s" and st: "lf_step s (Popped p) s'"
    and n: "exchanges es + 1 < 2 ^ 64" and S: "nullptr \<notin> S"
  shows "p \<in> S \<and> p \<notin> ls_held s \<and> (\<forall>t. p \<notin> in_flight (ls_pc s t)) \<and> ls_held s' = insert p (ls_held s)"
proof -
  obtain xs where i: "lf_inv S (exchanges es) s xs" using lf_run_inv [OF run refl _ S] n by auto
  from lf_step_inv [OF st i _ S] n obtain ys where "stack_event (Popped p) xs = Some ys" by auto
  then have "p \<in> set xs" by (auto split: list.splits if_splits)
  moreover have "ls_held s' = insert p (ls_held s)"
    using st by (cases) (auto simp: Pop_begin_def saw_def split: if_splits)
  ultimately show ?thesis using i by (auto simp: lf_inv_def places_def)
qed

theorem lf_pop_exclusive_witness:
  "\<exists>s s'. lf_run (lf_init (\<lambda>_. 0) {8, 16}) aba_events s \<and> ls_held s = {16} \<and>
     lf_run s [Silent, Silent, Popped 8] s' \<and> ls_held s' = {8, 16}"
proof -
  obtain s where s: "lf_run (lf_init (\<lambda>_. 0) {8, 16}) aba_events s"
    "lf_head (ls_list s) = \<lparr>tp_ptr = 8, tp_tag = 5\<rparr>" "ls_held s = {16}" "ls_pc s 1 = Idle"
    "lf_next (ls_list s) 8 = 0"
    using aba_run by blast
  define s1 where "s1 = s\<lparr>ls_pc := (ls_pc s)(1 := Pop_cas \<lparr>tp_ptr = 8, tp_tag = 5\<rparr> 0)\<rparr>"
  have "lf_exec [CallPop 1, Run 1 False] s = Some ([Silent, Silent], s1)"
    using s by (simp add: lf_eval s1_def)
  then have r: "lf_run s [Silent, Silent] s1" by (rule lf_exec_run)
  have "lf_run (lf_init (\<lambda>_. 0) {8, 16}) (aba_events @ [Silent, Silent]) s1" using lf_run_trans [OF r s(1)] .
  moreover obtain s' where "lf_do (Run 1 False) s1 = Some (Popped 8, s')" using s by (simp add: lf_eval s1_def)
  then have st: "lf_step s1 (Popped 8) s'" by (rule lf_do_step)
  ultimately have "ls_held s' = insert 8 (ls_held s1)"
    using lf_pop_exclusive [OF _ st] by (simp add: exchanges_def aba_events_def)
  then have "ls_held s' = {8, 16}" using s by (simp add: s1_def)
  moreover have "lf_run s [Silent, Silent, Popped 8] s'" using lf_run_trans [OF lf_run_one [OF st] r] by simp
  ultimately show ?thesis using s by blast
qed

text \<open>
  C13.  Obstruction freedom: from any state of the list and any point of an operation, a thread that
  runs alone, without spurious failures, finishes within five atomic accesses.
\<close>

fun solo :: "nat \<Rightarrow> lf_list \<Rightarrow> lf_pc \<Rightarrow> lf_list \<times> lf_pc" where
  "solo 0 s pc = (s, pc)"
| "solo (Suc k) s pc = (let (e, s', pc') = lf_atomic False s pc in solo k s' pc')"

theorem lf_obstruction_free: "snd (solo 5 s pc) = Idle"
  by (cases pc) (auto simp: numeral_eq_Suc Push_store_next_def Push_exchange_def Pop_load_next_def Pop_exchange_def
      compare_exchange_weak_def Let_def split: prod.splits if_splits)

text \<open>
  C40.  A failed exchange means that another operation made progress: as long as fewer than \<open>2 ^ 64\<close> exchanges
  have succeeded, the tag of the head counts them, and the exchange of a push or a pop that does not fail
  spuriously fails only when the head it loaded has an older tag, that is, some exchange has succeeded
  since that head was the current one.
\<close>

theorem lf_failure_means_progress:
  assumes run: "lf_run (lf_init m S) es s" and n: "exchanges es < 2 ^ 64" and S: "nullptr \<notin> S"
    and pc: "ls_pc s t = Push_cas p h \<or> ls_pc s t = Pop_cas h q"
    and fail: "fst (compare_exchange_weak False (lf_head (ls_list s)) h d) = False"
  shows "unat (tp_tag (lf_head (ls_list s))) = exchanges es \<and> unat (tp_tag h) < exchanges es"
proof -
  obtain xs where i: "lf_inv S (exchanges es) s xs" using lf_run_inv [OF run refl n S] by auto
  then have "pc_ok (exchanges es) (ls_list s) (ls_pc s t)" and "unat (tp_tag (lf_head (ls_list s))) = exchanges es"
    by (simp_all add: lf_inv_def)
  moreover have "lf_head (ls_list s) \<noteq> h" using fail by (auto simp: compare_exchange_weak_def split: if_splits)
  ultimately show ?thesis using pc by (auto simp: order.order_iff_strict)
qed

theorem lf_failure_means_progress_witness:
  "\<exists>s. lf_run (lf_init (\<lambda>_. 0) {8, 16}) aba_events s \<and> tp_ptr (lf_head (ls_list s)) = 8 \<and>
     ls_pc s 0 = Pop_cas \<lparr>tp_ptr = 8, tp_tag = 2\<rparr> 16 \<and>
     fst (compare_exchange_weak False (lf_head (ls_list s)) \<lparr>tp_ptr = 8, tp_tag = 2\<rparr> \<lparr>tp_ptr = 16, tp_tag = 3\<rparr>) = False \<and>
     unat (2 :: u64) < exchanges aba_events"
proof -
  obtain s where s: "lf_run (lf_init (\<lambda>_. 0) {8, 16}) aba_events s"
    "ls_pc s 0 = Pop_cas \<lparr>tp_ptr = 8, tp_tag = 2\<rparr> 16" "lf_head (ls_list s) = \<lparr>tp_ptr = 8, tp_tag = 5\<rparr>"
    using aba_run by blast
  then have f: "fst (compare_exchange_weak False (lf_head (ls_list s)) \<lparr>tp_ptr = 8, tp_tag = 2\<rparr> \<lparr>tp_ptr = 16, tp_tag = 3\<rparr>) = False"
    by (simp add: compare_exchange_weak_def)
  from lf_failure_means_progress [OF s(1) _ _ _ f, of 0 8 16] s f aba_exchanges show ?thesis by auto
qed

end
