(* ===== verification/Paging.thy ===== *)
theory Paging
  imports Prelude
begin

text \<open>
  The hardware of the virtual-memory simulator: \<^verbatim>\<open>memlab/vm/frame_allocator.hpp\<close>,
  \<^verbatim>\<open>memlab/vm/page_table.hpp\<close> and \<^verbatim>\<open>memlab/vm/tlb.hpp\<close>.  A queue is a list, front first; a hash
  map that is only looked up is a map; a hash map whose iteration order the code sees (the TLB, in
  \<open>evict\<close>) is an association list in iteration order.  The operations keep the order of insertion; that another order, or a
  change of it between operations, makes no difference is proved (\<open>T_reorder\<close>, \<open>TLB_evicts_lru\<close>).
\<close>

subsection \<open>FrameAllocator\<close>

record FrameAllocator =
  fa_total :: u32
  fa_free :: "u32 list"

definition FrameAllocator_new :: "u32 \<Rightarrow> FrameAllocator" where
  "FrameAllocator_new total_frames =
     \<lparr>fa_total = total_frames, fa_free = map of_nat [0..<unat total_frames]\<rparr>"

definition FrameAllocator_alloc :: "FrameAllocator \<Rightarrow> (u32 \<times> FrameAllocator) result" where
  "FrameAllocator_alloc a =
     (case fa_free a of [] \<Rightarrow> Inl Bad_alloc | f # fs \<Rightarrow> Inr (f, a\<lparr>fa_free := fs\<rparr>))"

definition FrameAllocator_free :: "FrameAllocator \<Rightarrow> u32 \<Rightarrow> FrameAllocator" where
  "FrameAllocator_free a frame = a\<lparr>fa_free := fa_free a @ [frame]\<rparr>"

definition FrameAllocator_has_free :: "FrameAllocator \<Rightarrow> bool" where
  "FrameAllocator_has_free a \<longleftrightarrow> fa_free a \<noteq> []"

definition FrameAllocator_free_frames :: "FrameAllocator \<Rightarrow> u32" where
  "FrameAllocator_free_frames a = of_nat (length (fa_free a))"

definition FrameAllocator_used_frames :: "FrameAllocator \<Rightarrow> u32" where
  "FrameAllocator_used_frames a = fa_total a - FrameAllocator_free_frames a"

text \<open>The frames in use and the free ones are the frames below \<open>total\<close>, each once.\<close>

definition frames_ok :: "FrameAllocator \<Rightarrow> u32 set \<Rightarrow> bool" where
  "frames_ok a U \<longleftrightarrow> distinct (fa_free a) \<and> set (fa_free a) \<inter> U = {} \<and>
     set (fa_free a) \<union> U = {f. f < fa_total a}"

lemma below_total: "{f. f < t} = of_nat ` {0..<unat t}" for t :: u32
proof (intro set_eqI iffI)
  fix f :: u32 assume "f \<in> {f. f < t}"
  then have "unat f < unat t" by (simp add: word_less_nat_alt)
  then show "f \<in> of_nat ` {0..<unat t}" by (intro image_eqI [of _ _ "unat f"]) auto
next
  fix f :: u32 assume "f \<in> of_nat ` {0..<unat t}"
  then obtain i where "i < unat t" "f = of_nat i" by auto
  moreover have "unat t < 2 ^ 32" using unsigned_less [of t] by simp
  ultimately show "f \<in> {f. f < t}" by (simp add: word_less_nat_alt unat_of_nat)
qed

lemma inj_of_nat_below: "inj_on (of_nat :: nat \<Rightarrow> u32) {0..<unat t}" for t :: u32
proof (rule inj_onI)
  fix i j assume ij: "i \<in> {0..<unat t}" "j \<in> {0..<unat t}" and e: "(of_nat i :: u32) = of_nat j"
  have "unat t < 2 ^ 32" using unsigned_less [of t] by simp
  with ij have "unat (of_nat i :: u32) = i" "unat (of_nat j :: u32) = j" by (simp_all add: unat_of_nat)
  then show "i = j" by (metis e)
qed

lemma FrameAllocator_new_ok [inv_intros]: "frames_ok (FrameAllocator_new t) {}"
  using inj_of_nat_below [of t] by (simp add: frames_ok_def FrameAllocator_new_def distinct_map below_total)

lemma FrameAllocator_alloc_ok:
  "frames_ok a U \<Longrightarrow> FrameAllocator_alloc a = Inr (f, a') \<Longrightarrow> frames_ok a' (insert f U) \<and> f \<notin> U \<and> f < fa_total a"
  by (auto simp: frames_ok_def FrameAllocator_alloc_def split: list.splits)

lemma FrameAllocator_free_ok:
  "frames_ok a U \<Longrightarrow> f \<in> U \<Longrightarrow> frames_ok (FrameAllocator_free a f) (U - {f})"
  by (auto simp: frames_ok_def FrameAllocator_free_def)

lemma frames_ok_full: "frames_ok a U \<Longrightarrow> \<not> FrameAllocator_has_free a \<Longrightarrow> U = {f. f < fa_total a}"
  by (auto simp: frames_ok_def FrameAllocator_has_free_def)

subsection \<open>PageTable\<close>

record PTE =
  pte_frame :: u32
  pte_present :: bool
  pte_dirty :: bool
  pte_referenced :: bool

definition PTE_default :: PTE where
  "PTE_default = \<lparr>pte_frame = 0, pte_present = False, pte_dirty = False, pte_referenced = False\<rparr>"

type_synonym PageTable = "u64 \<rightharpoonup> PTE"

definition PageTable_lookup :: "PageTable \<Rightarrow> u64 \<Rightarrow> PTE option" where
  "PageTable_lookup pt vpn = pt vpn"

definition PageTable_get_or_create :: "PageTable \<Rightarrow> u64 \<Rightarrow> PTE \<times> PageTable" where
  "PageTable_get_or_create pt vpn =
     (case pt vpn of Some e \<Rightarrow> (e, pt) | None \<Rightarrow> (PTE_default, pt(vpn \<mapsto> PTE_default)))"

definition PageTable_invalidate :: "PageTable \<Rightarrow> u64 \<Rightarrow> PageTable" where
  "PageTable_invalidate pt vpn = pt(vpn := None)"

definition PageTable_clear :: "PageTable \<Rightarrow> PageTable" where
  "PageTable_clear pt = Map.empty"

subsection \<open>TLB\<close>

record TLB_Entry =
  te_frame :: u32
  te_stamp :: u64

type_synonym TLB_Key = "int \<times> u64"

record TLB =
  tlb_cap :: u32
  tlb_clock :: u64
  tlb_hits :: u64
  tlb_misses :: u64
  tlb_map :: "(TLB_Key \<times> TLB_Entry) list"

definition TLB_new :: "u32 \<Rightarrow> TLB" where
  "TLB_new capacity = \<lparr>tlb_cap = capacity, tlb_clock = 0, tlb_hits = 0, tlb_misses = 0, tlb_map = []\<rparr>"

definition TLB_store :: "TLB_Key \<Rightarrow> TLB_Entry \<Rightarrow> (TLB_Key \<times> TLB_Entry) list \<Rightarrow> (TLB_Key \<times> TLB_Entry) list" where
  "TLB_store k e m =
     (if k \<in> fst ` set m then map (\<lambda>(k', e'). if k' = k then (k', e) else (k', e')) m else m @ [(k, e)])"

definition TLB_lookup :: "TLB \<Rightarrow> int \<Rightarrow> u64 \<Rightarrow> u32 option \<times> TLB" where
  "TLB_lookup t pid vpn =
     (case map_of (tlb_map t) (pid, vpn) of
        None \<Rightarrow> (None, t)
      | Some e \<Rightarrow>
          (let clock = tlb_clock t + 1
           in (Some (te_frame e),
               t\<lparr>tlb_clock := clock, tlb_hits := tlb_hits t + 1,
                 tlb_map := TLB_store (pid, vpn) (e\<lparr>te_stamp := clock\<rparr>) (tlb_map t)\<rparr>)))"

text \<open>\<open>evict\<close> keeps the first entry with the smallest stamp seen so far and erases it.\<close>

fun TLB_oldest :: "TLB_Key \<times> TLB_Entry \<Rightarrow> (TLB_Key \<times> TLB_Entry) list \<Rightarrow> TLB_Key \<times> TLB_Entry" where
  "TLB_oldest oldest [] = oldest"
| "TLB_oldest oldest (it # its) =
     TLB_oldest (if te_stamp (snd it) < te_stamp (snd oldest) then it else oldest) its"

definition TLB_evict :: "TLB \<Rightarrow> TLB result" where
  "TLB_evict t =
     (case tlb_map t of
        [] \<Rightarrow> Inl Undefined
      | b # its \<Rightarrow>
          (let oldest = TLB_oldest b (b # its)
           in Inr (t\<lparr>tlb_map := filter (\<lambda>(k, e). k \<noteq> fst oldest) (tlb_map t)\<rparr>)))"

definition TLB_insert :: "TLB \<Rightarrow> int \<Rightarrow> u64 \<Rightarrow> u32 \<Rightarrow> TLB result" where
  "TLB_insert t pid vpn frame =
     (let k = (pid, vpn); e = \<lparr>te_frame = frame, te_stamp = tlb_clock t + 1\<rparr>
      in if k \<in> fst ` set (tlb_map t)
         then Inr (t\<lparr>tlb_clock := tlb_clock t + 1, tlb_map := TLB_store k e (tlb_map t)\<rparr>)
         else case (if length (tlb_map t) \<ge> unat (tlb_cap t) then TLB_evict t else Inr t) of
                Inl err \<Rightarrow> Inl err
              | Inr t' \<Rightarrow>
                  Inr (t'\<lparr>tlb_clock := tlb_clock t' + 1, tlb_map := TLB_store k e (tlb_map t')\<rparr>))"

definition TLB_invalidate :: "TLB \<Rightarrow> int \<Rightarrow> u64 \<Rightarrow> TLB" where
  "TLB_invalidate t pid vpn = t\<lparr>tlb_map := filter (\<lambda>(k, e). k \<noteq> (pid, vpn)) (tlb_map t)\<rparr>"

definition TLB_flush_pid :: "TLB \<Rightarrow> int \<Rightarrow> TLB" where
  "TLB_flush_pid t pid = t\<lparr>tlb_map := filter (\<lambda>(k, e). fst k \<noteq> pid) (tlb_map t)\<rparr>"

definition TLB_count_miss :: "TLB \<Rightarrow> TLB" where
  "TLB_count_miss t = t\<lparr>tlb_misses := tlb_misses t + 1\<rparr>"

definition TLB_reset_stats :: "TLB \<Rightarrow> TLB" where
  "TLB_reset_stats t = t\<lparr>tlb_hits := 0, tlb_misses := 0\<rparr>"

subsection \<open>The mapping a TLB denotes\<close>

definition tlb_frame :: "TLB \<Rightarrow> TLB_Key \<rightharpoonup> u32" where
  "tlb_frame t k = map_option te_frame (map_of (tlb_map t) k)"

definition tlb_ok :: "TLB \<Rightarrow> bool" where
  "tlb_ok t \<longleftrightarrow> distinct (map fst (tlb_map t)) \<and> length (tlb_map t) \<le> unat (tlb_cap t) \<and> tlb_cap t \<noteq> 0"

lemma map_fst_TLB_store:
  "map fst (TLB_store k e m) = (if k \<in> fst ` set m then map fst m else map fst m @ [k])"
  by (auto simp: TLB_store_def case_prod_beta intro!: map_cong)

lemma map_of_overwrite:
  "map_of (map (\<lambda>(k', e'). if k' = k then (k', e) else (k', e')) m) x =
     (if x = k then (if k \<in> fst ` set m then Some e else None) else map_of m x)"
  by (induction m) (auto simp: rev_image_eqI)

lemma map_of_TLB_store: "map_of (TLB_store k e m) = (map_of m)(k \<mapsto> e)"
proof (cases "k \<in> fst ` set m")
  case True
  then show ?thesis by (simp add: TLB_store_def map_of_overwrite fun_eq_iff)
next
  case False
  then have "map_of m k = None" by (simp add: map_of_eq_None_iff)
  with False show ?thesis by (auto simp: TLB_store_def fun_eq_iff map_add_def split: option.splits)
qed

lemma length_TLB_store: "length (TLB_store k e m) = (if k \<in> fst ` set m then length m else Suc (length m))"
  by (simp add: TLB_store_def)

lemma map_of_filter_key: "map_of (filter (\<lambda>(k, e). P k) m) x = (if P x then map_of m x else None)"
  by (induction m) auto

lemma distinct_filter_keys: "distinct (map fst m) \<Longrightarrow> distinct (map fst (filter P m))"
  by (induction m) (auto simp: image_iff)

text \<open>A lookup changes no mapping, and answers with what the TLB holds.\<close>

lemma TLB_lookup_ok:
  assumes "TLB_lookup t pid vpn = (r, t')" and "tlb_ok t"
  shows "r = tlb_frame t (pid, vpn) \<and> tlb_frame t' = tlb_frame t \<and> tlb_ok t'"
proof (cases "map_of (tlb_map t) (pid, vpn)")
  case None
  with assms show ?thesis by (simp add: TLB_lookup_def tlb_frame_def)
next
  case (Some e)
  then have "(pid, vpn) \<in> fst ` set (tlb_map t)" by (metis map_of_SomeD fst_conv image_eqI)
  then have "tlb_ok t'" using assms Some
    by (auto simp: TLB_lookup_def Let_def tlb_ok_def map_fst_TLB_store length_TLB_store rev_image_eqI)
  moreover have "tlb_frame t' = tlb_frame t"
    using assms Some by (auto simp: TLB_lookup_def Let_def tlb_frame_def fun_eq_iff map_of_TLB_store)
  ultimately show ?thesis using assms Some by (auto simp: TLB_lookup_def Let_def tlb_frame_def)
qed

lemma TLB_invalidate_ok:
  "tlb_ok t \<Longrightarrow> tlb_ok (TLB_invalidate t pid vpn) \<and> tlb_frame (TLB_invalidate t pid vpn) = (tlb_frame t)((pid, vpn) := None)"
  by (auto simp: tlb_ok_def TLB_invalidate_def tlb_frame_def fun_eq_iff map_of_filter_key distinct_filter_keys
      intro: le_trans [OF length_filter_le])

lemma TLB_count_miss_ok [simp]: "tlb_ok (TLB_count_miss t) = tlb_ok t" "tlb_frame (TLB_count_miss t) = tlb_frame t"
  by (simp_all add: TLB_count_miss_def tlb_ok_def tlb_frame_def fun_eq_iff)

lemma TLB_oldest_in: "TLB_oldest b its \<in> insert b (set its)"
proof (induction its arbitrary: b)
  case (Cons it its)
  show ?case using Cons.IH [of it] Cons.IH [of b] by auto
qed simp

lemma TLB_evict_ok:
  assumes ok: "tlb_ok t" and full: "unat (tlb_cap t) \<le> length (tlb_map t)"
  shows "\<exists>t' k. TLB_evict t = Inr t' \<and> k \<in> dom (tlb_frame t) \<and> tlb_frame t' = (tlb_frame t)(k := None) \<and>
    tlb_ok t' \<and> length (tlb_map t') < unat (tlb_cap t) \<and> tlb_cap t' = tlb_cap t \<and> tlb_clock t' = tlb_clock t"
proof -
  have "unat (tlb_cap t) > 0" using ok by (simp add: tlb_ok_def unat_gt_0)
  with full obtain b its where m: "tlb_map t = b # its" by (cases "tlb_map t") auto
  let ?o = "TLB_oldest b (b # its)"
  let ?m = "filter (\<lambda>(k, e). k \<noteq> fst ?o) (tlb_map t)"
  have o: "?o \<in> set (tlb_map t)" using TLB_oldest_in [of b "b # its"] m by auto
  have "length ?m < length (tlb_map t)" using o by (intro length_filter_less) (auto split: prod.splits)
  moreover have "TLB_evict t = Inr (t\<lparr>tlb_map := ?m\<rparr>)" using m by (simp add: TLB_evict_def Let_def)
  moreover have "fst ?o \<in> dom (tlb_frame t)"
    using o by (auto simp: tlb_frame_def dom_def map_of_eq_None_iff intro!: not_None_eq [THEN iffD1])
  moreover have "tlb_frame (t\<lparr>tlb_map := ?m\<rparr>) = (tlb_frame t)(fst ?o := None)"
    by (auto simp: tlb_frame_def fun_eq_iff map_of_filter_key)
  moreover have "distinct (map fst ?m)" using ok by (intro distinct_filter_keys) (simp add: tlb_ok_def)
  ultimately show ?thesis using ok full
    by (intro exI [of _ "t\<lparr>tlb_map := ?m\<rparr>"] exI [of _ "fst ?o"]) (auto simp: tlb_ok_def)
qed

text \<open>An insertion adds the mapping and forgets at most one other.\<close>

lemma TLB_insert_ok:
  assumes ok: "tlb_ok t"
  shows "\<exists>t'. TLB_insert t pid vpn f = Inr t' \<and> tlb_ok t' \<and> tlb_frame t' (pid, vpn) = Some f \<and>
    (\<forall>k. k \<noteq> (pid, vpn) \<longrightarrow> tlb_frame t' k = None \<or> tlb_frame t' k = tlb_frame t k)"
proof (cases "(pid, vpn) \<in> fst ` set (tlb_map t)")
  case True
  then show ?thesis using ok
    by (auto simp: TLB_insert_def Let_def tlb_ok_def tlb_frame_def map_of_TLB_store map_fst_TLB_store length_TLB_store)
next
  case False
  let ?k = "(pid, vpn)"
  obtain t1 where t1: "(if length (tlb_map t) \<ge> unat (tlb_cap t) then TLB_evict t else Inr t) = Inr t1"
    "tlb_ok t1" "length (tlb_map t1) < unat (tlb_cap t1)"
    "\<forall>k. tlb_frame t1 k = None \<or> tlb_frame t1 k = tlb_frame t k"
  proof (cases "length (tlb_map t) \<ge> unat (tlb_cap t)")
    case True
    from TLB_evict_ok [OF ok True] True that show ?thesis by (auto split: if_splits)
  next
    case False
    with that [of t] ok show ?thesis by simp
  qed
  then have "tlb_frame t1 ?k = None"
    using False by (metis (no_types, lifting) map_of_eq_None_iff option.map_disc_iff tlb_frame_def)
  then have nk: "?k \<notin> fst ` set (tlb_map t1)" by (simp add: tlb_frame_def map_of_eq_None_iff)
  let ?t = "t1\<lparr>tlb_clock := tlb_clock t1 + 1, tlb_map := TLB_store ?k \<lparr>te_frame = f, te_stamp = tlb_clock t + 1\<rparr> (tlb_map t1)\<rparr>"
  have "TLB_insert t pid vpn f = Inr ?t" using False t1(1) by (simp add: TLB_insert_def Let_def)
  moreover have "tlb_ok ?t" using t1(2,3) nk by (auto simp: tlb_ok_def map_fst_TLB_store length_TLB_store)
  moreover have "tlb_frame ?t = (tlb_frame t1)(?k \<mapsto> f)" by (auto simp: tlb_frame_def map_of_TLB_store)
  ultimately show ?thesis using t1(4) by (intro exI [of _ ?t]) auto
qed

subsection \<open>Least recently used\<close>

text \<open>\<open>T_reorder\<close> is not a call: it stands for any change of the order in which the hash map is iterated.\<close>

datatype tlb_op = T_lookup int u64 | T_insert int u64 u32 | T_invalidate int u64 | T_flush int |
  T_reorder "(TLB_Key \<times> TLB_Entry) list"

fun tlb_do :: "tlb_op \<Rightarrow> TLB \<Rightarrow> TLB result" where
  "tlb_do (T_lookup pid vpn) t = Inr (snd (TLB_lookup t pid vpn))"
| "tlb_do (T_insert pid vpn f) t = TLB_insert t pid vpn f"
| "tlb_do (T_invalidate pid vpn) t = Inr (TLB_invalidate t pid vpn)"
| "tlb_do (T_flush pid) t = Inr (TLB_flush_pid t pid)"
| "tlb_do (T_reorder es) t = (if mset es = mset (tlb_map t) then Inr (t\<lparr>tlb_map := es\<rparr>) else Inl Undefined)"

fun run_tlb :: "tlb_op list \<Rightarrow> TLB \<Rightarrow> TLB result" where
  "run_tlb [] t = Inr t"
| "run_tlb (x # xs) t = (case tlb_do x t of Inl e \<Rightarrow> Inl e | Inr t' \<Rightarrow> run_tlb xs t')"

fun touches :: "tlb_op \<Rightarrow> TLB_Key \<Rightarrow> bool" where
  "touches (T_lookup pid vpn) k \<longleftrightarrow> k = (pid, vpn)"
| "touches (T_insert pid vpn f) k \<longleftrightarrow> k = (pid, vpn)"
| "touches x k \<longleftrightarrow> False"

text \<open>When a key was last looked up or inserted: 1 for the first operation, 0 for never.\<close>

fun last_touch_rev :: "tlb_op list \<Rightarrow> TLB_Key \<Rightarrow> nat" where
  "last_touch_rev [] k = 0"
| "last_touch_rev (x # xs) k = (if touches x k then Suc (length xs) else last_touch_rev xs k)"

definition last_touch :: "tlb_op list \<Rightarrow> TLB_Key \<Rightarrow> nat" where
  "last_touch xs k = last_touch_rev (rev xs) k"

lemma last_touch_snoc: "last_touch (xs @ [x]) k = (if touches x k then Suc (length xs) else last_touch xs k)"
  by (simp add: last_touch_def)

lemma last_touch_bound: "last_touch xs k \<le> length xs"
  by (induction xs rule: rev_induct) (simp_all add: last_touch_snoc, simp add: last_touch_def)

definition tlb_stamp :: "TLB \<Rightarrow> TLB_Key \<rightharpoonup> nat" where
  "tlb_stamp t k = map_option (\<lambda>e. unat (te_stamp e)) (map_of (tlb_map t) k)"

definition stamps_ok :: "tlb_op list \<Rightarrow> TLB \<Rightarrow> bool" where
  "stamps_ok xs t \<longleftrightarrow> tlb_ok t \<and> unat (tlb_clock t) \<le> length xs \<and>
     (\<forall>k n. tlb_stamp t k = Some n \<longrightarrow> n \<le> unat (tlb_clock t)) \<and>
     (\<forall>k n k' n'. tlb_stamp t k = Some n \<longrightarrow> tlb_stamp t k' = Some n' \<longrightarrow>
        (n < n' \<longleftrightarrow> last_touch xs k < last_touch xs k') \<and> (n = n' \<longrightarrow> k = k'))"

lemma stamps_drop:
  assumes "stamps_ok xs t" and "tlb_ok t'" and "tlb_clock t' = tlb_clock t"
    and "\<And>k n. tlb_stamp t' k = Some n \<Longrightarrow> tlb_stamp t k = Some n \<and> \<not> touches x k"
  shows "stamps_ok (xs @ [x]) t'"
  using assms unfolding stamps_ok_def last_touch_snoc by (auto, metis+)

lemma stamps_touch:
  assumes s: "stamps_ok xs t" and ok: "tlb_ok t'" and c: "unat (tlb_clock t') = Suc (unat (tlb_clock t))"
    and k: "tlb_stamp t' k = Some (unat (tlb_clock t'))" "\<And>k'. touches x k' \<longleftrightarrow> k' = k"
    and o: "\<And>k' n. k' \<noteq> k \<Longrightarrow> tlb_stamp t' k' = Some n \<Longrightarrow> tlb_stamp t k' = Some n"
  shows "stamps_ok (xs @ [x]) t'"
proof -
  have old: "n \<le> unat (tlb_clock t)" if "k' \<noteq> k" "tlb_stamp t' k' = Some n" for k' n
    using o [OF that] s unfolding stamps_ok_def by blast
  have lt: "last_touch (xs @ [x]) k' = (if k' = k then Suc (length xs) else last_touch xs k')" for k'
    using k(2) by (simp add: last_touch_snoc)
  have "(n < n' \<longleftrightarrow> last_touch (xs @ [x]) a < last_touch (xs @ [x]) b) \<and> (n = n' \<longrightarrow> a = b)"
    if ab: "tlb_stamp t' a = Some n" "tlb_stamp t' b = Some n'" for a b n n'
  proof -
    consider "a = k" "b = k" | "a = k" "b \<noteq> k" | "a \<noteq> k" "b = k" | "a \<noteq> k" "b \<noteq> k" by blast
    then show ?thesis
    proof cases
      case 2
      then have "n = Suc (unat (tlb_clock t))" "n' \<le> unat (tlb_clock t)" using ab k c old by auto
      then show ?thesis using 2 lt last_touch_bound [of xs b] by auto
    next
      case 3
      then have "n' = Suc (unat (tlb_clock t))" "n \<le> unat (tlb_clock t)" using ab k c old by auto
      then show ?thesis using 3 lt last_touch_bound [of xs a] by auto
    next
      case 4
      then show ?thesis using o [OF _ ab(1)] o [OF _ ab(2)] s lt unfolding stamps_ok_def by presburger
    qed (use ab in auto)
  qed
  moreover have "n \<le> unat (tlb_clock t')" if "tlb_stamp t' a = Some n" for a n
    using old [of a n] that k c by (cases "a = k") auto
  ultimately show ?thesis using ok c s unfolding stamps_ok_def by auto
qed

lemma unat_clock_Suc: "unat c \<le> n \<Longrightarrow> n < 2 ^ 64 - 1 \<Longrightarrow> unat (c + 1) = Suc (unat c)" for c :: u64
  using unat_plus_less [of c 1] by simp

lemma tlb_stamp_filter:
  "tlb_stamp (t\<lparr>tlb_map := filter (\<lambda>(k, e). P k) (tlb_map t)\<rparr>) k = Some n \<Longrightarrow> tlb_stamp t k = Some n \<and> P k"
  by (auto simp: tlb_stamp_def map_of_filter_key split: if_splits)

text \<open>The scan of \<open>evict\<close> ends at an entry of least stamp.\<close>

lemma TLB_oldest_least:
  "te_stamp (snd (TLB_oldest b its)) \<le> te_stamp (snd b) \<and>
     (\<forall>it \<in> set its. te_stamp (snd (TLB_oldest b its)) \<le> te_stamp (snd it))"
proof (induction its arbitrary: b)
  case (Cons it its)
  show ?case using Cons.IH [of it] Cons.IH [of b] by (auto simp: not_less)
qed simp

lemma TLB_evict_least:
  assumes ok: "tlb_ok t" and ev: "TLB_evict t = Inr t'"
  shows "\<exists>k n. tlb_stamp t k = Some n \<and> t' = t\<lparr>tlb_map := filter (\<lambda>(k', e). k' \<noteq> k) (tlb_map t)\<rparr> \<and>
    (\<forall>k' n'. tlb_stamp t k' = Some n' \<longrightarrow> n \<le> n')"
proof -
  obtain b its where m: "tlb_map t = b # its" using ev by (auto simp: TLB_evict_def split: list.splits)
  define e0 where "e0 = TLB_oldest b (b # its)"
  have oin: "e0 \<in> set (tlb_map t)" using TLB_oldest_in [of b "b # its"] m by (auto simp: e0_def)
  have least: "\<forall>it \<in> set (tlb_map t). te_stamp (snd e0) \<le> te_stamp (snd it)"
    using TLB_oldest_least [of b "b # its"] m by (simp add: e0_def)
  have "tlb_stamp t (fst e0) = Some (unat (te_stamp (snd e0)))"
  proof -
    have "(fst e0, snd e0) \<in> set (tlb_map t)" using oin by simp
    then have "map_of (tlb_map t) (fst e0) = Some (snd e0)" using ok by (intro map_of_is_SomeI) (simp add: tlb_ok_def)
    then show ?thesis by (simp add: tlb_stamp_def)
  qed
  moreover have "unat (te_stamp (snd e0)) \<le> n'" if "tlb_stamp t k' = Some n'" for k' n'
    using that least by (auto simp: tlb_stamp_def word_le_nat_alt dest!: map_of_SomeD)
  moreover have "t' = t\<lparr>tlb_map := filter (\<lambda>(k', e). k' \<noteq> fst e0) (tlb_map t)\<rparr>"
    using ev m by (auto simp: TLB_evict_def Let_def e0_def)
  ultimately show ?thesis by blast
qed

lemma stamps_lookup:
  assumes s: "stamps_ok xs t" and n: "length xs < 2 ^ 64 - 1"
  shows "stamps_ok (xs @ [T_lookup pid vpn]) (snd (TLB_lookup t pid vpn))"
proof (cases "map_of (tlb_map t) (pid, vpn)")
  case None
  then have "TLB_lookup t pid vpn = (None, t)" by (simp add: TLB_lookup_def)
  moreover have "\<not> touches (T_lookup pid vpn) k" if "tlb_stamp t k = Some m" for k m
    using None that by (auto simp: tlb_stamp_def)
  ultimately show ?thesis using s by (intro stamps_drop [OF s]) (auto simp: stamps_ok_def)
next
  case (Some e)
  let ?t = "snd (TLB_lookup t pid vpn)"
  have ok: "tlb_ok t" "unat (tlb_clock t) \<le> length xs" using s by (auto simp: stamps_ok_def)
  have t: "?t = t\<lparr>tlb_clock := tlb_clock t + 1, tlb_hits := tlb_hits t + 1,
      tlb_map := TLB_store (pid, vpn) (e\<lparr>te_stamp := tlb_clock t + 1\<rparr>) (tlb_map t)\<rparr>"
    using Some by (simp add: TLB_lookup_def Let_def)
  have "tlb_ok ?t" using TLB_lookup_ok [of t pid vpn] ok by (metis prod.collapse)
  then show ?thesis
    by (rule stamps_touch [OF s, where k = "(pid, vpn)"])
       (auto simp: t tlb_stamp_def map_of_TLB_store unat_clock_Suc [OF ok(2) n])
qed

lemma stamps_insert:
  assumes s: "stamps_ok xs t" and n: "length xs < 2 ^ 64 - 1" and i: "TLB_insert t pid vpn f = Inr t'"
  shows "stamps_ok (xs @ [T_insert pid vpn f]) t'"
proof -
  let ?k = "(pid, vpn)" and ?e = "\<lparr>te_frame = f, te_stamp = tlb_clock t + 1\<rparr>"
  have ok: "tlb_ok t" "unat (tlb_clock t) \<le> length xs" using s by (auto simp: stamps_ok_def)
  have "\<exists>t1. t' = t1\<lparr>tlb_clock := tlb_clock t1 + 1, tlb_map := TLB_store ?k ?e (tlb_map t1)\<rparr> \<and>
      tlb_clock t1 = tlb_clock t \<and> (\<forall>k m. tlb_stamp t1 k = Some m \<longrightarrow> tlb_stamp t k = Some m)"
  proof (cases "?k \<notin> fst ` set (tlb_map t) \<and> unat (tlb_cap t) \<le> length (tlb_map t)")
    case True
    then obtain t1 where e: "TLB_evict t = Inr t1"
      and t': "t' = t1\<lparr>tlb_clock := tlb_clock t1 + 1, tlb_map := TLB_store ?k ?e (tlb_map t1)\<rparr>"
      using i by (auto simp: TLB_insert_def Let_def split: sum.splits)
    from TLB_evict_least [OF ok(1) e] obtain k where t1:
      "t1 = t\<lparr>tlb_map := filter (\<lambda>(k', e). k' \<noteq> k) (tlb_map t)\<rparr>" by blast
    then have "tlb_clock t1 = tlb_clock t" by simp
    moreover have "tlb_stamp t l = Some m" if "tlb_stamp t1 l = Some m" for l m
      using tlb_stamp_filter [OF that [unfolded t1]] by simp
    ultimately show ?thesis using t' by blast
  next
    case False
    then show ?thesis using i by (intro exI [of _ t]) (auto simp: TLB_insert_def Let_def split: if_splits)
  qed
  then obtain t1 where t': "t' = t1\<lparr>tlb_clock := tlb_clock t1 + 1, tlb_map := TLB_store ?k ?e (tlb_map t1)\<rparr>"
    and c: "tlb_clock t1 = tlb_clock t" and o: "\<And>k m. tlb_stamp t1 k = Some m \<Longrightarrow> tlb_stamp t k = Some m" by blast
  have "tlb_ok t'" using TLB_insert_ok [OF ok(1), of pid vpn f] i by auto
  then show ?thesis
  proof (rule stamps_touch [OF s, where k = ?k])
    show "tlb_stamp t k = Some m" if "k \<noteq> ?k" "tlb_stamp t' k = Some m" for k m
      using that o [of k m] t' by (auto simp: tlb_stamp_def map_of_TLB_store)
  qed (auto simp: t' c tlb_stamp_def map_of_TLB_store unat_clock_Suc [OF ok(2) n])
qed

lemma reorder_stamp:
  assumes ok: "tlb_ok t" and es: "mset es = mset (tlb_map t)"
  shows "tlb_ok (t\<lparr>tlb_map := es\<rparr>)" "tlb_stamp (t\<lparr>tlb_map := es\<rparr>) = tlb_stamp t" "tlb_frame (t\<lparr>tlb_map := es\<rparr>) = tlb_frame t"
proof -
  have "mset (map fst es) = mset (map fst (tlb_map t))" using es by simp
  then have d: "distinct (map fst es)" "distinct (map fst (tlb_map t))"
    using ok mset_eq_imp_distinct_iff [of "map fst es" "map fst (tlb_map t)"] by (simp_all add: tlb_ok_def)
  moreover have "length es = length (tlb_map t)" by (rule mset_eq_length [OF es])
  ultimately show "tlb_ok (t\<lparr>tlb_map := es\<rparr>)" using ok by (simp add: tlb_ok_def)
  have "map_of es = map_of (tlb_map t)" using map_of_inject_set [OF d] mset_eq_setD [OF es] by simp
  then show "tlb_stamp (t\<lparr>tlb_map := es\<rparr>) = tlb_stamp t" "tlb_frame (t\<lparr>tlb_map := es\<rparr>) = tlb_frame t"
    by (simp_all add: tlb_stamp_def tlb_frame_def fun_eq_iff)
qed

lemma stamps_do:
  assumes s: "stamps_ok xs t" and n: "length xs < 2 ^ 64 - 1" and d: "tlb_do x t = Inr t'"
  shows "stamps_ok (xs @ [x]) t'"
proof (cases x)
  case (T_lookup pid vpn)
  then show ?thesis using stamps_lookup [OF s n, of pid vpn] d by auto
next
  case (T_insert pid vpn f)
  then show ?thesis using stamps_insert [OF s n] d by simp
next
  case (T_invalidate pid vpn)
  have t': "t' = t\<lparr>tlb_map := filter (\<lambda>(k, e). k \<noteq> (pid, vpn)) (tlb_map t)\<rparr>"
    using d T_invalidate by (simp add: TLB_invalidate_def)
  have "tlb_ok t'" using TLB_invalidate_ok s d T_invalidate by (auto simp: stamps_ok_def)
  then show ?thesis
  proof (rule stamps_drop [OF s])
    show "tlb_clock t' = tlb_clock t" by (simp add: t')
    show "tlb_stamp t k = Some m \<and> \<not> touches x k" if "tlb_stamp t' k = Some m" for k m
      using tlb_stamp_filter [OF that [unfolded t']] T_invalidate by simp
  qed
next
  case (T_flush pid)
  have t': "t' = t\<lparr>tlb_map := filter (\<lambda>(k, e). fst k \<noteq> pid) (tlb_map t)\<rparr>"
    using d T_flush by (simp add: TLB_flush_pid_def)
  have "tlb_ok t'" using s by (auto simp: t' stamps_ok_def tlb_ok_def distinct_filter_keys intro: le_trans [OF length_filter_le])
  then show ?thesis
  proof (rule stamps_drop [OF s])
    show "tlb_clock t' = tlb_clock t" by (simp add: t')
    show "tlb_stamp t k = Some m \<and> \<not> touches x k" if "tlb_stamp t' k = Some m" for k m
      using tlb_stamp_filter [OF that [unfolded t']] T_flush by simp
  qed
next
  case (T_reorder es)
  then have t': "t' = t\<lparr>tlb_map := es\<rparr>" and es: "mset es = mset (tlb_map t)" using d by (auto split: if_splits)
  have "tlb_ok t" using s by (simp add: stamps_ok_def)
  note r = reorder_stamp [OF this es]
  show ?thesis unfolding t' by (rule stamps_drop [OF s r(1)]) (use r(2) T_reorder in auto)
qed

lemma run_tlb_stamps:
  "stamps_ok xs t \<Longrightarrow> run_tlb ys t = Inr t' \<Longrightarrow> length xs + length ys < 2 ^ 64 \<Longrightarrow> stamps_ok (xs @ ys) t'"
proof (induction ys arbitrary: xs t)
  case (Cons y ys)
  then obtain t1 where "tlb_do y t = Inr t1" "run_tlb ys t1 = Inr t'" by (auto split: sum.splits)
  with Cons.IH [OF stamps_do [OF Cons.prems(1)], of y t1] Cons.prems(3) show ?case by simp
qed simp

lemma stamps_new: "cap \<noteq> 0 \<Longrightarrow> stamps_ok [] (TLB_new cap)"
  by (simp add: stamps_ok_def TLB_new_def tlb_ok_def tlb_stamp_def)

lemma tlb_frame_stamp: "k \<in> dom (tlb_frame t) \<longleftrightarrow> (\<exists>n. tlb_stamp t k = Some n)"
  by (auto simp: tlb_frame_def tlb_stamp_def)

subsection \<open>Properties\<close>

text \<open>With the stamps in order, an insertion into a full TLB evicts the entry touched longest ago.\<close>

lemma TLB_insert_lru:
  assumes s: "stamps_ok xs t" and new: "(pid, vpn) \<notin> dom (tlb_frame t)" and full: "unat (tlb_cap t) \<le> length (tlb_map t)"
  shows "\<exists>t' k. TLB_insert t pid vpn f = Inr t' \<and> k \<in> dom (tlb_frame t) \<and>
    tlb_frame t' = (tlb_frame t)(k := None, (pid, vpn) \<mapsto> f) \<and>
    (\<forall>k' \<in> dom (tlb_frame t). k' \<noteq> k \<longrightarrow> last_touch xs k < last_touch xs k')"
proof -
  have ok: "tlb_ok t" using s by (simp add: stamps_ok_def)
  from TLB_evict_ok [OF ok full] obtain t1 where e: "TLB_evict t = Inr t1" by blast
  from TLB_evict_least [OF ok e] obtain k m where km: "tlb_stamp t k = Some m"
    and t1: "t1 = t\<lparr>tlb_map := filter (\<lambda>(k', e). k' \<noteq> k) (tlb_map t)\<rparr>"
    and least: "\<And>k' n'. tlb_stamp t k' = Some n' \<Longrightarrow> m \<le> n'" by blast
  have nk: "(pid, vpn) \<notin> fst ` set (tlb_map t)" using new by (auto simp: tlb_frame_def map_of_eq_None_iff rev_image_eqI)
  let ?t = "t1\<lparr>tlb_clock := tlb_clock t1 + 1,
    tlb_map := TLB_store (pid, vpn) \<lparr>te_frame = f, te_stamp = tlb_clock t + 1\<rparr> (tlb_map t1)\<rparr>"
  have i: "TLB_insert t pid vpn f = Inr ?t" using nk full e by (simp add: TLB_insert_def Let_def)
  have fr: "tlb_frame ?t = (tlb_frame t)(k := None, (pid, vpn) \<mapsto> f)"
    by (simp add: fun_eq_iff tlb_frame_def map_of_TLB_store t1 map_of_filter_key)
  have "last_touch xs k < last_touch xs k'" if k': "k' \<in> dom (tlb_frame t)" "k' \<noteq> k" for k'
  proof -
    obtain n' where n': "tlb_stamp t k' = Some n'" using k'(1) tlb_frame_stamp by blast
    have "m \<le> n'" "m \<noteq> n'" using least [OF n'] s km n' k'(2) unfolding stamps_ok_def by blast+
    then show ?thesis using s km n' unfolding stamps_ok_def by (metis order_le_neq_trans)
  qed
  moreover have "k \<in> dom (tlb_frame t)" using km tlb_frame_stamp by blast
  ultimately show ?thesis using i fr by blast
qed

text \<open>
  C8.  The TLB evicts the least recently used entry: after any sequence of fewer than \<open>2 ^ 64 - 1\<close>
  operations, between which the order of the hash map may change in any way, inserting a new key into a full TLB removes
  exactly one mapping, of the key whose last lookup or insertion lies before that of every other key present, and adds
  the new one; and for every order \<open>es\<close> in which the eviction may meet the entries, the mapping that results is the same.
\<close>

theorem TLB_evicts_lru:
  assumes run: "run_tlb xs (TLB_new cap) = Inr t" and cap: "cap \<noteq> 0" and n: "length xs < 2 ^ 64 - 1"
    and new: "(pid, vpn) \<notin> dom (tlb_frame t)" and full: "unat (tlb_cap t) \<le> length (tlb_map t)"
  shows "\<exists>t' k. TLB_insert t pid vpn f = Inr t' \<and> k \<in> dom (tlb_frame t) \<and>
    tlb_frame t' = (tlb_frame t)(k := None, (pid, vpn) \<mapsto> f) \<and>
    (\<forall>k' \<in> dom (tlb_frame t). k' \<noteq> k \<longrightarrow> last_touch xs k < last_touch xs k') \<and>
    (\<forall>es. mset es = mset (tlb_map t) \<longrightarrow>
       (\<exists>t''. TLB_insert (t\<lparr>tlb_map := es\<rparr>) pid vpn f = Inr t'' \<and> tlb_frame t'' = tlb_frame t'))"
proof -
  have s: "stamps_ok xs t" using run_tlb_stamps [OF stamps_new [OF cap] run] n by simp
  from TLB_insert_lru [OF s new full, of f] obtain t' k where
    k: "TLB_insert t pid vpn f = Inr t'" "k \<in> dom (tlb_frame t)" "tlb_frame t' = (tlb_frame t)(k := None, (pid, vpn) \<mapsto> f)"
      "\<forall>k' \<in> dom (tlb_frame t). k' \<noteq> k \<longrightarrow> last_touch xs k < last_touch xs k'" by blast
  have "\<exists>t''. TLB_insert (t\<lparr>tlb_map := es\<rparr>) pid vpn f = Inr t'' \<and> tlb_frame t'' = tlb_frame t'" if es: "mset es = mset (tlb_map t)" for es
  proof -
    let ?t = "t\<lparr>tlb_map := es\<rparr>"
    have "tlb_ok t" using s by (simp add: stamps_ok_def)
    note r = reorder_stamp [OF this es]
    have "stamps_ok xs ?t" using s r(1,2) unfolding stamps_ok_def by simp
    moreover have "unat (tlb_cap ?t) \<le> length (tlb_map ?t)" using full mset_eq_length [OF es] by simp
    ultimately obtain t'' l where
      l: "TLB_insert ?t pid vpn f = Inr t''" "l \<in> dom (tlb_frame t)" "tlb_frame t'' = (tlb_frame t)(l := None, (pid, vpn) \<mapsto> f)"
        "\<forall>k' \<in> dom (tlb_frame t). k' \<noteq> l \<longrightarrow> last_touch xs l < last_touch xs k'"
      using TLB_insert_lru [of xs ?t pid vpn f] new unfolding r(3) by blast
    have "l = k" using k(2,4) l(2,4) by (metis less_asym)
    then show ?thesis using l(1,3) k(3) by simp
  qed
  with k show ?thesis by blast
qed

theorem TLB_evicts_lru_witness:
  "\<exists>t t' k. run_tlb [T_insert 1 10 0, T_insert 1 11 1, T_lookup 1 10] (TLB_new 2) = Inr t \<and>
     TLB_insert t 1 12 2 = Inr t' \<and> tlb_frame t' = (tlb_frame t)(k := None, (1, 12) \<mapsto> 2) \<and> k = (1, 11) \<and>
     (\<exists>t''. TLB_insert (t\<lparr>tlb_map := rev (tlb_map t)\<rparr>) 1 12 2 = Inr t'' \<and> tlb_frame t'' = tlb_frame t')"
proof -
  let ?xs = "[T_insert 1 10 0, T_insert 1 11 1, T_lookup 1 10]"
  obtain t where t: "run_tlb ?xs (TLB_new 2) = Inr t" "tlb_cap t = 2"
    "tlb_map t = [((1, 10), \<lparr>te_frame = 0, te_stamp = 3\<rparr>), ((1, 11), \<lparr>te_frame = 1, te_stamp = 2\<rparr>)]"
    by (simp add: TLB_new_def TLB_insert_def TLB_lookup_def TLB_store_def Let_def)
  then have dom: "dom (tlb_frame t) = {(1, 10), (1, 11)}" by (auto simp: tlb_frame_def dom_def split: if_splits)
  have "(2::u32) \<noteq> 0" "length ?xs < 2 ^ 64 - 1" "(1, 12) \<notin> dom (tlb_frame t)" "unat (tlb_cap t) \<le> length (tlb_map t)"
    using dom t(2,3) by simp_all
  from TLB_evicts_lru [OF t(1) this, of 2] obtain t' k where
    k: "TLB_insert t 1 12 2 = Inr t'" "k \<in> dom (tlb_frame t)"
    "tlb_frame t' = (tlb_frame t)(k := None, (1, 12) \<mapsto> 2)"
    "\<forall>k' \<in> dom (tlb_frame t). k' \<noteq> k \<longrightarrow> last_touch ?xs k < last_touch ?xs k'"
    "\<forall>es. mset es = mset (tlb_map t) \<longrightarrow> (\<exists>t''. TLB_insert (t\<lparr>tlb_map := es\<rparr>) 1 12 2 = Inr t'' \<and> tlb_frame t'' = tlb_frame t')"
    by blast
  then have "k = (1, 11)" unfolding dom by (auto simp: last_touch_def)
  moreover have "\<exists>t''. TLB_insert (t\<lparr>tlb_map := rev (tlb_map t)\<rparr>) 1 12 2 = Inr t'' \<and> tlb_frame t'' = tlb_frame t'"
    using k(5) by simp
  ultimately show ?thesis using k(1,3) t(1) by blast
qed

text \<open>
  The frame allocator: frames in use and free frames always partition the frames below
  \<open>total_frames\<close>; an allocation fails exactly when all are in use, and otherwise returns a frame
  nobody uses; \<open>used_frames\<close> counts the frames in use.
\<close>

theorem FrameAllocator_partition:
  assumes ok: "frames_ok a U"
  shows "(FrameAllocator_alloc a = Inl Bad_alloc \<longleftrightarrow> U = {f. f < fa_total a}) \<and>
    (\<forall>f a'. FrameAllocator_alloc a = Inr (f, a') \<longrightarrow> f \<notin> U \<and> frames_ok a' (insert f U)) \<and>
    (\<forall>f \<in> U. frames_ok (FrameAllocator_free a f) (U - {f})) \<and>
    unat (FrameAllocator_used_frames a) = card U"
proof -
  have d: "distinct (fa_free a)" "set (fa_free a) \<inter> U = {}" "set (fa_free a) \<union> U = {f. f < fa_total a}"
    using ok by (auto simp: frames_ok_def)
  have c: "card {f. f < fa_total a} = unat (fa_total a)"
    using card_image [OF inj_of_nat_below [of "fa_total a"]] by (simp add: below_total)
  have "finite U" using d(3) by (metis finite finite_Un)
  then have "length (fa_free a) + card U = unat (fa_total a)"
    using card_Un_disjoint [OF _ _ d(2)] d(1,3) c by (simp add: distinct_card)
  moreover from this have "unat (of_nat (length (fa_free a)) :: u32) = length (fa_free a)"
    using unsigned_less [of "fa_total a", where 'a = nat] by (simp add: unat_of_nat)
  ultimately have "unat (FrameAllocator_used_frames a) = card U"
    by (simp add: FrameAllocator_used_frames_def FrameAllocator_free_frames_def unat_sub_if')
  moreover have "FrameAllocator_alloc a = Inl Bad_alloc \<longleftrightarrow> U = {f. f < fa_total a}"
    using d by (auto simp: FrameAllocator_alloc_def split: list.splits)
  ultimately show ?thesis using FrameAllocator_alloc_ok [OF ok] FrameAllocator_free_ok [OF ok] by blast
qed

theorem FrameAllocator_partition_witness:
  "unat (FrameAllocator_used_frames (FrameAllocator_new 3)) = 0"
  using FrameAllocator_partition [OF FrameAllocator_new_ok [of 3]] by simp

end
