(* ===== verification/Replacement.thy ===== *)
theory Replacement
  imports Prelude
begin

text \<open>
  \<^verbatim>\<open>memlab/vm/replacement/\<close>: the interface \<open>IReplacement\<close> as a record of functions, the contract the
  memory manager relies on as a locale, and the four policies that provide it.  \<open>victim\<close> and the
  other operations return \<open>Inl Undefined\<close> where the code would read outside a container.
\<close>

record 'p IReplacement =
  on_load :: "'p \<Rightarrow> u32 \<Rightarrow> 'p"
  on_access :: "'p \<Rightarrow> u32 \<Rightarrow> 'p result"
  victim :: "'p \<Rightarrow> (u32 \<times> 'p) result"
  on_evict :: "'p \<Rightarrow> u32 \<Rightarrow> 'p result"

text \<open>
  The contract: the policy tracks the set of frames that hold a page, it never fails while it is
  used as documented, and it nominates only frames in that set.
\<close>

locale replacement_policy =
  fixes pol :: "'p IReplacement" and tracks :: "'p \<Rightarrow> u32 set \<Rightarrow> bool"
  assumes load_tracks: "tracks p R \<Longrightarrow> f \<notin> R \<Longrightarrow> tracks (on_load pol p f) (insert f R)"
    and access_tracks: "tracks p R \<Longrightarrow> f \<in> R \<Longrightarrow> \<exists>p'. on_access pol p f = Inr p' \<and> tracks p' R"
    and victim_tracks: "tracks p R \<Longrightarrow> R \<noteq> {} \<Longrightarrow>
      \<exists>f p' p''. victim pol p = Inr (f, p') \<and> f \<in> R \<and> on_evict pol p' f = Inr p'' \<and> tracks p'' (R - {f})"

subsection \<open>FIFO\<close>

record FIFOReplacement =
  ff_order :: "u32 list"
  ff_in_use :: "u32 set"

definition FIFO_new :: FIFOReplacement where
  "FIFO_new = \<lparr>ff_order = [], ff_in_use = {}\<rparr>"

definition FIFO_on_load :: "FIFOReplacement \<Rightarrow> u32 \<Rightarrow> FIFOReplacement" where
  "FIFO_on_load p frame = p\<lparr>ff_order := ff_order p @ [frame], ff_in_use := insert frame (ff_in_use p)\<rparr>"

definition FIFO_on_access :: "FIFOReplacement \<Rightarrow> u32 \<Rightarrow> FIFOReplacement result" where
  "FIFO_on_access p frame = Inr p"

definition FIFO_victim :: "FIFOReplacement \<Rightarrow> (u32 \<times> FIFOReplacement) result" where
  "FIFO_victim p =
     (case dropWhile (\<lambda>f. f \<notin> ff_in_use p) (ff_order p) of
        [] \<Rightarrow> Inl Undefined
      | f # fs \<Rightarrow> Inr (f, p\<lparr>ff_order := f # fs\<rparr>))"

definition FIFO_on_evict :: "FIFOReplacement \<Rightarrow> u32 \<Rightarrow> FIFOReplacement result" where
  "FIFO_on_evict p frame = Inr (p\<lparr>ff_in_use := ff_in_use p - {frame}\<rparr>)"

definition FIFO :: "FIFOReplacement IReplacement" where
  "FIFO = \<lparr>on_load = FIFO_on_load, on_access = FIFO_on_access, victim = FIFO_victim, on_evict = FIFO_on_evict\<rparr>"

definition FIFO_tracks :: "FIFOReplacement \<Rightarrow> u32 set \<Rightarrow> bool" where
  "FIFO_tracks p R \<longleftrightarrow> ff_in_use p = R \<and> R \<subseteq> set (ff_order p)"

lemma dropWhile_in_use:
  assumes "R \<noteq> {}" "R \<subseteq> set xs"
  shows "\<exists>f fs. dropWhile (\<lambda>f. f \<notin> R) xs = f # fs \<and> f \<in> R \<and> R \<subseteq> set (f # fs)"
  using assms
proof (induction xs)
  case (Cons x xs)
  show ?case
  proof (cases "x \<in> R")
    case True
    then show ?thesis using Cons.prems by simp
  next
    case False
    then have "R \<subseteq> set xs" using Cons.prems by auto
    with Cons.IH [OF Cons.prems(1)] False show ?thesis by simp
  qed
qed simp

interpretation fifo: replacement_policy FIFO FIFO_tracks
proof
  fix p R f
  assume "FIFO_tracks p R" "f \<notin> R"
  then show "FIFO_tracks (on_load FIFO p f) (insert f R)" by (auto simp: FIFO_def FIFO_tracks_def FIFO_on_load_def)
next
  fix p R f
  assume "FIFO_tracks p R"
  then show "\<exists>p'. on_access FIFO p f = Inr p' \<and> FIFO_tracks p' R" by (simp add: FIFO_def FIFO_on_access_def)
next
  fix p R
  assume t: "FIFO_tracks p R" and ne: "R \<noteq> {}"
  then obtain f fs where d: "dropWhile (\<lambda>f. f \<notin> ff_in_use p) (ff_order p) = f # fs" "f \<in> R" "R \<subseteq> set (f # fs)"
    using dropWhile_in_use [of R "ff_order p"] by (auto simp: FIFO_tracks_def)
  with t show "\<exists>f p' p''. victim FIFO p = Inr (f, p') \<and> f \<in> R \<and> on_evict FIFO p' f = Inr p'' \<and> FIFO_tracks p'' (R - {f})"
    by (auto simp: FIFO_def FIFO_tracks_def FIFO_victim_def FIFO_on_evict_def)
qed

subsection \<open>LRU\<close>

text \<open>
  A node of the \<open>std::list\<close> is a number, its identity, with the frame it holds; an iterator is
  such a number.
\<close>

record LRUReplacement =
  lru_list :: "(nat \<times> u32) list"
  lru_map :: "u32 \<rightharpoonup> nat"
  lru_fresh :: nat

definition LRU_new :: LRUReplacement where
  "LRU_new = \<lparr>lru_list = [], lru_map = Map.empty, lru_fresh = 0\<rparr>"

definition LRU_on_load :: "LRUReplacement \<Rightarrow> u32 \<Rightarrow> LRUReplacement" where
  "LRU_on_load p frame =
     p\<lparr>lru_list := (lru_fresh p, frame) # lru_list p, lru_map := (lru_map p)(frame \<mapsto> lru_fresh p),
       lru_fresh := Suc (lru_fresh p)\<rparr>"

definition LRU_on_access :: "LRUReplacement \<Rightarrow> u32 \<Rightarrow> LRUReplacement result" where
  "LRU_on_access p frame =
     (case lru_map p frame of
        None \<Rightarrow> Inr p
      | Some it \<Rightarrow>
          (case List.find (\<lambda>x. fst x = it) (lru_list p) of
             None \<Rightarrow> Inl Undefined
           | Some node \<Rightarrow> Inr (p\<lparr>lru_list := node # filter (\<lambda>x. fst x \<noteq> it) (lru_list p)\<rparr>)))"

definition LRU_victim :: "LRUReplacement \<Rightarrow> (u32 \<times> LRUReplacement) result" where
  "LRU_victim p = (if lru_list p = [] then Inl Undefined else Inr (snd (last (lru_list p)), p))"

definition LRU_on_evict :: "LRUReplacement \<Rightarrow> u32 \<Rightarrow> LRUReplacement result" where
  "LRU_on_evict p frame =
     (case lru_map p frame of
        None \<Rightarrow> Inr p
      | Some it \<Rightarrow>
          if it \<in> fst ` set (lru_list p)
          then Inr (p\<lparr>lru_list := filter (\<lambda>x. fst x \<noteq> it) (lru_list p), lru_map := (lru_map p)(frame := None)\<rparr>)
          else Inl Undefined)"

definition LRU :: "LRUReplacement IReplacement" where
  "LRU = \<lparr>on_load = LRU_on_load, on_access = LRU_on_access, victim = LRU_victim, on_evict = LRU_on_evict\<rparr>"

text \<open>The frames from the most to the least recently used one, and when the map agrees with the list.\<close>

definition lru_frames :: "LRUReplacement \<Rightarrow> u32 list" where
  "lru_frames p = map snd (lru_list p)"

definition lru_ok :: "LRUReplacement \<Rightarrow> bool" where
  "lru_ok p \<longleftrightarrow> distinct (map fst (lru_list p)) \<and> distinct (lru_frames p) \<and>
     (\<forall>x \<in> set (lru_list p). fst x < lru_fresh p) \<and>
     (\<forall>f it. lru_map p f = Some it \<longleftrightarrow> (it, f) \<in> set (lru_list p))"

lemma lru_find:
  "distinct (map fst xs) \<Longrightarrow> (it, f) \<in> set xs \<Longrightarrow> List.find (\<lambda>x. fst x = it) xs = Some (it, f)"
  by (induction xs) (auto simp: image_iff)

lemma lru_filter:
  "distinct (map fst xs) \<Longrightarrow> distinct (map snd xs) \<Longrightarrow> (it, f) \<in> set xs \<Longrightarrow>
     map snd (filter (\<lambda>x. fst x \<noteq> it) xs) = filter (\<lambda>g. g \<noteq> f) (map snd xs)"
proof (induction xs)
  case (Cons x xs)
  show ?case
  proof (cases "x = (it, f)")
    case True
    then have "it \<notin> fst ` set xs" "f \<notin> snd ` set xs" using Cons.prems by auto
    then have "filter (\<lambda>x. fst x \<noteq> it) xs = xs" "filter (\<lambda>g. g \<noteq> f) (map snd xs) = map snd xs"
      by (auto intro!: filter_True)
    with True show ?thesis by simp
  next
    case False
    then have "(it, f) \<in> set xs" using Cons.prems by auto
    moreover from this have "it \<in> fst ` set xs" "f \<in> snd ` set xs" by (simp_all add: rev_image_eqI)
    then have "fst x \<noteq> it" "snd x \<noteq> f" using Cons.prems by auto
    ultimately show ?thesis using Cons by simp
  qed
qed simp

lemma lru_node_unique:
  assumes "distinct (map fst xs)" "distinct (map snd xs)" "(it, f) \<in> set xs" "(i, g) \<in> set xs"
  shows "g = f \<longleftrightarrow> i = it"
  using assms unfolding distinct_map by (metis fst_conv inj_onD snd_conv)

lemma lru_map_tracks: "lru_ok p \<Longrightarrow> (\<exists>it. lru_map p f = Some it) \<longleftrightarrow> f \<in> set (lru_frames p)"
  by (force simp: lru_ok_def lru_frames_def image_iff)

lemma lru_node:
  assumes "lru_ok p" "f \<in> set (lru_frames p)"
  obtains it where "lru_map p f = Some it" "(it, f) \<in> set (lru_list p)"
  using assms lru_map_tracks unfolding lru_ok_def by blast

lemma LRU_on_load_ok:
  assumes ok: "lru_ok p" and f: "f \<notin> set (lru_frames p)"
  shows "lru_ok (LRU_on_load p f) \<and> lru_frames (LRU_on_load p f) = f # lru_frames p"
proof -
  have "lru_fresh p \<notin> fst ` set (lru_list p)" using ok by (auto simp: lru_ok_def)
  with ok f show ?thesis
    by (auto simp: lru_ok_def LRU_on_load_def lru_frames_def less_Suc_eq image_iff)
qed

lemma LRU_on_access_ok:
  assumes ok: "lru_ok p" and f: "f \<in> set (lru_frames p)"
  shows "\<exists>p'. LRU_on_access p f = Inr p' \<and> lru_ok p' \<and> lru_frames p' = f # filter (\<lambda>g. g \<noteq> f) (lru_frames p)"
proof -
  obtain it where m: "lru_map p f = Some it" and l: "(it, f) \<in> set (lru_list p)"
    using lru_node [OF ok f] by blast
  have d: "distinct (map fst (lru_list p))" "distinct (map snd (lru_list p))"
    using ok by (auto simp: lru_ok_def lru_frames_def)
  let ?p = "p\<lparr>lru_list := (it, f) # filter (\<lambda>x. fst x \<noteq> it) (lru_list p)\<rparr>"
  have r: "LRU_on_access p f = Inr ?p" using m lru_find [OF d(1) l] by (simp add: LRU_on_access_def)
  have fr: "lru_frames ?p = f # filter (\<lambda>g. g \<noteq> f) (lru_frames p)"
    using lru_filter [OF d l] by (simp add: lru_frames_def)
  have s: "set (lru_list ?p) = set (lru_list p)" using l lru_node_unique [OF d l] by auto
  have "distinct (map fst (lru_list ?p))" using d(1) by (auto simp: distinct_map_filter)
  moreover have "distinct (lru_frames ?p)" unfolding fr using d(2) by (auto simp: lru_frames_def)
  ultimately have "lru_ok ?p" using ok unfolding lru_ok_def s by simp
  with r fr show ?thesis by blast
qed

lemma LRU_on_evict_ok:
  assumes ok: "lru_ok p" and f: "f \<in> set (lru_frames p)"
  shows "\<exists>p'. LRU_on_evict p f = Inr p' \<and> lru_ok p' \<and> lru_frames p' = filter (\<lambda>g. g \<noteq> f) (lru_frames p)"
proof -
  obtain it where m: "lru_map p f = Some it" and l: "(it, f) \<in> set (lru_list p)"
    using lru_node [OF ok f] by blast
  have d: "distinct (map fst (lru_list p))" "distinct (map snd (lru_list p))"
    using ok by (auto simp: lru_ok_def lru_frames_def)
  let ?p = "p\<lparr>lru_list := filter (\<lambda>x. fst x \<noteq> it) (lru_list p), lru_map := (lru_map p)(f := None)\<rparr>"
  have "it \<in> fst ` set (lru_list p)" using l by (auto simp: rev_image_eqI)
  then have r: "LRU_on_evict p f = Inr ?p" using m by (simp add: LRU_on_evict_def)
  have fr: "lru_frames ?p = filter (\<lambda>g. g \<noteq> f) (lru_frames p)"
    using lru_filter [OF d l] by (simp add: lru_frames_def)
  have u: "g = f \<longleftrightarrow> i = it" if "(i, g) \<in> set (lru_list p)" for i g
    using lru_node_unique [OF d l that] .
  have "distinct (map fst (lru_list ?p))" using d(1) by (auto simp: distinct_map_filter)
  moreover have "distinct (lru_frames ?p)" unfolding fr using d(2) by (auto simp: lru_frames_def)
  moreover have "lru_map ?p g = Some i \<longleftrightarrow> (i, g) \<in> set (lru_list ?p)" for g i
    using ok u [of i g] by (auto simp: lru_ok_def)
  ultimately have "lru_ok ?p" using ok unfolding lru_ok_def by auto
  with r fr show ?thesis by blast
qed

definition LRU_tracks :: "LRUReplacement \<Rightarrow> u32 set \<Rightarrow> bool" where
  "LRU_tracks p R \<longleftrightarrow> lru_ok p \<and> set (lru_frames p) = R"

interpretation lru: replacement_policy LRU LRU_tracks
proof
  fix p R f
  assume "LRU_tracks p R" "f \<notin> R"
  then show "LRU_tracks (on_load LRU p f) (insert f R)" using LRU_on_load_ok [of p f] by (auto simp: LRU_def LRU_tracks_def)
next
  fix p R f
  assume "LRU_tracks p R" "f \<in> R"
  then show "\<exists>p'. on_access LRU p f = Inr p' \<and> LRU_tracks p' R"
    using LRU_on_access_ok [of p f] by (auto simp: LRU_def LRU_tracks_def)
next
  fix p R
  assume t: "LRU_tracks p R" and "R \<noteq> {}"
  then have ne: "lru_list p \<noteq> []" by (auto simp: LRU_tracks_def lru_frames_def)
  then have l: "snd (last (lru_list p)) \<in> set (lru_frames p)" by (simp add: lru_frames_def)
  from LRU_on_evict_ok [OF _ l] t ne l
  show "\<exists>f p' p''. victim LRU p = Inr (f, p') \<and> f \<in> R \<and> on_evict LRU p' f = Inr p'' \<and> LRU_tracks p'' (R - {f})"
    by (auto simp: LRU_def LRU_tracks_def LRU_victim_def)
qed

subsection \<open>Clock\<close>

record ClockReplacement =
  ck_ring :: "(u32 \<times> bool) list"
  ck_frame_idx :: "u32 \<rightharpoonup> nat"
  ck_hand :: nat

definition Clock_new :: ClockReplacement where
  "Clock_new = \<lparr>ck_ring = [], ck_frame_idx = Map.empty, ck_hand = 0\<rparr>"

definition Clock_on_load :: "ClockReplacement \<Rightarrow> u32 \<Rightarrow> ClockReplacement" where
  "Clock_on_load p frame =
     p\<lparr>ck_ring := ck_ring p @ [(frame, True)], ck_frame_idx := (ck_frame_idx p)(frame \<mapsto> length (ck_ring p))\<rparr>"

definition Clock_on_access :: "ClockReplacement \<Rightarrow> u32 \<Rightarrow> ClockReplacement result" where
  "Clock_on_access p frame =
     (case ck_frame_idx p frame of
        None \<Rightarrow> Inr p
      | Some i \<Rightarrow>
          if i < length (ck_ring p) then Inr (p\<lparr>ck_ring := (ck_ring p)[i := (fst (ck_ring p ! i), True)]\<rparr>)
          else Inl Undefined)"

text \<open>
  The loop of \<open>victim\<close>, with the number of tries left: the frame it returns from inside the loop, or
  \<open>None\<close> when the tries run out and control reaches the \<open>return\<close> below the loop.
\<close>

fun Clock_scan :: "nat \<Rightarrow> ClockReplacement \<Rightarrow> (u32 option \<times> ClockReplacement) result" where
  "Clock_scan 0 p = Inr (None, p)"
| "Clock_scan (Suc tries) p =
     (if \<not> ck_hand p < length (ck_ring p) then Inl Undefined
      else let slot = ck_ring p ! ck_hand p in
           if \<not> snd slot then Inr (Some (fst slot), p)
           else Clock_scan tries
             (p\<lparr>ck_ring := (ck_ring p)[ck_hand p := (fst slot, False)],
                ck_hand := (ck_hand p + 1) mod length (ck_ring p)\<rparr>))"

definition Clock_victim :: "ClockReplacement \<Rightarrow> (u32 \<times> ClockReplacement) result" where
  "Clock_victim p =
     (case Clock_scan (length (ck_ring p) * 2) p of
        Inl e \<Rightarrow> Inl e
      | Inr (Some frame, p') \<Rightarrow> Inr (frame, p')
      | Inr (None, p') \<Rightarrow>
          if ck_hand p' < length (ck_ring p') then Inr (fst (ck_ring p' ! ck_hand p'), p') else Inl Undefined)"

definition Clock_on_evict :: "ClockReplacement \<Rightarrow> u32 \<Rightarrow> ClockReplacement result" where
  "Clock_on_evict p frame =
     (case ck_frame_idx p frame of
        None \<Rightarrow> Inr p
      | Some i \<Rightarrow>
          if \<not> i < length (ck_ring p) then Inl Undefined
          else
            let back = last (ck_ring p);
                ring = butlast ((ck_ring p)[i := back]);
                idx = (ck_frame_idx p)(fst back \<mapsto> i, frame := None)
            in Inr (p\<lparr>ck_ring := ring, ck_frame_idx := idx,
                      ck_hand := (if ck_hand p \<ge> length ring \<and> ring \<noteq> [] then 0 else ck_hand p)\<rparr>))"

definition Clock :: "ClockReplacement IReplacement" where
  "Clock = \<lparr>on_load = Clock_on_load, on_access = Clock_on_access, victim = Clock_victim, on_evict = Clock_on_evict\<rparr>"

definition clock_ok :: "ClockReplacement \<Rightarrow> bool" where
  "clock_ok p \<longleftrightarrow> distinct (map fst (ck_ring p)) \<and>
     (\<forall>f i. ck_frame_idx p f = Some i \<longleftrightarrow> i < length (ck_ring p) \<and> fst (ck_ring p ! i) = f) \<and>
     (ck_hand p < length (ck_ring p) \<or> ck_ring p = [] \<and> ck_hand p = 0)"

definition Clock_tracks :: "ClockReplacement \<Rightarrow> u32 set \<Rightarrow> bool" where
  "Clock_tracks p R \<longleftrightarrow> clock_ok p \<and> fst ` set (ck_ring p) = R"

lemma Clock_on_load_ok:
  assumes ok: "clock_ok p" and f: "f \<notin> fst ` set (ck_ring p)"
  shows "clock_ok (Clock_on_load p f)"
proof -
  have "fst (ck_ring p ! i) \<noteq> f" if "i < length (ck_ring p)" for i using f that by (metis image_eqI nth_mem)
  then show ?thesis using ok f
    by (auto simp: clock_ok_def Clock_on_load_def nth_append less_Suc_eq)
qed

lemma map_fst_refresh: "i < length xs \<Longrightarrow> map fst (xs[i := (fst (xs ! i), b)]) = map fst xs"
  by (simp add: map_update) (metis list_update_id nth_map)

lemma nth_fst_refresh: "i < length xs \<Longrightarrow> j < length xs \<Longrightarrow> fst (xs[i := (fst (xs ! i), b)] ! j) = fst (xs ! j)"
  by (cases "i = j") auto

lemma set_fst_refresh: "i < length xs \<Longrightarrow> fst ` set (xs[i := (fst (xs ! i), b)]) = fst ` set xs"
  using map_fst_refresh [of i xs b] by (metis list.set_map)

text \<open>Touching the reference bits, or moving the hand inside the ring, keeps the index right.\<close>

lemma clock_ok_bits:
  assumes "clock_ok p" "map fst r = map fst (ck_ring p)" "h < length r"
  shows "clock_ok (p\<lparr>ck_ring := r, ck_hand := h\<rparr>)"
proof -
  have l: "length r = length (ck_ring p)" using assms(2) by (metis length_map)
  moreover have "fst (r ! i) = fst (ck_ring p ! i)" if "i < length r" for i
    using assms(2) that l by (metis nth_map)
  ultimately show ?thesis using assms by (auto simp: clock_ok_def)
qed

lemma mod_shift_neq:
  fixes h :: nat
  assumes "j < k" "k < n"
  shows "(h + k) mod n \<noteq> (h + j) mod n"
proof
  assume "(h + k) mod n = (h + j) mod n"
  then have "n dvd (h + k) - (h + j)" using assms(1) by (subst (asm) mod_eq_dvd_iff_nat) auto
  then show False using assms by (auto dest: dvd_imp_le)
qed

text \<open>Past \<open>k\<close> referenced slots the hand moves on, clearing their bits.\<close>

lemma Clock_scan_skip:
  assumes h: "ck_hand p < length (ck_ring p)" and k: "k \<le> length (ck_ring p)"
    and ref: "\<forall>j < k. snd (ck_ring p ! ((ck_hand p + j) mod length (ck_ring p)))"
  shows "\<exists>q. Clock_scan (k + t) p = Clock_scan t q \<and> ck_hand q = (ck_hand p + k) mod length (ck_ring p) \<and>
    map fst (ck_ring q) = map fst (ck_ring p) \<and> ck_frame_idx q = ck_frame_idx p \<and>
    (\<forall>m < length (ck_ring p). snd (ck_ring q ! m) \<longleftrightarrow>
       snd (ck_ring p ! m) \<and> (\<forall>j < k. m \<noteq> (ck_hand p + j) mod length (ck_ring p)))"
  using k ref
proof (induction k arbitrary: t)
  case 0
  then show ?case using h by (intro exI [of _ p]) simp
next
  case (Suc k)
  let ?n = "length (ck_ring p)" and ?h = "ck_hand p"
  obtain q where q: "Clock_scan (k + Suc t) p = Clock_scan (Suc t) q" "ck_hand q = (?h + k) mod ?n"
    "map fst (ck_ring q) = map fst (ck_ring p)" "ck_frame_idx q = ck_frame_idx p"
    "\<forall>m < ?n. snd (ck_ring q ! m) \<longleftrightarrow> snd (ck_ring p ! m) \<and> (\<forall>j < k. m \<noteq> (?h + j) mod ?n)"
    using Suc.IH [of "Suc t"] Suc.prems by auto
  have len: "length (ck_ring q) = ?n" using q(3) by (metis length_map)
  have hq: "ck_hand q < ?n" using q(2) h by (auto intro: mod_less_divisor)
  have "\<forall>j < k. (?h + k) mod ?n \<noteq> (?h + j) mod ?n" using mod_shift_neq Suc.prems(1) by (metis Suc_le_lessD)
  then have set: "snd (ck_ring q ! ck_hand q)" using q(2,5) hq Suc.prems(2) by simp
  let ?q = "q\<lparr>ck_ring := (ck_ring q)[ck_hand q := (fst (ck_ring q ! ck_hand q), False)],
    ck_hand := (ck_hand q + 1) mod length (ck_ring q)\<rparr>"
  have "Clock_scan (Suc k + t) p = Clock_scan t ?q" using q(1) hq len set by (simp add: Let_def)
  moreover have "ck_hand ?q = (?h + Suc k) mod ?n" using q(2) len by (simp add: mod_Suc_eq)
  moreover have "map fst (ck_ring ?q) = map fst (ck_ring p)" using map_fst_refresh [of "ck_hand q" "ck_ring q" False] hq len q(3) by simp
  moreover have "ck_frame_idx ?q = ck_frame_idx p" using q(4) by simp
  moreover have "snd (ck_ring ?q ! m) \<longleftrightarrow> snd (ck_ring p ! m) \<and> (\<forall>j < Suc k. m \<noteq> (?h + j) mod ?n)" if "m < ?n" for m
    using that q(2,5) hq len by (cases "m = ck_hand q") (auto simp: less_Suc_eq)
  ultimately show ?case by blast
qed

text \<open>
  Where the scan stops: at the first clear bit, or back at the hand after a full turn that cleared them all.
\<close>

definition clock_stop :: "ClockReplacement \<Rightarrow> nat \<Rightarrow> bool" where
  "clock_stop p k \<longleftrightarrow>
     (\<forall>j < k. snd (ck_ring p ! ((ck_hand p + j) mod length (ck_ring p)))) \<and>
     (k < length (ck_ring p) \<and> \<not> snd (ck_ring p ! ((ck_hand p + k) mod length (ck_ring p))) \<or> k = length (ck_ring p))"

lemma clock_stop_exists: "\<exists>k. clock_stop p k"
proof (cases "\<exists>k < length (ck_ring p). \<not> snd (ck_ring p ! ((ck_hand p + k) mod length (ck_ring p)))")
  case True
  then have ex: "\<exists>k. k < length (ck_ring p) \<and> \<not> snd (ck_ring p ! ((ck_hand p + k) mod length (ck_ring p)))" (is "\<exists>k. ?P k") by blast
  define k where "k = (LEAST k. ?P k)"
  have pk: "?P k" unfolding k_def by (rule LeastI_ex [OF ex])
  have "snd (ck_ring p ! ((ck_hand p + j) mod length (ck_ring p)))" if "j < k" for j
    using not_less_Least [of j ?P] that pk unfolding k_def by (meson less_trans)
  then show ?thesis using pk unfolding clock_stop_def by blast
next
  case False
  then show ?thesis unfolding clock_stop_def by blast
qed

lemma Clock_scan_stop:
  assumes h: "ck_hand p < length (ck_ring p)" and k: "clock_stop p k"
  shows "\<exists>p'. Clock_scan (length (ck_ring p) * 2) p =
      Inr (Some (fst (ck_ring p ! ((ck_hand p + k) mod length (ck_ring p)))), p') \<and>
    ck_hand p' = (ck_hand p + k) mod length (ck_ring p) \<and> map fst (ck_ring p') = map fst (ck_ring p) \<and>
    ck_frame_idx p' = ck_frame_idx p \<and>
    (\<forall>m < length (ck_ring p). snd (ck_ring p' ! m) \<longleftrightarrow>
       snd (ck_ring p ! m) \<and> (\<forall>j < k. m \<noteq> (ck_hand p + j) mod length (ck_ring p)))"
proof -
  let ?n = "length (ck_ring p)"
  have kn: "k \<le> ?n" and ref: "\<forall>j < k. snd (ck_ring p ! ((ck_hand p + j) mod ?n))" using k by (auto simp: clock_stop_def)
  have t: "?n * 2 = k + Suc (?n * 2 - Suc k)" (is "_ = _ + Suc ?t") using kn h by simp
  obtain q where q: "Clock_scan (k + Suc ?t) p = Clock_scan (Suc ?t) q" "ck_hand q = (ck_hand p + k) mod ?n"
    "map fst (ck_ring q) = map fst (ck_ring p)" "ck_frame_idx q = ck_frame_idx p"
    "\<forall>m < ?n. snd (ck_ring q ! m) \<longleftrightarrow> snd (ck_ring p ! m) \<and> (\<forall>j < k. m \<noteq> (ck_hand p + j) mod ?n)"
    using Clock_scan_skip [OF h kn ref, of "Suc ?t"] by blast
  have len: "length (ck_ring q) = ?n" using q(3) by (metis length_map)
  have hq: "ck_hand q < ?n" using q(2) h by (auto intro: mod_less_divisor)
  have clr: "\<not> snd (ck_ring q ! ck_hand q)"
  proof (cases "k = ?n")
    case True
    then have "ck_hand q = ck_hand p" using q(2) h by simp
    then have "ck_hand q = (ck_hand p + 0) mod ?n" "0 < k" using h True by auto
    then show ?thesis using q(5) hq by blast
  next
    case False
    then show ?thesis using k q(2,5) hq by (auto simp: clock_stop_def)
  qed
  have "fst (ck_ring q ! ck_hand q) = fst (ck_ring p ! ck_hand q)" using q(3) len hq by (metis nth_map)
  with q(1,2) hq len clr have "Clock_scan (k + Suc ?t) p = Inr (Some (fst (ck_ring p ! ((ck_hand p + k) mod ?n))), q)"
    by (auto simp: Let_def)
  then show ?thesis using arg_cong [OF t, of "\<lambda>x. Clock_scan x p"] q(2-5) by metis
qed

lemma Clock_scan_ok:
  assumes ok: "clock_ok p" and ne: "ck_ring p \<noteq> []"
  shows "\<exists>f p'. Clock_victim p = Inr (f, p') \<and> clock_ok p' \<and> map fst (ck_ring p') = map fst (ck_ring p) \<and>
    f \<in> fst ` set (ck_ring p)"
proof -
  have h: "ck_hand p < length (ck_ring p)" using ok ne by (auto simp: clock_ok_def)
  obtain k where k: "clock_stop p k" using clock_stop_exists by blast
  obtain p' where p': "Clock_scan (length (ck_ring p) * 2) p = Inr (Some (fst (ck_ring p ! ((ck_hand p + k) mod length (ck_ring p)))), p')"
    "ck_hand p' = (ck_hand p + k) mod length (ck_ring p)" "map fst (ck_ring p') = map fst (ck_ring p)" "ck_frame_idx p' = ck_frame_idx p"
    using Clock_scan_stop [OF h k] by blast
  have lt: "(ck_hand p + k) mod length (ck_ring p) < length (ck_ring p)" using ne by simp
  have "length (ck_ring p') = length (ck_ring p)" using p'(3) by (metis length_map)
  then have "clock_ok (p\<lparr>ck_ring := ck_ring p', ck_hand := ck_hand p'\<rparr>)" using p'(2) lt by (intro clock_ok_bits [OF ok p'(3)]) simp
  moreover have "p\<lparr>ck_ring := ck_ring p', ck_hand := ck_hand p'\<rparr> = p'" using p'(4) by simp
  ultimately have "clock_ok p'" by simp
  then show ?thesis using p'(1,3) lt by (auto simp: Clock_victim_def)
qed

text \<open>Removing an element by moving the last one into its place.\<close>

definition swap_remove :: "nat \<Rightarrow> 'a list \<Rightarrow> 'a list" where
  "swap_remove i xs = butlast (xs[i := last xs])"

lemma swap_remove_length: "length (swap_remove i xs) = length xs - 1"
  by (simp add: swap_remove_def)

lemma swap_remove_nth:
  assumes "length xs = Suc n" "j < n"
  shows "swap_remove i xs ! j = (if j = i then xs ! n else xs ! j)"
proof -
  have "last xs = xs ! n" using assms(1) by (metis diff_Suc_1 last_conv_nth list.size(3) nat.simps(3))
  then show ?thesis using assms by (simp add: swap_remove_def nth_butlast)
qed

lemma set_image_nth: "h ` set xs = (\<lambda>j. h (xs ! j)) ` {..<length xs}"
proof -
  have "set xs = (!) xs ` {..<length xs}" by (auto simp: set_conv_nth)
  then show ?thesis by (simp add: image_image)
qed

lemma swap_remove_keys:
  assumes d: "distinct (map h xs)" and n: "length xs = Suc n" and i: "i \<le> n"
  shows "h ` set (swap_remove i xs) = h ` set xs - {h (xs ! i)}"
proof -
  have inj: "h (xs ! j) = h (xs ! k) \<longleftrightarrow> j = k" if "j \<le> n" "k \<le> n" for j k
    using d that n nth_eq_iff_index_eq [of "map h xs" j k] by simp
  have "h ` set (swap_remove i xs) = (\<lambda>j. h (if j = i then xs ! n else xs ! j)) ` {..<n}"
    unfolding set_image_nth swap_remove_length n using swap_remove_nth [OF n] by (auto intro!: image_cong)
  also have "\<dots> = (\<lambda>j. h (xs ! j)) ` ((\<lambda>j. if j = i then n else j) ` {..<n})"
    unfolding image_image by (intro image_cong) auto
  also have "(\<lambda>j. if j = i then n else j) ` {..<n} = {..n} - {i}"
  proof (intro equalityI subsetI)
    fix x assume "x \<in> {..n} - {i}"
    then show "x \<in> (\<lambda>j. if j = i then n else j) ` {..<n}"
      using i by (intro image_eqI [of _ _ "if x = n then i else x"]) auto
  qed auto
  also have "(\<lambda>j. h (xs ! j)) ` ({..n} - {i}) = (\<lambda>j. h (xs ! j)) ` {..n} - {h (xs ! i)}" using i inj by auto
  finally show ?thesis by (simp add: set_image_nth n lessThan_Suc_atMost)
qed

lemma swap_remove_distinct:
  assumes d: "distinct (map h xs)" and n: "length xs = Suc n" and i: "i \<le> n"
  shows "distinct (map h (swap_remove i xs))"
proof -
  have "h (xs ! j) = h (xs ! k) \<longleftrightarrow> j = k" if "j \<le> n" "k \<le> n" for j k
    using d that n nth_eq_iff_index_eq [of "map h xs" j k] by simp
  then show ?thesis unfolding distinct_conv_nth using n i swap_remove_nth [OF n]
    by (auto simp: swap_remove_length split: if_splits)
qed

lemma Clock_on_evict_ok:
  assumes ok: "clock_ok p" and f: "f \<in> fst ` set (ck_ring p)"
  shows "\<exists>p'. Clock_on_evict p f = Inr p' \<and> clock_ok p' \<and> fst ` set (ck_ring p') = fst ` set (ck_ring p) - {f}"
proof -
  let ?r = "ck_ring p" and ?b = "last (ck_ring p)"
  have d: "distinct (map fst ?r)" and hand: "ck_hand p < length ?r" using ok f by (auto simp: clock_ok_def)
  have idx: "\<And>f i. ck_frame_idx p f = Some i \<longleftrightarrow> i < length ?r \<and> fst (?r ! i) = f" using ok by (auto simp: clock_ok_def)
  obtain i where i: "i < length ?r" "fst (?r ! i) = f" using f by (metis imageE in_set_conv_nth)
  obtain n where n: "length ?r = Suc n" using i by (cases "length ?r") auto
  then have iN: "i \<le> n" using i by simp
  let ?r' = "swap_remove i ?r" and ?idx = "(ck_frame_idx p)(fst ?b \<mapsto> i, f := None)"
  have b: "?b = ?r ! n" using n by (metis diff_Suc_1 last_conv_nth list.size(3) nat.simps(3))
  have len: "length ?r' = n" using n by (simp add: swap_remove_length)
  have s: "fst ` set ?r' = fst ` set ?r - {f}" using swap_remove_keys [OF d n iN] i(2) by simp
  have inj: "fst (?r ! j) = fst (?r ! n) \<longleftrightarrow> j = n" if "j \<le> n" for j
    using d that n nth_eq_iff_index_eq [of "map fst ?r" j n] by simp
  have ix: "?idx g = Some j \<longleftrightarrow> j < n \<and> fst (?r' ! j) = g" for g j
  proof -
    consider "g = f" | "g \<noteq> f" "g = fst ?b" | "g \<noteq> f" "g \<noteq> fst ?b" by blast
    then show ?thesis
    proof cases
      case 1
      have "f \<notin> fst ` set ?r'" using s by simp
      then show ?thesis using 1 len by (metis fun_upd_same image_eqI nth_mem option.distinct(1))
    next
      case 2
      then have "i < n" using b i iN by (cases "i = n") auto
      then show ?thesis using 2 b inj [of j] swap_remove_nth [OF n, of j i] by (cases "j = i") auto
    next
      case 3
      then show ?thesis using idx [of g j] b i n swap_remove_nth [OF n, of j i]
        by (cases "j = i") (auto simp: less_Suc_eq)
    qed
  qed
  let ?p = "p\<lparr>ck_ring := ?r', ck_frame_idx := ?idx,
    ck_hand := (if ck_hand p \<ge> length ?r' \<and> ?r' \<noteq> [] then 0 else ck_hand p)\<rparr>"
  have "Clock_on_evict p f = Inr ?p" using idx [of f i] i by (simp add: Clock_on_evict_def Let_def swap_remove_def)
  moreover have "clock_ok ?p"
    unfolding clock_ok_def using swap_remove_distinct [OF d n iN] ix len hand n by (auto simp: not_le)
  ultimately show ?thesis using s by (intro exI [of _ ?p]) simp
qed

interpretation clock: replacement_policy Clock Clock_tracks
proof
  fix p R f
  assume "Clock_tracks p R" "f \<notin> R"
  then show "Clock_tracks (on_load Clock p f) (insert f R)"
    using Clock_on_load_ok [of p f] by (auto simp: Clock_def Clock_tracks_def Clock_on_load_def)
next
  fix p R f
  assume t: "Clock_tracks p R" and "f \<in> R"
  then obtain i where "ck_frame_idx p f = Some i" "i < length (ck_ring p)"
    by (auto simp: Clock_tracks_def clock_ok_def) (metis fst_conv in_set_conv_nth)
  moreover from this have "clock_ok (p\<lparr>ck_ring := (ck_ring p)[i := (fst (ck_ring p ! i), True)]\<rparr>)"
    using clock_ok_bits [of p "(ck_ring p)[i := (fst (ck_ring p ! i), True)]" "ck_hand p"] t
    by (auto simp: Clock_tracks_def map_fst_refresh clock_ok_def)
  ultimately show "\<exists>p'. on_access Clock p f = Inr p' \<and> Clock_tracks p' R"
    using t by (simp add: Clock_def Clock_on_access_def Clock_tracks_def set_fst_refresh)
next
  fix p R
  assume t: "Clock_tracks p R" and ne: "R \<noteq> {}"
  then have "clock_ok p" "ck_ring p \<noteq> []" by (auto simp: Clock_tracks_def)
  from Clock_scan_ok [OF this] obtain f p' where p': "Clock_victim p = Inr (f, p')" "clock_ok p'"
    "map fst (ck_ring p') = map fst (ck_ring p)" "f \<in> fst ` set (ck_ring p)" by blast
  then have "fst ` set (ck_ring p') = fst ` set (ck_ring p)" by (metis list.set_map)
  with Clock_on_evict_ok [OF p'(2), of f] p' t
  show "\<exists>f p' p''. victim Clock p = Inr (f, p') \<and> f \<in> R \<and> on_evict Clock p' f = Inr p'' \<and> Clock_tracks p'' (R - {f})"
    by (auto simp: Clock_def Clock_tracks_def)
qed

subsection \<open>Optimal\<close>

definition size_max :: nat where
  "size_max = 2 ^ 64 - 1"

text \<open>
  The precomputed \<open>_next_use\<close> (which \<open>victim\<close> never reads), from the end of the trace, with the map
  \<open>last\<close>.  The set \<open>_loaded\<close> is a hash set: its elements are kept as a list, and the order in which
  \<open>victim\<close> meets them is a parameter \<open>op_order\<close>, which may depend on the elements and on how many
  insertions and erasures came before (\<open>op_version\<close>); nothing is assumed of it but that it visits the
  elements of the set.
\<close>

fun opt_next_use :: "nat \<Rightarrow> u32 list \<Rightarrow> nat list \<times> (u32 \<rightharpoonup> nat)" where
  "opt_next_use i [] = ([], Map.empty)"
| "opt_next_use i (x # xs) =
     (let (nu, lst) = opt_next_use (Suc i) xs
      in ((case lst x of None \<Rightarrow> size_max | Some j \<Rightarrow> j) # nu, lst(x \<mapsto> i)))"

record OptimalReplacement =
  op_trace :: "u32 list"
  op_next_use :: "nat list"
  op_pos :: nat
  op_loaded :: "u32 list"
  op_version :: nat
  op_order :: "nat \<Rightarrow> u32 list \<Rightarrow> u32 list"

definition Optimal_new :: "(nat \<Rightarrow> u32 list \<Rightarrow> u32 list) \<Rightarrow> u32 list \<Rightarrow> OptimalReplacement" where
  "Optimal_new ord trace = \<lparr>op_trace = trace, op_next_use = fst (opt_next_use 0 trace), op_pos = 0, op_loaded = [],
     op_version = 0, op_order = ord\<rparr>"

definition visits_set :: "(nat \<Rightarrow> u32 list \<Rightarrow> u32 list) \<Rightarrow> bool" where
  "visits_set ord \<longleftrightarrow> (\<forall>n xs. set (ord n xs) = set xs)"

definition Optimal_on_load :: "OptimalReplacement \<Rightarrow> u32 \<Rightarrow> OptimalReplacement" where
  "Optimal_on_load p frame = p\<lparr>op_loaded := List.insert frame (op_loaded p), op_version := op_version p + 1\<rparr>"

definition Optimal_on_access :: "OptimalReplacement \<Rightarrow> u32 \<Rightarrow> OptimalReplacement result" where
  "Optimal_on_access p frame = Inr p"

definition Optimal_advance :: "OptimalReplacement \<Rightarrow> OptimalReplacement" where
  "Optimal_advance p = (if op_pos p < length (op_trace p) then p\<lparr>op_pos := op_pos p + 1\<rparr> else p)"

definition opt_use :: "OptimalReplacement \<Rightarrow> u32 \<Rightarrow> nat" where
  "opt_use p f =
     (case List.find (\<lambda>j. op_trace p ! j = f) [op_pos p..<length (op_trace p)] of
        None \<Rightarrow> size_max | Some j \<Rightarrow> j)"

fun opt_best :: "OptimalReplacement \<Rightarrow> u32 \<times> nat \<Rightarrow> u32 list \<Rightarrow> u32 \<times> nat" where
  "opt_best p (best_frame, best_dist) [] = (best_frame, best_dist)"
| "opt_best p (best_frame, best_dist) (f # fs) =
     opt_best p (if opt_use p f > best_dist then (f, opt_use p f) else (best_frame, best_dist)) fs"

definition Optimal_victim :: "OptimalReplacement \<Rightarrow> (u32 \<times> OptimalReplacement) result" where
  "Optimal_victim p =
     (case op_order p (op_version p) (op_loaded p) of [] \<Rightarrow> Inl Undefined | b # fs \<Rightarrow> Inr (fst (opt_best p (b, 0) (b # fs)), p))"

definition Optimal_on_evict :: "OptimalReplacement \<Rightarrow> u32 \<Rightarrow> OptimalReplacement result" where
  "Optimal_on_evict p frame = Inr (p\<lparr>op_loaded := filter (\<lambda>f. f \<noteq> frame) (op_loaded p), op_version := op_version p + 1\<rparr>)"

definition Optimal :: "OptimalReplacement IReplacement" where
  "Optimal = \<lparr>on_load = Optimal_on_load, on_access = Optimal_on_access, victim = Optimal_victim,
     on_evict = Optimal_on_evict\<rparr>"

definition Optimal_tracks :: "OptimalReplacement \<Rightarrow> u32 set \<Rightarrow> bool" where
  "Optimal_tracks p R \<longleftrightarrow> set (op_loaded p) = R \<and> visits_set (op_order p)"

lemma opt_best_in: "fst (opt_best p (b, d) fs) \<in> insert b (set fs)"
proof (induction fs arbitrary: b d)
  case (Cons f fs)
  then show ?case by (cases "d < opt_use p f") (auto simp: subset_iff)
qed simp

lemma opt_best_furthest:
  "d \<le> opt_use p b \<Longrightarrow> d \<le> opt_use p (fst (opt_best p (b, d) fs)) \<and>
     (\<forall>f \<in> set fs. opt_use p f \<le> opt_use p (fst (opt_best p (b, d) fs)))"
proof (induction fs arbitrary: b d)
  case (Cons f fs)
  show ?case
  proof (cases "d < opt_use p f")
    case True
    then show ?thesis using Cons.IH [of "opt_use p f" f] by auto
  next
    case False
    then show ?thesis using Cons.IH [OF Cons.prems] by auto
  qed
qed simp

interpretation optimal: replacement_policy Optimal Optimal_tracks
proof
  fix p R f
  assume "Optimal_tracks p R" "f \<notin> R"
  then show "Optimal_tracks (on_load Optimal p f) (insert f R)"
    by (simp add: Optimal_def Optimal_tracks_def Optimal_on_load_def)
next
  fix p R f
  assume "Optimal_tracks p R" "f \<in> R"
  then show "\<exists>p'. on_access Optimal p f = Inr p' \<and> Optimal_tracks p' R"
    by (simp add: Optimal_def Optimal_on_access_def)
next
  fix p R
  assume t: "Optimal_tracks p R" and "R \<noteq> {}"
  then have R: "set (op_order p (op_version p) (op_loaded p)) = R" by (simp add: Optimal_tracks_def visits_set_def)
  with \<open>R \<noteq> {}\<close> obtain b fs where l: "op_order p (op_version p) (op_loaded p) = b # fs"
    by (cases "op_order p (op_version p) (op_loaded p)") auto
  have "fst (opt_best p (b, 0) (b # fs)) \<in> R" using opt_best_in [of p b 0 "b # fs"] R l by (auto simp: Optimal_tracks_def simp del: opt_best.simps)
  with t l show "\<exists>f p' p''. victim Optimal p = Inr (f, p') \<and> f \<in> R \<and> on_evict Optimal p' f = Inr p'' \<and> Optimal_tracks p'' (R - {f})"
    by (auto simp: Optimal_def Optimal_tracks_def Optimal_victim_def Optimal_on_evict_def simp del: opt_best.simps)
qed

subsection \<open>Histories of a policy\<close>

datatype rep_event = Loaded u32 | Accessed u32 | Evicted u32

fun rep_do :: "'p IReplacement \<Rightarrow> rep_event \<Rightarrow> 'p \<Rightarrow> 'p result" where
  "rep_do pol (Loaded f) p = Inr (on_load pol p f)"
| "rep_do pol (Accessed f) p = on_access pol p f"
| "rep_do pol (Evicted f) p = on_evict pol p f"

fun rep_run :: "'p IReplacement \<Rightarrow> rep_event list \<Rightarrow> 'p \<Rightarrow> 'p result" where
  "rep_run pol [] p = Inr p"
| "rep_run pol (e # es) p = (case rep_do pol e p of Inl err \<Rightarrow> Inl err | Inr p' \<Rightarrow> rep_run pol es p')"

text \<open>The frames that hold a page, where loads are into empty frames and the rest concerns full ones.\<close>

fun resident_step :: "rep_event \<Rightarrow> u32 set \<Rightarrow> u32 set option" where
  "resident_step (Loaded f) R = (if f \<in> R then None else Some (insert f R))"
| "resident_step (Accessed f) R = (if f \<in> R then Some R else None)"
| "resident_step (Evicted f) R = (if f \<in> R then Some (R - {f}) else None)"

fun resident :: "rep_event list \<Rightarrow> u32 set \<Rightarrow> u32 set option" where
  "resident [] R = Some R"
| "resident (e # es) R = (case resident_step e R of None \<Rightarrow> None | Some R' \<Rightarrow> resident es R')"

fun uses :: "rep_event \<Rightarrow> u32 \<Rightarrow> bool" where
  "uses (Loaded f) g \<longleftrightarrow> f = g"
| "uses (Accessed f) g \<longleftrightarrow> f = g"
| "uses (Evicted f) g \<longleftrightarrow> False"

fun last_use_rev :: "rep_event list \<Rightarrow> u32 \<Rightarrow> nat" where
  "last_use_rev [] g = 0"
| "last_use_rev (e # es) g = (if uses e g then Suc (length es) else last_use_rev es g)"

text \<open>When a frame was last loaded or accessed, counting events from 1.\<close>

definition last_use :: "rep_event list \<Rightarrow> u32 \<Rightarrow> nat" where
  "last_use es g = last_use_rev (rev es) g"

lemma last_use_snoc: "last_use (es @ [e]) g = (if uses e g then Suc (length es) else last_use es g)"
  by (simp add: last_use_def)

lemma last_use_bound: "last_use es g \<le> length es"
  by (induction es rule: rev_induct) (simp_all add: last_use_snoc, simp add: last_use_def)

definition recency_ok :: "rep_event list \<Rightarrow> u32 set \<Rightarrow> LRUReplacement \<Rightarrow> bool" where
  "recency_ok es R p \<longleftrightarrow> lru_ok p \<and> set (lru_frames p) = R \<and>
     sorted_wrt (\<lambda>f g. last_use es g < last_use es f) (lru_frames p)"

lemma recency_front:
  assumes "sorted_wrt (\<lambda>f g. last_use es g < last_use es f) xs" "f \<notin> set xs" "\<And>g. uses e g \<longleftrightarrow> g = f"
  shows "sorted_wrt (\<lambda>f g. last_use (es @ [e]) g < last_use (es @ [e]) f) (f # xs)"
proof -
  have "sorted_wrt (\<lambda>f g. last_use (es @ [e]) g < last_use (es @ [e]) f) xs"
    by (rule sorted_wrt_mono_rel [OF _ assms(1)]) (use assms(2,3) in \<open>auto simp: last_use_snoc\<close>)
  moreover have "last_use (es @ [e]) g < last_use (es @ [e]) f" if "g \<in> set xs" for g
    using that assms(2,3) last_use_bound [of es g] by (auto simp: last_use_snoc le_imp_less_Suc)
  ultimately show ?thesis by simp
qed

lemma recency_step:
  assumes r: "recency_ok es R p" and s: "resident_step e R = Some R'" and d: "rep_do LRU e p = Inr p'"
  shows "recency_ok (es @ [e]) R' p'"
proof -
  have ok: "lru_ok p" "set (lru_frames p) = R" and srt: "sorted_wrt (\<lambda>f g. last_use es g < last_use es f) (lru_frames p)"
    using r by (auto simp: recency_ok_def)
  have srt': "sorted_wrt (\<lambda>f g. last_use es g < last_use es f) (filter P (lru_frames p))" for P
    using srt by (rule sorted_wrt_filter)
  show ?thesis
  proof (cases e)
    case (Loaded f)
    then have f: "f \<notin> set (lru_frames p)" and R': "R' = insert f R" and p': "p' = LRU_on_load p f"
      using s d ok by (auto simp: LRU_def split: if_splits)
    show ?thesis using LRU_on_load_ok [OF ok(1) f] recency_front [OF srt f, of e] Loaded R' p' ok
      by (auto simp: recency_ok_def)
  next
    case (Accessed f)
    then have f: "f \<in> set (lru_frames p)" and R': "R' = R" using s ok by (auto split: if_splits)
    from LRU_on_access_ok [OF ok(1) f] d Accessed have "lru_ok p'"
      "lru_frames p' = f # filter (\<lambda>g. g \<noteq> f) (lru_frames p)" by (auto simp: LRU_def)
    then show ?thesis using recency_front [OF srt' [of "\<lambda>g. g \<noteq> f"], of f e] Accessed R' ok f
      by (auto simp: recency_ok_def)
  next
    case (Evicted f)
    then have f: "f \<in> set (lru_frames p)" and R': "R' = R - {f}" using s ok by (auto split: if_splits)
    from LRU_on_evict_ok [OF ok(1) f] d Evicted have "lru_ok p'"
      "lru_frames p' = filter (\<lambda>g. g \<noteq> f) (lru_frames p)" by (auto simp: LRU_def)
    then show ?thesis using srt' [of "\<lambda>g. g \<noteq> f"] Evicted R' ok by (auto simp: recency_ok_def last_use_snoc)
  qed
qed

lemma recency_run:
  "recency_ok es R p \<Longrightarrow> resident fs R = Some R' \<Longrightarrow> rep_run LRU fs p = Inr p' \<Longrightarrow> recency_ok (es @ fs) R' p'"
proof (induction fs arbitrary: es R p)
  case (Cons f fs)
  then obtain R1 p1 where "resident_step f R = Some R1" "rep_do LRU f p = Inr p1"
    "resident fs R1 = Some R'" "rep_run LRU fs p1 = Inr p'" by (auto split: option.splits sum.splits)
  with Cons.IH [OF recency_step [OF Cons.prems(1)]] show ?case by fastforce
qed simp

subsection \<open>Properties\<close>

text \<open>
  C9.  LRU nominates the least recently used frame: after any legal sequence of loads, accesses and
  evictions, \<open>victim\<close> returns a resident frame whose last load or access lies strictly before that of
  every other resident frame.
\<close>

theorem LRU_victim_least_recent:
  assumes run: "rep_run LRU es LRU_new = Inr p" and leg: "resident es {} = Some R" and ne: "R \<noteq> {}"
  shows "\<exists>v. LRU_victim p = Inr (v, p) \<and> v \<in> R \<and> (\<forall>g \<in> R - {v}. last_use es v < last_use es g)"
proof -
  have "recency_ok [] {} LRU_new" by (simp add: recency_ok_def LRU_new_def lru_ok_def lru_frames_def)
  from recency_run [OF this leg run] have r: "recency_ok es R p" by simp
  then have n: "lru_frames p \<noteq> []" using ne by (auto simp: recency_ok_def)
  then obtain xs v where xs: "lru_frames p = xs @ [v]" by (metis rev_exhaust)
  then have "snd (last (lru_list p)) = v" using n by (metis last_map last_snoc list.map_disc_iff lru_frames_def)
  moreover have "lru_list p \<noteq> []" using n by (simp add: lru_frames_def)
  ultimately have "LRU_victim p = Inr (v, p)" by (simp add: LRU_victim_def)
  moreover have "v \<in> R" "\<forall>g \<in> R - {v}. last_use es v < last_use es g"
    using r unfolding recency_ok_def xs by (auto simp: sorted_wrt_append)
  ultimately show ?thesis by blast
qed

theorem LRU_victim_least_recent_witness:
  "\<exists>p. rep_run LRU [Loaded 0, Loaded 1, Accessed 0] LRU_new = Inr p \<and> LRU_victim p = Inr (1, p)"
proof -
  let ?es = "[Loaded 0, Loaded 1, Accessed 0]"
  obtain p where p: "rep_run LRU ?es LRU_new = Inr p"
    by (simp add: LRU_def LRU_new_def LRU_on_load_def LRU_on_access_def)
  have leg: "resident ?es {} = Some {0, 1}" by (simp add: insert_commute)
  from LRU_victim_least_recent [OF p leg] obtain v where
    v: "LRU_victim p = Inr (v, p)" "v \<in> {0, 1}" "\<forall>g \<in> {0, 1} - {v}. last_use ?es v < last_use ?es g" by blast
  have "last_use ?es 0 = 3" "last_use ?es 1 = 2" by (simp_all add: last_use_def)
  then have "v \<noteq> 0" using v(3) by auto
  then show ?thesis using p v(1,2) by auto
qed

text \<open>
  C10.  The clock gives every referenced frame a second chance.  Let \<open>k\<close> be the number of slots, counted
  from the hand, that come before the first clear reference bit, or the whole ring when no bit is
  clear.  The loop of \<open>victim\<close> itself returns the frame \<open>k\<close> slots after the hand (after a full turn: the frame at the hand),
  so the \<open>return\<close> below the loop is never reached; the reference bits of the \<open>k\<close> slots it passed are
  cleared and no other bit, no frame and no index changes; and the hand is left at the victim.
\<close>

theorem Clock_second_chance:
  assumes h: "ck_hand p < length (ck_ring p)"
  shows "\<exists>k p'. k \<le> length (ck_ring p) \<and>
    (\<forall>j < k. snd (ck_ring p ! ((ck_hand p + j) mod length (ck_ring p)))) \<and>
    (k < length (ck_ring p) \<longrightarrow> \<not> snd (ck_ring p ! ((ck_hand p + k) mod length (ck_ring p)))) \<and>
    Clock_scan (length (ck_ring p) * 2) p =
      Inr (Some (fst (ck_ring p ! ((ck_hand p + k) mod length (ck_ring p)))), p') \<and>
    Clock_victim p = Inr (fst (ck_ring p ! ((ck_hand p + k) mod length (ck_ring p))), p') \<and>
    ck_hand p' = (ck_hand p + k) mod length (ck_ring p) \<and>
    map fst (ck_ring p') = map fst (ck_ring p) \<and> ck_frame_idx p' = ck_frame_idx p \<and>
    (\<forall>m < length (ck_ring p). snd (ck_ring p' ! m) \<longleftrightarrow>
       snd (ck_ring p ! m) \<and> (\<forall>j < k. m \<noteq> (ck_hand p + j) mod length (ck_ring p)))"
proof -
  obtain k where k: "clock_stop p k" using clock_stop_exists by blast
  obtain p' where p': "Clock_scan (length (ck_ring p) * 2) p = Inr (Some (fst (ck_ring p ! ((ck_hand p + k) mod length (ck_ring p)))), p')"
    "ck_hand p' = (ck_hand p + k) mod length (ck_ring p)" "map fst (ck_ring p') = map fst (ck_ring p)" "ck_frame_idx p' = ck_frame_idx p"
    "\<forall>m < length (ck_ring p). snd (ck_ring p' ! m) \<longleftrightarrow>
       snd (ck_ring p ! m) \<and> (\<forall>j < k. m \<noteq> (ck_hand p + j) mod length (ck_ring p))"
    using Clock_scan_stop [OF h k] by blast
  have "Clock_victim p = Inr (fst (ck_ring p ! ((ck_hand p + k) mod length (ck_ring p))), p')"
    by (simp add: Clock_victim_def p'(1))
  moreover have "k \<le> length (ck_ring p)" "\<forall>j < k. snd (ck_ring p ! ((ck_hand p + j) mod length (ck_ring p)))"
    "k < length (ck_ring p) \<longrightarrow> \<not> snd (ck_ring p ! ((ck_hand p + k) mod length (ck_ring p)))"
    using k unfolding clock_stop_def by auto
  ultimately show ?thesis using p' by blast
qed

theorem Clock_second_chance_witness:
  "\<exists>p'. Clock_victim \<lparr>ck_ring = [(5, True), (6, False), (7, True)], ck_frame_idx = Map.empty, ck_hand = 2\<rparr> = Inr (6, p') \<and>
     ck_hand p' = 1 \<and> \<not> snd (ck_ring p' ! 0) \<and> \<not> snd (ck_ring p' ! 2)"
proof -
  define p where "p = \<lparr>ck_ring = [(5 :: u32, True), (6, False), (7, True)], ck_frame_idx = Map.empty, ck_hand = 2\<rparr>"
  have h: "ck_hand p < length (ck_ring p)" and n: "length (ck_ring p) = 3" "ck_hand p = 2" by (simp_all add: p_def)
  from Clock_second_chance [OF h] obtain k p' where k: "k \<le> 3" "\<forall>j < k. snd (ck_ring p ! ((2 + j) mod 3))"
    "k < 3 \<longrightarrow> \<not> snd (ck_ring p ! ((2 + k) mod 3))" "Clock_victim p = Inr (fst (ck_ring p ! ((2 + k) mod 3)), p')"
    "ck_hand p' = (2 + k) mod 3" "\<forall>m < 3. snd (ck_ring p' ! m) \<longleftrightarrow> snd (ck_ring p ! m) \<and> (\<forall>j < k. m \<noteq> (2 + j) mod 3)"
    unfolding n by blast
  have "k = 0 \<or> k = 1 \<or> k = 2 \<or> k = 3" using k(1) by auto
  moreover have at: "snd (ck_ring p ! ((2 + 0) mod 3))" "snd (ck_ring p ! ((2 + 1) mod 3))" by (simp_all add: p_def)
  have "k \<noteq> 0" "k \<noteq> 1" using k(3) at by (metis zero_less_numeral, metis one_less_numeral_iff semiring_norm(77))
  moreover have "k \<noteq> 3" using spec [OF k(2), of 2] by (auto simp: p_def)
  ultimately have k2: "k = 2" by blast
  have "\<not> snd (ck_ring p' ! 0)" "\<not> snd (ck_ring p' ! 2)"
    using spec [OF k(6), of 0] spec [OF k(6), of 2] k2 by (auto dest: spec [of _ 1] spec [of _ 0])
  then show ?thesis using k(4,5) k2 unfolding p_def by auto
qed

text \<open>
  FIFO is not first-in first-out after the first eviction: the evicted frame stays at the front
  of \<open>_order\<close>, and since the memory manager loads the new page into the frame it just evicted, that
  frame is nominated again, however many frames were loaded before it.
\<close>

theorem FIFO_same_victim_again:
  assumes "FIFO_victim p = Inr (f, p1)" and "FIFO_on_evict p1 f = Inr p2"
  shows "FIFO_victim (FIFO_on_load p2 f) = Inr (f, FIFO_on_load p2 f)"
  using assms by (auto simp: FIFO_victim_def FIFO_on_evict_def FIFO_on_load_def split: list.splits)

theorem FIFO_same_victim_again_witness:
  "\<exists>p p1 p2. rep_run FIFO [Loaded 0, Loaded 1, Loaded 2] FIFO_new = Inr p \<and> FIFO_victim p = Inr (0, p1) \<and>
     FIFO_on_evict p1 0 = Inr p2 \<and> FIFO_victim (FIFO_on_load p2 0) = Inr (0, FIFO_on_load p2 0)"
proof -
  let ?p = "\<lparr>ff_order = [0, 1, 2], ff_in_use = {0, 1, 2}\<rparr>"
  have "rep_run FIFO [Loaded 0, Loaded 1, Loaded 2] FIFO_new = Inr ?p"
    by (auto simp: FIFO_def FIFO_new_def FIFO_on_load_def)
  moreover have v: "FIFO_victim ?p = Inr (0, ?p)" by (simp add: FIFO_victim_def)
  moreover obtain p2 where e: "FIFO_on_evict ?p 0 = Inr p2" by (simp add: FIFO_on_evict_def)
  moreover note FIFO_same_victim_again [OF v e]
  ultimately show ?thesis by blast
qed

text \<open>
  The offline policy nominates a loaded frame whose number occurs furthest ahead in the trace
  from the cursor: every other loaded frame's number occurs no later (never counts as last).
\<close>

theorem Optimal_victim_furthest:
  assumes ne: "op_loaded p \<noteq> []" and ord: "visits_set (op_order p)"
  shows "\<exists>v. Optimal_victim p = Inr (v, p) \<and> v \<in> set (op_loaded p) \<and>
    (\<forall>f \<in> set (op_loaded p). opt_use p f \<le> opt_use p v)"
proof -
  have s: "set (op_order p (op_version p) (op_loaded p)) = set (op_loaded p)" using ord by (simp add: visits_set_def)
  with ne obtain b fs where l: "op_order p (op_version p) (op_loaded p) = b # fs"
    by (cases "op_order p (op_version p) (op_loaded p)") auto
  then show ?thesis using opt_best_furthest [of 0 p b "b # fs"] opt_best_in [of p b 0 "b # fs"] s
    by (auto simp: Optimal_victim_def simp del: opt_best.simps)
qed

theorem Optimal_victim_furthest_witness:
  "\<exists>v. Optimal_victim ((Optimal_new (\<lambda>n. rev) [1, 2, 3, 1, 2])\<lparr>op_loaded := [1, 2, 3]\<rparr>) =
       Inr (v, (Optimal_new (\<lambda>n. rev) [1, 2, 3, 1, 2])\<lparr>op_loaded := [1, 2, 3]\<rparr>) \<and> v \<in> {1, 2, 3}"
  using Optimal_victim_furthest [of "(Optimal_new (\<lambda>n. rev) [1, 2, 3, 1, 2])\<lparr>op_loaded := [1, 2, 3]\<rparr>"]
  by (auto simp: Optimal_new_def visits_set_def)

end
