(* ===== verification/VMSystem.thy ===== *)
theory VMSystem
  imports Paging Replacement
begin

text \<open>
  \<^verbatim>\<open>memlab/sim/vm_sim_main.cpp\<close>: the virtual-memory simulator over any replacement policy.  The
  policy object the class holds by reference is passed along explicitly.  \<open>_page_tables\<close> is iterated
  by the eviction scan, so it is an association list in some iteration order; \<open>_loaded_vpns\<close> is
  only indexed, and an entry that \<open>operator[]\<close> would create is the empty vector.
\<close>

record CostModel =
  tlb_ns :: u64
  mem_ns :: u64
  disk_ns :: u64

definition default_costs :: CostModel where
  "default_costs = \<lparr>tlb_ns = 1, mem_ns = 100, disk_ns = 10000000\<rparr>"

record AccessResult =
  ar_tlb_hit :: bool
  ar_page_fault :: bool
  ar_evicted :: bool
  ar_dirty_evict :: bool
  ar_cost_ns :: u64

type_synonym tables = "(int \<times> PageTable) list"

record VMSystem =
  vs_costs :: CostModel
  vs_tlb :: TLB
  vs_frame_alloc :: FrameAllocator
  vs_page_tables :: tables
  vs_loaded_vpns :: "int \<Rightarrow> u64 list"
  vs_faults :: u64
  vs_hits :: u64

definition VMSystem_new :: "u32 \<Rightarrow> CostModel \<Rightarrow> VMSystem" where
  "VMSystem_new frames costs =
     \<lparr>vs_costs = costs, vs_tlb = TLB_new 64, vs_frame_alloc = FrameAllocator_new frames,
      vs_page_tables = [], vs_loaded_vpns = (\<lambda>_. []), vs_faults = 0, vs_hits = 0\<rparr>"

text \<open>\<open>_page_tables[pid]\<close>, read and written.\<close>

definition table_of :: "tables \<Rightarrow> int \<Rightarrow> PageTable" where
  "table_of ts pid = (case map_of ts pid of None \<Rightarrow> Map.empty | Some pt \<Rightarrow> pt)"

definition set_table :: "int \<Rightarrow> PageTable \<Rightarrow> tables \<Rightarrow> tables" where
  "set_table pid pt ts =
     (if pid \<in> fst ` set ts then map (\<lambda>(p, t). if p = pid then (p, pt) else (p, t)) ts else ts @ [(pid, pt)])"

text \<open>The body of the eviction scan for one process: the first loaded page in the victim frame.\<close>

definition evict_page :: "u32 \<Rightarrow> int \<times> PageTable \<Rightarrow> VMSystem \<times> AccessResult \<Rightarrow> VMSystem \<times> AccessResult" where
  "evict_page victim_frame = (\<lambda>(p, pt) (s, r).
     case List.find (\<lambda>vpn2. case PageTable_lookup pt vpn2 of
              None \<Rightarrow> False | Some pte2 \<Rightarrow> pte_present pte2 \<and> pte_frame pte2 = victim_frame) (vs_loaded_vpns s p) of
       None \<Rightarrow> (s, r)
     | Some vpn2 \<Rightarrow>
         (case PageTable_lookup pt vpn2 of
            None \<Rightarrow> (s, r)
          | Some pte2 \<Rightarrow>
              (s\<lparr>vs_page_tables := set_table p (pt(vpn2 \<mapsto> pte2\<lparr>pte_present := False\<rparr>)) (vs_page_tables s),
                 vs_tlb := TLB_invalidate (vs_tlb s) p vpn2,
                 vs_loaded_vpns := (vs_loaded_vpns s)(p := remove1 vpn2 (vs_loaded_vpns s p))\<rparr>,
               if pte_dirty pte2
               then r\<lparr>ar_dirty_evict := True, ar_cost_ns := ar_cost_ns r + disk_ns (vs_costs s)\<rparr> else r)))"

definition evict_scan :: "u32 \<Rightarrow> VMSystem \<Rightarrow> AccessResult \<Rightarrow> VMSystem \<times> AccessResult" where
  "evict_scan victim_frame s r = fold (evict_page victim_frame) (vs_page_tables s) (s, r)"

text \<open>Where the page goes: a free frame, or the policy's victim after its page is thrown out.\<close>

definition obtain_frame ::
  "'p IReplacement \<Rightarrow> VMSystem \<Rightarrow> 'p \<Rightarrow> AccessResult \<Rightarrow> (u32 \<times> VMSystem \<times> 'p \<times> AccessResult) result" where
  "obtain_frame pol s p r =
     (if FrameAllocator_has_free (vs_frame_alloc s)
      then case FrameAllocator_alloc (vs_frame_alloc s) of
             Inl e \<Rightarrow> Inl e
           | Inr (f, a) \<Rightarrow> Inr (f, s\<lparr>vs_frame_alloc := a\<rparr>, p, r)
      else case victim pol p of
             Inl e \<Rightarrow> Inl e
           | Inr (f, p') \<Rightarrow>
               (let (s', r') = evict_scan f s (r\<lparr>ar_evicted := True\<rparr>)
                in case on_evict pol p' f of
                     Inl e \<Rightarrow> Inl e
                   | Inr p'' \<Rightarrow> Inr (f, s', p'', r')))"

definition load_page ::
  "'p IReplacement \<Rightarrow> VMSystem \<Rightarrow> 'p \<Rightarrow> AccessResult \<Rightarrow> int \<Rightarrow> u64 \<Rightarrow> bool \<Rightarrow> u32 \<Rightarrow>
     (AccessResult \<times> VMSystem \<times> 'p) result" where
  "load_page pol s p r pid vpn is_write victim_frame =
     (let (pte, pt) = PageTable_get_or_create (table_of (vs_page_tables s) pid) vpn;
          new_pte = pte\<lparr>pte_frame := victim_frame, pte_present := True, pte_referenced := True, pte_dirty := is_write\<rparr>
      in case TLB_insert (vs_tlb s) pid vpn victim_frame of
           Inl e \<Rightarrow> Inl e
         | Inr t \<Rightarrow>
             Inr (r\<lparr>ar_cost_ns := ar_cost_ns r + disk_ns (vs_costs s) + mem_ns (vs_costs s)\<rparr>,
                  s\<lparr>vs_page_tables := set_table pid (pt(vpn \<mapsto> new_pte)) (vs_page_tables s), vs_tlb := t,
                    vs_loaded_vpns := (vs_loaded_vpns s)(pid := vs_loaded_vpns s pid @ [vpn])\<rparr>,
                  on_load pol p victim_frame))"

definition VMSystem_access ::
  "'p IReplacement \<Rightarrow> VMSystem \<Rightarrow> 'p \<Rightarrow> int \<Rightarrow> u64 \<Rightarrow> bool \<Rightarrow> (AccessResult \<times> VMSystem \<times> 'p) result" where
  "VMSystem_access pol s p pid vpn is_write =
     (let r = \<lparr>ar_tlb_hit = False, ar_page_fault = False, ar_evicted = False, ar_dirty_evict = False, ar_cost_ns = 0\<rparr>;
          (hit, tlb) = TLB_lookup (vs_tlb s) pid vpn;
          s = s\<lparr>vs_tlb := tlb\<rparr>;
          pt = table_of (vs_page_tables s) pid
      in case hit of
           Some f \<Rightarrow>
             (let s' = (if is_write
                        then s\<lparr>vs_page_tables := set_table pid
                                 (case PageTable_lookup pt vpn of
                                    None \<Rightarrow> pt | Some pte \<Rightarrow> pt(vpn \<mapsto> pte\<lparr>pte_dirty := True\<rparr>)) (vs_page_tables s)\<rparr>
                        else s)
              in case on_access pol p f of
                   Inl e \<Rightarrow> Inl e
                 | Inr p' \<Rightarrow>
                     Inr (r\<lparr>ar_tlb_hit := True, ar_cost_ns := tlb_ns (vs_costs s) + mem_ns (vs_costs s)\<rparr>,
                          s'\<lparr>vs_hits := vs_hits s + 1\<rparr>, p'))
         | None \<Rightarrow>
             (let s = s\<lparr>vs_tlb := TLB_count_miss (vs_tlb s), vs_page_tables := set_table pid pt (vs_page_tables s)\<rparr>;
                  r = r\<lparr>ar_cost_ns := tlb_ns (vs_costs s)\<rparr>
              in case PageTable_lookup pt vpn of
                   Some pte \<Rightarrow>
                     if pte_present pte
                     then case TLB_insert (vs_tlb s) pid vpn (pte_frame pte) of
                            Inl e \<Rightarrow> Inl e
                          | Inr t \<Rightarrow>
                              (case on_access pol p (pte_frame pte) of
                                 Inl e \<Rightarrow> Inl e
                               | Inr p' \<Rightarrow>
                                   Inr (r\<lparr>ar_cost_ns := ar_cost_ns r + mem_ns (vs_costs s)\<rparr>,
                                        s\<lparr>vs_tlb := t,
                                          vs_page_tables := set_table pid (pt(vpn \<mapsto>
                                            pte\<lparr>pte_referenced := True, pte_dirty := pte_dirty pte \<or> is_write\<rparr>))
                                            (vs_page_tables s),
                                          vs_hits := vs_hits s + 1\<rparr>, p'))
                     else (case obtain_frame pol (s\<lparr>vs_faults := vs_faults s + 1\<rparr>) p (r\<lparr>ar_page_fault := True\<rparr>) of
                             Inl e \<Rightarrow> Inl e
                           | Inr (f, s', p', r') \<Rightarrow> load_page pol s' p' r' pid vpn is_write f)
                 | None \<Rightarrow>
                     (case obtain_frame pol (s\<lparr>vs_faults := vs_faults s + 1\<rparr>) p (r\<lparr>ar_page_fault := True\<rparr>) of
                        Inl e \<Rightarrow> Inl e
                      | Inr (f, s', p', r') \<Rightarrow> load_page pol s' p' r' pid vpn is_write f)))"

definition VMSystem_total :: "VMSystem \<Rightarrow> u64" where
  "VMSystem_total s = vs_hits s + vs_faults s"

definition VMSystem_fault_rate :: "VMSystem \<Rightarrow> real" where
  "VMSystem_fault_rate s =
     (if VMSystem_total s > 0 then real (unat (vs_faults s)) / real (unat (VMSystem_total s)) else 0)"

definition VMSystem_eat_ns :: "VMSystem \<Rightarrow> CostModel \<Rightarrow> real" where
  "VMSystem_eat_ns s cm =
     (let fr = VMSystem_fault_rate s
      in (1 - fr) * real (unat (tlb_ns cm + mem_ns cm)) + fr * real (unat (disk_ns cm + mem_ns cm)))"

subsection \<open>Workloads and runs\<close>

definition gen_sequential :: "u32 \<Rightarrow> u32 \<Rightarrow> u32 list" where
  "gen_sequential pages reps = concat (replicate (unat reps) (map of_nat [0..<unat pages]))"

text \<open>The loop of \<open>run_sim\<close>: every access is a read by process 1.\<close>

fun run_trace :: "'p IReplacement \<Rightarrow> u32 list \<Rightarrow> VMSystem \<Rightarrow> 'p \<Rightarrow> (VMSystem \<times> 'p) result" where
  "run_trace pol [] s p = Inr (s, p)"
| "run_trace pol (vpn # vpns) s p =
     (case VMSystem_access pol s p 1 (ucast vpn) False of
        Inl e \<Rightarrow> Inl e
      | Inr (r, s', p') \<Rightarrow> run_trace pol vpns s' p')"

record RunResult =
  rr_frames :: u32
  rr_faults :: u64
  rr_total :: u64
  rr_fault_rate :: real
  rr_eat_ns :: real

definition run_sim :: "'p IReplacement \<Rightarrow> 'p \<Rightarrow> u32 list \<Rightarrow> u32 \<Rightarrow> CostModel \<Rightarrow> RunResult result" where
  "run_sim pol p trace frames cm =
     (case run_trace pol trace (VMSystem_new frames cm) p of
        Inl e \<Rightarrow> Inl e
      | Inr (vm, p') \<Rightarrow>
          Inr \<lparr>rr_frames = frames, rr_faults = vs_faults vm, rr_total = VMSystem_total vm,
               rr_fault_rate = VMSystem_fault_rate vm, rr_eat_ns = VMSystem_eat_ns vm cm\<rparr>)"

subsection \<open>The mapping a state denotes\<close>

definition page_in :: "tables \<Rightarrow> int \<times> u64 \<rightharpoonup> u32" where
  "page_in ts = (\<lambda>(pid, vpn). case table_of ts pid vpn of
     None \<Rightarrow> None | Some pte \<Rightarrow> if pte_present pte then Some (pte_frame pte) else None)"

definition page :: "VMSystem \<Rightarrow> int \<times> u64 \<rightharpoonup> u32" where
  "page s = page_in (vs_page_tables s)"

definition dirty :: "VMSystem \<Rightarrow> int \<times> u64 \<Rightarrow> bool" where
  "dirty s = (\<lambda>(pid, vpn). case table_of (vs_page_tables s) pid vpn of None \<Rightarrow> False | Some pte \<Rightarrow> pte_dirty pte)"

text \<open>The pages in memory that were written since they were loaded.\<close>

definition modified :: "VMSystem \<Rightarrow> (int \<times> u64) set" where
  "modified s = {k \<in> dom (page s). dirty s k}"

text \<open>
  The invariant: the TLB only holds mappings that the page tables have, \<open>_loaded_vpns\<close> lists
  exactly the present pages, no two pages share a frame, and every frame is free or holds a page.
\<close>

definition vm_core :: "VMSystem \<Rightarrow> bool" where
  "vm_core s \<longleftrightarrow> tlb_ok (vs_tlb s) \<and> distinct (map fst (vs_page_tables s)) \<and>
     (\<forall>k f. tlb_frame (vs_tlb s) k = Some f \<longrightarrow> page s k = Some f) \<and>
     (\<forall>pid vpn. vpn \<in> set (vs_loaded_vpns s pid) \<longleftrightarrow> page s (pid, vpn) \<noteq> None) \<and>
     (\<forall>pid. distinct (vs_loaded_vpns s pid)) \<and> inj_on (page s) (dom (page s))"

definition vm_ok :: "VMSystem \<Rightarrow> bool" where
  "vm_ok s \<longleftrightarrow> vm_core s \<and> frames_ok (vs_frame_alloc s) (ran (page s))"

subsection \<open>Tables\<close>

lemma map_of_assign:
  "map_of (map (\<lambda>(k', e'). if k' = k then (k', e) else (k', e')) m) x =
     (if x = k then (if k \<in> fst ` set m then Some e else None) else map_of m x)"
  by (induction m) (auto simp: rev_image_eqI)

lemma table_of_set: "table_of (set_table pid pt ts) q = (if q = pid then pt else table_of ts q)"
proof (cases "pid \<in> fst ` set ts")
  case True
  then show ?thesis by (simp add: table_of_def set_table_def map_of_assign)
next
  case False
  then have "map_of ts pid = None" by (simp add: map_of_eq_None_iff)
  with False show ?thesis by (auto simp: table_of_def set_table_def map_add_def split: option.splits)
qed

lemma keys_set_table:
  "map fst (set_table pid pt ts) = (if pid \<in> fst ` set ts then map fst ts else map fst ts @ [pid])"
  by (auto simp: set_table_def case_prod_beta intro!: map_cong)

lemma distinct_set_table: "distinct (map fst ts) \<Longrightarrow> distinct (map fst (set_table pid pt ts))"
  by (simp add: keys_set_table)

lemma page_in_set:
  "page_in (set_table pid pt ts) (q, v) =
     (if q = pid then (case pt v of None \<Rightarrow> None | Some pte \<Rightarrow> if pte_present pte then Some (pte_frame pte) else None)
      else page_in ts (q, v))"
  by (simp add: page_in_def table_of_set)

lemma page_in_upd:
  "page_in (set_table pid ((table_of ts pid)(v \<mapsto> pte)) ts) =
     (page_in ts)((pid, v) := if pte_present pte then Some (pte_frame pte) else None)"
  by (auto simp: fun_eq_iff page_in_set) (simp_all add: page_in_def)

lemma page_in_same: "page_in (set_table pid (table_of ts pid) ts) = page_in ts"
  by (auto simp: fun_eq_iff page_in_set) (simp_all add: page_in_def)

lemma page_simps [simp]:
  "page (s\<lparr>vs_tlb := t\<rparr>) = page s" "page (s\<lparr>vs_hits := h\<rparr>) = page s" "page (s\<lparr>vs_faults := n\<rparr>) = page s"
  "page (s\<lparr>vs_frame_alloc := a\<rparr>) = page s" "page (s\<lparr>vs_loaded_vpns := l\<rparr>) = page s"
  "page (s\<lparr>vs_page_tables := ts\<rparr>) = page_in ts"
  by (simp_all add: page_def)

lemma dirty_simps [simp]:
  "dirty (s\<lparr>vs_tlb := t\<rparr>) = dirty s" "dirty (s\<lparr>vs_hits := h\<rparr>) = dirty s" "dirty (s\<lparr>vs_faults := n\<rparr>) = dirty s"
  "dirty (s\<lparr>vs_frame_alloc := a\<rparr>) = dirty s" "dirty (s\<lparr>vs_loaded_vpns := l\<rparr>) = dirty s"
  by (simp_all add: dirty_def)

lemma modified_simps [simp]:
  "modified (s\<lparr>vs_tlb := t\<rparr>) = modified s" "modified (s\<lparr>vs_hits := h\<rparr>) = modified s"
  "modified (s\<lparr>vs_faults := n\<rparr>) = modified s" "modified (s\<lparr>vs_frame_alloc := a\<rparr>) = modified s"
  "modified (s\<lparr>vs_loaded_vpns := l\<rparr>) = modified s"
  by (simp_all add: modified_def)

lemma dirty_upd:
  "dirty (s\<lparr>vs_page_tables := set_table pid ((table_of ts pid)(v \<mapsto> pte)) ts\<rparr>) =
     (dirty (s\<lparr>vs_page_tables := ts\<rparr>))((pid, v) := pte_dirty pte)"
  by (auto simp: fun_eq_iff dirty_def table_of_set)

lemma vm_core_simps [simp]:
  "vm_core (s\<lparr>vs_hits := h\<rparr>) = vm_core s" "vm_core (s\<lparr>vs_faults := n\<rparr>) = vm_core s"
  "vm_core (s\<lparr>vs_frame_alloc := a\<rparr>) = vm_core s"
  by (simp_all add: vm_core_def)

lemma ran_upd_None: "inj_on m (dom m) \<Longrightarrow> m k = Some f \<Longrightarrow> ran (m(k := None)) = ran m - {f}"
  by (auto simp: ran_def inj_on_def dom_def split: if_splits) (metis option.inject)+

lemma vm_core_tlbD: "vm_core s \<Longrightarrow> tlb_frame (vs_tlb s) k = Some f \<Longrightarrow> page s k = Some f"
  unfolding vm_core_def by blast

text \<open>Rewriting an entry without changing where its page is keeps everything.\<close>

lemma vm_core_entry:
  assumes "vm_core s" and "page_in ts = page s" and "distinct (map fst ts)"
  shows "vm_core (s\<lparr>vs_page_tables := ts\<rparr>)"
  using assms by (simp add: vm_core_def)

lemma vm_core_tlb:
  assumes "vm_core s" and "tlb_ok t" and "\<And>k f. tlb_frame t k = Some f \<Longrightarrow> page s k = Some f"
  shows "vm_core (s\<lparr>vs_tlb := t\<rparr>)"
  using assms by (simp add: vm_core_def)

lemma vm_core_insert:
  assumes c: "vm_core s" and pg: "page s (pid, vpn) = Some f" and t: "TLB_insert (vs_tlb s) pid vpn f = Inr t"
  shows "vm_core (s\<lparr>vs_tlb := t\<rparr>)"
proof (rule vm_core_tlb [OF c])
  from TLB_insert_ok [of "vs_tlb s" pid vpn f] c t
  have ok: "tlb_ok t" "tlb_frame t (pid, vpn) = Some f"
    "\<forall>k. k \<noteq> (pid, vpn) \<longrightarrow> tlb_frame t k = None \<or> tlb_frame t k = tlb_frame (vs_tlb s) k"
    by (auto simp: vm_core_def)
  show "tlb_ok t" by (rule ok)
  show "page s k = Some g" if "tlb_frame t k = Some g" for k g
  proof (cases "k = (pid, vpn)")
    case True
    then show ?thesis using that ok(2) pg by simp
  next
    case False
    then have "tlb_frame (vs_tlb s) k = Some g" using that ok(3) by fastforce
    then show ?thesis by (rule vm_core_tlbD [OF c])
  qed
qed

subsection \<open>Throwing out the victim's page\<close>

lemma fold_evict_none:
  "(\<And>p pt vpn2 pte. (p, pt) \<in> set ts \<Longrightarrow> vpn2 \<in> set (vs_loaded_vpns s p) \<Longrightarrow> pt vpn2 = Some pte \<Longrightarrow>
       \<not> (pte_present pte \<and> pte_frame pte = f)) \<Longrightarrow> fold (evict_page f) ts (s, r) = (s, r)"
proof (induction ts)
  case (Cons x ts)
  obtain p pt where x: "x = (p, pt)" by fastforce
  have "List.find (\<lambda>vpn2. case PageTable_lookup pt vpn2 of None \<Rightarrow> False
      | Some pte2 \<Rightarrow> pte_present pte2 \<and> pte_frame pte2 = f) (vs_loaded_vpns s p) = None"
    using Cons.prems [of p pt] x by (auto simp: find_None_iff PageTable_lookup_def split: option.splits)
  then have "evict_page f x (s, r) = (s, r)" by (simp add: x evict_page_def)
  moreover have "fold (evict_page f) ts (s, r) = (s, r)"
  proof (rule Cons.IH)
    show "\<not> (pte_present pte \<and> pte_frame pte = f)"
      if "(p, pt) \<in> set ts" "vpn2 \<in> set (vs_loaded_vpns s p)" "pt vpn2 = Some pte" for p pt vpn2 pte
      using Cons.prems [of p pt vpn2 pte] that by simp
  qed
  ultimately show ?case by simp
qed simp

lemma find_unique: "v \<in> set xs \<Longrightarrow> P v \<Longrightarrow> \<forall>w \<in> set xs. P w \<longrightarrow> w = v \<Longrightarrow> List.find P xs = Some v"
proof (induction xs)
  case (Cons x xs)
  show ?case
  proof (cases "P x")
    case True
    then have "x = v" using Cons.prems(3) by (meson list.set_intros(1))
    then show ?thesis using True by simp
  next
    case False
    then have "v \<in> set xs" using Cons.prems(1,2) by (metis set_ConsD)
    moreover have "\<forall>w \<in> set xs. P w \<longrightarrow> w = v" using Cons.prems(3) by (meson list.set_intros(2))
    ultimately have "List.find P xs = Some v" using Cons.IH Cons.prems(2) by blast
    then show ?thesis using False by simp
  qed
qed simp

lemma table_in: "distinct (map fst ts) \<Longrightarrow> (p, pt) \<in> set ts \<Longrightarrow> table_of ts p = pt"
  by (simp add: table_of_def map_of_is_SomeI)

lemma page_entry: "page s (q, v) = Some f \<longleftrightarrow>
    (\<exists>pte. table_of (vs_page_tables s) q v = Some pte \<and> pte_present pte \<and> pte_frame pte = f)"
  by (auto simp: page_def page_in_def split: option.splits if_splits)

text \<open>The scan finds the one page in the victim frame and nothing else, in any iteration order.\<close>

lemma evict_scan_spec:
  assumes c: "vm_core s" and k: "page s (q, v) = Some f"
  shows "\<exists>pte. table_of (vs_page_tables s) q v = Some pte \<and> pte_present pte \<and>
    evict_scan f s r =
      (s\<lparr>vs_page_tables := set_table q ((table_of (vs_page_tables s) q)(v \<mapsto> pte\<lparr>pte_present := False\<rparr>)) (vs_page_tables s),
         vs_tlb := TLB_invalidate (vs_tlb s) q v,
         vs_loaded_vpns := (vs_loaded_vpns s)(q := remove1 v (vs_loaded_vpns s q))\<rparr>,
       if pte_dirty pte then r\<lparr>ar_dirty_evict := True, ar_cost_ns := ar_cost_ns r + disk_ns (vs_costs s)\<rparr> else r)"
proof -
  let ?ts = "vs_page_tables s"
  have d: "distinct (map fst ?ts)" and inj: "inj_on (page s) (dom (page s))"
    and ld: "\<And>p w. w \<in> set (vs_loaded_vpns s p) \<longleftrightarrow> page s (p, w) \<noteq> None" using c by (auto simp: vm_core_def)
  obtain pte where e: "table_of ?ts q v = Some pte" "pte_present pte" "pte_frame pte = f" using k page_entry by blast
  then obtain pt where m: "map_of ?ts q = Some pt" and pt: "pt v = Some pte"
    by (auto simp: table_of_def split: option.splits)
  then obtain us vs where ts: "?ts = us @ (q, pt) # vs" by (meson map_of_SomeD split_list)
  have T: "table_of ?ts q = pt" using m by (simp add: table_of_def)
  have uniq: "p = q \<and> w = v" if "table_of ?ts p w = Some pte'" "pte_present pte'" "pte_frame pte' = f" for p w pte'
    using inj_onD [OF inj, of "(p, w)" "(q, v)"] k page_entry [of s p w f] that by (auto simp: dom_def)
  have none: "\<not> (pte_present pte' \<and> pte_frame pte' = f)"
    if "(p, t) \<in> set us \<union> set vs" "t w = Some pte'" for p t w pte'
  proof -
    have "p \<noteq> q" using d ts that(1) by (auto simp: rev_image_eqI)
    moreover have "table_of ?ts p = t" using table_in [OF d] that(1) ts by auto
    ultimately show ?thesis using uniq that(2) by auto
  qed
  have f1: "fold (evict_page f) us (s, r) = (s, r)" by (rule fold_evict_none) (use none in blast)
  have fnd: "List.find (\<lambda>vpn2. case PageTable_lookup pt vpn2 of None \<Rightarrow> False
      | Some pte2 \<Rightarrow> pte_present pte2 \<and> pte_frame pte2 = f) (vs_loaded_vpns s q) = Some v"
  proof (rule find_unique)
    show "v \<in> set (vs_loaded_vpns s q)" using ld k by simp
    show "\<forall>w \<in> set (vs_loaded_vpns s q). (case PageTable_lookup pt w of None \<Rightarrow> False
        | Some pte2 \<Rightarrow> pte_present pte2 \<and> pte_frame pte2 = f) \<longrightarrow> w = v"
      using uniq [of q] unfolding T by (auto simp: PageTable_lookup_def split: option.splits)
  qed (use e pt in \<open>simp add: PageTable_lookup_def\<close>)
  let ?s = "s\<lparr>vs_page_tables := set_table q (pt(v \<mapsto> pte\<lparr>pte_present := False\<rparr>)) ?ts,
    vs_tlb := TLB_invalidate (vs_tlb s) q v, vs_loaded_vpns := (vs_loaded_vpns s)(q := remove1 v (vs_loaded_vpns s q))\<rparr>"
  let ?r = "if pte_dirty pte then r\<lparr>ar_dirty_evict := True, ar_cost_ns := ar_cost_ns r + disk_ns (vs_costs s)\<rparr> else r"
  have f2: "evict_page f (q, pt) (s, r) = (?s, ?r)" using fnd pt by (simp add: evict_page_def PageTable_lookup_def)
  have f3: "fold (evict_page f) vs (?s, ?r) = (?s, ?r)" by (rule fold_evict_none) (use none in blast)
  have "evict_scan f s r = (?s, ?r)" using f1 f2 f3 by (simp add: evict_scan_def ts)
  then show ?thesis using e T by auto
qed

lemma evict_scan_core:
  assumes c: "vm_core s" and k: "page s (q, v) = Some f" and e: "evict_scan f s r = (s', r')"
  shows "vm_core s' \<and> page s' = (page s)((q, v) := None) \<and> modified s' = modified s - {(q, v)} \<and> vs_frame_alloc s' = vs_frame_alloc s \<and>
    vs_costs s' = vs_costs s \<and> vs_hits s' = vs_hits s \<and> vs_faults s' = vs_faults s \<and>
    r' = (if dirty s (q, v) then r\<lparr>ar_dirty_evict := True, ar_cost_ns := ar_cost_ns r + disk_ns (vs_costs s)\<rparr> else r)"
proof -
  let ?ts = "vs_page_tables s"
  obtain pte where p: "table_of ?ts q v = Some pte" and
    r': "r' = (if pte_dirty pte then r\<lparr>ar_dirty_evict := True, ar_cost_ns := ar_cost_ns r + disk_ns (vs_costs s)\<rparr> else r)" and
    s': "s' = s\<lparr>vs_page_tables := set_table q ((table_of ?ts q)(v \<mapsto> pte\<lparr>pte_present := False\<rparr>)) ?ts,
      vs_tlb := TLB_invalidate (vs_tlb s) q v, vs_loaded_vpns := (vs_loaded_vpns s)(q := remove1 v (vs_loaded_vpns s q))\<rparr>"
    using evict_scan_spec [OF c k, of r] e by auto
  have pg: "page s' = (page s)((q, v) := None)" by (simp add: s' page_in_upd) (simp add: page_def)
  have "dirty s' = (dirty s)((q, v) := pte_dirty pte)"
    using dirty_upd [of q ?ts v "pte\<lparr>pte_present := False\<rparr>" s] by (simp add: s' dirty_def)
  then have md: "modified s' = modified s - {(q, v)}" unfolding modified_def pg by auto
  have t: "tlb_ok (vs_tlb s')" "tlb_frame (vs_tlb s') = (tlb_frame (vs_tlb s))((q, v) := None)"
    using TLB_invalidate_ok [of "vs_tlb s" q v] c by (auto simp: s' vm_core_def)
  have "distinct (map fst (vs_page_tables s'))" using c by (simp add: s' vm_core_def distinct_set_table)
  moreover have "w \<in> set (vs_loaded_vpns s' p) \<longleftrightarrow> page s' (p, w) \<noteq> None" for p w
    using c unfolding pg by (auto simp: s' vm_core_def)
  moreover have "distinct (vs_loaded_vpns s' p)" for p using c by (auto simp: s' vm_core_def)
  moreover have "inj_on (page s') (dom (page s'))"
    unfolding pg using c by (auto simp: vm_core_def inj_on_def)
  ultimately have "vm_core s'" using t c unfolding vm_core_def pg by auto
  with pg md show ?thesis using r' p by (simp add: s' dirty_def)
qed

subsection \<open>Loading a page\<close>

definition written :: "bool \<Rightarrow> 'k \<Rightarrow> 'k set \<Rightarrow> 'k set" where
  "written w k D = (if w then insert k D else D)"

lemma load_page_ok:
  assumes c: "vm_core s" and n: "page s (pid, vpn) = None" and f: "f \<notin> ran (page s)"
    and fr: "frames_ok (vs_frame_alloc s) (insert f (ran (page s)))"
  shows "\<exists>s'. load_page pol s p r pid vpn w f =
      Inr (r\<lparr>ar_cost_ns := ar_cost_ns r + disk_ns (vs_costs s) + mem_ns (vs_costs s)\<rparr>, s', on_load pol p f) \<and>
    vm_ok s' \<and> page s' = (page s)((pid, vpn) \<mapsto> f) \<and> modified s' = written w (pid, vpn) (modified s) \<and> vs_costs s' = vs_costs s \<and>
    vs_frame_alloc s' = vs_frame_alloc s \<and> vs_hits s' = vs_hits s \<and> vs_faults s' = vs_faults s"
proof -
  let ?ts = "vs_page_tables s"
  obtain pte pt where g: "PageTable_get_or_create (table_of ?ts pid) vpn = (pte, pt)" by fastforce
  let ?pte = "pte\<lparr>pte_frame := f, pte_present := True, pte_referenced := True, pte_dirty := w\<rparr>"
  have pt: "pt(vpn \<mapsto> ?pte) = (table_of ?ts pid)(vpn \<mapsto> ?pte)"
    using g by (auto simp: PageTable_get_or_create_def split: option.splits)
  have tok: "tlb_ok (vs_tlb s)" using c by (simp add: vm_core_def)
  obtain t where t: "TLB_insert (vs_tlb s) pid vpn f = Inr t" using TLB_insert_ok [OF tok, of pid vpn f] by blast
  let ?s1 = "s\<lparr>vs_page_tables := set_table pid (pt(vpn \<mapsto> ?pte)) ?ts,
    vs_loaded_vpns := (vs_loaded_vpns s)(pid := vs_loaded_vpns s pid @ [vpn])\<rparr>"
  have pg: "page ?s1 = (page s)((pid, vpn) \<mapsto> f)"
    unfolding pt by (simp add: page_in_upd) (simp add: page_def)
  have "dirty ?s1 = (dirty s)((pid, vpn) := w)"
    unfolding pt using dirty_upd [of pid ?ts vpn ?pte s] by (simp add: dirty_def)
  then have md: "modified ?s1 = written w (pid, vpn) (modified s)"
    unfolding modified_def pg written_def using n by auto
  have "vm_core ?s1"
  proof -
    have a: "\<forall>k g. tlb_frame (vs_tlb ?s1) k = Some g \<longrightarrow> page ?s1 k = Some g"
    proof (intro allI impI)
      fix k g assume "tlb_frame (vs_tlb ?s1) k = Some g"
      then have "page s k = Some g" by (intro vm_core_tlbD [OF c]) simp
      moreover from this have "k \<noteq> (pid, vpn)" using n by auto
      ultimately show "page ?s1 k = Some g" unfolding pg by simp
    qed
    have l: "\<forall>p v. v \<in> set (vs_loaded_vpns ?s1 p) \<longleftrightarrow> page ?s1 (p, v) \<noteq> None"
      unfolding pg using c by (auto simp: vm_core_def)
    have d: "\<forall>p. distinct (vs_loaded_vpns ?s1 p)" using c n by (auto simp: vm_core_def)
    have i: "inj_on (page ?s1) (dom (page ?s1))"
      unfolding pg using c f n by (auto simp: vm_core_def inj_on_def ran_def dom_def)
    show ?thesis using a l d i tok c unfolding vm_core_def by (simp add: distinct_set_table)
  qed
  then have "vm_core (?s1\<lparr>vs_tlb := t\<rparr>)" using pg t by (intro vm_core_insert [where f = f]) auto
  moreover have "ran (page (?s1\<lparr>vs_tlb := t\<rparr>)) = insert f (ran (page s))"
    unfolding page_simps(1) pg using n by (rule ran_map_upd)
  ultimately have "vm_ok (?s1\<lparr>vs_tlb := t\<rparr>)" using fr unfolding vm_ok_def by simp
  moreover have "modified (?s1\<lparr>vs_tlb := t\<rparr>) = written w (pid, vpn) (modified s)" using md by (simp only: modified_simps)
  ultimately show ?thesis using g t pg by (intro exI [of _ "?s1\<lparr>vs_tlb := t\<rparr>"]) (simp add: load_page_def Let_def)
qed

context replacement_policy
begin

lemma obtain_frame_free:
  assumes ok: "vm_ok s" and fr: "FrameAllocator_has_free (vs_frame_alloc s)"
  shows "\<exists>f a. obtain_frame pol s p r = Inr (f, s\<lparr>vs_frame_alloc := a\<rparr>, p, r) \<and> f \<notin> ran (page s) \<and>
    frames_ok a (insert f (ran (page s))) \<and> fa_total a = fa_total (vs_frame_alloc s)"
proof -
  obtain f fs where fs: "fa_free (vs_frame_alloc s) = f # fs"
    using fr by (cases "fa_free (vs_frame_alloc s)") (auto simp: FrameAllocator_has_free_def)
  let ?a = "(vs_frame_alloc s)\<lparr>fa_free := fs\<rparr>"
  have a: "FrameAllocator_alloc (vs_frame_alloc s) = Inr (f, ?a)" using fs by (simp add: FrameAllocator_alloc_def)
  from FrameAllocator_alloc_ok [OF _ a] ok fr a show ?thesis
    by (intro exI [of _ f] exI [of _ ?a]) (auto simp: obtain_frame_def vm_ok_def)
qed

lemma obtain_frame_evict:
  assumes ok: "vm_ok s" and tr: "tracks p (ran (page s))" and t0: "fa_total (vs_frame_alloc s) \<noteq> 0"
    and fr: "\<not> FrameAllocator_has_free (vs_frame_alloc s)"
  shows "\<exists>f s' p' k. obtain_frame pol s p r = Inr (f, s', p',
        (if dirty s k then r\<lparr>ar_evicted := True, ar_dirty_evict := True, ar_cost_ns := ar_cost_ns r + disk_ns (vs_costs s)\<rparr>
         else r\<lparr>ar_evicted := True\<rparr>)) \<and>
    page s k = Some f \<and> page s' = (page s)(k := None) \<and> modified s' = modified s - {k} \<and> vm_core s' \<and> tracks p' (ran (page s')) \<and>
    f \<notin> ran (page s') \<and> frames_ok (vs_frame_alloc s') (insert f (ran (page s'))) \<and>
    vs_frame_alloc s' = vs_frame_alloc s \<and>
    vs_costs s' = vs_costs s \<and> vs_hits s' = vs_hits s \<and> vs_faults s' = vs_faults s"
proof -
  have full: "ran (page s) = {f. f < fa_total (vs_frame_alloc s)}"
    using frames_ok_full [OF _ fr] ok by (auto simp: vm_ok_def)
  have "0 < fa_total (vs_frame_alloc s)" using t0 by (simp add: word_neq_0_conv)
  then have "ran (page s) \<noteq> {}" unfolding full by blast
  from victim_tracks [OF tr this] obtain f p1 p2 where v: "victim pol p = Inr (f, p1)" "f \<in> ran (page s)"
    "on_evict pol p1 f = Inr p2" "tracks p2 (ran (page s) - {f})" by blast
  then obtain q w where k: "page s (q, w) = Some f" by (auto simp: ran_def)
  have c: "vm_core s" using ok by (simp add: vm_ok_def)
  obtain s' r' where e: "evict_scan f s (r\<lparr>ar_evicted := True\<rparr>) = (s', r')" by fastforce
  note ec = evict_scan_core [OF c k e]
  have M: "ran (page s') = ran (page s) - {f}"
    using ran_upd_None [of "page s" "(q, w)" f] ec k c by (simp add: vm_core_def)
  then have "insert f (ran (page s')) = ran (page s)" using v(2) by auto
  then have "frames_ok (vs_frame_alloc s') (insert f (ran (page s')))" using ok ec by (simp add: vm_ok_def)
  moreover have "obtain_frame pol s p r = Inr (f, s', p2, r')" using fr v e by (simp add: obtain_frame_def)
  ultimately show ?thesis using ec k M v(4)
    by (intro exI [of _ f] exI [of _ s'] exI [of _ p2] exI [of _ "(q, w)"]) auto
qed

end

subsection \<open>One access\<close>

text \<open>
  The specification of an access to page \<open>k\<close> under \<open>N\<close> frames: a present page stays where it is; an
  absent one is put into a frame nothing uses, or, when all frames are in use, in place of one page.
\<close>

definition page_step :: "u32 \<Rightarrow> ('k \<rightharpoonup> u32) \<Rightarrow> 'k \<Rightarrow> ('k \<rightharpoonup> u32) \<Rightarrow> bool" where
  "page_step N M k M' \<longleftrightarrow>
     (if M k \<noteq> None then M' = M
      else \<exists>f < N. if ran M \<noteq> {g. g < N} then f \<notin> ran M \<and> M' = M(k \<mapsto> f)
        else \<exists>k'. M k' = Some f \<and> M' = M(k' := None, k \<mapsto> f))"

text \<open>
  The same with the modified pages \<open>D\<close> and what the access reports: whether it faulted, whether it
  threw a page out, whether that page had been modified, and the cost.  A resident page costs
  a TLB look-up and a memory access whether the TLB hit or missed; a fault costs the look-up, a disk
  read and a memory access, and a disk write when the replaced page is one of the modified ones.
\<close>

definition access_spec ::
  "u32 \<Rightarrow> CostModel \<Rightarrow> ('k \<rightharpoonup> u32) \<Rightarrow> 'k set \<Rightarrow> 'k \<Rightarrow> bool \<Rightarrow> AccessResult \<Rightarrow> ('k \<rightharpoonup> u32) \<Rightarrow> 'k set \<Rightarrow> bool" where
  "access_spec N cm M D k w r M' D' \<longleftrightarrow>
     (if M k \<noteq> None
      then M' = M \<and> D' = written w k D \<and> \<not> ar_page_fault r \<and> \<not> ar_evicted r \<and> \<not> ar_dirty_evict r \<and>
        ar_cost_ns r = tlb_ns cm + mem_ns cm
      else ar_page_fault r \<and>
        (\<exists>f < N. if ran M \<noteq> {g. g < N}
           then f \<notin> ran M \<and> M' = M(k \<mapsto> f) \<and> D' = written w k D \<and> \<not> ar_evicted r \<and> \<not> ar_dirty_evict r \<and>
             ar_cost_ns r = tlb_ns cm + disk_ns cm + mem_ns cm
           else \<exists>k'. M k' = Some f \<and> M' = M(k' := None, k \<mapsto> f) \<and> D' = written w k (D - {k'}) \<and>
             ar_evicted r \<and> (ar_dirty_evict r \<longleftrightarrow> k' \<in> D) \<and>
             ar_cost_ns r = tlb_ns cm + (if k' \<in> D then disk_ns cm else 0) + disk_ns cm + mem_ns cm))"

lemma access_spec_page_step: "access_spec N cm M D k w r M' D' \<Longrightarrow> page_step N M k M'"
  unfolding access_spec_def page_step_def by (auto split: if_splits)

lemma access_spec_evict:
  "M k = None \<Longrightarrow> ran M = {g. g < N} \<Longrightarrow> f < N \<Longrightarrow> M k' = Some f \<Longrightarrow> ar_page_fault r \<Longrightarrow> ar_evicted r \<Longrightarrow>
     ar_dirty_evict r = (k' \<in> D) \<Longrightarrow>
     ar_cost_ns r = tlb_ns cm + (if k' \<in> D then disk_ns cm else 0) + disk_ns cm + mem_ns cm \<Longrightarrow>
     access_spec N cm M D k w r (M(k' := None, k \<mapsto> f)) (written w k (D - {k'}))"
  unfolding access_spec_def by auto

text \<open>The counters: a hit for a page in memory, in the TLB or not, and a fault for any other.\<close>

definition access_counts :: "VMSystem \<Rightarrow> int \<times> u64 \<Rightarrow> VMSystem \<Rightarrow> bool" where
  "access_counts s k s' \<longleftrightarrow>
     vs_costs s' = vs_costs s \<and> fa_total (vs_frame_alloc s') = fa_total (vs_frame_alloc s) \<and>
     (if page s k \<noteq> None then vs_hits s' = vs_hits s + 1 \<and> vs_faults s' = vs_faults s
      else vs_hits s' = vs_hits s \<and> vs_faults s' = vs_faults s + 1)"

lemma page_in_entry:
  assumes "table_of ts pid vpn = Some pte" "pte_present pte' = pte_present pte" "pte_frame pte' = pte_frame pte"
  shows "page_in (set_table pid ((table_of ts pid)(vpn \<mapsto> pte')) ts) = page_in ts"
  using assms by (auto simp: page_in_upd fun_eq_iff) (simp_all add: page_in_def)

lemma frames_ok_has_free: "frames_ok a U \<Longrightarrow> FrameAllocator_has_free a \<longleftrightarrow> U \<noteq> {f. f < fa_total a}"
  by (auto simp: frames_ok_def FrameAllocator_has_free_def) (metis disjoint_iff list.set_intros(1) neq_Nil_conv UnI1 mem_Collect_eq)

context replacement_policy
begin

text \<open>The page-fault path, from a state where the page is known to be absent.\<close>

lemma fault_ok:
  assumes ok: "vm_ok s" and tr: "tracks p (ran (page s))" and t0: "fa_total (vs_frame_alloc s) \<noteq> 0"
    and n: "page s (pid, vpn) = None"
    and r: "r = \<lparr>ar_tlb_hit = False, ar_page_fault = True, ar_evicted = False, ar_dirty_evict = False,
      ar_cost_ns = tlb_ns (vs_costs s)\<rparr>"
  shows "\<exists>r' s' p'. (case obtain_frame pol s p r of Inl e \<Rightarrow> Inl e
      | Inr (f, s', p', r') \<Rightarrow> load_page pol s' p' r' pid vpn w f) = Inr (r', s', p') \<and>
    vm_ok s' \<and> tracks p' (ran (page s')) \<and> \<not> ar_tlb_hit r' \<and>
    access_spec (fa_total (vs_frame_alloc s)) (vs_costs s) (page s) (modified s) (pid, vpn) w r' (page s') (modified s') \<and>
    vs_costs s' = vs_costs s \<and> fa_total (vs_frame_alloc s') = fa_total (vs_frame_alloc s) \<and>
    vs_hits s' = vs_hits s \<and> vs_faults s' = vs_faults s"
proof -
  let ?N = "fa_total (vs_frame_alloc s)"
  have c: "vm_core s" and fo: "frames_ok (vs_frame_alloc s) (ran (page s))" using ok by (auto simp: vm_ok_def)
  show ?thesis
  proof (cases "FrameAllocator_has_free (vs_frame_alloc s)")
    case True
    from obtain_frame_free [OF ok True, of p r] obtain f a where
      o: "obtain_frame pol s p r = Inr (f, s\<lparr>vs_frame_alloc := a\<rparr>, p, r)" and f: "f \<notin> ran (page s)"
      and a: "frames_ok a (insert f (ran (page s)))" "fa_total a = ?N" by blast
    have nf: "ran (page s) \<noteq> {g. g < ?N}" using True frames_ok_has_free [OF fo] by blast
    have fN: "f < ?N" using a by (auto simp: frames_ok_def)
    from load_page_ok [of "s\<lparr>vs_frame_alloc := a\<rparr>" pid vpn f pol p r w] c n f a obtain s' where
      l: "load_page pol (s\<lparr>vs_frame_alloc := a\<rparr>) p r pid vpn w f =
        Inr (r\<lparr>ar_cost_ns := ar_cost_ns r + disk_ns (vs_costs s) + mem_ns (vs_costs s)\<rparr>, s', on_load pol p f)"
      "vm_ok s'" "page s' = (page s)((pid, vpn) \<mapsto> f)" "vs_costs s' = vs_costs s" "vs_frame_alloc s' = a"
      "vs_hits s' = vs_hits s" "vs_faults s' = vs_faults s" "modified s' = written w (pid, vpn) (modified s)" by auto
    have "ran (page s') = insert f (ran (page s))" unfolding l(3) using n by (rule ran_map_upd)
    then have "tracks (on_load pol p f) (ran (page s'))" using load_tracks [OF tr f] by simp
    moreover have "access_spec ?N (vs_costs s) (page s) (modified s) (pid, vpn) w
        (r\<lparr>ar_cost_ns := ar_cost_ns r + disk_ns (vs_costs s) + mem_ns (vs_costs s)\<rparr>) (page s') (modified s')"
      using n nf f fN l(3,8) by (auto simp: access_spec_def r)
    ultimately show ?thesis using o l a nf by (simp add: r)
  next
    case False
    from obtain_frame_evict [OF ok tr t0 False, of r] obtain f s1 p1 k where
      o: "obtain_frame pol s p r = Inr (f, s1, p1,
        (if dirty s k then r\<lparr>ar_evicted := True, ar_dirty_evict := True, ar_cost_ns := ar_cost_ns r + disk_ns (vs_costs s)\<rparr>
         else r\<lparr>ar_evicted := True\<rparr>))" and k: "page s k = Some f" "page s1 = (page s)(k := None)" "vm_core s1"
      "tracks p1 (ran (page s1))" "f \<notin> ran (page s1)" "frames_ok (vs_frame_alloc s1) (insert f (ran (page s1)))"
      and md: "modified s1 = modified s - {k}"
      and e: "vs_frame_alloc s1 = vs_frame_alloc s" "vs_costs s1 = vs_costs s" "vs_hits s1 = vs_hits s" "vs_faults s1 = vs_faults s"
      by blast
    let ?r = "if dirty s k then r\<lparr>ar_evicted := True, ar_dirty_evict := True, ar_cost_ns := ar_cost_ns r + disk_ns (vs_costs s)\<rparr>
         else r\<lparr>ar_evicted := True\<rparr>"
    have full: "ran (page s) = {g. g < ?N}" using False frames_ok_has_free [OF fo] by blast
    then have fN: "f < ?N" using ranI [of "page s" k f] k(1) by blast
    have n1: "page s1 (pid, vpn) = None" using n k(2) by simp
    from load_page_ok [OF k(3) n1 k(5,6), of pol p1 ?r w] obtain s' where
      l: "load_page pol s1 p1 ?r pid vpn w f =
        Inr (?r\<lparr>ar_cost_ns := ar_cost_ns ?r + disk_ns (vs_costs s) + mem_ns (vs_costs s)\<rparr>, s', on_load pol p1 f)"
      "vm_ok s'" "page s' = (page s)(k := None, (pid, vpn) \<mapsto> f)" "vs_costs s' = vs_costs s"
      "vs_frame_alloc s' = vs_frame_alloc s" "vs_hits s' = vs_hits s" "vs_faults s' = vs_faults s"
      "modified s' = written w (pid, vpn) (modified s - {k})"
      unfolding e k(2) md by blast
    have "ran (page s') = insert f (ran (page s1))" unfolding l(3) k(2) [symmetric] using n1 by (rule ran_map_upd)
    then have "tracks (on_load pol p1 f) (ran (page s'))" using load_tracks [OF k(4,5)] by simp
    moreover have "dirty s k \<longleftrightarrow> k \<in> modified s" using k(1) by (auto simp: modified_def)
    then have "access_spec ?N (vs_costs s) (page s) (modified s) (pid, vpn) w
        (?r\<lparr>ar_cost_ns := ar_cost_ns ?r + disk_ns (vs_costs s) + mem_ns (vs_costs s)\<rparr>) (page s') (modified s')"
      unfolding l(3,8) by (intro access_spec_evict [OF n full fN k(1)]) (auto simp: r)
    moreover have "\<not> ar_tlb_hit (?r\<lparr>ar_cost_ns := ar_cost_ns ?r + disk_ns (vs_costs s) + mem_ns (vs_costs s)\<rparr>)" by (simp add: r)
    moreover have "(case obtain_frame pol s p r of Inl e \<Rightarrow> Inl e
      | Inr (f, s', p', r') \<Rightarrow> load_page pol s' p' r' pid vpn w f) = load_page pol s1 p1 ?r pid vpn w f" by (simp only: o sum.case prod.case)
    ultimately show ?thesis using l(1,2,4-7) by metis
  qed
qed

lemma access_ok:
  assumes ok: "vm_ok s" and tr: "tracks p (ran (page s))" and t0: "fa_total (vs_frame_alloc s) \<noteq> 0"
  shows "\<exists>r s' p'. VMSystem_access pol s p pid vpn w = Inr (r, s', p') \<and> vm_ok s' \<and> tracks p' (ran (page s')) \<and>
    (ar_tlb_hit r \<longleftrightarrow> tlb_frame (vs_tlb s) (pid, vpn) \<noteq> None) \<and>
    access_spec (fa_total (vs_frame_alloc s)) (vs_costs s) (page s) (modified s) (pid, vpn) w r (page s') (modified s') \<and>
    access_counts s (pid, vpn) s'"
proof -
  let ?ts = "vs_page_tables s" and ?k = "(pid, vpn)"
  let ?pt = "table_of ?ts pid"
  have c: "vm_core s" and fo: "frames_ok (vs_frame_alloc s) (ran (page s))" and tok: "tlb_ok (vs_tlb s)"
    and d: "distinct (map fst ?ts)"
    using ok by (auto simp: vm_ok_def vm_core_def)
  obtain hit t where lk: "TLB_lookup (vs_tlb s) pid vpn = (hit, t)" by fastforce
  note lo = TLB_lookup_ok [OF lk tok]
  have ct: "vm_core (s\<lparr>vs_tlb := t\<rparr>)" using lo vm_core_tlbD [OF c] by (intro vm_core_tlb [OF c]) auto
  show ?thesis
  proof (cases hit)
    case (Some f)
    then have pg: "page s ?k = Some f" using lo vm_core_tlbD [OF c] by simp
    then have "f \<in> ran (page s)" by (rule ranI)
    from access_tracks [OF tr this] obtain p' where p': "on_access pol p f = Inr p'" "tracks p' (ran (page s))" by blast
    let ?pt' = "case PageTable_lookup ?pt vpn of None \<Rightarrow> ?pt | Some pte \<Rightarrow> ?pt(vpn \<mapsto> pte\<lparr>pte_dirty := True\<rparr>)"
    let ?s = "if w then s\<lparr>vs_tlb := t, vs_page_tables := set_table pid ?pt' ?ts\<rparr> else s\<lparr>vs_tlb := t\<rparr>"
    have pe: "page_in (set_table pid ?pt' ?ts) = page s"
      by (auto simp: page_def PageTable_lookup_def page_in_same page_in_entry split: option.splits)
    have "vm_core ?s" using ct vm_core_entry [OF ct, of "set_table pid ?pt' ?ts"] pe d
      by (simp add: distinct_set_table)
    moreover have ps: "page ?s = page s" using pe by simp
    ultimately have v: "vm_ok (?s\<lparr>vs_hits := vs_hits s + 1\<rparr>)" "page (?s\<lparr>vs_hits := vs_hits s + 1\<rparr>) = page s"
      using fo by (auto simp: vm_ok_def)
    obtain pte where e: "?pt vpn = Some pte" using pg page_entry by blast
    have "dirty ?s = (if w then (dirty s)(?k := True) else dirty s)"
      using dirty_upd [of pid ?ts vpn "pte\<lparr>pte_dirty := True\<rparr>" "s\<lparr>vs_tlb := t\<rparr>"] e by (simp add: PageTable_lookup_def dirty_def)
    then have md: "modified (?s\<lparr>vs_hits := vs_hits s + 1\<rparr>) = written w ?k (modified s)"
      unfolding modified_simps unfolding modified_def ps written_def using pg by auto
    let ?r = "\<lparr>ar_tlb_hit = True, ar_page_fault = False, ar_evicted = False, ar_dirty_evict = False,
            ar_cost_ns = tlb_ns (vs_costs s) + mem_ns (vs_costs s)\<rparr>"
    have "access_spec (fa_total (vs_frame_alloc s)) (vs_costs s) (page s) (modified s) ?k w ?r
        (page (?s\<lparr>vs_hits := vs_hits s + 1\<rparr>)) (modified (?s\<lparr>vs_hits := vs_hits s + 1\<rparr>))"
      unfolding v(2) md access_spec_def using pg by simp
    moreover have "VMSystem_access pol s p pid vpn w = Inr (?r, ?s\<lparr>vs_hits := vs_hits s + 1\<rparr>, p')"
      using Some lk p' by (simp add: VMSystem_access_def Let_def cong: option.case_cong)
    moreover have "access_counts s ?k (?s\<lparr>vs_hits := vs_hits s + 1\<rparr>)" using pg by (auto simp: access_counts_def)
    moreover have "ar_tlb_hit ?r \<longleftrightarrow> tlb_frame (vs_tlb s) ?k \<noteq> None" using lo Some by (metis AccessResult.select_convs(1) option.distinct(1))
    ultimately show ?thesis using v p'(2) by metis
  next
    case None
    let ?s = "s\<lparr>vs_tlb := TLB_count_miss t, vs_page_tables := set_table pid ?pt ?ts\<rparr>"
    have pe: "page_in (set_table pid ?pt ?ts) = page s" by (simp add: page_in_same page_def)
    have "vm_core (s\<lparr>vs_tlb := TLB_count_miss t\<rparr>)" using lo vm_core_tlbD [OF c] by (intro vm_core_tlb [OF c]) auto
    then have cs: "vm_core ?s" using pe d by (intro vm_core_entry) (auto simp: distinct_set_table)
    have ps: "page ?s = page s" using pe by simp
    have T: "table_of (vs_page_tables ?s) pid = ?pt" by (simp add: table_of_set)
    show ?thesis
    proof (cases "page s ?k")
      case (Some f)
      then obtain pte where e: "?pt vpn = Some pte" "pte_present pte" "pte_frame pte = f" using page_entry by blast
      have "f \<in> ran (page s)" using Some by (rule ranI)
      from access_tracks [OF tr this] obtain p' where p': "on_access pol p f = Inr p'" "tracks p' (ran (page s))" by blast
      obtain u where u: "TLB_insert (vs_tlb ?s) pid vpn f = Inr u" using TLB_insert_ok [of "TLB_count_miss t" pid vpn f] lo by auto
      have cu: "vm_core (?s\<lparr>vs_tlb := u\<rparr>)" using u Some ps by (intro vm_core_insert [OF cs, where f = f]) auto
      let ?pte = "pte\<lparr>pte_referenced := True, pte_dirty := pte_dirty pte \<or> w\<rparr>"
      let ?ts' = "set_table pid (?pt(vpn \<mapsto> ?pte)) (set_table pid ?pt ?ts)"
      have "page_in ?ts' = page s"
        using page_in_entry [of "set_table pid ?pt ?ts" pid vpn pte ?pte] e T pe by simp
      then have "vm_core (?s\<lparr>vs_tlb := u, vs_page_tables := ?ts'\<rparr>)" "page (?s\<lparr>vs_tlb := u, vs_page_tables := ?ts'\<rparr>) = page s"
        using vm_core_entry [OF cu, of ?ts'] d ps by (simp_all add: distinct_set_table)
      moreover have "dirty (?s\<lparr>vs_tlb := u, vs_page_tables := ?ts', vs_hits := vs_hits s + 1\<rparr>) = (dirty s)(?k := dirty s ?k \<or> w)"
        using e by (auto simp: fun_eq_iff dirty_def table_of_set)
      ultimately have "modified (?s\<lparr>vs_tlb := u, vs_page_tables := ?ts', vs_hits := vs_hits s + 1\<rparr>) = written w ?k (modified s)"
        "vm_core (?s\<lparr>vs_tlb := u, vs_page_tables := ?ts'\<rparr>)" "page (?s\<lparr>vs_tlb := u, vs_page_tables := ?ts'\<rparr>) = page s"
        unfolding modified_def written_def using Some by auto
      then show ?thesis using lk None e p' u Some fo lo
        by (auto simp: VMSystem_access_def Let_def PageTable_lookup_def vm_ok_def access_spec_def access_counts_def)
    next
      case np: None
      let ?s1 = "?s\<lparr>vs_faults := vs_faults s + 1\<rparr>"
      have "vm_ok ?s1" "page ?s1 (pid, vpn) = None" "tracks p (ran (page ?s1))" "fa_total (vs_frame_alloc ?s1) \<noteq> 0"
        using cs ps fo np tr t0 by (auto simp: vm_ok_def)
      from fault_ok [OF this(1,3,4,2) refl, of w] obtain r' s' p' where
        F: "(case obtain_frame pol ?s1 p \<lparr>ar_tlb_hit = False, ar_page_fault = True, ar_evicted = False, ar_dirty_evict = False,
          ar_cost_ns = tlb_ns (vs_costs ?s1)\<rparr> of Inl e \<Rightarrow> Inl e
          | Inr (f, s', p', r') \<Rightarrow> load_page pol s' p' r' pid vpn w f) = Inr (r', s', p')" (is "?c = _")
        and R: "vm_ok s'" "tracks p' (ran (page s'))" "\<not> ar_tlb_hit r'"
          "access_spec (fa_total (vs_frame_alloc ?s1)) (vs_costs ?s1) (page ?s1) (modified ?s1) (pid, vpn) w r' (page s') (modified s')"
          "vs_costs s' = vs_costs ?s1" "fa_total (vs_frame_alloc s') = fa_total (vs_frame_alloc ?s1)"
          "vs_hits s' = vs_hits ?s1" "vs_faults s' = vs_faults ?s1" by blast
      have "dirty ?s1 = dirty s" by (auto simp: fun_eq_iff dirty_def table_of_set)
      then have "modified ?s1 = modified s" unfolding modified_def using ps by simp
      then have spec: "access_spec (fa_total (vs_frame_alloc s)) (vs_costs s) (page s) (modified s) ?k w r' (page s') (modified s')"
        using R(4) ps by simp
      have counts: "access_counts s ?k s'" using R(5-8) np by (simp add: access_counts_def)
      have "VMSystem_access pol s p pid vpn w = ?c"
        using lk None np by (auto simp: VMSystem_access_def Let_def PageTable_lookup_def page_def page_in_def
            split: option.splits if_splits)
      moreover have "ar_tlb_hit r' \<longleftrightarrow> tlb_frame (vs_tlb s) ?k \<noteq> None" using R(3) lo None by simp
      ultimately show ?thesis using F R(1,2) spec counts by metis
    qed
  qed
qed

end

subsection \<open>Runs\<close>

definition keys :: "u32 list \<Rightarrow> (int \<times> u64) set" where
  "keys trace = (\<lambda>v. (1, ucast v)) ` set trace"

lemma ucast_32_64_inj: "(ucast v :: u64) = ucast w \<longleftrightarrow> v = w" for v w :: u32
proof -
  have u: "unat (ucast x :: u64) = unat x" for x :: u32
  proof -
    have "unat x < 2 ^ 32" using unsigned_less [of x, where 'a = nat] by simp
    then show ?thesis by (simp add: unsigned_ucast_eq take_bit_nat_eq_self_iff)
  qed
  show ?thesis using u [of v] u [of w] by (metis unsigned_word_eqI)
qed

lemma card_keys: "card (keys trace) = card (set trace)"
  unfolding keys_def by (rule card_image) (auto simp: inj_on_def ucast_32_64_inj)

lemma image_dom_ran: "M ` dom M = Some ` ran M"
  by (auto simp: ran_def image_iff) (metis domI)

lemma finite_dom_inj: "inj_on M (dom M) \<Longrightarrow> finite (ran M) \<Longrightarrow> finite (dom M)"
  using finite_imageD [of M "dom M"] by (simp add: image_dom_ran)

text \<open>A full memory holds one page per frame.\<close>

lemma full_card:
  assumes "inj_on M (dom M)" "ran M = {f. f < N}"
  shows "finite (dom M) \<and> card (dom M) = unat (N :: u32)"
proof -
  have c: "card {f. f < N} = unat N" using card_image [OF inj_of_nat_below [of N]] by (simp add: below_total)
  have "card (dom M) = card (M ` dom M)" using card_image [OF assms(1)] by simp
  then show ?thesis using finite_dom_inj [OF assms(1)] assms(2) c by (simp add: image_dom_ran card_image)
qed

text \<open>The effect of one step on the pages present, and on the pages still to be loaded.\<close>

lemma page_step_dom:
  assumes st: "page_step N M k M'" and inj: "inj_on M (dom M)"
  shows "k \<in> dom M' \<and> dom M' \<subseteq> insert k (dom M) \<and>
    (finite (dom M) \<longrightarrow> card (insert k (dom M)) \<le> unat N \<longrightarrow> dom M' = insert k (dom M))"
proof (cases "M k = None")
  case True
  show ?thesis
  proof (cases "ran M = {g. g < N}")
    case full: True
    obtain f k' where f: "M k' = Some f" "M' = M(k' := None, k \<mapsto> f)"
      using st True full by (auto simp: page_step_def)
    have "card (insert k (dom M)) = Suc (unat N)" using full_card [OF inj full] True by (simp add: domIff)
    then show ?thesis using f by auto
  next
    case False
    then obtain f where "M' = M(k \<mapsto> f)" using st True by (auto simp: page_step_def)
    then show ?thesis by auto
  qed
next
  case False
  then show ?thesis using st by (auto simp: page_step_def)
qed

lemma vm_ok_finite: "vm_ok s \<Longrightarrow> finite (dom (page s))"
  by (rule finite_dom_inj) (simp_all add: vm_ok_def vm_core_def)

context replacement_policy
begin

lemma run_trace_ok:
  assumes "vm_ok s" "tracks p (ran (page s))" "fa_total (vs_frame_alloc s) = N" "N \<noteq> 0"
  shows "\<exists>s' p' n. run_trace pol trace s p = Inr (s', p') \<and> vm_ok s' \<and>
    vs_faults s' = vs_faults s + of_nat n \<and> VMSystem_total s' = VMSystem_total s + of_nat (length trace) \<and>
    n \<le> length trace \<and> card (keys trace - dom (page s)) \<le> n \<and>
    (card (dom (page s) \<union> keys trace) \<le> unat N \<longrightarrow> n = card (keys trace - dom (page s)))"
  using assms
proof (induction trace arbitrary: s p)
  case Nil
  then show ?case by (intro exI [of _ s] exI [of _ p] exI [of _ 0]) (auto simp: keys_def)
next
  case (Cons v vs)
  let ?k = "(1, ucast v) :: int \<times> u64" and ?D = "dom (page s)" and ?K = "keys vs"
  have K: "keys (v # vs) = insert ?k ?K" and fK: "finite ?K" by (auto simp: keys_def)
  have fD: "finite ?D" using vm_ok_finite Cons.prems(1) .
  obtain r s1 p1 where a: "VMSystem_access pol s p 1 (ucast v) False = Inr (r, s1, p1)" "vm_ok s1"
    "tracks p1 (ran (page s1))" "page_step N (page s) ?k (page s1)" "access_counts s ?k s1"
    using access_ok [OF Cons.prems(1,2)] Cons.prems(3,4) access_spec_page_step by metis
  have "fa_total (vs_frame_alloc s1) = N" using a(5) Cons.prems(3) by (simp add: access_counts_def)
  from Cons.IH [OF a(2,3) this Cons.prems(4)] obtain s' p' n where
    IH: "run_trace pol vs s1 p1 = Inr (s', p')" "vm_ok s'" "vs_faults s' = vs_faults s1 + of_nat n"
    "VMSystem_total s' = VMSystem_total s1 + of_nat (length vs)" "n \<le> length vs"
    "card (?K - dom (page s1)) \<le> n" "card (dom (page s1) \<union> ?K) \<le> unat N \<longrightarrow> n = card (?K - dom (page s1))" by blast
  have "inj_on (page s) ?D" using Cons.prems(1) by (auto simp: vm_ok_def vm_core_def)
  note D = page_step_dom [OF a(4) this]
  let ?n = "if ?k \<in> ?D then n else Suc n"
  have tot: "VMSystem_total s1 = VMSystem_total s + 1" and flt: "vs_faults s1 + of_nat n = vs_faults s + of_nat ?n"
    using a(5) by (auto simp: access_counts_def VMSystem_total_def domIff algebra_simps split: if_splits)
  have low: "card (insert ?k ?K - ?D) \<le> ?n"
  proof (cases "?k \<in> ?D")
    case True
    then have "insert ?k ?K - ?D \<subseteq> ?K - dom (page s1)" using D by auto
    then have "card (insert ?k ?K - ?D) \<le> card (?K - dom (page s1))" using fK by (intro card_mono) auto
    then show ?thesis using IH(6) True by simp
  next
    case False
    have "insert ?k ?K - ?D \<subseteq> insert ?k (?K - dom (page s1))" using D by auto
    then have "card (insert ?k ?K - ?D) \<le> card (insert ?k (?K - dom (page s1)))" using fK by (intro card_mono) auto
    also have "\<dots> \<le> Suc (card (?K - dom (page s1)))" using fK by (simp add: card_insert_if)
    finally show ?thesis using IH(6) False by simp
  qed
  have ex: "?n = card (insert ?k ?K - ?D)" if le: "card (?D \<union> insert ?k ?K) \<le> unat N"
  proof -
    have "insert ?k ?D \<subseteq> ?D \<union> insert ?k ?K" by auto
    then have "card (insert ?k ?D) \<le> unat N" using card_mono [of "?D \<union> insert ?k ?K"] fD fK le by (meson finite_UnI finite_insert le_trans)
    then have d1: "dom (page s1) = insert ?k ?D" using D fD by blast
    then have "n = card (?K - insert ?k ?D)" using IH(7) le by (simp add: Un_commute)
    moreover have "insert ?k ?K - ?D = (if ?k \<in> ?D then ?K - insert ?k ?D else insert ?k (?K - insert ?k ?D))" by auto
    ultimately show ?thesis using fK by simp
  qed
  show ?case unfolding K using a(1) IH tot flt low ex
    by (intro exI [of _ s'] exI [of _ p'] exI [of _ ?n]) (auto simp: algebra_simps)
qed

end

lemma VMSystem_new_ok: "vm_ok (VMSystem_new N cm) \<and> page (VMSystem_new N cm) = Map.empty"
proof -
  have p: "page (VMSystem_new N cm) = Map.empty"
    by (auto simp: page_def VMSystem_new_def page_in_def table_of_def)
  have "tlb_frame (TLB_new 64) = Map.empty" by (simp add: tlb_frame_def TLB_new_def fun_eq_iff)
  then have "vm_ok (VMSystem_new N cm)"
    using FrameAllocator_new_ok [of N] unfolding vm_ok_def vm_core_def p
    by (simp add: VMSystem_new_def TLB_new_def tlb_ok_def)
  with p show ?thesis by blast
qed

subsection \<open>Properties\<close>

text \<open>
  C3.  Refinement: for every replacement policy that keeps the contract (all four do), an access from
  a state that satisfies the invariant returns, keeps the invariant (the TLB agrees with the page
  tables, no two pages share a frame, every frame is free or holds one page), and changes the mapping
  and the set of modified pages as the specification says: a present page stays, an absent one goes to an
  unused frame or replaces exactly one page when every frame is in use, and the write-back is
  reported and charged exactly when that page had been modified.  A TLB hit is reported exactly when the TLB
  holds the page, hits and faults are counted once, and the cost is that of the outcome; as in the code,
  a TLB miss on a page in memory costs no more than a hit (the design document adds the page-table walk).
\<close>

theorem VMSystem_access_refines:
  assumes pol: "replacement_policy pol tracks" and ok: "vm_ok s" and tr: "tracks p (ran (page s))"
    and t0: "fa_total (vs_frame_alloc s) \<noteq> 0"
  shows "\<exists>r s' p'. VMSystem_access pol s p pid vpn w = Inr (r, s', p') \<and> vm_ok s' \<and> tracks p' (ran (page s')) \<and>
    (ar_tlb_hit r \<longleftrightarrow> tlb_frame (vs_tlb s) (pid, vpn) \<noteq> None) \<and>
    access_spec (fa_total (vs_frame_alloc s)) (vs_costs s) (page s) (modified s) (pid, vpn) w r (page s') (modified s') \<and>
    access_counts s (pid, vpn) s'"
  by (rule replacement_policy.access_ok [OF pol ok tr t0])

theorem VMSystem_access_refines_witness:
  "\<exists>r s' p'. VMSystem_access LRU (VMSystem_new 2 default_costs) LRU_new 1 7 True = Inr (r, s', p') \<and>
     vm_ok s' \<and> ar_page_fault r \<and> ar_cost_ns r = 10000101 \<and> (1, 7) \<in> modified s'"
proof -
  let ?s = "VMSystem_new 2 default_costs"
  have p: "vm_ok ?s" "page ?s = Map.empty" using VMSystem_new_ok by auto
  have t: "LRU_tracks LRU_new (ran (page ?s))" by (simp add: p LRU_tracks_def LRU_new_def lru_ok_def lru_frames_def)
  have n: "fa_total (vs_frame_alloc ?s) = 2" "vs_costs ?s = default_costs"
    by (simp_all add: VMSystem_new_def FrameAllocator_new_def)
  then have n0: "fa_total (vs_frame_alloc ?s) \<noteq> 0" by simp
  from VMSystem_access_refines [OF lru.replacement_policy_axioms p(1) t n0, of 1 7 True] obtain r s' p' where
    a: "VMSystem_access LRU ?s LRU_new 1 7 True = Inr (r, s', p')" "vm_ok s'"
    "access_spec 2 default_costs Map.empty (modified ?s) (1, 7) True r (page s') (modified s')" unfolding p(2) n by blast
  have "(0 :: u32) < 2" by simp
  then have "{} \<noteq> {f :: u32. f < 2}" by blast
  then show ?thesis using a by (auto simp: access_spec_def default_costs_def written_def)
qed

lemma run_sim_counts:
  assumes pol: "replacement_policy pol tracks" and tr: "tracks p {}" and N: "frames \<noteq> 0" and l: "length trace < 2 ^ 64"
  shows "\<exists>res. run_sim pol p trace frames cm = Inr res \<and> unat (rr_total res) = length trace \<and>
    card (set trace) \<le> unat (rr_faults res) \<and> unat (rr_faults res) \<le> length trace \<and>
    (card (set trace) \<le> unat frames \<longrightarrow> unat (rr_faults res) = card (set trace))"
proof -
  let ?s = "VMSystem_new frames cm"
  have s: "vm_ok ?s" "page ?s = Map.empty" using VMSystem_new_ok by auto
  have f: "fa_total (vs_frame_alloc ?s) = frames" by (simp add: VMSystem_new_def FrameAllocator_new_def)
  have tr': "tracks p (ran (page ?s))" using tr by (simp add: s)
  from replacement_policy.run_trace_ok [OF pol s(1) tr' f N, of trace] obtain s' p' n where
    r: "run_trace pol trace ?s p = Inr (s', p')" "vs_faults s' = vs_faults ?s + of_nat n"
    "VMSystem_total s' = VMSystem_total ?s + of_nat (length trace)" "n \<le> length trace"
    "card (keys trace - dom (page ?s)) \<le> n"
    "card (dom (page ?s) \<union> keys trace) \<le> unat frames \<longrightarrow> n = card (keys trace - dom (page ?s))" by blast
  have z: "vs_faults ?s = 0" "VMSystem_total ?s = 0" by (simp_all add: VMSystem_new_def VMSystem_total_def)
  have "unat (vs_faults s') = n" "unat (VMSystem_total s') = length trace"
    using r(2-4) z l by (simp_all add: unat_of_nat)
  moreover have "card (set trace) \<le> n" "card (set trace) \<le> unat frames \<longrightarrow> n = card (set trace)"
    using r(5,6) card_keys [of trace] by (simp_all add: s)
  ultimately show ?thesis using r(1,4) unfolding run_sim_def by auto
qed

text \<open>
  C7.  A run of the simulator under any policy that keeps the contract ends without an undefined
  read; every access is counted once as a hit or a fault; each distinct page faults at least
  once; and when the distinct pages fit in the frames, each faults exactly once, whatever the policy.
\<close>

theorem run_sim_faults:
  assumes pol: "replacement_policy pol tracks" and tr: "tracks p {}" and N: "frames \<noteq> 0" and l: "length trace < 2 ^ 64"
  shows "\<exists>res. run_sim pol p trace frames cm = Inr res \<and> unat (rr_total res) = length trace \<and>
    card (set trace) \<le> unat (rr_faults res) \<and> unat (rr_faults res) \<le> length trace \<and>
    (card (set trace) \<le> unat frames \<longrightarrow> unat (rr_faults res) = card (set trace))"
  by (rule run_sim_counts [OF assms])

theorem run_sim_faults_witness:
  "\<exists>res. run_sim Clock Clock_new [3, 4, 3, 5, 3] 3 default_costs = Inr res \<and> unat (rr_total res) = 5 \<and>
     unat (rr_faults res) = 3"
proof -
  have t: "Clock_tracks Clock_new {}" by (simp add: Clock_tracks_def Clock_new_def clock_ok_def)
  have c: "card (set [3 :: u32, 4, 3, 5, 3]) = 3"
  proof -
    have "set [3 :: u32, 4, 3, 5, 3] = {3, 4, 5}" by auto
    then show ?thesis by simp
  qed
  from run_sim_faults [OF clock.replacement_policy_axioms t, of 3 "[3, 4, 3, 5, 3]" default_costs] c
  show ?thesis by auto
qed

end
