(* ===== verification/BinaryHeap.thy ===== *)
theory BinaryHeap
  imports Prelude
begin

text \<open>
  The binary heaps of the standard library, as the scheduling policies use them:
  \<^verbatim>\<open>std::push_heap\<close>, \<^verbatim>\<open>std::pop_heap\<close> and \<^verbatim>\<open>std::priority_queue\<close> on a vector.  The
  functions move a hole through the array the way the library's implementation does (up to the
  root for a push; down to a leaf along the preferred child and then up again for a pop), so ties
  are broken as they are there.  \<open>cmp a b\<close> is the comparison object: the heap keeps at its
  front an element that is \<open>cmp\<close>-maximal.
\<close>

definition parent :: "nat \<Rightarrow> nat" where
  "parent i = (i - 1) div 2"

lemma parent_less [simp]: "0 < i \<Longrightarrow> parent i < i"
  by (simp add: parent_def)

lemma parent_le [simp]: "parent i \<le> i"
  unfolding parent_def by arith

lemma parent_le_trans: "i \<le> j \<Longrightarrow> parent i \<le> j"
  by (rule le_trans [OF parent_le])

function sift_up :: "('a \<Rightarrow> 'a \<Rightarrow> bool) \<Rightarrow> 'a list \<Rightarrow> nat \<Rightarrow> 'a \<Rightarrow> 'a list" where
  "sift_up cmp h hole v =
     (if 0 < hole \<and> cmp (h ! parent hole) v
      then sift_up cmp (h[hole := h ! parent hole]) (parent hole) v
      else h[hole := v])"
  by pat_completeness auto
termination
  by (relation "measure (\<lambda>(cmp, h, hole, v). hole)") auto

declare sift_up.simps [simp del]

text \<open>
  The descent of \<^verbatim>\<open>pop_heap\<close>: in an array of \<open>n\<close> elements the hole moves to the preferred
  child until it has none.
\<close>

function sift_down :: "('a \<Rightarrow> 'a \<Rightarrow> bool) \<Rightarrow> 'a list \<Rightarrow> nat \<Rightarrow> nat \<Rightarrow> 'a list \<times> nat" where
  "sift_down cmp h n hole =
     (if 2 * hole + 2 < n then
        let c = (if cmp (h ! (2 * hole + 2)) (h ! (2 * hole + 1)) then 2 * hole + 1 else 2 * hole + 2)
        in sift_down cmp (h[hole := h ! c]) n c
      else if 2 * hole + 2 = n then (h[hole := h ! (2 * hole + 1)], 2 * hole + 1)
      else (h, hole))"
  by pat_completeness auto
termination
  by (relation "measure (\<lambda>(cmp, h, n, hole). n - hole)") (auto split: if_splits)

declare sift_down.simps [simp del]

definition push_heap :: "('a \<Rightarrow> 'a \<Rightarrow> bool) \<Rightarrow> 'a list \<Rightarrow> 'a list" where
  "push_heap cmp h = sift_up cmp h (length h - 1) (h ! (length h - 1))"

definition pop_heap :: "('a \<Rightarrow> 'a \<Rightarrow> bool) \<Rightarrow> 'a list \<Rightarrow> 'a list" where
  "pop_heap cmp h =
     (if length h > 1 then
        let n = length h - 1; v = h ! n; h1 = h[n := h ! 0]; (h2, hole) = sift_down cmp h1 n 0
        in sift_up cmp h2 hole v
      else h)"

definition pq_push :: "('a \<Rightarrow> 'a \<Rightarrow> bool) \<Rightarrow> 'a \<Rightarrow> 'a list \<Rightarrow> 'a list" where
  "pq_push cmp x h = push_heap cmp (h @ [x])"

definition pq_pop :: "('a \<Rightarrow> 'a \<Rightarrow> bool) \<Rightarrow> 'a list \<Rightarrow> 'a list" where
  "pq_pop cmp h = butlast (pop_heap cmp h)"

subsection \<open>The heap order\<close>

text \<open>
  All comparison objects of the sources compare a key with \<open>>\<close>, so the heaps are min-heaps of
  that key.
\<close>

abbreviation key_greater :: "('a \<Rightarrow> 'k::linorder) \<Rightarrow> 'a \<Rightarrow> 'a \<Rightarrow> bool" where
  "key_greater key a b \<equiv> key a > key b"

definition is_heap :: "('a \<Rightarrow> 'k::linorder) \<Rightarrow> 'a list \<Rightarrow> bool" where
  "is_heap key h \<longleftrightarrow> (\<forall>i < length h. 0 < i \<longrightarrow> key (h ! parent i) \<le> key (h ! i))"

text \<open>
  With a hole at \<open>k\<close>: the edges that do not touch the hole are in order, and so are the edges
  from the parent of the hole to its children.
\<close>

definition heap_hole :: "('a \<Rightarrow> 'k::linorder) \<Rightarrow> 'a list \<Rightarrow> nat \<Rightarrow> bool" where
  "heap_hole key h k \<longleftrightarrow> k < length h \<and>
     (\<forall>i < length h. 0 < i \<and> i \<noteq> k \<and> parent i \<noteq> k \<longrightarrow> key (h ! parent i) \<le> key (h ! i)) \<and>
     (\<forall>i < length h. 0 < k \<and> 0 < i \<and> parent i = k \<longrightarrow> key (h ! parent k) \<le> key (h ! i))"

definition below_hole :: "('a \<Rightarrow> 'k::linorder) \<Rightarrow> 'a list \<Rightarrow> nat \<Rightarrow> 'a \<Rightarrow> bool" where
  "below_hole key h k v \<longleftrightarrow> (\<forall>i < length h. 0 < i \<and> parent i = k \<longrightarrow> key v \<le> key (h ! i))"

lemma heap_front_least: "is_heap key h \<Longrightarrow> i < length h \<Longrightarrow> key (h ! 0) \<le> key (h ! i)"
proof (induction i rule: less_induct)
  case (less i)
  show ?case
  proof (cases "i = 0")
    case False
    then have "key (h ! 0) \<le> key (h ! parent i)" using less by (simp add: less_trans [OF parent_less])
    also have "\<dots> \<le> key (h ! i)" using less.prems False by (simp add: is_heap_def)
    finally show ?thesis .
  qed simp
qed

lemma is_heap_fill:
  "heap_hole key h k \<Longrightarrow> below_hole key h k v \<Longrightarrow> (0 < k \<longrightarrow> key (h ! parent k) \<le> key v) \<Longrightarrow>
   is_heap key (h[k := v])"
  unfolding is_heap_def heap_hole_def below_hole_def
  by (auto simp: nth_list_update)

lemma mset_move_hole:
  "i < length h \<Longrightarrow> j < length h \<Longrightarrow> mset (h[i := h ! j, j := v]) = mset (h[i := v])"
proof (cases "i = j")
  case False
  assume *: "i < length h" "j < length h"
  have "h[i := h ! j, j := v] = (h[i := v])[i := h[i := v] ! j, j := h[i := v] ! i]"
    using * False by (simp add: list_update_swap)
  also have "mset \<dots> = mset (h[i := v])"
    using * by (intro mset_swap) simp_all
  finally show ?thesis .
qed simp

lemma sift_up_heap:
  "heap_hole key h k \<Longrightarrow> below_hole key h k v \<Longrightarrow>
   is_heap key (sift_up (key_greater key) h k v) \<and>
   mset (sift_up (key_greater key) h k v) = mset (h[k := v])"
proof (induction "key_greater key" h k v rule: sift_up.induct)
  case (1 h k v)
  show ?case
  proof (cases "0 < k \<and> key v < key (h ! parent k)")
    case True
    let ?h = "h[k := h ! parent k]"
    have k: "k < length h" "parent k < length h" using 1(2) True
      by (auto simp: heap_hole_def intro: less_trans [OF parent_less])
    have hole: "heap_hole key ?h (parent k)"
      using 1(2) True k parent_less [of k] parent_less [of "parent k"]
      unfolding heap_hole_def
      by (auto simp: nth_list_update) (metis order_trans parent_less less_irrefl)+
    have below: "below_hole key ?h (parent k) v"
      using 1(2) True k unfolding heap_hole_def below_hole_def
      by (auto simp: nth_list_update) (metis less_imp_le order_trans order_less_le_trans)+
    show ?thesis
      using 1(1) [OF True hole below] True k
      by (subst (1 2) sift_up.simps) (simp add: mset_move_hole)
  next
    case False
    then show ?thesis using 1(2,3) by (subst (1 2) sift_up.simps) (auto intro!: is_heap_fill)
  qed
qed

lemma sift_up_append: "k < length h \<Longrightarrow> sift_up cmp (h @ t) k v = sift_up cmp h k v @ t"
proof (induction cmp h k v rule: sift_up.induct)
  case (1 cmp h k v)
  then show ?case
    by (subst (1 2) sift_up.simps)
       (auto simp: nth_append list_update_append less_trans [OF parent_less])
qed

lemma sift_down_two:
  "2 * k + 2 < n \<Longrightarrow>
   c = (if cmp (h ! (2 * k + 2)) (h ! (2 * k + 1)) then 2 * k + 1 else 2 * k + 2) \<Longrightarrow>
   sift_down cmp h n k = sift_down cmp (h[k := h ! c]) n c"
  by (subst sift_down.simps) (simp add: Let_def)

lemma sift_down_one:
  "2 * k + 2 = n \<Longrightarrow> sift_down cmp h n k = (h[k := h ! (2 * k + 1)], 2 * k + 1)"
  by (subst sift_down.simps) simp

lemma sift_down_leaf: "n < 2 * k + 2 \<Longrightarrow> sift_down cmp h n k = (h, k)"
  by (subst sift_down.simps) simp

lemma sift_down_append:
  "n \<le> length h \<Longrightarrow>
   sift_down cmp (h @ t) n k = (fst (sift_down cmp h n k) @ t, snd (sift_down cmp h n k))"
proof (induction cmp h n k rule: sift_down.induct)
  case (1 cmp h n k)
  show ?case
  proof (cases "2 * k + 2 < n")
    case True
    define c where "c = (if cmp (h ! (2 * k + 2)) (h ! (2 * k + 1)) then 2 * k + 1 else 2 * k + 2)"
    have "c < length h" "k < length h" using True 1(2) by (auto simp: c_def)
    moreover have "c = (if cmp ((h @ t) ! (2 * k + 2)) ((h @ t) ! (2 * k + 1)) then 2 * k + 1 else 2 * k + 2)"
      using True 1(2) by (simp add: c_def nth_append)
    moreover note sift_down_two [OF True, of c cmp h, OF c_def] sift_down_two [OF True, of c cmp "h @ t"]
    ultimately show ?thesis
      using 1(1) [OF True c_def] 1(2) by (simp add: nth_append list_update_append)
  next
    case False
    then consider (one) "2 * k + 2 = n" | (leaf) "n < 2 * k + 2" by linarith
    then show ?thesis using 1(2)
      by cases (simp_all add: sift_down_one sift_down_leaf nth_append list_update_append)
  qed
qed

lemma parent_child [simp]: "parent (Suc (2 * k)) = k" "parent (Suc (Suc (2 * k))) = k"
  by (simp_all add: parent_def)

lemma parent_eq_iff: "0 < i \<Longrightarrow> parent i = k \<longleftrightarrow> i = 2 * k + 1 \<or> i = 2 * k + 2"
  unfolding parent_def by arith

lemma heap_hole_down:
  assumes "heap_hole key h k" "c = 2 * k + 1 \<or> c = 2 * k + 2" "c < length h"
    and best: "\<And>d. d < length h \<Longrightarrow> d = 2 * k + 1 \<or> d = 2 * k + 2 \<Longrightarrow> key (h ! c) \<le> key (h ! d)"
  shows "heap_hole key (h[k := h ! c]) c"
proof -
  have k: "parent c = k" "k < c" "k < length h" using assms(2,3) by (auto simp: parent_def)
  have 1: "key (h[k := h ! c] ! parent i) \<le> key (h[k := h ! c] ! i)"
    if "i < length h" "0 < i" "i \<noteq> c" "parent i \<noteq> c" for i
  proof (cases "parent i = k")
    case True
    then show ?thesis using best [of i] that k parent_less [of i]
      by (auto simp: nth_list_update parent_eq_iff)
  next
    case False
    have "i = k \<Longrightarrow> key (h ! parent k) \<le> key (h ! c)"
      using assms(1,3) k that by (auto simp: heap_hole_def)
    then show ?thesis using assms(1) that False k
      by (auto simp: heap_hole_def nth_list_update)
  qed
  have 2: "key (h[k := h ! c] ! parent c) \<le> key (h[k := h ! c] ! i)"
    if "i < length h" "0 < i" "parent i = c" for i
  proof -
    have "i \<noteq> k" "c \<noteq> k" "0 < c" using parent_less [of i] that k by auto
    then show ?thesis using assms(1) that k by (auto simp: heap_hole_def nth_list_update)
  qed
  show ?thesis using 1 2 assms(3) by (simp add: heap_hole_def)
qed

lemma sift_down_heap:
  "heap_hole key h k \<Longrightarrow> n = length h \<Longrightarrow> sift_down (key_greater key) h n k = (h', j) \<Longrightarrow>
   heap_hole key h' j \<and> below_hole key h' j v \<and> length h' = length h \<and>
   mset (h'[j := v]) = mset (h[k := v])"
proof (induction "key_greater key" h n k arbitrary: h' j rule: sift_down.induct)
  case (1 h n k)
  have k: "k < length h" using 1(2) by (simp add: heap_hole_def)
  consider (two) "2 * k + 2 < length h" | (one) "2 * k + 2 = length h" | (leaf) "length h < 2 * k + 2"
    by linarith
  then show ?case
  proof cases
    case two
    define c where "c = (if key (h ! (2 * k + 2)) > key (h ! (2 * k + 1)) then 2 * k + 1 else 2 * k + 2)"
    have c: "c = 2 * k + 1 \<or> c = 2 * k + 2" "c < length h" using two by (auto simp: c_def)
    have hole: "heap_hole key (h[k := h ! c]) c"
      by (rule heap_hole_down [OF 1(2) c]) (auto simp: c_def)
    have "sift_down (key_greater key) h n k = sift_down (key_greater key) (h[k := h ! c]) n c"
      using two 1(3) by (intro sift_down_two) (simp_all add: c_def)
    then have run: "sift_down (key_greater key) (h[k := h ! c]) n c = (h', j)" using 1(4) by simp
    have n: "2 * k + 2 < n" "n = length (h[k := h ! c])" using two 1(3) by simp_all
    from 1(1) [OF n(1) c_def hole n(2) run] k c show ?thesis by (simp add: mset_move_hole)
  next
    case one
    then have r: "h' = h[k := h ! (2 * k + 1)]" "j = 2 * k + 1"
      using 1(3,4) sift_down_one [of k n "key_greater key" h] by simp_all
    have "heap_hole key h' j" unfolding r
      by (rule heap_hole_down [OF 1(2)]) (use one in auto)
    moreover have "below_hole key h' j v"
      using one by (auto simp: below_hole_def r parent_eq_iff)
    ultimately show ?thesis using r one k by (simp add: mset_move_hole)
  next
    case leaf
    then have r: "h' = h" "j = k" using 1(3,4) by (simp_all add: sift_down_leaf)
    moreover have "below_hole key h k v"
      using leaf by (auto simp: below_hole_def parent_def)
    ultimately show ?thesis using 1(2) by simp
  qed
qed

subsection \<open>What push and pop promise\<close>

lemma pq_push_heap:
  assumes "is_heap key h"
  shows "is_heap key (pq_push (key_greater key) x h)"
    and "mset (pq_push (key_greater key) x h) = add_mset x (mset h)"
proof -
  have hole: "heap_hole key (h @ [x]) (length h)"
    using assms parent_less [of "length h"] unfolding heap_hole_def is_heap_def
    by (auto simp: nth_append less_Suc_eq simp del: parent_less dest: parent_less)
  have "below_hole key (h @ [x]) (length h) x"
    by (auto simp: below_hole_def parent_eq_iff)
  from sift_up_heap [OF hole this]
  show "is_heap key (pq_push (key_greater key) x h)"
    and "mset (pq_push (key_greater key) x h) = add_mset x (mset h)"
    by (simp_all add: pq_push_def push_heap_def)
qed

lemma is_heap_butlast: "is_heap key (h @ [x]) \<Longrightarrow> is_heap key h"
  unfolding is_heap_def
proof (intro allI impI)
  fix i assume h: "\<forall>i<length (h @ [x]). 0 < i \<longrightarrow> key ((h @ [x]) ! parent i) \<le> key ((h @ [x]) ! i)"
    and i: "i < length h" "0 < i"
  then have "parent i < length h" by (simp add: less_trans [OF parent_less])
  then show "key (h ! parent i) \<le> key (h ! i)" using h [rule_format, of i] i by (simp add: nth_append)
qed

lemma pq_pop_heap:
  assumes "is_heap key h" "h \<noteq> []"
  shows "is_heap key (pq_pop (key_greater key) h)"
    and "add_mset (hd h) (mset (pq_pop (key_greater key) h)) = mset h"
proof -
  obtain h0 v where h: "h = h0 @ [v]" using assms(2) by (cases h rule: rev_cases) auto
  have "is_heap key (pq_pop (key_greater key) h) \<and>
    add_mset (hd h) (mset (pq_pop (key_greater key) h)) = mset h"
  proof (cases "h0 = []")
    case True
    then show ?thesis by (simp add: h pq_pop_def pop_heap_def is_heap_def)
  next
    case False
    obtain h' j where d: "sift_down (key_greater key) h0 (length h0) 0 = (h', j)" by fastforce
    have "heap_hole key h0 0"
      using is_heap_butlast [of key h0 v] assms False by (auto simp: h heap_hole_def is_heap_def)
    note down = sift_down_heap [OF this refl d, of v]
    then have j: "j < length h'" by (simp add: heap_hole_def)
    have pop: "pop_heap (key_greater key) h = sift_up (key_greater key) h' j v @ [h0 ! 0]"
      using False by (simp add: h pop_heap_def nth_append sift_down_append d sift_up_append [OF j])
    have "mset (h0[0 := v]) + {#h0 ! 0#} = add_mset v (mset h0)"
      using False by (cases h0) auto
    moreover have "hd h = h0 ! 0" using False by (simp add: h hd_conv_nth nth_append)
    ultimately show ?thesis
      using sift_up_heap [of key h' j v] down
      unfolding pq_pop_def pop by (simp add: h)
  qed
  then show "is_heap key (pq_pop (key_greater key) h)"
    and "add_mset (hd h) (mset (pq_pop (key_greater key) h)) = mset h" by auto
qed

lemma heap_hd_least: "is_heap key h \<Longrightarrow> x \<in> set h \<Longrightarrow> key (hd h) \<le> key x"
  using heap_front_least [of key h] hd_conv_nth [of h] by (fastforce simp: in_set_conv_nth)

text \<open>Whether an array is a heap depends on the keys of its elements only.\<close>

lemma is_heap_cong: "(\<And>x. x \<in> set h \<Longrightarrow> key x = key' x) \<Longrightarrow> is_heap key h = is_heap key' h"
  unfolding is_heap_def by (auto simp: less_trans [OF parent_less])

subsection \<open>Lengths\<close>

lemma length_sift_up [simp]: "length (sift_up cmp h k v) = length h"
proof (induction cmp h k v rule: sift_up.induct)
  case (1 cmp h k v)
  then show ?case by (subst sift_up.simps) simp
qed

lemma length_sift_down [simp]: "length (fst (sift_down cmp h n k)) = length h"
proof (induction cmp h n k rule: sift_down.induct)
  case (1 cmp h n k)
  then show ?case by (subst sift_down.simps) (simp add: Let_def)
qed

lemma length_pq_push [simp]: "length (pq_push cmp x h) = Suc (length h)"
  by (simp add: pq_push_def push_heap_def)

lemma length_pq_pop [simp]: "length (pq_pop cmp h) = length h - 1"
  by (simp add: pq_pop_def pop_heap_def Let_def split_beta)

end
