(* ===== verification/SchedPolicies.thy ===== *)
theory SchedPolicies
  imports BinaryHeap
begin

text \<open>
  The process model and the scheduling policies of \<^verbatim>\<open>memlab/sched\<close>.  Processes live in one
  vector that is not resized while a scheduler runs, and the schedulers keep pointers into it: a
  \<open>Process*\<close> is an index of that vector, and an operation that reads through the pointer takes
  the vector as an argument.  The interface \<^verbatim>\<open>IScheduler\<close> is a record of operations and the
  locale \<open>scheduler\<close> is its contract; the six policies are interpretations of it.
\<close>

subsection \<open>Processes\<close>

datatype State = New | Ready | Running | Waiting | Terminated

fun state_name :: "State \<Rightarrow> string" where
  "state_name New = ''NEW''"
| "state_name Ready = ''READY''"
| "state_name Running = ''RUNNING''"
| "state_name Waiting = ''WAITING''"
| "state_name Terminated = ''TERMINATED''"

datatype burst_type = CPU | IO | PageFault

record Burst =
  b_type :: burst_type
  b_ticks :: u32

record Process =
  p_pid :: int
  p_name :: string
  p_arrival :: u32
  p_priority :: u32
  p_mem_bytes :: u32
  p_bursts :: "Burst list"
  p_cur_burst :: nat
  p_burst_remaining :: u32
  p_state :: State
  p_first_run :: u32
  p_finish :: u32
  p_wait_ticks :: u32
  p_io_ticks :: u32
  p_ctx_switches :: u32

abbreviation UINT32_MAX :: u32 where
  "UINT32_MAX \<equiv> - 1"

definition Process_default :: Process where
  "Process_default = \<lparr>p_pid = -1, p_name = [], p_arrival = 0, p_priority = 0, p_mem_bytes = 0,
     p_bursts = [], p_cur_burst = 0, p_burst_remaining = 0, p_state = New, p_first_run = UINT32_MAX,
     p_finish = 0, p_wait_ticks = 0, p_io_ticks = 0, p_ctx_switches = 0\<rparr>"

definition turnaround :: "Process \<Rightarrow> u32" where
  "turnaround p = p_finish p - p_arrival p"

definition response :: "Process \<Rightarrow> u32" where
  "response p = (if p_first_run p = UINT32_MAX then 0 else p_first_run p - p_arrival p)"

definition total_cpu_burst :: "Process \<Rightarrow> u32" where
  "total_cpu_burst p = fold (\<lambda>b t. if b_type b = CPU then t + b_ticks b else t) (p_bursts p) 0"

text \<open>\<open>current_burst\<close> returns a null pointer past the last burst.\<close>

definition advance_burst :: "Process \<Rightarrow> bool \<times> Process" where
  "advance_burst p =
     (let p1 = p\<lparr>p_cur_burst := p_cur_burst p + 1\<rparr> in
      if p_cur_burst p1 \<ge> length (p_bursts p1) then (False, p1)
      else (True, p1\<lparr>p_burst_remaining := b_ticks (p_bursts p1 ! p_cur_burst p1)\<rparr>))"

definition has_more_bursts :: "Process \<Rightarrow> bool" where
  "has_more_bursts p \<longleftrightarrow> p_cur_burst p < length (p_bursts p)"

definition current_burst :: "Process \<Rightarrow> Burst option" where
  "current_burst p =
     (if p_cur_burst p \<ge> length (p_bursts p) then None else Some (p_bursts p ! p_cur_burst p))"

subsection \<open>The scheduler interface\<close>

record 's IScheduler =
  sc_add :: "Process list \<Rightarrow> nat \<Rightarrow> 's \<Rightarrow> 's"
  sc_pick_next :: "Process list \<Rightarrow> 's \<Rightarrow> nat option \<times> 's"
  sc_should_preempt :: "Process list \<Rightarrow> nat \<Rightarrow> u32 \<Rightarrow> 's \<Rightarrow> bool"
  sc_on_unblock :: "Process list \<Rightarrow> nat \<Rightarrow> 's \<Rightarrow> 's"
  sc_name :: string

text \<open>
  What a policy may read of a queued process.  The contract: the policy keeps the multiset of
  the processes added and not yet picked, it picks one of them, and it returns a null pointer
  exactly when there is none.  Its internal order depends on what it may read of the queued
  processes only.
\<close>

definition sched_view :: "Process \<Rightarrow> int \<times> u32 \<times> u32" where
  "sched_view p = (p_pid p, p_priority p, p_burst_remaining p)"

locale scheduler =
  fixes S :: "'s IScheduler" and ok :: "Process list \<Rightarrow> 's \<Rightarrow> bool" and ready :: "'s \<Rightarrow> nat multiset"
  assumes add_ok: "ok ps s \<Longrightarrow> ok ps (sc_add S ps i s)"
    and add_ready: "ok ps s \<Longrightarrow> ready (sc_add S ps i s) = add_mset i (ready s)"
    and unblock_ok: "ok ps s \<Longrightarrow> ok ps (sc_on_unblock S ps i s)"
    and unblock_ready: "ok ps s \<Longrightarrow> ready (sc_on_unblock S ps i s) = add_mset i (ready s)"
    and pick_empty: "ok ps s \<Longrightarrow> ready s = {#} \<Longrightarrow> sc_pick_next S ps s = (None, s)"
    and pick_some: "ok ps s \<Longrightarrow> ready s \<noteq> {#} \<Longrightarrow>
      \<exists>i s'. sc_pick_next S ps s = (Some i, s') \<and> ok ps s' \<and> ready s = add_mset i (ready s')"
    and ok_cong: "ok ps s \<Longrightarrow> (\<And>i. i \<in># ready s \<Longrightarrow> sched_view (ps' ! i) = sched_view (ps ! i)) \<Longrightarrow>
      ok ps' s"

subsection \<open>First come, first served\<close>

definition FCFS_add :: "nat \<Rightarrow> nat list \<Rightarrow> nat list" where
  "FCFS_add p q = q @ [p]"

definition FCFS_pick_next :: "nat list \<Rightarrow> nat option \<times> nat list" where
  "FCFS_pick_next q = (if q = [] then (None, q) else (Some (hd q), tl q))"

definition FCFS :: "nat list IScheduler" where
  "FCFS = \<lparr>sc_add = (\<lambda>ps. FCFS_add), sc_pick_next = (\<lambda>ps. FCFS_pick_next),
     sc_should_preempt = (\<lambda>ps running ran_ticks q. False),
     sc_on_unblock = (\<lambda>ps. FCFS_add), sc_name = ''FCFS''\<rparr>"

interpretation fcfs: scheduler FCFS "\<lambda>ps q. True" mset
  by unfold_locales (auto simp: FCFS_def FCFS_add_def FCFS_pick_next_def neq_Nil_conv)

subsection \<open>Round robin\<close>

record RoundRobin =
  rr_q :: "nat list"
  rr_quantum :: u32

definition RoundRobin_new :: "u32 \<Rightarrow> RoundRobin" where
  "RoundRobin_new quantum = \<lparr>rr_q = [], rr_quantum = quantum\<rparr>"

definition RR_add :: "nat \<Rightarrow> RoundRobin \<Rightarrow> RoundRobin" where
  "RR_add p s = s\<lparr>rr_q := rr_q s @ [p]\<rparr>"

definition RR_pick_next :: "RoundRobin \<Rightarrow> nat option \<times> RoundRobin" where
  "RR_pick_next s = (if rr_q s = [] then (None, s) else (Some (hd (rr_q s)), s\<lparr>rr_q := tl (rr_q s)\<rparr>))"

definition RR_should_preempt :: "u32 \<Rightarrow> RoundRobin \<Rightarrow> bool" where
  "RR_should_preempt ran_ticks s \<longleftrightarrow> ran_ticks \<ge> rr_quantum s"

definition RR :: "RoundRobin IScheduler" where
  "RR = \<lparr>sc_add = (\<lambda>ps. RR_add), sc_pick_next = (\<lambda>ps. RR_pick_next),
     sc_should_preempt = (\<lambda>ps running. RR_should_preempt), sc_on_unblock = (\<lambda>ps. RR_add), sc_name = ''RR''\<rparr>"

interpretation rr: scheduler RR "\<lambda>ps s. True" "\<lambda>s. mset (rr_q s)"
  by unfold_locales (auto simp: RR_def RR_add_def RR_pick_next_def neq_Nil_conv)

subsection \<open>Shortest job first and shortest remaining time first\<close>

abbreviation burst_key :: "Process list \<Rightarrow> nat \<Rightarrow> u32" where
  "burst_key ps i \<equiv> p_burst_remaining (ps ! i)"

definition burst_cmp :: "Process list \<Rightarrow> nat \<Rightarrow> nat \<Rightarrow> bool" where
  "burst_cmp ps a b \<longleftrightarrow> p_burst_remaining (ps ! a) > p_burst_remaining (ps ! b)"

definition SJF_add :: "Process list \<Rightarrow> nat \<Rightarrow> nat list \<Rightarrow> nat list" where
  "SJF_add ps p q = pq_push (burst_cmp ps) p q"

definition SJF_pick_next :: "Process list \<Rightarrow> nat list \<Rightarrow> nat option \<times> nat list" where
  "SJF_pick_next ps q = (if q = [] then (None, q) else (Some (hd q), pq_pop (burst_cmp ps) q))"

definition SJF :: "nat list IScheduler" where
  "SJF = \<lparr>sc_add = SJF_add, sc_pick_next = SJF_pick_next,
     sc_should_preempt = (\<lambda>ps running ran_ticks q. False), sc_on_unblock = SJF_add, sc_name = ''SJF''\<rparr>"

definition SRTF_add :: "Process list \<Rightarrow> nat \<Rightarrow> nat list \<Rightarrow> nat list" where
  "SRTF_add ps p q = pq_push (burst_cmp ps) p q"

definition SRTF_pick_next :: "Process list \<Rightarrow> nat list \<Rightarrow> nat option \<times> nat list" where
  "SRTF_pick_next ps q = (if q = [] then (None, q) else (Some (hd q), pq_pop (burst_cmp ps) q))"

definition SRTF_should_preempt :: "Process list \<Rightarrow> nat \<Rightarrow> nat list \<Rightarrow> bool" where
  "SRTF_should_preempt ps running q =
     (if q = [] then False
      else p_burst_remaining (ps ! hd q) < p_burst_remaining (ps ! running))"

definition SRTF :: "nat list IScheduler" where
  "SRTF = \<lparr>sc_add = SRTF_add, sc_pick_next = SRTF_pick_next,
     sc_should_preempt = (\<lambda>ps running ran_ticks. SRTF_should_preempt ps running),
     sc_on_unblock = SRTF_add, sc_name = ''SRTF''\<rparr>"

lemma burst_cmp_key: "burst_cmp ps = key_greater (burst_key ps)"
  by (simp add: burst_cmp_def fun_eq_iff)

lemma SRTF_ops: "SRTF_add = SJF_add" "SRTF_pick_next = SJF_pick_next"
  by (simp_all add: fun_eq_iff SRTF_add_def SJF_add_def SRTF_pick_next_def SJF_pick_next_def)

lemma burst_heap_cong:
  assumes "is_heap (burst_key ps) q"
    and "\<And>i. i \<in> set q \<Longrightarrow> sched_view (ps' ! i) = sched_view (ps ! i)"
  shows "is_heap (burst_key ps') q"
  using assms(1) is_heap_cong [of q "burst_key ps'" "burst_key ps"] assms(2)
  by (simp add: sched_view_def)

lemma burst_heap_pick:
  assumes "is_heap (burst_key ps) q" "mset q \<noteq> {#}"
  shows "\<exists>i q'. SJF_pick_next ps q = (Some i, q') \<and> is_heap (burst_key ps) q' \<and>
    mset q = add_mset i (mset q')"
  using assms pq_pop_heap [OF assms(1)]
  by (simp add: SJF_pick_next_def burst_cmp_key)

lemma burst_heap_add:
  assumes "is_heap (burst_key ps) q"
  shows "is_heap (burst_key ps) (SJF_add ps i q)" "mset (SJF_add ps i q) = add_mset i (mset q)"
  using pq_push_heap [OF assms] by (simp_all add: SJF_add_def burst_cmp_key)

interpretation sjf: scheduler SJF "\<lambda>ps. is_heap (burst_key ps)" mset
proof
  fix ps :: "Process list" and q :: "nat list"
  assume "mset q = {#}"
  then show "sc_pick_next SJF ps q = (None, q)" by (simp add: SJF_def SJF_pick_next_def)
qed (simp_all add: SJF_def burst_heap_add burst_heap_pick, erule burst_heap_cong, simp)

interpretation srtf: scheduler SRTF "\<lambda>ps. is_heap (burst_key ps)" mset
proof
  fix ps :: "Process list" and q :: "nat list"
  assume "mset q = {#}"
  then show "sc_pick_next SRTF ps q = (None, q)" by (simp add: SRTF_def SRTF_pick_next_def)
qed (simp_all add: SRTF_def SRTF_ops burst_heap_add burst_heap_pick, erule burst_heap_cong, simp)

text \<open>Both pick a process whose current burst has the fewest ticks left.\<close>

lemma SJF_pick_least:
  assumes "is_heap (burst_key ps) q" "SJF_pick_next ps q = (Some i, q')" "j \<in> set q"
  shows "p_burst_remaining (ps ! i) \<le> p_burst_remaining (ps ! j)"
  using assms heap_hd_least [of "burst_key ps" q j] by (auto simp: SJF_pick_next_def split: if_splits)

subsection \<open>Priority with aging\<close>

text \<open>
  The effective priority is an \<open>int\<close>: the priority converted to \<open>int\<close>, less the aging bonus.
\<close>

record PriorityScheduler =
  pr_aged :: "int \<rightharpoonup> u32"
  pr_data :: "nat list"

definition Priority_new :: PriorityScheduler where
  "Priority_new = \<lparr>pr_aged = Map.empty, pr_data = []\<rparr>"

text \<open>
  The effective priority, an \<open>int\<close> in the code.  Here it is an unbounded integer; the subtraction stays
  in the range of \<open>int\<close> whenever priorities are below \<open>2 ^ 31\<close> (\<open>Priority_aging\<close> states it: a bonus is at most a
  tenth of a 32-bit number), and in the simulator, which never ages the queue, nothing is subtracted at all.
\<close>

definition eff_priority :: "(int \<rightharpoonup> u32) \<Rightarrow> Process \<Rightarrow> int" where
  "eff_priority aged x =
     sint (p_priority x) - (case aged (p_pid x) of Some b \<Rightarrow> sint b | None \<Rightarrow> 0)"

definition aged_cmp :: "(int \<rightharpoonup> u32) \<Rightarrow> Process list \<Rightarrow> nat \<Rightarrow> nat \<Rightarrow> bool" where
  "aged_cmp aged ps a b \<longleftrightarrow> eff_priority aged (ps ! a) > eff_priority aged (ps ! b)"

definition AgedPQ_push :: "Process list \<Rightarrow> nat \<Rightarrow> PriorityScheduler \<Rightarrow> PriorityScheduler" where
  "AgedPQ_push ps p s = s\<lparr>pr_data := pq_push (aged_cmp (pr_aged s) ps) p (pr_data s)\<rparr>"

definition AgedPQ_pop :: "Process list \<Rightarrow> PriorityScheduler \<Rightarrow> PriorityScheduler" where
  "AgedPQ_pop ps s = s\<lparr>pr_data := pq_pop (aged_cmp (pr_aged s) ps) (pr_data s)\<rparr>"

definition Priority_pick_next :: "Process list \<Rightarrow> PriorityScheduler \<Rightarrow> nat option \<times> PriorityScheduler" where
  "Priority_pick_next ps s =
     (if pr_data s = [] then (None, s) else (Some (hd (pr_data s)), AgedPQ_pop ps s))"

definition Priority :: "PriorityScheduler IScheduler" where
  "Priority = \<lparr>sc_add = AgedPQ_push, sc_pick_next = Priority_pick_next,
     sc_should_preempt = (\<lambda>ps running ran_ticks s. False), sc_on_unblock = AgedPQ_push,
     sc_name = ''Priority''\<rparr>"

abbreviation kAgingInterval :: u32 where
  "kAgingInterval \<equiv> 10"

function drain :: "Process list \<Rightarrow> PriorityScheduler \<Rightarrow> nat list \<Rightarrow> nat list \<times> PriorityScheduler" where
  "drain ps s tmp =
     (if pr_data s = [] then (tmp, s) else drain ps (AgedPQ_pop ps s) (tmp @ [hd (pr_data s)]))"
  by pat_completeness auto
termination
  by (relation "measure (\<lambda>(ps, s, tmp). length (pr_data s))") (auto simp: AgedPQ_pop_def)

declare drain.simps [simp del]

definition age_one :: "Process list \<Rightarrow> u32 \<Rightarrow> nat \<Rightarrow> PriorityScheduler \<Rightarrow> PriorityScheduler" where
  "age_one ps current_tick p s =
     (let waited = current_tick - p_arrival (ps ! p);
          s1 = s\<lparr>pr_aged := (pr_aged s)(p_pid (ps ! p) \<mapsto> waited div kAgingInterval)\<rparr>
      in AgedPQ_push ps p s1)"

definition age_ready_queue :: "Process list \<Rightarrow> u32 \<Rightarrow> PriorityScheduler \<Rightarrow> PriorityScheduler" where
  "age_ready_queue ps current_tick s =
     (let (tmp, s1) = drain ps s [] in fold (age_one ps current_tick) tmp s1)"

abbreviation prio_key :: "(int \<rightharpoonup> u32) \<Rightarrow> Process list \<Rightarrow> nat \<Rightarrow> int" where
  "prio_key aged ps i \<equiv> eff_priority aged (ps ! i)"

lemma aged_cmp_key: "aged_cmp aged ps = key_greater (prio_key aged ps)"
  by (simp add: aged_cmp_def fun_eq_iff)

definition Priority_ok :: "Process list \<Rightarrow> PriorityScheduler \<Rightarrow> bool" where
  "Priority_ok ps s \<longleftrightarrow> is_heap (prio_key (pr_aged s) ps) (pr_data s)"

lemma AgedPQ_push_ok:
  assumes "Priority_ok ps s"
  shows "Priority_ok ps (AgedPQ_push ps i s)"
    and "mset (pr_data (AgedPQ_push ps i s)) = add_mset i (mset (pr_data s))"
    and "pr_aged (AgedPQ_push ps i s) = pr_aged s"
  using pq_push_heap [of "prio_key (pr_aged s) ps" "pr_data s" i] assms
  by (simp_all add: AgedPQ_push_def Priority_ok_def aged_cmp_key)

lemma AgedPQ_pop_ok:
  assumes "Priority_ok ps s" "pr_data s \<noteq> []"
  shows "Priority_ok ps (AgedPQ_pop ps s)"
    and "add_mset (hd (pr_data s)) (mset (pr_data (AgedPQ_pop ps s))) = mset (pr_data s)"
    and "pr_aged (AgedPQ_pop ps s) = pr_aged s"
  using pq_pop_heap [of "prio_key (pr_aged s) ps" "pr_data s"] assms
  by (simp_all add: AgedPQ_pop_def Priority_ok_def aged_cmp_key)

interpretation priority: scheduler Priority Priority_ok "\<lambda>s. mset (pr_data s)"
proof
  fix ps ps' s
  assume "Priority_ok ps s" "\<And>i. i \<in># mset (pr_data s) \<Longrightarrow> sched_view (ps' ! i) = sched_view (ps ! i)"
  then show "Priority_ok ps' s"
    using is_heap_cong [of "pr_data s" "prio_key (pr_aged s) ps'" "prio_key (pr_aged s) ps"]
    by (simp add: Priority_ok_def sched_view_def eff_priority_def)
next
  fix ps s
  assume "Priority_ok ps s" "mset (pr_data s) \<noteq> {#}"
  then show "\<exists>i s'. sc_pick_next Priority ps s = (Some i, s') \<and> Priority_ok ps s' \<and>
      mset (pr_data s) = add_mset i (mset (pr_data s'))"
    using AgedPQ_pop_ok [of ps s] by (simp add: Priority_def Priority_pick_next_def)
qed (simp_all add: Priority_def AgedPQ_push_ok Priority_pick_next_def)

lemma Priority_pick_least:
  assumes "Priority_ok ps s" "Priority_pick_next ps s = (Some i, s')" "j \<in> set (pr_data s)"
  shows "eff_priority (pr_aged s) (ps ! i) \<le> eff_priority (pr_aged s) (ps ! j)"
  using assms heap_hd_least [of "prio_key (pr_aged s) ps" "pr_data s" j]
  by (auto simp: Priority_pick_next_def Priority_ok_def split: if_splits)

subsubsection \<open>Aging\<close>

lemma drain_ok:
  "Priority_ok ps s \<Longrightarrow>
   Priority_ok ps (snd (drain ps s tmp)) \<and> pr_data (snd (drain ps s tmp)) = [] \<and>
   mset (fst (drain ps s tmp)) = mset tmp + mset (pr_data s) \<and>
   pr_aged (snd (drain ps s tmp)) = pr_aged s"
proof (induction ps s tmp rule: drain.induct)
  case (1 ps s tmp)
  show ?case
  proof (cases "pr_data s = []")
    case True
    then show ?thesis using 1(2) by (simp add: drain.simps)
  next
    case False
    note pop = AgedPQ_pop_ok [OF 1(2) False]
    then show ?thesis
      using 1(1) [OF False pop(1)] False by (subst (1 2 3 4) drain.simps) (simp flip: pop(2))
  qed
qed

definition aging_bonus :: "u32 \<Rightarrow> Process \<Rightarrow> u32" where
  "aging_bonus t p = (t - p_arrival p) div kAgingInterval"

lemma age_one_ok:
  assumes "Priority_ok ps s" "p_pid (ps ! i) \<notin> (\<lambda>j. p_pid (ps ! j)) ` set (pr_data s)"
  shows "Priority_ok ps (age_one ps t i s)"
    and "mset (pr_data (age_one ps t i s)) = add_mset i (mset (pr_data s))"
    and "pr_aged (age_one ps t i s) = (pr_aged s)(p_pid (ps ! i) \<mapsto> aging_bonus t (ps ! i))"
proof -
  let ?s = "s\<lparr>pr_aged := (pr_aged s)(p_pid (ps ! i) \<mapsto> aging_bonus t (ps ! i))\<rparr>"
  have "prio_key (pr_aged ?s) ps j = prio_key (pr_aged s) ps j" if "j \<in> set (pr_data s)" for j
    using assms(2) that by (auto simp: eff_priority_def image_iff)
  then have "Priority_ok ps ?s"
    using assms(1) is_heap_cong [of "pr_data s" "prio_key (pr_aged ?s) ps" "prio_key (pr_aged s) ps"]
    by (simp add: Priority_ok_def)
  from AgedPQ_push_ok [OF this, of i]
  show "Priority_ok ps (age_one ps t i s)"
    and "mset (pr_data (age_one ps t i s)) = add_mset i (mset (pr_data s))"
    and "pr_aged (age_one ps t i s) = (pr_aged s)(p_pid (ps ! i) \<mapsto> aging_bonus t (ps ! i))"
    by (simp_all add: age_one_def Let_def aging_bonus_def)
qed

lemma age_fold_ok:
  assumes "Priority_ok ps s" "distinct tmp" "inj_on (\<lambda>j. p_pid (ps ! j)) (set (pr_data s) \<union> set tmp)"
    "set (pr_data s) \<inter> set tmp = {}"
    "\<forall>j \<in> set (pr_data s). pr_aged s (p_pid (ps ! j)) = Some (aging_bonus t (ps ! j))"
  shows "let s' = fold (age_one ps t) tmp s in
    Priority_ok ps s' \<and> mset (pr_data s') = mset (pr_data s) + mset tmp \<and>
    (\<forall>j \<in> set (pr_data s'). pr_aged s' (p_pid (ps ! j)) = Some (aging_bonus t (ps ! j)))"
  using assms
proof (induction tmp arbitrary: s)
  case (Cons i tmp)
  have new: "p_pid (ps ! i) \<notin> (\<lambda>j. p_pid (ps ! j)) ` set (pr_data s)"
    using Cons.prems(3,4) by (fastforce simp: inj_on_def)
  note step = age_one_ok [OF Cons.prems(1) new, of t]
  have data: "set (pr_data (age_one ps t i s)) = insert i (set (pr_data s))"
    using step(2) by (metis set_mset_add_mset_insert set_mset_mset)
  have "\<forall>j \<in> set (pr_data (age_one ps t i s)).
      pr_aged (age_one ps t i s) (p_pid (ps ! j)) = Some (aging_bonus t (ps ! j))"
    using Cons.prems(5) new by (auto simp: data step(3) image_iff)
  with Cons.IH [of "age_one ps t i s"] step Cons.prems data
  show ?case by (auto simp: Let_def)
qed simp

lemma age_ready_queue_ok:
  assumes "Priority_ok ps s" "distinct (pr_data s)" "inj_on (\<lambda>j. p_pid (ps ! j)) (set (pr_data s))"
  shows "Priority_ok ps (age_ready_queue ps t s)"
    and "mset (pr_data (age_ready_queue ps t s)) = mset (pr_data s)"
    and "\<forall>j \<in> set (pr_data s). pr_aged (age_ready_queue ps t s) (p_pid (ps ! j)) =
      Some (aging_bonus t (ps ! j))"
proof -
  obtain tmp s1 where d: "drain ps s [] = (tmp, s1)" by fastforce
  then have s1: "Priority_ok ps s1" "pr_data s1 = []" "mset tmp = mset (pr_data s)"
    using drain_ok [OF assms(1), of "[]"] by auto
  moreover have "distinct tmp" "set tmp = set (pr_data s)"
    using assms(2) s1(3) by (metis distinct_count_atmost_1 mset_eq_setD set_mset_mset)+
  ultimately have *: "let s' = age_ready_queue ps t s in
    Priority_ok ps s' \<and> mset (pr_data s') = mset (pr_data s) \<and>
    (\<forall>j \<in> set (pr_data s'). pr_aged s' (p_pid (ps ! j)) = Some (aging_bonus t (ps ! j)))"
    using age_fold_ok [of ps s1 tmp t] assms(3) by (simp add: age_ready_queue_def d Let_def)
  then show "Priority_ok ps (age_ready_queue ps t s)"
    and m: "mset (pr_data (age_ready_queue ps t s)) = mset (pr_data s)" by (simp_all add: Let_def)
  then have "set (pr_data (age_ready_queue ps t s)) = set (pr_data s)" by (metis set_mset_mset)
  then show "\<forall>j \<in> set (pr_data s). pr_aged (age_ready_queue ps t s) (p_pid (ps ! j)) =
      Some (aging_bonus t (ps ! j))" using * by (simp add: Let_def)
qed

lemma int_less_pow2: "x < 2 ^ n \<Longrightarrow> int x < 2 ^ n"
  by (metis of_nat_less_iff of_nat_numeral of_nat_power)

lemma sint_eq_uint_small: "unat w < 2 ^ 31 \<Longrightarrow> sint w = int (unat w)" for w :: u32
proof -
  assume *: "unat w < 2 ^ 31"
  then have "\<not> bit w 31" by (simp add: bit_word_odd)
  moreover have "uint w < 2 ^ 31" using * by (simp add: uint_nat del: of_nat_unat)
  ultimately show ?thesis
    by (simp add: sint_uint signed_take_bit_eq_if_positive bit_uint_iff take_bit_int_eq_self)
qed

lemma sint_aging_bonus: "sint (aging_bonus t p) = int (unat (t - p_arrival p) div 10)"
proof -
  have "unat (t - p_arrival p) < 2 ^ 32" using unsigned_less [of "t - p_arrival p"] by simp
  then have "unat (aging_bonus t p) < 2 ^ 31"
    by (simp add: aging_bonus_def unat_div_distrib)
  from sint_eq_uint_small [OF this] show ?thesis by (simp add: aging_bonus_def unat_div_distrib)
qed

text \<open>
  Aging.  Once the ready queue has been aged at tick \<open>t\<close> (the queued processes having
  distinct pids), the queue holds the same processes, the effective priority of each is its
  priority less one for every ten ticks since its arrival (no \<open>int\<close> overflow for priorities below
  \<open>2^31\<close>), and \<open>pick_next\<close> returns a process whose effective priority is least.
\<close>

theorem Priority_aging:
  assumes "Priority_ok ps s" "distinct (pr_data s)" "inj_on (\<lambda>j. p_pid (ps ! j)) (set (pr_data s))"
    and prio: "\<forall>j \<in> set (pr_data s). p_priority (ps ! j) < 2 ^ 31"
    and s': "s' = age_ready_queue ps t s"
  shows "Priority_ok ps s' \<and> mset (pr_data s') = mset (pr_data s) \<and>
    (\<forall>j \<in> set (pr_data s).
      eff_priority (pr_aged s') (ps ! j) =
        int (unat (p_priority (ps ! j))) - int (unat (t - p_arrival (ps ! j)) div 10) \<and>
      eff_priority (pr_aged s') (ps ! j) \<in> {- (2 ^ 31) ..< 2 ^ 31}) \<and>
    (\<forall>i s''. Priority_pick_next ps s' = (Some i, s'') \<longrightarrow>
      i \<in> set (pr_data s) \<and>
      (\<forall>j \<in> set (pr_data s). eff_priority (pr_aged s') (ps ! i) \<le> eff_priority (pr_aged s') (ps ! j)))"
proof -
  note ok = age_ready_queue_ok [OF assms(1-3), of t, folded s']
  have data: "set (pr_data s') = set (pr_data s)" using ok(2) by (metis set_mset_mset)
  have eff: "eff_priority (pr_aged s') (ps ! j) =
        int (unat (p_priority (ps ! j))) - int (unat (t - p_arrival (ps ! j)) div 10) \<and>
      eff_priority (pr_aged s') (ps ! j) \<in> {- (2 ^ 31) ..< 2 ^ 31}" if j: "j \<in> set (pr_data s)" for j
  proof -
    have p: "unat (p_priority (ps ! j)) < 2 ^ 31" using prio j by (auto simp: word_less_nat_alt)
    have "unat (t - p_arrival (ps ! j)) < 2 ^ 32" using unsigned_less [of "t - p_arrival (ps ! j)"] by simp
    then have "unat (t - p_arrival (ps ! j)) div 10 < 2 ^ 31" by simp
    note int_less_pow2 [OF p] int_less_pow2 [OF this]
    then show ?thesis using p ok(3) j
      by (simp add: eff_priority_def sint_aging_bonus sint_eq_uint_small del: of_nat_unat)
  qed
  have pick: "i \<in> set (pr_data s) \<and>
      (\<forall>j \<in> set (pr_data s). eff_priority (pr_aged s') (ps ! i) \<le> eff_priority (pr_aged s') (ps ! j))"
    if "Priority_pick_next ps s' = (Some i, s'')" for i s''
    using that Priority_pick_least [OF ok(1) that] data
    by (auto simp: Priority_pick_next_def split: if_splits)
  show ?thesis using ok(1,2) eff pick by blast
qed

definition demo_job :: "int \<Rightarrow> u32 \<Rightarrow> u32 \<Rightarrow> Process" where
  "demo_job i arr prio = Process_default\<lparr>p_pid := i, p_arrival := arr, p_priority := prio\<rparr>"

text \<open>
  A process that has waited 50 ticks overtakes one of better priority that has just arrived.
\<close>

theorem Priority_aging_witness:
  "let ps = [demo_job 1 0 5, demo_job 2 50 2]; s = AgedPQ_push ps 1 (AgedPQ_push ps 0 Priority_new);
       s' = age_ready_queue ps 50 s in
   fst (Priority_pick_next ps s) = Some 1 \<and> fst (Priority_pick_next ps s') = Some 0 \<and>
   eff_priority (pr_aged s') (ps ! 0) \<le> eff_priority (pr_aged s') (ps ! 1)"
proof -
  let ?ps = "[demo_job 1 0 5, demo_job 2 50 2]"
  let ?s = "AgedPQ_push ?ps 1 (AgedPQ_push ?ps 0 Priority_new)"
  have "Priority_ok ?ps Priority_new" by (simp add: Priority_ok_def Priority_new_def is_heap_def)
  then have ok: "Priority_ok ?ps ?s" by (intro AgedPQ_push_ok)
  have s: "pr_data ?s = [1, 0]" by code_simp
  have picks: "fst (Priority_pick_next ?ps ?s) = Some 1"
    "fst (Priority_pick_next ?ps (age_ready_queue ?ps 50 ?s)) = Some 0" by code_simp+
  obtain s'' where p: "Priority_pick_next ?ps (age_ready_queue ?ps 50 ?s) = (Some 0, s'')"
    using picks(2) by (cases "Priority_pick_next ?ps (age_ready_queue ?ps 50 ?s)") simp
  have "0 \<in> set (pr_data ?s) \<and> (\<forall>j \<in> set (pr_data ?s).
      eff_priority (pr_aged (age_ready_queue ?ps 50 ?s)) (?ps ! 0)
      \<le> eff_priority (pr_aged (age_ready_queue ?ps 50 ?s)) (?ps ! j))"
    using Priority_aging [OF ok _ _ _ refl, of 50] p unfolding s by (auto simp: demo_job_def Process_default_def)
  then have "eff_priority (pr_aged (age_ready_queue ?ps 50 ?s)) (?ps ! 0)
      \<le> eff_priority (pr_aged (age_ready_queue ?ps 50 ?s)) (?ps ! 1)" unfolding s by simp
  with picks show ?thesis by (simp only: Let_def simp_thms)
qed

subsection \<open>Multi-level feedback queue\<close>

abbreviation kQueues :: nat where
  "kQueues \<equiv> 3"

record MLFQ =
  ml_qbase :: u32
  ml_boost_interval :: u32
  ml_queues :: "nat list list"
  ml_level :: "int \<rightharpoonup> nat"

definition MLFQ_new :: "u32 \<Rightarrow> u32 \<Rightarrow> MLFQ" where
  "MLFQ_new quantum_base boost_interval =
     \<lparr>ml_qbase = quantum_base, ml_boost_interval = boost_interval,
      ml_queues = [[], [], []], ml_level = Map.empty\<rparr>"

definition level_of :: "Process \<Rightarrow> MLFQ \<Rightarrow> nat" where
  "level_of p s = (case ml_level s (p_pid p) of Some l \<Rightarrow> l | None \<Rightarrow> 0)"

definition push_back_at :: "nat \<Rightarrow> nat \<Rightarrow> MLFQ \<Rightarrow> MLFQ" where
  "push_back_at q p s = s\<lparr>ml_queues := (ml_queues s)[q := ml_queues s ! q @ [p]]\<rparr>"

definition MLFQ_add :: "Process list \<Rightarrow> nat \<Rightarrow> MLFQ \<Rightarrow> MLFQ" where
  "MLFQ_add ps p s = push_back_at 0 p (s\<lparr>ml_level := (ml_level s)(p_pid (ps ! p) \<mapsto> 0)\<rparr>)"

fun MLFQ_pick_from :: "nat list \<Rightarrow> MLFQ \<Rightarrow> nat option \<times> MLFQ" where
  "MLFQ_pick_from [] s = (None, s)"
| "MLFQ_pick_from (q # qs) s =
     (if ml_queues s ! q \<noteq> []
      then (Some (hd (ml_queues s ! q)), s\<lparr>ml_queues := (ml_queues s)[q := tl (ml_queues s ! q)]\<rparr>)
      else MLFQ_pick_from qs s)"

definition MLFQ_pick_next :: "MLFQ \<Rightarrow> nat option \<times> MLFQ" where
  "MLFQ_pick_next s = MLFQ_pick_from [0 ..< kQueues] s"

definition quantum_for :: "Process \<Rightarrow> MLFQ \<Rightarrow> u32" where
  "quantum_for p s = push_bit (level_of p s) (ml_qbase s)"

definition MLFQ_should_preempt :: "Process list \<Rightarrow> nat \<Rightarrow> u32 \<Rightarrow> MLFQ \<Rightarrow> bool" where
  "MLFQ_should_preempt ps running ran_ticks s \<longleftrightarrow> ran_ticks \<ge> quantum_for (ps ! running) s"

definition on_quantum_expired :: "Process list \<Rightarrow> nat \<Rightarrow> MLFQ \<Rightarrow> MLFQ" where
  "on_quantum_expired ps p s =
     (let lvl = level_of (ps ! p) s;
          s1 = (if lvl < kQueues - 1 then s\<lparr>ml_level := (ml_level s)(p_pid (ps ! p) \<mapsto> lvl + 1)\<rparr> else s)
      in push_back_at (level_of (ps ! p) s1) p s1)"

definition MLFQ_on_unblock :: "Process list \<Rightarrow> nat \<Rightarrow> MLFQ \<Rightarrow> MLFQ" where
  "MLFQ_on_unblock ps p s = push_back_at (level_of (ps ! p) s) p s"

definition boost_one :: "Process list \<Rightarrow> nat \<Rightarrow> MLFQ \<Rightarrow> MLFQ" where
  "boost_one ps p s = push_back_at 0 p (s\<lparr>ml_level := (ml_level s)(p_pid (ps ! p) \<mapsto> 0)\<rparr>)"

definition boost_queue :: "Process list \<Rightarrow> nat \<Rightarrow> MLFQ \<Rightarrow> MLFQ" where
  "boost_queue ps q s =
     (let s1 = fold (boost_one ps) (ml_queues s ! q) s in s1\<lparr>ml_queues := (ml_queues s1)[q := []]\<rparr>)"

text \<open>A boost interval of 0 divides by 0.\<close>

definition MLFQ_tick :: "Process list \<Rightarrow> u32 \<Rightarrow> MLFQ \<Rightarrow> MLFQ result" where
  "MLFQ_tick ps current_tick s =
     (if ml_boost_interval s = 0 then Inl Undefined
      else if current_tick mod ml_boost_interval s \<noteq> 0 \<or> current_tick = 0 then Inr s
      else Inr (fold (boost_queue ps) [1 ..< kQueues] s))"

definition MLFQ_policy :: "MLFQ IScheduler" where
  "MLFQ_policy = \<lparr>sc_add = MLFQ_add, sc_pick_next = (\<lambda>ps. MLFQ_pick_next),
     sc_should_preempt = MLFQ_should_preempt, sc_on_unblock = MLFQ_on_unblock, sc_name = ''MLFQ''\<rparr>"

text \<open>
  The invariant: three queues, and every level in the table names one of them.  The ready
  processes are the contents of the queues, best level first.
\<close>

definition MLFQ_ok :: "MLFQ \<Rightarrow> bool" where
  "MLFQ_ok s \<longleftrightarrow> length (ml_queues s) = kQueues \<and> (\<forall>l \<in> ran (ml_level s). l < kQueues)"

definition MLFQ_ready :: "MLFQ \<Rightarrow> nat multiset" where
  "MLFQ_ready s = mset (concat (ml_queues s))"

lemma length3: "length xs = 3 \<longleftrightarrow> (\<exists>a b c. xs = [a, b, c])"
  by (auto simp: numeral_3_eq_3 length_Suc_conv)

lemma less3_cases: "(l::nat) < 3 \<Longrightarrow> l = 0 \<or> l = 1 \<or> l = 2"
  by linarith

lemma level_of_less: "MLFQ_ok s \<Longrightarrow> level_of p s < kQueues"
  by (auto simp: MLFQ_ok_def level_of_def ran_def split: option.splits)

lemma push_back_at_ok:
  assumes "MLFQ_ok s" "l < kQueues"
  shows "MLFQ_ok (push_back_at l i s)" "MLFQ_ready (push_back_at l i s) = add_mset i (MLFQ_ready s)"
proof -
  obtain a b c where q: "ml_queues s = [a, b, c]" using assms(1) by (auto simp: MLFQ_ok_def length3)
  show "MLFQ_ok (push_back_at l i s)" using assms(1) by (simp add: MLFQ_ok_def push_back_at_def)
  show "MLFQ_ready (push_back_at l i s) = add_mset i (MLFQ_ready s)"
    using less3_cases [OF assms(2)] by (auto simp: MLFQ_ready_def push_back_at_def q numeral_2_eq_2)
qed

lemma set_level_ok: "MLFQ_ok s \<Longrightarrow> l < kQueues \<Longrightarrow> MLFQ_ok (s\<lparr>ml_level := (ml_level s)(x \<mapsto> l)\<rparr>)"
  by (auto simp: MLFQ_ok_def ran_def)

lemma MLFQ_ready_level [simp]: "MLFQ_ready (s\<lparr>ml_level := f\<rparr>) = MLFQ_ready s"
  by (simp add: MLFQ_ready_def)

lemma MLFQ_add_ok:
  assumes "MLFQ_ok s"
  shows "MLFQ_ok (MLFQ_add ps i s)" "MLFQ_ready (MLFQ_add ps i s) = add_mset i (MLFQ_ready s)"
  by (simp_all add: MLFQ_add_def push_back_at_ok set_level_ok assms)

lemma MLFQ_unblock_ok:
  assumes "MLFQ_ok s"
  shows "MLFQ_ok (MLFQ_on_unblock ps i s)"
    "MLFQ_ready (MLFQ_on_unblock ps i s) = add_mset i (MLFQ_ready s)"
  using push_back_at_ok [OF assms level_of_less [OF assms]] by (simp_all add: MLFQ_on_unblock_def)

lemma MLFQ_pick_cases:
  assumes "ml_queues s = [a, b, c]"
  shows "MLFQ_pick_next s =
    (if a \<noteq> [] then (Some (hd a), s\<lparr>ml_queues := [tl a, b, c]\<rparr>)
     else if b \<noteq> [] then (Some (hd b), s\<lparr>ml_queues := [a, tl b, c]\<rparr>)
     else if c \<noteq> [] then (Some (hd c), s\<lparr>ml_queues := [a, b, tl c]\<rparr>)
     else (None, s))"
  by (simp add: MLFQ_pick_next_def upt_rec assms)

interpretation mlfq: scheduler MLFQ_policy "\<lambda>ps. MLFQ_ok" MLFQ_ready
proof
  fix ps s
  assume s: "MLFQ_ok s"
  then obtain a b c where q: "ml_queues s = [a, b, c]" by (auto simp: MLFQ_ok_def length3)
  { assume "MLFQ_ready s = {#}"
    then show "sc_pick_next MLFQ_policy ps s = (None, s)"
      by (simp add: MLFQ_policy_def MLFQ_pick_cases [OF q] MLFQ_ready_def q) }
  { assume "MLFQ_ready s \<noteq> {#}"
    then have "a \<noteq> [] \<or> b \<noteq> [] \<or> c \<noteq> []" by (auto simp: MLFQ_ready_def q)
    then show "\<exists>i s'. sc_pick_next MLFQ_policy ps s = (Some i, s') \<and> MLFQ_ok s' \<and>
        MLFQ_ready s = add_mset i (MLFQ_ready s')"
      using s by (auto simp: MLFQ_policy_def MLFQ_pick_cases [OF q] MLFQ_ready_def MLFQ_ok_def q neq_Nil_conv) }
qed (simp_all add: MLFQ_policy_def MLFQ_add_ok MLFQ_unblock_ok)

subsubsection \<open>Boost and demotion\<close>

lemma level_of_queues [simp]: "level_of p (s\<lparr>ml_queues := qs\<rparr>) = level_of p s"
  by (simp add: level_of_def)

lemma level_of_set [simp]: "level_of p (s\<lparr>ml_level := (ml_level s)(p_pid p \<mapsto> l)\<rparr>) = l"
  by (simp add: level_of_def)

lemma boost_fold:
  "ml_queues s = a # bs \<Longrightarrow>
   ml_queues (fold (boost_one ps) q s) = (a @ q) # bs \<and>
   ml_level (fold (boost_one ps) q s) =
     (\<lambda>x. if x \<in> (\<lambda>i. p_pid (ps ! i)) ` set q then Some 0 else ml_level s x) \<and>
   ml_qbase (fold (boost_one ps) q s) = ml_qbase s"
proof (induction q arbitrary: s a)
  case (Cons i q)
  let ?s = "boost_one ps i s"
  have "ml_queues ?s = (a @ [i]) # bs"
    "ml_level ?s = (ml_level s)(p_pid (ps ! i) \<mapsto> 0)" "ml_qbase ?s = ml_qbase s"
    using Cons.prems by (simp_all add: boost_one_def push_back_at_def)
  with Cons.IH [OF this(1)] show ?case by (auto simp: fun_eq_iff)
qed (simp add: fun_eq_iff)

lemma boost_queues:
  assumes "ml_queues s = [a, b, c]"
  shows "ml_queues (fold (boost_queue ps) [1 ..< kQueues] s) = [a @ b @ c, [], []]"
    and "ml_level (fold (boost_queue ps) [1 ..< kQueues] s) =
      (\<lambda>x. if x \<in> (\<lambda>i. p_pid (ps ! i)) ` set (b @ c) then Some 0 else ml_level s x)"
proof -
  define s1 where "s1 = boost_queue ps 1 s"
  have 1: "ml_queues s1 = [a @ b, [], c]"
    "ml_level s1 = (\<lambda>x. if x \<in> (\<lambda>i. p_pid (ps ! i)) ` set b then Some 0 else ml_level s x)"
    using boost_fold [OF assms, of ps b] by (simp_all add: s1_def boost_queue_def assms Let_def)
  have "fold (boost_queue ps) [1 ..< kQueues] s = boost_queue ps 2 s1"
    by (simp add: s1_def upt_rec numeral_2_eq_2)
  then show "ml_queues (fold (boost_queue ps) [1 ..< kQueues] s) = [a @ b @ c, [], []]"
    and "ml_level (fold (boost_queue ps) [1 ..< kQueues] s) =
      (\<lambda>x. if x \<in> (\<lambda>i. p_pid (ps ! i)) ` set (b @ c) then Some 0 else ml_level s x)"
    using boost_fold [OF 1(1), of ps c]
    by (auto simp: boost_queue_def 1 Let_def numeral_2_eq_2 fun_eq_iff)
qed

text \<open>
  Feedback.  With three queues and every level below 3: a process that used up its quantum is
  appended to the queue one level down (and stays at the lowest level there), where its quantum
  is twice as long as long as that fits in 32 bits; and a boost at a positive multiple of the
  boost interval appends the lower queues to the top one in order and leaves every process it
  moved at level 0.
\<close>

theorem MLFQ_feedback:
  assumes "MLFQ_ok s" "ml_queues s = [a, b, c]"
    and "unat (ml_qbase s) * 4 < 2 ^ 32"
    and "s1 = on_quantum_expired ps i s" "l = level_of (ps ! i) s"
    and "ml_boost_interval s \<noteq> 0" "t mod ml_boost_interval s = 0" "t \<noteq> 0"
  shows "level_of (ps ! i) s1 = min (l + 1) 2 \<and>
      ml_queues s1 = (ml_queues s)[min (l + 1) 2 := ml_queues s ! min (l + 1) 2 @ [i]] \<and>
      unat (quantum_for (ps ! i) s1) = unat (ml_qbase s) * 2 ^ min (l + 1) 2 \<and>
      (\<exists>s2. MLFQ_tick ps t s = Inr s2 \<and> ml_queues s2 = [a @ b @ c, [], []] \<and>
        (\<forall>j \<in> set (b @ c). level_of (ps ! j) s2 = 0))"
proof -
  have l: "l < kQueues" using level_of_less [OF assms(1)] assms(5) by simp
  have lvl: "level_of (ps ! i) s1 = min (l + 1) 2" and q: "ml_qbase s1 = ml_qbase s"
    and queues: "ml_queues s1 = (ml_queues s)[min (l + 1) 2 := ml_queues s ! min (l + 1) 2 @ [i]]"
    using less3_cases [OF l] unfolding assms(4) on_quantum_expired_def Let_def assms(5) [symmetric]
    by (auto simp: push_back_at_def numeral_2_eq_2 assms(5) [symmetric])
  have "unat (ml_qbase s) * 2 ^ min (l + 1) 2 \<le> unat (ml_qbase s) * 2 ^ 2"
    by (intro mult_le_mono2 power_increasing) auto
  also have "\<dots> < 2 ^ 32" using assms(3) by simp
  finally have quantum: "unat (quantum_for (ps ! i) s1) = unat (ml_qbase s) * 2 ^ min (l + 1) 2"
    unfolding quantum_for_def lvl q by (intro unat_push_bit_small) simp
  have "MLFQ_tick ps t s = Inr (fold (boost_queue ps) [1 ..< kQueues] s)"
    using assms(6-8) by (simp add: MLFQ_tick_def)
  with boost_queues [OF assms(2), of ps] lvl queues quantum show ?thesis
    by (auto simp: level_of_def image_iff)
qed

definition demo_mlfq :: MLFQ where
  "demo_mlfq = (MLFQ_new 4 100)\<lparr>ml_queues := [[0], [1], [2]], ml_level := [1 \<mapsto> 0, 2 \<mapsto> 1, 3 \<mapsto> 2]\<rparr>"

theorem MLFQ_feedback_witness:
  "let ps = [demo_job 1 0 1, demo_job 2 0 1, demo_job 3 0 1] in
   unat (quantum_for (ps ! 1) (on_quantum_expired ps 1 demo_mlfq)) = 16 \<and>
   (\<exists>s2. MLFQ_tick ps 200 demo_mlfq = Inr s2 \<and> ml_queues s2 = [[0, 1, 2], [], []] \<and>
     level_of (ps ! 2) s2 = 0)"
proof -
  let ?ps = "[demo_job 1 0 1, demo_job 2 0 1, demo_job 3 0 1]"
  have ok: "MLFQ_ok demo_mlfq" by (auto simp: MLFQ_ok_def demo_mlfq_def MLFQ_new_def)
  have q: "ml_queues demo_mlfq = [[0], [1], [2]]" by (simp add: demo_mlfq_def)
  have l: "level_of (?ps ! 1) demo_mlfq = 1"
    by (simp add: level_of_def demo_mlfq_def demo_job_def)
  have "unat (quantum_for (?ps ! 1) (on_quantum_expired ?ps 1 demo_mlfq)) = 16 \<and>
    (\<exists>s2. MLFQ_tick ?ps 200 demo_mlfq = Inr s2 \<and> ml_queues s2 = [[0] @ [1] @ [2], [], []] \<and>
      (\<forall>j \<in> set ([1] @ [2]). level_of (?ps ! j) s2 = 0))"
    using MLFQ_feedback [OF ok q _ refl refl, of 200 ?ps 1] unfolding l
    by (simp add: demo_mlfq_def MLFQ_new_def)
  then show ?thesis by auto
qed

end
