(* ===== verification/TextFormat.thy ===== *)
theory TextFormat
  imports Prelude
begin

text \<open>
  Decimal output as \<^verbatim>\<open>std::to_string\<close> and the stream operators produce it for integers, and
  the reader it is inverse to.
\<close>

definition digit :: "nat \<Rightarrow> char" where
  "digit d = char_of (48 + d)"

fun to_string :: "nat \<Rightarrow> string" where
  "to_string n = (if n < 10 then [digit n] else to_string (n div 10) @ [digit (n mod 10)])"

declare to_string.simps [simp del]

definition int_to_string :: "int \<Rightarrow> string" where
  "int_to_string i = (if i < 0 then CHR ''-'' # to_string (nat (- i)) else to_string (nat i))"

definition is_digit :: "char \<Rightarrow> bool" where
  "is_digit c \<longleftrightarrow> 48 \<le> (of_char c :: nat) \<and> (of_char c :: nat) < 58"

definition read_nat :: "string \<Rightarrow> nat" where
  "read_nat s = foldl (\<lambda>a c. a * 10 + (of_char c - 48)) 0 s"

definition read_int :: "string \<Rightarrow> int" where
  "read_int s = (case s of [] \<Rightarrow> 0
     | c # cs \<Rightarrow> if c = CHR ''-'' then - int (read_nat cs) else int (read_nat s))"

lemma of_char_digit [simp]: "d < 10 \<Longrightarrow> (of_char (digit d) :: nat) = 48 + d"
  by (simp add: digit_def)

lemma to_string_digits: "c \<in> set (to_string n) \<Longrightarrow> is_digit c"
proof (induction n rule: to_string.induct)
  case (1 n)
  then show ?case by (subst (asm) (2) to_string.simps) (auto simp: is_digit_def split: if_splits)
qed

lemma read_to_string [simp]: "read_nat (to_string n) = n"
proof (induction n rule: to_string.induct)
  case (1 n)
  then show ?case by (subst to_string.simps) (auto simp: read_nat_def)
qed

lemma to_string_nonempty [simp]: "to_string n \<noteq> []"
  by (subst to_string.simps) simp

lemma not_minus_digit: "is_digit c \<Longrightarrow> c \<noteq> CHR ''-''"
  by (auto simp: is_digit_def)

lemma read_int_to_string [simp]: "read_int (int_to_string i) = i"
proof (cases "i < 0")
  case False
  obtain c cs where s: "to_string (nat i) = c # cs" by (cases "to_string (nat i)") auto
  then have "c \<noteq> CHR ''-''" using to_string_digits [of c "nat i"] not_minus_digit by auto
  with False s show ?thesis using read_to_string [of "nat i"] by (simp add: int_to_string_def read_int_def)
qed (simp add: int_to_string_def read_int_def)

lemma int_to_string_inject [simp]: "int_to_string i = int_to_string j \<longleftrightarrow> i = j"
  by (metis read_int_to_string)

lemma int_to_string_chars: "c \<in> set (int_to_string i) \<Longrightarrow> is_digit c \<or> c = CHR ''-''"
  by (auto simp: int_to_string_def dest: to_string_digits split: if_splits)

end
