(* ===== verification/SchedSim.thy ===== *)
theory SchedSim
  imports SchedPolicies TextFormat
begin

text \<open>
  The tick-driven scheduler simulator of \<^verbatim>\<open>sched_sim_main.cpp\<close>: the workload generator, the
  engine \<open>simulate\<close> and the sweeps of \<open>main\<close>.  The local variables of \<open>simulate\<close> are the
  fields of the record \<open>sim\<close>; each block of the body of the loop is one definition.
\<close>

record CsModel =
  cost_ticks :: u32
  warmup_ticks :: u32
  warmup_denom :: u32

record 's sim =
  sm_procs :: "Process list"
  sm_sched :: 's
  sm_tick :: u32
  sm_useful_ticks :: u32
  sm_cs_overhead :: u32
  sm_total_cs :: u32
  sm_running :: "nat option"
  sm_ran_ticks :: u32
  sm_waiting :: "(nat \<times> u32) list"

subsection \<open>The engine\<close>

definition reset_process :: "Process \<Rightarrow> Process" where
  "reset_process p = p\<lparr>p_state := New, p_cur_burst := 0,
     p_burst_remaining := (if p_bursts p = [] then 0 else b_ticks (p_bursts p ! 0)),
     p_first_run := UINT32_MAX, p_finish := 0, p_wait_ticks := 0, p_io_ticks := 0,
     p_ctx_switches := 0\<rparr>"

definition sim_init :: "'s \<Rightarrow> Process list \<Rightarrow> 's sim" where
  "sim_init sched procs = \<lparr>sm_procs = map reset_process procs, sm_sched = sched, sm_tick = 0,
     sm_useful_ticks = 0, sm_cs_overhead = 0, sm_total_cs = 0, sm_running = None, sm_ran_ticks = 0,
     sm_waiting = []\<rparr>"

definition set_proc :: "nat \<Rightarrow> Process \<Rightarrow> 's sim \<Rightarrow> 's sim" where
  "set_proc i p st = st\<lparr>sm_procs := (sm_procs st)[i := p]\<rparr>"

definition enqueue :: "'s IScheduler \<Rightarrow> nat \<Rightarrow> 's sim \<Rightarrow> 's sim" where
  "enqueue S i st =
     (let st1 = set_proc i ((sm_procs st ! i)\<lparr>p_state := Ready\<rparr>) st
      in st1\<lparr>sm_sched := sc_add S (sm_procs st1) i (sm_sched st1)\<rparr>)"

definition all_done :: "Process list \<Rightarrow> bool" where
  "all_done procs \<longleftrightarrow> list_all (\<lambda>p. p_state p = Terminated) procs"

definition arrive_one :: "'s IScheduler \<Rightarrow> nat \<Rightarrow> 's sim \<Rightarrow> 's sim" where
  "arrive_one S i st =
     (if p_state (sm_procs st ! i) = New \<and> p_arrival (sm_procs st ! i) = sm_tick st
      then enqueue S i st else st)"

definition arrivals :: "'s IScheduler \<Rightarrow> 's sim \<Rightarrow> 's sim" where
  "arrivals S st = fold (arrive_one S) [0 ..< length (sm_procs st)] st"

text \<open>
  \<open>io_done\<close> is what happens to a process whose wait is over.  When \<open>advance_burst\<close> returns true
  there is a current burst, so its null case is not reached.
\<close>

definition io_done :: "'s IScheduler \<Rightarrow> nat \<Rightarrow> 's sim \<Rightarrow> 's sim" where
  "io_done S i st =
     (let (more, p) = advance_burst (sm_procs st ! i) in
      if more then
        enqueue S i (set_proc i (case current_burst p of Some b \<Rightarrow> p\<lparr>p_burst_remaining := b_ticks b\<rparr> | None \<Rightarrow> p) st)
      else set_proc i (p\<lparr>p_state := Terminated, p_finish := sm_tick st\<rparr>) st)"

fun io_loop :: "'s IScheduler \<Rightarrow> (nat \<times> u32) list \<Rightarrow> (nat \<times> u32) list \<Rightarrow> 's sim \<Rightarrow> 's sim" where
  "io_loop S kept [] st = st\<lparr>sm_waiting := kept\<rparr>"
| "io_loop S kept ((i, n) # ws) st =
     (if n - 1 = 0 then io_loop S kept ws (io_done S i st)
      else io_loop S (kept @ [(i, n - 1)]) ws st)"

definition io_completions :: "'s IScheduler \<Rightarrow> 's sim \<Rightarrow> 's sim" where
  "io_completions S st = io_loop S [] (sm_waiting st) st"

definition preempt_check :: "'s IScheduler \<Rightarrow> 's sim \<Rightarrow> 's sim" where
  "preempt_check S st =
     (case sm_running st of
        Some i \<Rightarrow>
          if sc_should_preempt S (sm_procs st) i (sm_ran_ticks st) (sm_sched st)
          then (enqueue S i st)\<lparr>sm_running := None, sm_ran_ticks := 0\<rparr>
          else st
      | None \<Rightarrow> st)"

definition switch_to :: "CsModel \<Rightarrow> nat \<Rightarrow> 's sim \<Rightarrow> 's sim" where
  "switch_to cs i st =
     (let st1 = (if cost_ticks cs > 0
                 then st\<lparr>sm_tick := sm_tick st + cost_ticks cs,
                         sm_cs_overhead := sm_cs_overhead st + cost_ticks cs,
                         sm_total_cs := sm_total_cs st + 1\<rparr>
                 else st);
          p = sm_procs st1 ! i;
          p1 = (if p_first_run p = UINT32_MAX then p\<lparr>p_first_run := sm_tick st1\<rparr> else p);
          p2 = p1\<lparr>p_ctx_switches := p_ctx_switches p1 + 1, p_state := Running\<rparr>
      in (set_proc i p2 st1)\<lparr>sm_running := Some i, sm_ran_ticks := 0\<rparr>)"

definition dispatch :: "'s IScheduler \<Rightarrow> CsModel \<Rightarrow> 's sim \<Rightarrow> 's sim" where
  "dispatch S cs st =
     (case sm_running st of
        Some i \<Rightarrow> st
      | None \<Rightarrow>
          (case sc_pick_next S (sm_procs st) (sm_sched st) of
             (Some i, s') \<Rightarrow> switch_to cs i (st\<lparr>sm_sched := s'\<rparr>)
           | (None, s') \<Rightarrow> st\<lparr>sm_sched := s'\<rparr>))"

definition burst_complete :: "nat \<Rightarrow> 's sim \<Rightarrow> 's sim" where
  "burst_complete i st =
     (case current_burst (sm_procs st ! i) of
        Some b \<Rightarrow>
          if b_type b = CPU then
            (case advance_burst (sm_procs st ! i) of
               (True, p) \<Rightarrow>
                 (case current_burst p of
                    Some nb \<Rightarrow>
                      let p1 = p\<lparr>p_burst_remaining := b_ticks nb\<rparr> in
                      if b_type nb = IO then
                        (set_proc i (p1\<lparr>p_state := Waiting\<rparr>) st)
                          \<lparr>sm_waiting := sm_waiting st @ [(i, b_ticks nb)], sm_running := None,
                           sm_ran_ticks := 0\<rparr>
                      else set_proc i p1 st
                  | None \<Rightarrow> set_proc i p st)
             | (False, p) \<Rightarrow>
                 (set_proc i (p\<lparr>p_state := Terminated, p_finish := sm_tick st + 1\<rparr>) st)
                   \<lparr>sm_running := None, sm_ran_ticks := 0\<rparr>)
          else st
      | None \<Rightarrow> st)"

definition run_one_tick :: "'s sim \<Rightarrow> 's sim" where
  "run_one_tick st =
     (case sm_running st of
        Some i \<Rightarrow>
          let p = (sm_procs st ! i)\<lparr>p_burst_remaining := p_burst_remaining (sm_procs st ! i) - 1\<rparr>;
              st1 = (set_proc i p st)\<lparr>sm_useful_ticks := sm_useful_ticks st + 1,
                                      sm_ran_ticks := sm_ran_ticks st + 1\<rparr>
          in if p_burst_remaining p = 0 then burst_complete i st1 else st1
      | None \<Rightarrow> st)"

definition sim_step :: "'s IScheduler \<Rightarrow> CsModel \<Rightarrow> 's sim \<Rightarrow> 's sim" where
  "sim_step S cs st =
     (let st1 = run_one_tick (dispatch S cs (preempt_check S (io_completions S (arrivals S st))))
      in st1\<lparr>sm_tick := sm_tick st1 + 1\<rparr>)"

abbreviation max_ticks :: u32 where
  "max_ticks \<equiv> 50000"

partial_function (option) sim_loop :: "'s IScheduler \<Rightarrow> CsModel \<Rightarrow> 's sim \<Rightarrow> 's sim option" where
  "sim_loop S cs st =
     (if \<not> all_done (sm_procs st) \<and> sm_tick st < max_ticks
      then sim_loop S cs (sim_step S cs st)
      else Some st)"

text \<open>The averages are taken over the reals where the code computes in \<open>double\<close>.\<close>

record SimResult =
  cpu_util :: real
  avg_turnaround :: real
  avg_waiting :: real
  avg_response :: real
  total_ctx_switches :: u32
  total_overhead_ticks :: u32
  total_ticks :: u32

definition sim_metrics :: "'s sim \<Rightarrow> SimResult" where
  "sim_metrics st =
     (let finished = filter (\<lambda>p. p_state p = Terminated) (sm_procs st);
          sum_tt = fold (\<lambda>p s. s + turnaround p) finished 0;
          sum_rt = fold (\<lambda>p s. s + response p) finished 0;
          done_count = length finished
      in \<lparr>cpu_util = (if sm_tick st > 0 then real (unat (sm_useful_ticks st)) / real (unat (sm_tick st)) else 0),
          avg_turnaround = (if done_count > 0 then real (unat sum_tt) / real done_count else 0),
          avg_waiting = 0,
          avg_response = (if done_count > 0 then real (unat sum_rt) / real done_count else 0),
          total_ctx_switches = sm_total_cs st,
          total_overhead_ticks = sm_cs_overhead st,
          total_ticks = sm_tick st\<rparr>)"

definition simulate :: "'s IScheduler \<Rightarrow> 's \<Rightarrow> Process list \<Rightarrow> CsModel \<Rightarrow> SimResult option" where
  "simulate S sched procs cs = map_option sim_metrics (sim_loop S cs (sim_init sched procs))"

subsection \<open>Workloads\<close>

text \<open>
  The random numbers are a parameter: \<open>cpu_dist g lo hi\<close> is one draw of
  \<open>uniform_int_distribution<uint32_t>(lo, hi)\<close> from the generator in state \<open>g\<close>, returning the
  number and the next state of the generator.
\<close>

datatype WorkloadType = CpuHeavy | IoHeavy | Mixed

fun wl_name :: "WorkloadType \<Rightarrow> string" where
  "wl_name CpuHeavy = ''cpu_heavy''"
| "wl_name IoHeavy = ''io_heavy''"
| "wl_name Mixed = ''mixed''"

type_synonym 'g draw = "'g \<Rightarrow> u32 \<Rightarrow> u32 \<Rightarrow> u32 \<times> 'g"

definition make_burst :: "'g draw \<Rightarrow> WorkloadType \<Rightarrow> nat \<Rightarrow> 'g \<Rightarrow> Burst \<times> 'g" where
  "make_burst cpu_dist type b g =
     (let is_cpu = (b mod 2 = 0);
          (ticks, g1) =
            (case type of
               CpuHeavy \<Rightarrow> if is_cpu then cpu_dist g 10 40 else cpu_dist g 2 8
             | IoHeavy \<Rightarrow> if is_cpu then cpu_dist g 2 6 else cpu_dist g 10 30
             | Mixed \<Rightarrow> cpu_dist g 5 20)
      in (\<lparr>b_type = (if is_cpu then CPU else IO), b_ticks = ticks\<rparr>, g1))"

fun make_bursts :: "'g draw \<Rightarrow> WorkloadType \<Rightarrow> nat list \<Rightarrow> 'g \<Rightarrow> Burst list \<times> 'g" where
  "make_bursts cpu_dist type [] g = ([], g)"
| "make_bursts cpu_dist type (b # bs) g =
     (let (x, g1) = make_burst cpu_dist type b g; (xs, g2) = make_bursts cpu_dist type bs g1 in (x # xs, g2))"

definition num_bursts :: "WorkloadType \<Rightarrow> nat" where
  "num_bursts type = (case type of CpuHeavy \<Rightarrow> 3 | IoHeavy \<Rightarrow> 7 | Mixed \<Rightarrow> 5)"

definition make_process :: "'g draw \<Rightarrow> WorkloadType \<Rightarrow> nat \<Rightarrow> 'g \<Rightarrow> Process \<times> 'g" where
  "make_process cpu_dist type i g =
     (let (arr, g1) = cpu_dist g 0 10;
          (prio, g2) = cpu_dist g1 1 5;
          (bs, g3) = make_bursts cpu_dist type [0 ..< num_bursts type] g2
      in (Process_default\<lparr>p_pid := int i + 1, p_name := CHR ''P'' # to_string (i + 1),
            p_arrival := arr, p_priority := prio, p_mem_bytes := 0, p_bursts := bs,
            p_burst_remaining := (if bs = [] then 0 else b_ticks (bs ! 0)), p_cur_burst := 0\<rparr>, g3))"

fun make_processes :: "'g draw \<Rightarrow> WorkloadType \<Rightarrow> nat list \<Rightarrow> 'g \<Rightarrow> Process list" where
  "make_processes cpu_dist type [] g = []"
| "make_processes cpu_dist type (i # js) g =
     (let (p, g1) = make_process cpu_dist type i g in p # make_processes cpu_dist type js g1)"

text \<open>\<open>seed\<close> is the state of the generator after \<open>std::mt19937 rng(seed)\<close>.\<close>

definition make_workload :: "'g draw \<Rightarrow> WorkloadType \<Rightarrow> nat \<Rightarrow> 'g \<Rightarrow> Process list" where
  "make_workload cpu_dist type n seed = make_processes cpu_dist type [0 ..< n] seed"

subsection \<open>The sweeps of main\<close>

record csv_row =
  row_workload :: string
  row_policy :: string
  row_quantum :: u32
  row_cs_cost :: u32
  row_result :: "SimResult option"

definition quantum_sweep :: "Process list \<Rightarrow> csv_row list" where
  "quantum_sweep procs =
     map (\<lambda>q. \<lparr>row_workload = ''mixed'', row_policy = ''RR'', row_quantum = of_nat q, row_cs_cost = 0,
        row_result = simulate RR (RoundRobin_new (of_nat q)) procs
          \<lparr>cost_ticks = 0, warmup_ticks = 0, warmup_denom = 1\<rparr>\<rparr>) [1 ..< 51]"

definition run_and_write :: "WorkloadType \<Rightarrow> Process list \<Rightarrow> u32 \<Rightarrow> 's IScheduler \<Rightarrow> 's \<Rightarrow> u32 \<Rightarrow> csv_row" where
  "run_and_write wl procs cost S sched q =
     \<lparr>row_workload = wl_name wl, row_policy = sc_name S, row_quantum = q, row_cs_cost = cost,
      row_result = simulate S sched procs \<lparr>cost_ticks = cost, warmup_ticks = 0, warmup_denom = 1\<rparr>\<rparr>"

definition run_policies :: "WorkloadType \<Rightarrow> Process list \<Rightarrow> u32 \<Rightarrow> csv_row list" where
  "run_policies wl procs cost =
     [run_and_write wl procs cost FCFS [] 0,
      run_and_write wl procs cost SJF [] 0,
      run_and_write wl procs cost SRTF [] 0,
      run_and_write wl procs cost RR (RoundRobin_new 4) 4,
      run_and_write wl procs cost Priority Priority_new 0,
      run_and_write wl procs cost MLFQ_policy (MLFQ_new 4 100) 4]"

definition cs_cost_sweep :: "'g draw \<Rightarrow> 'g \<Rightarrow> csv_row list" where
  "cs_cost_sweep cpu_dist seed =
     concat (map (\<lambda>wl. let procs = make_workload cpu_dist wl 10 seed in
       concat (map (run_policies wl procs) [0, 1, 5, 10])) [CpuHeavy, IoHeavy, Mixed])"

end
