(* ===== verification/SchedSimProofs.thy ===== *)
theory SchedSimProofs
  imports SchedSim
begin

text \<open>
  What the simulator guarantees under every policy that keeps the contract of the locale
  \<open>scheduler\<close>: a process is in exactly one place, the remaining work only shrinks and accounts
  for every tick, so the run ends; and what goes wrong when a context switch costs ticks.
\<close>

subsection \<open>Processes by state\<close>

definition procs_in :: "State \<Rightarrow> Process list \<Rightarrow> nat set" where
  "procs_in X ps = {i. i < length ps \<and> p_state (ps ! i) = X}"

lemma finite_procs_in [simp]: "finite (procs_in X ps)"
  by (simp add: procs_in_def)

lemma procs_in_update:
  "i < length ps \<Longrightarrow>
   procs_in X (ps[i := p]) = (if p_state p = X then insert i (procs_in X ps) else procs_in X ps - {i})"
  by (auto simp: procs_in_def nth_list_update)

lemma procs_in_same: "i < length ps \<Longrightarrow> p_state p = p_state (ps ! i) \<Longrightarrow> procs_in X (ps[i := p]) = procs_in X ps"
  by (auto simp: procs_in_def nth_list_update)

lemma procs_in_lt: "i \<in> procs_in X ps \<Longrightarrow> i < length ps"
  by (simp add: procs_in_def)

lemma mset_set_insert_new: "finite A \<Longrightarrow> i \<notin> A \<Longrightarrow> mset_set (insert i A) = add_mset i (mset_set A)"
  by simp

lemma mset_set_remove: "finite A \<Longrightarrow> i \<in> A \<Longrightarrow> mset_set A = add_mset i (mset_set (A - {i}))"
  by (metis mset_set.remove)

text \<open>
  The places: the ready queue of the policy, the waiting list and the running pointer hold
  exactly the processes whose state says so, each once.  The waiting list is an argument,
  because the loop over it works on a part of it at a time.
\<close>

definition in_places ::
    "(Process list \<Rightarrow> 's \<Rightarrow> bool) \<Rightarrow> ('s \<Rightarrow> nat multiset) \<Rightarrow> (nat \<times> u32) list \<Rightarrow> 's sim \<Rightarrow> bool" where
  "in_places ok ready ws st \<longleftrightarrow>
     ok (sm_procs st) (sm_sched st) \<and>
     ready (sm_sched st) = mset_set (procs_in Ready (sm_procs st)) \<and>
     mset (map fst ws) = mset_set (procs_in Waiting (sm_procs st)) \<and>
     set_option (sm_running st) = procs_in Running (sm_procs st)"

lemma set_proc_sel [simp]:
  "sm_procs (set_proc i p st) = (sm_procs st)[i := p]" "sm_sched (set_proc i p st) = sm_sched st"
  "sm_tick (set_proc i p st) = sm_tick st" "sm_running (set_proc i p st) = sm_running st"
  "sm_waiting (set_proc i p st) = sm_waiting st" "sm_useful_ticks (set_proc i p st) = sm_useful_ticks st"
  "sm_cs_overhead (set_proc i p st) = sm_cs_overhead st" "sm_ran_ticks (set_proc i p st) = sm_ran_ticks st"
  "sm_total_cs (set_proc i p st) = sm_total_cs st"
  by (simp_all add: set_proc_def)

lemma enqueue_sel [simp]:
  "sm_procs (enqueue S i st) = (sm_procs st)[i := (sm_procs st ! i)\<lparr>p_state := Ready\<rparr>]"
  "sm_tick (enqueue S i st) = sm_tick st" "sm_running (enqueue S i st) = sm_running st"
  "sm_waiting (enqueue S i st) = sm_waiting st" "sm_useful_ticks (enqueue S i st) = sm_useful_ticks st"
  "sm_cs_overhead (enqueue S i st) = sm_cs_overhead st" "sm_ran_ticks (enqueue S i st) = sm_ran_ticks st"
  "sm_total_cs (enqueue S i st) = sm_total_cs st"
  by (simp_all add: enqueue_def Let_def)

context scheduler
begin

lemma ok_update:
  assumes "ok ps s" "i \<notin># ready s"
  shows "ok (ps[i := p]) s"
  using assms(1)
proof (rule ok_cong)
  fix j assume "j \<in># ready s"
  then have "i \<noteq> j" using assms(2) by auto
  then show "sched_view (ps[i := p] ! j) = sched_view (ps ! j)" by simp
qed

text \<open>Moving a process into the ready queue.\<close>

lemma enqueue_places:
  assumes "ok (sm_procs st) (sm_sched st)" "ready (sm_sched st) = mset_set (procs_in Ready (sm_procs st))"
    and "i < length (sm_procs st)" "p_state (sm_procs st ! i) \<noteq> Ready"
  shows "ok (sm_procs (enqueue S i st)) (sm_sched (enqueue S i st)) \<and>
    ready (sm_sched (enqueue S i st)) = mset_set (procs_in Ready (sm_procs (enqueue S i st)))"
proof -
  have i: "i \<notin> procs_in Ready (sm_procs st)" using assms(4) by (simp add: procs_in_def)
  then have "ok ((sm_procs st)[i := (sm_procs st ! i)\<lparr>p_state := Ready\<rparr>]) (sm_sched st)"
    using assms(1,2) by (intro ok_update) simp_all
  from add_ok [OF this, of i] add_ready [OF this, of i] assms(2,3) i
  show ?thesis by (simp add: enqueue_def Let_def procs_in_update mset_set_insert_new)
qed

lemma arrive_one_places:
  assumes "in_places ok ready ws st" "i < length (sm_procs st)"
  shows "in_places ok ready ws (arrive_one S i st)"
proof (cases "p_state (sm_procs st ! i) = New \<and> p_arrival (sm_procs st ! i) = sm_tick st")
  case True
  then have "i \<notin> procs_in Waiting (sm_procs st)" "i \<notin> procs_in Running (sm_procs st)"
    by (auto simp: procs_in_def)
  with True assms enqueue_places [of st i] show ?thesis
    by (auto simp: arrive_one_def in_places_def procs_in_update)
qed (use assms in \<open>auto simp: arrive_one_def\<close>)

lemma length_arrive_one [simp]: "length (sm_procs (arrive_one S i st)) = length (sm_procs st)"
  by (simp add: arrive_one_def)

lemma arrive_fold_places:
  "in_places ok ready ws st \<Longrightarrow> \<forall>i \<in> set js. i < length (sm_procs st) \<Longrightarrow>
   in_places ok ready ws (fold (arrive_one S) js st)"
  by (induction js arbitrary: st) (simp_all add: arrive_one_places)

lemma arrivals_places: "in_places ok ready ws st \<Longrightarrow> in_places ok ready ws (arrivals S st)"
  unfolding arrivals_def by (rule arrive_fold_places) auto

lemma io_done_places:
  assumes "in_places ok ready ((i, n) # ws) st"
  shows "in_places ok ready ws (io_done S i st)"
proof -
  have m: "add_mset i (mset (map fst ws)) = mset_set (procs_in Waiting (sm_procs st))"
    using assms by (simp add: in_places_def)
  then have "i \<in># mset_set (procs_in Waiting (sm_procs st))" by (metis union_single_eq_member)
  then have w: "i \<in> procs_in Waiting (sm_procs st)" by simp
  then have i: "i < length (sm_procs st)" "p_state (sm_procs st ! i) = Waiting"
    by (auto simp: procs_in_def)
  have rest: "mset (map fst ws) = mset_set (procs_in Waiting (sm_procs st) - {i})"
    using m mset_set_remove [OF _ w] by simp
  have no: "i \<notin> procs_in Ready (sm_procs st)" "i \<notin> procs_in Running (sm_procs st)"
    using i by (auto simp: procs_in_def)
  obtain more p where adv: "advance_burst (sm_procs st ! i) = (more, p)" by fastforce
  then have p: "p_state p = Waiting" using i(2) by (auto simp: advance_burst_def Let_def split: if_splits)
  define q where "q = (case current_burst p of Some b \<Rightarrow> p\<lparr>p_burst_remaining := b_ticks b\<rparr> | None \<Rightarrow> p)"
  have q: "p_state q = Waiting" using p by (auto simp: q_def split: option.splits)
  have okq: "ok ((sm_procs st)[i := x]) (sm_sched st)" for x
    using assms no by (intro ok_update) (simp_all add: in_places_def)
  show ?thesis
  proof (cases more)
    case True
    have "ok (sm_procs (set_proc i q st)) (sm_sched (set_proc i q st))" by (simp add: okq)
    moreover have "ready (sm_sched (set_proc i q st)) = mset_set (procs_in Ready (sm_procs (set_proc i q st)))"
      using assms i q by (simp add: in_places_def procs_in_same)
    ultimately have "ok (sm_procs (enqueue S i (set_proc i q st))) (sm_sched (enqueue S i (set_proc i q st))) \<and>
      ready (sm_sched (enqueue S i (set_proc i q st))) =
        mset_set (procs_in Ready (sm_procs (enqueue S i (set_proc i q st))))"
      using i q by (intro enqueue_places) simp_all
    then show ?thesis using True assms i no rest
      by (simp add: io_done_def adv in_places_def procs_in_update flip: q_def)
  next
    case False
    then show ?thesis using assms i no rest
      by (simp add: io_done_def adv in_places_def procs_in_update okq)
  qed
qed

lemma in_places_waiting [simp]: "in_places ok ready ws (st\<lparr>sm_waiting := ws'\<rparr>) = in_places ok ready ws st"
  by (simp add: in_places_def)

lemma in_places_rotate:
  "in_places ok ready (kept @ (i, n) # ws) st \<longleftrightarrow> in_places ok ready ((i, n) # kept @ ws) st"
  "in_places ok ready ((kept @ [(i, m)]) @ ws) st \<longleftrightarrow> in_places ok ready (kept @ (i, n) # ws) st"
  by (simp_all add: in_places_def)

lemma io_loop_places:
  "in_places ok ready (kept @ ws) st \<Longrightarrow>
   in_places ok ready (sm_waiting (io_loop S kept ws st)) (io_loop S kept ws st)"
proof (induction ws arbitrary: kept st)
  case (Cons w ws)
  obtain i n where w: "w = (i, n)" by fastforce
  have "in_places ok ready (kept @ ws) (io_done S i st)"
    using Cons.prems io_done_places [of i n "kept @ ws" st] by (simp add: w in_places_rotate(1))
  moreover have "in_places ok ready ((kept @ [(i, n - 1)]) @ ws) st"
    using Cons.prems in_places_rotate(2) [of kept i "n - 1" ws st n] by (simp add: w)
  ultimately show ?case using Cons.IH by (simp add: w)
qed simp

end

text \<open>What a dispatch does to the process, at tick \<open>t\<close>.\<close>

definition on_cpu :: "u32 \<Rightarrow> Process \<Rightarrow> Process" where
  "on_cpu t p = (if p_first_run p = UINT32_MAX then p\<lparr>p_first_run := t\<rparr> else p)
     \<lparr>p_ctx_switches := p_ctx_switches p + 1, p_state := Running\<rparr>"

lemma on_cpu_sel [simp]:
  "p_state (on_cpu t p) = Running" "p_bursts (on_cpu t p) = p_bursts p"
  "p_cur_burst (on_cpu t p) = p_cur_burst p" "p_arrival (on_cpu t p) = p_arrival p"
  "p_burst_remaining (on_cpu t p) = p_burst_remaining p"
  by (simp_all add: on_cpu_def)

lemma switch_to_sel [simp]:
  "sm_sched (switch_to cs i st) = sm_sched st" "sm_running (switch_to cs i st) = Some i"
  "sm_waiting (switch_to cs i st) = sm_waiting st" "sm_useful_ticks (switch_to cs i st) = sm_useful_ticks st"
  "sm_tick (switch_to cs i st) = sm_tick st + cost_ticks cs"
  "sm_cs_overhead (switch_to cs i st) = sm_cs_overhead st + cost_ticks cs"
  "sm_procs (switch_to cs i st) =
     (sm_procs st)[i := on_cpu (sm_tick st + cost_ticks cs) (sm_procs st ! i)]"
  by (auto simp: switch_to_def Let_def on_cpu_def word_gt_0)

context scheduler
begin

lemma io_completions_places:
  "in_places ok ready (sm_waiting st) st \<Longrightarrow>
   in_places ok ready (sm_waiting (io_completions S st)) (io_completions S st)"
  unfolding io_completions_def by (rule io_loop_places) simp

lemma running_lt:
  assumes "in_places ok ready ws st" "sm_running st = Some i"
  shows "i < length (sm_procs st)" "p_state (sm_procs st ! i) = Running"
    "procs_in Running (sm_procs st) = {i}"
  using assms by (auto simp: in_places_def procs_in_def)

lemma preempt_places:
  assumes "in_places ok ready ws st"
  shows "in_places ok ready ws (preempt_check S st)"
proof (cases "sm_running st")
  case (Some i)
  note i = running_lt [OF assms Some]
  then have w: "i \<notin> procs_in Waiting (sm_procs st)" by (auto simp: procs_in_def)
  have "ok (sm_procs (enqueue S i st)) (sm_sched (enqueue S i st)) \<and>
      ready (sm_sched (enqueue S i st)) = mset_set (procs_in Ready (sm_procs (enqueue S i st)))"
    using assms i by (intro enqueue_places) (simp_all add: in_places_def)
  with assms i w Some show ?thesis
    by (simp add: preempt_check_def in_places_def procs_in_update)
qed (use assms in \<open>simp add: preempt_check_def\<close>)

lemma dispatch_cases:
  assumes "in_places ok ready ws st" "sm_running st = None"
  obtains (idle) "ready (sm_sched st) = {#}" "dispatch S cs st = st"
  | (pick) i s' where "sc_pick_next S (sm_procs st) (sm_sched st) = (Some i, s')"
      "ok (sm_procs st) s'" "ready (sm_sched st) = add_mset i (ready s')"
      "dispatch S cs st = switch_to cs i (st\<lparr>sm_sched := s'\<rparr>)"
proof (cases "ready (sm_sched st) = {#}")
  case True
  then show ?thesis using pick_empty [of "sm_procs st" "sm_sched st"] assms
    by (intro idle) (simp_all add: dispatch_def in_places_def)
next
  case False
  then obtain i s' where "sc_pick_next S (sm_procs st) (sm_sched st) = (Some i, s')"
      "ok (sm_procs st) s'" "ready (sm_sched st) = add_mset i (ready s')"
    using pick_some [of "sm_procs st" "sm_sched st"] assms by (auto simp: in_places_def)
  then show ?thesis using assms(2) by (intro pick) (simp_all add: dispatch_def)
qed

lemma picked_ready:
  assumes "in_places ok ready ws st" "ready (sm_sched st) = add_mset i m"
  shows "i < length (sm_procs st)" "p_state (sm_procs st ! i) = Ready"
    "m = mset_set (procs_in Ready (sm_procs st) - {i})"
proof -
  have m: "add_mset i m = mset_set (procs_in Ready (sm_procs st))" using assms by (simp add: in_places_def)
  then have "i \<in># mset_set (procs_in Ready (sm_procs st))" by (metis union_single_eq_member)
  then have r: "i \<in> procs_in Ready (sm_procs st)" by simp
  then show "i < length (sm_procs st)" "p_state (sm_procs st ! i) = Ready" by (auto simp: procs_in_def)
  show "m = mset_set (procs_in Ready (sm_procs st) - {i})" using m mset_set_remove [OF _ r] by simp
qed

lemma dispatch_places:
  assumes "in_places ok ready ws st"
  shows "in_places ok ready ws (dispatch S cs st)"
proof (cases "sm_running st")
  case None
  from assms None show ?thesis
  proof (cases rule: dispatch_cases [where cs = cs])
    case idle
    then show ?thesis using assms by simp
  next
    case (pick i s')
    note i = picked_ready [OF assms pick(3)]
    have "ok ((sm_procs st)[i := p]) s'" for p using pick(2) i(3) by (intro ok_update) simp_all
    moreover have "i \<notin> procs_in Waiting (sm_procs st)" using i(2) by (simp add: procs_in_def)
    moreover have "procs_in Running (sm_procs st) = {}" using assms None by (simp add: in_places_def)
    ultimately show ?thesis using assms i(1,3) pick(4)
      by (simp add: in_places_def procs_in_update)
  qed
qed (use assms in \<open>simp add: dispatch_def\<close>)

end

lemma in_places_frame [simp]:
  "in_places ok ready ws (st\<lparr>sm_useful_ticks := u\<rparr>) = in_places ok ready ws st"
  "in_places ok ready ws (st\<lparr>sm_ran_ticks := r\<rparr>) = in_places ok ready ws st"
  "in_places ok ready ws (st\<lparr>sm_waiting := w\<rparr>) = in_places ok ready ws st"
  "in_places ok ready ws (st\<lparr>sm_tick := t\<rparr>) = in_places ok ready ws st"
  by (simp_all add: in_places_def)

lemma advance_burst_sel:
  "p_state (snd (advance_burst p)) = p_state p" "p_bursts (snd (advance_burst p)) = p_bursts p"
  "p_cur_burst (snd (advance_burst p)) = p_cur_burst p + 1"
  "fst (advance_burst p) \<longleftrightarrow> p_cur_burst p + 1 < length (p_bursts p)"
  "current_burst (snd (advance_burst p)) =
     (if fst (advance_burst p) then Some (p_bursts p ! (p_cur_burst p + 1)) else None)"
  "p_arrival (snd (advance_burst p)) = p_arrival p"
  by (auto simp: advance_burst_def Let_def current_burst_def)

lemma procs_in_reset: "procs_in X (map reset_process ps) = (if X = New then {..<length ps} else {})"
  by (auto simp: procs_in_def reset_process_def)

text \<open>The end of a burst, with the null checks resolved.\<close>

lemma burst_complete_cases:
  fixes st :: "'s sim"
  assumes "p_state (sm_procs st ! i) = Running"
  obtains (stay) p where "p_state p = Running" "burst_complete i st = set_proc i p st"
  | (block) p n where "p_state p = Waiting"
      "burst_complete i st = (set_proc i p st)
         \<lparr>sm_waiting := sm_waiting st @ [(i, n)], sm_running := None, sm_ran_ticks := 0\<rparr>"
  | (finish) p where "p_state p = Terminated"
      "burst_complete i st = (set_proc i p st)\<lparr>sm_running := None, sm_ran_ticks := 0\<rparr>"
proof -
  let ?p = "sm_procs st ! i"
  obtain more q where adv: "advance_burst ?p = (more, q)" by fastforce
  have q: "p_state q = Running" "more \<Longrightarrow> \<exists>nb. current_burst q = Some nb"
    using advance_burst_sel [of ?p] adv assms by auto
  show thesis
  proof (cases "\<exists>b. current_burst ?p = Some b \<and> b_type b = CPU")
    case cpu: True
    show ?thesis
    proof (cases more)
      case True
      then obtain nb where nb: "current_burst q = Some nb" using q(2) by blast
      show ?thesis
      proof (cases "b_type nb = IO")
        case True
        then show ?thesis using cpu \<open>more\<close> nb adv
          by (intro block [of "q\<lparr>p_burst_remaining := b_ticks nb, p_state := Waiting\<rparr>" "b_ticks nb"])
             (auto simp: burst_complete_def Let_def)
      next
        case False
        then show ?thesis using cpu \<open>more\<close> nb adv q(1)
          by (intro stay [of "q\<lparr>p_burst_remaining := b_ticks nb\<rparr>"])
             (auto simp: burst_complete_def Let_def)
      qed
    next
      case False
      then show ?thesis using cpu adv
        by (intro finish [of "q\<lparr>p_state := Terminated, p_finish := sm_tick st + 1\<rparr>"])
           (auto simp: burst_complete_def)
    qed
  next
    case False
    then have "burst_complete i st = st"
      by (auto simp: burst_complete_def split: option.split)
    then show ?thesis using assms
      by (intro stay [of ?p]) (simp_all add: set_proc_def)
  qed
qed

context scheduler
begin

lemma leave_cpu_places:
  assumes "in_places ok ready ws st" "sm_running st = Some i" "p_state p \<noteq> Ready"
  shows "p_state p = Running \<Longrightarrow> in_places ok ready ws (set_proc i p st)"
    and "p_state p = Waiting \<Longrightarrow> in_places ok ready (ws @ [(i, n)]) ((set_proc i p st)\<lparr>sm_running := None\<rparr>)"
    and "p_state p = Terminated \<Longrightarrow> in_places ok ready ws ((set_proc i p st)\<lparr>sm_running := None\<rparr>)"
proof -
  note i = running_lt [OF assms(1,2)]
  have no: "i \<notin> procs_in Ready (sm_procs st)" "i \<notin> procs_in Waiting (sm_procs st)"
    using i by (auto simp: procs_in_def)
  have "ok ((sm_procs st)[i := p]) (sm_sched st)"
    using assms(1) no by (intro ok_update) (simp_all add: in_places_def)
  then show "p_state p = Running \<Longrightarrow> in_places ok ready ws (set_proc i p st)"
    and "p_state p = Waiting \<Longrightarrow> in_places ok ready (ws @ [(i, n)]) ((set_proc i p st)\<lparr>sm_running := None\<rparr>)"
    and "p_state p = Terminated \<Longrightarrow> in_places ok ready ws ((set_proc i p st)\<lparr>sm_running := None\<rparr>)"
    using assms no i by (auto simp: in_places_def procs_in_update)
qed

lemma run_one_tick_places:
  assumes "in_places ok ready (sm_waiting st) st"
  shows "in_places ok ready (sm_waiting (run_one_tick st)) (run_one_tick st)"
proof (cases "sm_running st")
  case (Some i)
  note i = running_lt [OF assms Some]
  define p where "p = (sm_procs st ! i)\<lparr>p_burst_remaining := p_burst_remaining (sm_procs st ! i) - 1\<rparr>"
  define st1 where "st1 = (set_proc i p st)\<lparr>sm_useful_ticks := sm_useful_ticks st + 1,
    sm_ran_ticks := sm_ran_ticks st + 1\<rparr>"
  have p: "p_state p = Running" using i by (simp add: p_def)
  then have 1: "in_places ok ready (sm_waiting st1) st1" "sm_running st1 = Some i"
    using leave_cpu_places(1) [OF assms Some] Some by (simp_all add: st1_def)
  have tick: "run_one_tick st = (if p_burst_remaining p = 0 then burst_complete i st1 else st1)"
    using Some by (simp add: run_one_tick_def Let_def p_def st1_def)
  have "p_state (sm_procs st1 ! i) = Running" using p i by (simp add: st1_def)
  then have "in_places ok ready (sm_waiting (burst_complete i st1)) (burst_complete i st1)"
  proof (cases rule: burst_complete_cases)
    case (stay p)
    then show ?thesis using leave_cpu_places(1) [OF 1, of p] by simp
  next
    case (block p n)
    then show ?thesis using leave_cpu_places(2) [OF 1, of p n] by (simp add: in_places_def)
  next
    case (finish p)
    then show ?thesis using leave_cpu_places(3) [OF 1, of p] by simp
  qed
  with 1 tick show ?thesis by simp
qed (use assms in \<open>simp add: run_one_tick_def\<close>)

lemma frame_waiting:
  "sm_waiting (arrivals S st) = sm_waiting st" "sm_waiting (preempt_check S st) = sm_waiting st"
  "sm_waiting (dispatch S cs st) = sm_waiting st"
proof -
  have "sm_waiting (fold (arrive_one S) js st) = sm_waiting st" for js
    by (induction js arbitrary: st) (simp_all add: arrive_one_def)
  then show "sm_waiting (arrivals S st) = sm_waiting st" by (simp add: arrivals_def)
  show "sm_waiting (preempt_check S st) = sm_waiting st"
    by (simp add: preempt_check_def split: option.split)
  show "sm_waiting (dispatch S cs st) = sm_waiting st"
    by (auto simp: dispatch_def split: option.split prod.split)
qed

abbreviation placed :: "'s sim \<Rightarrow> bool" where
  "placed st \<equiv> in_places ok ready (sm_waiting st) st"

lemma sim_step_placed:
  assumes "placed st"
  shows "placed (sim_step S cs st)"
proof -
  have "placed (arrivals S st)" using arrivals_places [OF assms] by (simp add: frame_waiting)
  then have "placed (io_completions S (arrivals S st))" by (rule io_completions_places)
  from preempt_places [OF this]
  have "placed (preempt_check S (io_completions S (arrivals S st)))" by (simp add: frame_waiting)
  from dispatch_places [OF this, of cs]
  have "placed (dispatch S cs (preempt_check S (io_completions S (arrivals S st))))"
    by (simp add: frame_waiting)
  from run_one_tick_places [OF this] show ?thesis by (simp add: sim_step_def Let_def)
qed

lemma sim_init_placed:
  assumes "\<And>ps. ok ps s" "ready s = {#}"
  shows "placed (sim_init s procs)"
  using assms by (simp add: in_places_def sim_init_def procs_in_reset)

end

subsection \<open>Remaining work\<close>

text \<open>
  The shape of the bursts of a generated process: they alternate between CPU and IO, starting
  with CPU, and none is empty.  A process that is not finished sits at a CPU burst with ticks
  left, or waits at an IO burst.
\<close>

definition wf_bursts :: "Burst list \<Rightarrow> bool" where
  "wf_bursts bs \<longleftrightarrow> bs \<noteq> [] \<and>
     (\<forall>k < length bs. b_ticks (bs ! k) \<noteq> 0 \<and> b_type (bs ! k) = (if even k then CPU else IO))"

definition proc_ok :: "Process \<Rightarrow> bool" where
  "proc_ok p \<longleftrightarrow> wf_bursts (p_bursts p) \<and>
     (case p_state p of
        Terminated \<Rightarrow> True
      | Waiting \<Rightarrow> odd (p_cur_burst p) \<and> p_cur_burst p < length (p_bursts p)
      | _ \<Rightarrow> even (p_cur_burst p) \<and> p_cur_burst p < length (p_bursts p) \<and> p_burst_remaining p \<noteq> 0)"

definition later :: "nat \<Rightarrow> Burst list \<Rightarrow> nat" where
  "later k bs = sum_list (map (\<lambda>b. unat (b_ticks b)) (drop k bs))"

definition work :: "Process \<Rightarrow> nat" where
  "work p = (if p_state p = Terminated then 0
     else later (p_cur_burst p + 1) (p_bursts p) +
       (if p_state p = Waiting then 0 else unat (p_burst_remaining p)))"

definition remaining :: "(nat \<times> u32) list \<Rightarrow> 's sim \<Rightarrow> nat" where
  "remaining ws st = sum_list (map work (sm_procs st)) + sum_list (map (\<lambda>(i, n). unat n) ws)"

definition jobs_ok :: "(nat \<times> u32) list \<Rightarrow> 's sim \<Rightarrow> bool" where
  "jobs_ok ws st \<longleftrightarrow> (\<forall>p \<in> set (sm_procs st). proc_ok p) \<and> (\<forall>n \<in> snd ` set ws. n \<noteq> 0)"

lemma later_step: "k < length bs \<Longrightarrow> later k bs = unat (b_ticks (bs ! k)) + later (Suc k) bs"
  by (simp add: later_def flip: Cons_nth_drop_Suc)

lemma later_end [simp]: "length bs \<le> k \<Longrightarrow> later k bs = 0"
  by (simp add: later_def)

lemma sum_list_map_update:
  "i < length xs \<Longrightarrow> sum_list (map f (xs[i := y])) + f (xs ! i) = sum_list (map f xs) + f y"
  for f :: "'a \<Rightarrow> nat"
proof (induction xs arbitrary: i)
  case (Cons x xs)
  then show ?case by (cases i) auto
qed simp

lemma remaining_set_proc:
  "i < length (sm_procs st) \<Longrightarrow>
   remaining ws (set_proc i p st) + work (sm_procs st ! i) = remaining ws st + work p"
  using sum_list_map_update [of i "sm_procs st" work p] by (simp add: remaining_def)

lemma jobs_ok_set_proc: "jobs_ok ws st \<Longrightarrow> proc_ok p \<Longrightarrow> jobs_ok ws (set_proc i p st)"
  by (auto simp: jobs_ok_def dest!: set_update_subset_insert [THEN subsetD])

lemma remaining_frame [simp]:
  "remaining ws (st\<lparr>sm_useful_ticks := u\<rparr>) = remaining ws st"
  "remaining ws (st\<lparr>sm_ran_ticks := r\<rparr>) = remaining ws st"
  "remaining ws (st\<lparr>sm_waiting := w\<rparr>) = remaining ws st"
  "remaining ws (st\<lparr>sm_running := x\<rparr>) = remaining ws st"
  "remaining ws (st\<lparr>sm_sched := s\<rparr>) = remaining ws st"
  "remaining ws (st\<lparr>sm_tick := t\<rparr>) = remaining ws st"
  by (simp_all add: remaining_def)

lemma jobs_ok_frame [simp]:
  "jobs_ok ws (st\<lparr>sm_useful_ticks := u\<rparr>) = jobs_ok ws st"
  "jobs_ok ws (st\<lparr>sm_ran_ticks := r\<rparr>) = jobs_ok ws st"
  "jobs_ok ws (st\<lparr>sm_waiting := w\<rparr>) = jobs_ok ws st"
  "jobs_ok ws (st\<lparr>sm_running := x\<rparr>) = jobs_ok ws st"
  "jobs_ok ws (st\<lparr>sm_sched := s\<rparr>) = jobs_ok ws st"
  "jobs_ok ws (st\<lparr>sm_tick := t\<rparr>) = jobs_ok ws st"
  by (simp_all add: jobs_ok_def)

lemma jobs_ok_nth: "jobs_ok ws st \<Longrightarrow> i < length (sm_procs st) \<Longrightarrow> proc_ok (sm_procs st ! i)"
  by (simp add: jobs_ok_def)

lemma remaining_same:
  "i < length (sm_procs st) \<Longrightarrow> work p = work (sm_procs st ! i) \<Longrightarrow>
   remaining ws (set_proc i p st) = remaining ws st"
  using remaining_set_proc [of i st ws p] by simp

lemma enqueue_eq:
  "\<exists>s. enqueue S i st = (set_proc i ((sm_procs st ! i)\<lparr>p_state := Ready\<rparr>) st)\<lparr>sm_sched := s\<rparr>"
  by (auto simp: enqueue_def Let_def)

lemma enqueue_work:
  assumes "jobs_ok ws st" "i < length (sm_procs st)" "p_state (sm_procs st ! i) \<in> {New, Running}"
  shows "jobs_ok ws (enqueue S i st)" "remaining ws (enqueue S i st) = remaining ws st"
proof -
  have "proc_ok (sm_procs st ! i)" using assms by (simp add: jobs_ok_nth)
  then have p: "proc_ok ((sm_procs st ! i)\<lparr>p_state := Ready\<rparr>)"
    "work ((sm_procs st ! i)\<lparr>p_state := Ready\<rparr>) = work (sm_procs st ! i)"
    using assms(3) by (auto simp: proc_ok_def work_def)
  obtain s where "enqueue S i st = (set_proc i ((sm_procs st ! i)\<lparr>p_state := Ready\<rparr>) st)\<lparr>sm_sched := s\<rparr>"
    using enqueue_eq [of S i st] by auto
  then show "jobs_ok ws (enqueue S i st)" "remaining ws (enqueue S i st) = remaining ws st"
    using p assms(1,2) by (simp_all add: jobs_ok_set_proc remaining_same)
qed

lemma arrivals_work:
  assumes "jobs_ok ws st"
  shows "jobs_ok ws (arrivals S st)" "remaining ws (arrivals S st) = remaining ws st"
proof -
  have "jobs_ok ws (fold (arrive_one S) js st) \<and> remaining ws (fold (arrive_one S) js st) = remaining ws st"
    if "\<forall>i \<in> set js. i < length (sm_procs st)" for js
    using that assms
  proof (induction js arbitrary: st)
    case (Cons i js)
    have "jobs_ok ws (arrive_one S i st) \<and> remaining ws (arrive_one S i st) = remaining ws st"
      using enqueue_work [of ws st i S] Cons.prems by (simp add: arrive_one_def)
    then show ?case using Cons by (simp add: arrive_one_def)
  qed simp
  then show "jobs_ok ws (arrivals S st)" "remaining ws (arrivals S st) = remaining ws st"
    by (simp_all add: arrivals_def)
qed

text \<open>A wait that is over leaves the work that comes after it.\<close>

lemma io_done_work:
  assumes "jobs_ok ws st" "i < length (sm_procs st)" "p_state (sm_procs st ! i) = Waiting"
  shows "jobs_ok ws (io_done S i st)" "remaining ws (io_done S i st) = remaining ws st"
proof -
  let ?p = "sm_procs st ! i"
  have wf: "wf_bursts (p_bursts ?p)" and cur: "odd (p_cur_burst ?p)" "p_cur_burst ?p < length (p_bursts ?p)"
    using jobs_ok_nth [OF assms(1,2)] assms(3) by (auto simp: proc_ok_def)
  have "jobs_ok ws (io_done S i st) \<and> remaining ws (io_done S i st) = remaining ws st"
  proof (cases "p_cur_burst ?p + 1 < length (p_bursts ?p)")
    case True
    define b where "b = p_bursts ?p ! (p_cur_burst ?p + 1)"
    define q where "q = ?p\<lparr>p_cur_burst := p_cur_burst ?p + 1, p_burst_remaining := b_ticks b\<rparr>"
    have b: "b_ticks b \<noteq> 0" using wf True by (simp add: b_def wf_bursts_def)
    have q: "proc_ok (q\<lparr>p_state := Ready\<rparr>)" "work (q\<lparr>p_state := Ready\<rparr>) = work ?p"
      using True wf cur b assms(3) by (auto simp: q_def b_def proc_ok_def work_def later_step)
    have "io_done S i st = enqueue S i (set_proc i q st)"
      using True by (simp add: io_done_def advance_burst_def Let_def current_burst_def q_def b_def)
    moreover obtain s where "enqueue S i (set_proc i q st) =
        (set_proc i (q\<lparr>p_state := Ready\<rparr>) (set_proc i q st))\<lparr>sm_sched := s\<rparr>"
      using enqueue_eq [of S i "set_proc i q st"] assms(2) by auto
    moreover have "set_proc i (q\<lparr>p_state := Ready\<rparr>) (set_proc i q st) = set_proc i (q\<lparr>p_state := Ready\<rparr>) st"
      by (simp add: set_proc_def)
    ultimately show ?thesis using q assms by (simp add: jobs_ok_set_proc remaining_same)
  next
    case False
    define q where "q = ?p\<lparr>p_cur_burst := p_cur_burst ?p + 1, p_state := Terminated, p_finish := sm_tick st\<rparr>"
    have "io_done S i st = set_proc i q st"
      using False by (simp add: io_done_def advance_burst_def Let_def q_def)
    moreover have "proc_ok q" "work q = work ?p"
      using False wf assms(3) by (simp_all add: q_def proc_ok_def work_def)
    ultimately show ?thesis using assms by (simp add: jobs_ok_set_proc remaining_same)
  qed
  then show "jobs_ok ws (io_done S i st)" "remaining ws (io_done S i st) = remaining ws st" by auto
qed

lemma remaining_split: "remaining ws st = remaining [] st + sum_list (map (\<lambda>(i, n). unat n) ws)"
  by (simp add: remaining_def)

lemma jobs_ok_split: "jobs_ok ws st \<longleftrightarrow> jobs_ok [] st \<and> (\<forall>n \<in> snd ` set ws. n \<noteq> 0)"
  by (auto simp: jobs_ok_def)

lemma unat_pred: "n \<noteq> 0 \<Longrightarrow> unat (n - 1) + 1 = unat n" for n :: "'a::len word"
  using unat_gt_0 [of n] by (simp add: unat_minus_one)

context scheduler
begin

lemma io_loop_work:
  assumes "jobs_ok (kept @ ws) st" "in_places ok ready (kept @ ws) st"
  shows "jobs_ok (sm_waiting (io_loop S kept ws st)) (io_loop S kept ws st) \<and>
    remaining (sm_waiting (io_loop S kept ws st)) (io_loop S kept ws st) + length ws = remaining (kept @ ws) st"
  using assms
proof (induction ws arbitrary: kept st)
  case (Cons w ws)
  obtain i n where w: "w = (i, n)" by fastforce
  have n: "n \<noteq> 0" using Cons.prems(1) by (auto simp: jobs_ok_def w)
  show ?case
  proof (cases "n - 1 = 0")
    case True
    then have n1: "unat n = 1" using unat_pred [OF n] by simp
    have wait: "in_places ok ready ((i, n) # kept @ ws) st"
      using Cons.prems(2) in_places_rotate(1) by (simp add: w)
    then have "i \<in># mset_set (procs_in Waiting (sm_procs st))"
      by (metis in_places_def list.simps(9) mset.simps(2) fst_conv union_single_eq_member)
    then have i: "i < length (sm_procs st)" "p_state (sm_procs st ! i) = Waiting"
      by (auto simp: procs_in_def)
    have ok: "jobs_ok (kept @ ws) st" using Cons.prems(1) by (auto simp: jobs_ok_def w)
    note d = io_done_work [OF ok i, of S]
    from Cons.IH [OF d(1) io_done_places [OF wait]] d(2) n1 True
    show ?thesis by (simp add: w remaining_def)
  next
    case False
    have "jobs_ok ((kept @ [(i, n - 1)]) @ ws) st" using Cons.prems(1) False by (auto simp: jobs_ok_def w)
    moreover have "in_places ok ready ((kept @ [(i, n - 1)]) @ ws) st"
      using Cons.prems(2) in_places_rotate(2) [of kept i "n - 1" ws st n]
      by (simp add: w)
    ultimately show ?thesis
      using Cons.IH [of "kept @ [(i, n - 1)]" st] False unat_pred [OF n] by (simp add: w remaining_def)
  qed
qed simp

lemma io_completions_work:
  assumes "jobs_ok (sm_waiting st) st" "placed st"
  shows "jobs_ok (sm_waiting (io_completions S st)) (io_completions S st)"
    "remaining (sm_waiting (io_completions S st)) (io_completions S st) + length (sm_waiting st) =
     remaining (sm_waiting st) st"
  using io_loop_work [of "[]" "sm_waiting st" st] assms by (simp_all add: io_completions_def)

lemma preempt_work:
  assumes "jobs_ok ws st" "in_places ok ready ws st"
  shows "jobs_ok ws (preempt_check S st)" "remaining ws (preempt_check S st) = remaining ws st"
proof -
  have "jobs_ok ws (preempt_check S st) \<and> remaining ws (preempt_check S st) = remaining ws st"
  proof (cases "sm_running st")
    case (Some i)
    then show ?thesis using enqueue_work [of ws st i S] running_lt [OF assms(2) Some] assms(1)
      by (simp add: preempt_check_def)
  qed (use assms in \<open>simp add: preempt_check_def\<close>)
  then show "jobs_ok ws (preempt_check S st)" "remaining ws (preempt_check S st) = remaining ws st" by auto
qed

lemma dispatch_work:
  assumes "jobs_ok ws st" "in_places ok ready ws st"
  shows "jobs_ok ws (dispatch S cs st)" "remaining ws (dispatch S cs st) = remaining ws st"
    "sm_running (dispatch S cs st) = None \<longleftrightarrow>
     sm_running st = None \<and> procs_in Ready (sm_procs st) = {}"
proof -
  have "jobs_ok ws (dispatch S cs st) \<and> remaining ws (dispatch S cs st) = remaining ws st \<and>
    (sm_running (dispatch S cs st) = None \<longleftrightarrow>
      sm_running st = None \<and> procs_in Ready (sm_procs st) = {})"
  proof (cases "sm_running st")
    case None
    from assms(2) None show ?thesis
    proof (cases rule: dispatch_cases [where cs = cs])
      case idle
      then have "procs_in Ready (sm_procs st) = {}"
        using assms(2) mset_set_empty_iff [of "procs_in Ready (sm_procs st)"] by (auto simp: in_places_def)
      then show ?thesis using assms(1) idle None by simp
    next
      case (pick i s')
      note i = picked_ready [OF assms(2) pick(3)]
      let ?p = "on_cpu (sm_tick st + cost_ticks cs) (sm_procs st ! i)"
      have p: "proc_ok ?p" "work ?p = work (sm_procs st ! i)"
        using jobs_ok_nth [OF assms(1) i(1)] i(2) by (simp_all add: proc_ok_def work_def)
      have "i \<in> procs_in Ready (sm_procs st)" using i by (simp add: procs_in_def)
      moreover have "jobs_ok ws (switch_to cs i (st\<lparr>sm_sched := s'\<rparr>))"
        using jobs_ok_set_proc [OF assms(1) p(1), of i] by (simp add: jobs_ok_def)
      moreover have "remaining ws (switch_to cs i (st\<lparr>sm_sched := s'\<rparr>)) = remaining ws st"
        using remaining_same [OF i(1) p(2), of ws] by (simp add: remaining_def)
      ultimately show ?thesis using pick(4) by auto
    qed
  qed (use assms in \<open>simp add: dispatch_def\<close>)
  then show "jobs_ok ws (dispatch S cs st)" "remaining ws (dispatch S cs st) = remaining ws st"
    "sm_running (dispatch S cs st) = None \<longleftrightarrow>
     sm_running st = None \<and> procs_in Ready (sm_procs st) = {}" by auto
qed

end

lemma burst_complete_wf:
  assumes p: "sm_procs st ! i = p" "i < length (sm_procs st)" "wf_bursts (p_bursts p)"
    and cur: "even (p_cur_burst p)" "p_cur_burst p < length (p_bursts p)"
  shows "burst_complete i st =
    (if p_cur_burst p + 1 < length (p_bursts p) then
       let n = b_ticks (p_bursts p ! (p_cur_burst p + 1)) in
       (set_proc i (p\<lparr>p_cur_burst := p_cur_burst p + 1, p_burst_remaining := n, p_state := Waiting\<rparr>) st)
         \<lparr>sm_waiting := sm_waiting st @ [(i, n)], sm_running := None, sm_ran_ticks := 0\<rparr>
     else (set_proc i (p\<lparr>p_cur_burst := p_cur_burst p + 1, p_state := Terminated,
         p_finish := sm_tick st + 1\<rparr>) st)\<lparr>sm_running := None, sm_ran_ticks := 0\<rparr>)"
  using assms by (simp add: burst_complete_def advance_burst_def current_burst_def Let_def wf_bursts_def)

lemma run_one_tick_work:
  assumes "jobs_ok (sm_waiting st) st" "sm_running st = Some i"
    and i: "i < length (sm_procs st)" "p_state (sm_procs st ! i) = Running"
  shows "jobs_ok (sm_waiting (run_one_tick st)) (run_one_tick st)"
    "remaining (sm_waiting (run_one_tick st)) (run_one_tick st) + 1 = remaining (sm_waiting st) st"
proof -
  let ?q = "sm_procs st ! i"
  have q: "wf_bursts (p_bursts ?q)" "even (p_cur_burst ?q)" "p_cur_burst ?q < length (p_bursts ?q)"
    "p_burst_remaining ?q \<noteq> 0"
    using jobs_ok_nth [OF assms(1) i(1)] i(2) by (auto simp: proc_ok_def)
  define p where "p = ?q\<lparr>p_burst_remaining := p_burst_remaining ?q - 1\<rparr>"
  define st1 where "st1 = (set_proc i p st)\<lparr>sm_useful_ticks := sm_useful_ticks st + 1,
    sm_ran_ticks := sm_ran_ticks st + 1\<rparr>"
  have tick: "run_one_tick st = (if p_burst_remaining p = 0 then burst_complete i st1 else st1)"
    using assms(2) by (simp add: run_one_tick_def Let_def p_def st1_def)
  have wp: "work p + 1 = work ?q" using i(2) unat_pred [OF q(4)] by (simp add: p_def work_def)
  have st1: "sm_waiting st1 = sm_waiting st" "sm_procs st1 ! i = p" "i < length (sm_procs st1)"
    using i(1) by (simp_all add: st1_def)
  have rem1: "remaining ws st1 + 1 = remaining ws st" for ws
    using remaining_set_proc [OF i(1), of ws p] wp by (simp add: st1_def)
  have jobs1: "jobs_ok ws (set_proc i x st1)" if "jobs_ok ws st" "proc_ok x" for x ws
    using jobs_ok_set_proc [OF that, of i] by (simp add: jobs_ok_def st1_def)
  show "jobs_ok (sm_waiting (run_one_tick st)) (run_one_tick st)"
    "remaining (sm_waiting (run_one_tick st)) (run_one_tick st) + 1 = remaining (sm_waiting st) st"
  proof (atomize (full), cases "p_burst_remaining p = 0")
    case False
    then have "proc_ok p" using q i(2) by (simp add: p_def proc_ok_def)
    then show "jobs_ok (sm_waiting (run_one_tick st)) (run_one_tick st) \<and>
      remaining (sm_waiting (run_one_tick st)) (run_one_tick st) + 1 = remaining (sm_waiting st) st"
      using False tick rem1 st1(1) jobs_ok_set_proc [OF assms(1), of p i] by (simp add: st1_def)
  next
    case True
    have p: "wf_bursts (p_bursts p)" "even (p_cur_burst p)" "p_cur_burst p < length (p_bursts p)"
      "p_state p = Running" "work p = later (p_cur_burst p + 1) (p_bursts p)"
      using q i(2) True by (simp_all add: p_def work_def)
    note bc = burst_complete_wf [OF st1(2,3) p(1-3)]
    show "jobs_ok (sm_waiting (run_one_tick st)) (run_one_tick st) \<and>
      remaining (sm_waiting (run_one_tick st)) (run_one_tick st) + 1 = remaining (sm_waiting st) st"
    proof (cases "p_cur_burst p + 1 < length (p_bursts p)")
      case more: True
      define n where "n = b_ticks (p_bursts p ! (p_cur_burst p + 1))"
      define x where "x = p\<lparr>p_cur_burst := p_cur_burst p + 1, p_burst_remaining := n, p_state := Waiting\<rparr>"
      have n: "n \<noteq> 0" using p(1) more by (simp add: n_def wf_bursts_def)
      have x: "proc_ok x" "work x + unat n = work p"
        using p more by (simp_all add: x_def proc_ok_def work_def n_def later_step)
      have run: "run_one_tick st = (set_proc i x st1)
          \<lparr>sm_waiting := sm_waiting st @ [(i, n)], sm_running := None, sm_ran_ticks := 0\<rparr>"
        using True tick bc more st1(1) by (simp add: Let_def n_def x_def)
      have "jobs_ok (sm_waiting st @ [(i, n)]) st" using assms(1) n by (auto simp: jobs_ok_def)
      moreover have "remaining (sm_waiting st @ [(i, n)]) (set_proc i x st1) + 1 = remaining (sm_waiting st) st"
        using remaining_set_proc [OF st1(3), of "sm_waiting st" x] rem1 [of "sm_waiting st"] x(2) st1(2)
        by (simp add: remaining_def)
      ultimately show ?thesis using jobs1 x(1) run by simp
    next
      case False
      define x where "x = p\<lparr>p_cur_burst := p_cur_burst p + 1, p_state := Terminated, p_finish := sm_tick st1 + 1\<rparr>"
      have x: "proc_ok x" "work x = work p" using p False by (simp_all add: x_def proc_ok_def work_def)
      have run: "run_one_tick st = (set_proc i x st1)\<lparr>sm_running := None, sm_ran_ticks := 0\<rparr>"
        using True tick bc False by (simp add: x_def)
      then show ?thesis using jobs1 [OF assms(1) x(1)] remaining_same [OF st1(3), of x] x(2) rem1 st1(1,2)
        by simp
    qed
  qed
qed

subsection \<open>Arrivals and the clock\<close>

definition news :: "Process list \<Rightarrow> u32 option list" where
  "news ps = map (\<lambda>p. if p_state p = New then Some (p_arrival p) else None) ps"

lemma length_news [simp]: "length (news ps) = length ps"
  by (simp add: news_def)

lemma news_update:
  "i < length ps \<Longrightarrow> p_state (ps ! i) \<noteq> New \<Longrightarrow> p_state p \<noteq> New \<Longrightarrow> news (ps[i := p]) = news ps"
  by (rule nth_equalityI) (auto simp: news_def nth_list_update)

lemma news_leave: "i < length ps \<Longrightarrow> p_state p \<noteq> New \<Longrightarrow> news (ps[i := p]) = (news ps)[i := None]"
  by (rule nth_equalityI) (auto simp: news_def nth_list_update)

lemma frame_tick [simp]:
  "sm_tick (arrive_one S i st) = sm_tick st" "sm_tick (io_done S i st) = sm_tick st"
  "sm_tick (io_loop S kept ws st) = sm_tick st" "sm_tick (preempt_check S st) = sm_tick st"
  "sm_tick (io_completions S st) = sm_tick st" "sm_tick (arrivals S st) = sm_tick st"
  "sm_tick (burst_complete i st) = sm_tick st" "sm_tick (run_one_tick st) = sm_tick st"
proof -
  show one: "sm_tick (arrive_one S i st) = sm_tick st" for i and st :: "'b sim" and S
    by (simp add: arrive_one_def)
  show io: "sm_tick (io_done S i st) = sm_tick st" for i and st :: "'c sim" and S
    by (simp add: io_done_def split_beta Let_def)
  have loop: "sm_tick (io_loop S kept ws st) = sm_tick st" for kept ws and st :: "'d sim" and S
    by (induction S kept ws st rule: io_loop.induct) (simp_all add: io_done_def split_beta Let_def)
  then show "sm_tick (io_loop S kept ws st) = sm_tick st" .
  show "sm_tick (preempt_check S st) = sm_tick st"
    by (simp add: preempt_check_def split: option.split)
  show "sm_tick (io_completions S st) = sm_tick st" by (simp add: io_completions_def loop)
  have "sm_tick (fold (arrive_one S) js st) = sm_tick st" for js and st :: "'b sim" and S
    by (induction js arbitrary: st) (simp_all add: one)
  then show "sm_tick (arrivals S st) = sm_tick st" by (simp add: arrivals_def)
  show bc: "sm_tick (burst_complete i st) = sm_tick st" for i and st :: "'e sim"
    by (auto simp: burst_complete_def Let_def split: option.split bool.split prod.split)
  show "sm_tick (run_one_tick st) = sm_tick st"
    by (auto simp: run_one_tick_def Let_def bc split: option.split)
qed

text \<open>The arrivals of a tick are exactly the processes due at it.\<close>

lemma arrive_one_news:
  "i < length (sm_procs st) \<Longrightarrow>
   news (sm_procs (arrive_one S i st)) =
     (if news (sm_procs st) ! i = Some (sm_tick st) then (news (sm_procs st))[i := None] else news (sm_procs st))"
  by (auto simp: arrive_one_def news_leave) (auto simp: news_def split: if_splits)

lemma arrivals_news:
  "news (sm_procs (arrivals S st)) =
   map (\<lambda>x. if x = Some (sm_tick st) then None else x) (news (sm_procs st))"
proof -
  let ?f = "\<lambda>x. if x = Some (sm_tick st) then None else x"
  have "news (sm_procs (fold (arrive_one S) [0 ..< m] st)) = map ?f (take m (news (sm_procs st))) @ drop m (news (sm_procs st)) \<and>
      length (sm_procs (fold (arrive_one S) [0 ..< m] st)) = length (sm_procs st) \<and>
      sm_tick (fold (arrive_one S) [0 ..< m] st) = sm_tick st"
    if "m \<le> length (sm_procs st)" for m
    using that
  proof (induction m)
    case (Suc m)
    let ?st = "fold (arrive_one S) [0 ..< m] st"
    have len: "length (sm_procs (arrive_one S m ?st)) = length (sm_procs ?st)" by (simp add: arrive_one_def)
    have "drop m (news (sm_procs st)) = news (sm_procs st) ! m # drop (Suc m) (news (sm_procs st))"
      using Suc.prems by (simp add: Cons_nth_drop_Suc)
    moreover have "take (Suc m) (news (sm_procs st)) = take m (news (sm_procs st)) @ [news (sm_procs st) ! m]"
      using Suc.prems by (simp add: take_Suc_conv_app_nth)
    ultimately show ?case
      using Suc len arrive_one_news [of m ?st S]
      by (auto simp: nth_append list_update_append min_def)
  qed simp
  from this [of "length (sm_procs st)"] show ?thesis by (simp add: arrivals_def)
qed

context scheduler
begin

lemma waiting_lt:
  assumes "in_places ok ready ws st" "i \<in> fst ` set ws"
  shows "i < length (sm_procs st)" "p_state (sm_procs st ! i) = Waiting"
proof -
  have "i \<in># mset (map fst ws)" using assms(2) by simp
  then have "i \<in># mset_set (procs_in Waiting (sm_procs st))" using assms(1) by (metis in_places_def)
  then show "i < length (sm_procs st)" "p_state (sm_procs st ! i) = Waiting" by (auto simp: procs_in_def)
qed

lemma io_done_news:
  assumes "i < length (sm_procs st)" "p_state (sm_procs st ! i) = Waiting"
  shows "news (sm_procs (io_done S i st)) = news (sm_procs st)"
  using assms by (auto simp: io_done_def split_beta Let_def news_update)

lemma io_loop_news:
  "in_places ok ready (kept @ ws) st \<Longrightarrow> news (sm_procs (io_loop S kept ws st)) = news (sm_procs st)"
proof (induction ws arbitrary: kept st)
  case (Cons w ws)
  obtain i n where w: "w = (i, n)" by fastforce
  have i: "i < length (sm_procs st)" "p_state (sm_procs st ! i) = Waiting"
    using waiting_lt [OF Cons.prems, of i] by (auto simp: w)
  have "in_places ok ready (kept @ ws) (io_done S i st)"
    using Cons.prems io_done_places [of i n "kept @ ws" st] by (simp add: w in_places_rotate(1))
  moreover have "in_places ok ready ((kept @ [(i, n - 1)]) @ ws) st"
    using Cons.prems in_places_rotate(2) [of kept i "n - 1" ws st n] by (simp add: w)
  ultimately show ?case using Cons.IH io_done_news [OF i] by (simp add: w)
qed simp

lemma preempt_news: "in_places ok ready ws st \<Longrightarrow> news (sm_procs (preempt_check S st)) = news (sm_procs st)"
  using running_lt [of ws st] by (auto simp: preempt_check_def news_update split: option.split)

lemma dispatch_news:
  assumes "in_places ok ready ws st"
  shows "news (sm_procs (dispatch S cs st)) = news (sm_procs st)"
proof (cases "sm_running st")
  case None
  from assms None show ?thesis
  proof (cases rule: dispatch_cases [where cs = cs])
    case (pick i s')
    then show ?thesis using picked_ready [OF assms pick(3)] by (simp add: news_update)
  qed simp
qed (simp add: dispatch_def)

lemma run_one_tick_news:
  assumes "in_places ok ready ws st"
  shows "news (sm_procs (run_one_tick st)) = news (sm_procs st)"
proof (cases "sm_running st")
  case (Some i)
  note i = running_lt [OF assms Some]
  define p where "p = (sm_procs st ! i)\<lparr>p_burst_remaining := p_burst_remaining (sm_procs st ! i) - 1\<rparr>"
  define st1 where "st1 = (set_proc i p st)\<lparr>sm_useful_ticks := sm_useful_ticks st + 1,
    sm_ran_ticks := sm_ran_ticks st + 1\<rparr>"
  have tick: "run_one_tick st = (if p_burst_remaining p = 0 then burst_complete i st1 else st1)"
    using Some by (simp add: run_one_tick_def Let_def p_def st1_def)
  have st1: "i < length (sm_procs st1)" "p_state (sm_procs st1 ! i) = Running"
    "news (sm_procs st1) = news (sm_procs st)" using i by (simp_all add: st1_def p_def news_update)
  from st1(2) have "news (sm_procs (burst_complete i st1)) = news (sm_procs st1)"
    by (cases rule: burst_complete_cases) (use st1(1,2) in \<open>simp_all add: news_update\<close>)
  with tick st1(3) show ?thesis by simp
qed (simp add: run_one_tick_def)

end

subsection \<open>The loop\<close>

lemma dispatch_tick:
  "sm_tick (dispatch S cs st) = sm_tick st \<and> sm_cs_overhead (dispatch S cs st) = sm_cs_overhead st \<or>
   sm_tick (dispatch S cs st) = sm_tick st + cost_ticks cs \<and>
   sm_cs_overhead (dispatch S cs st) = sm_cs_overhead st + cost_ticks cs"
  by (auto simp: dispatch_def split: option.split prod.split)

lemma frame_useful [simp]:
  "sm_useful_ticks (arrivals S st) = sm_useful_ticks st" "sm_cs_overhead (arrivals S st) = sm_cs_overhead st"
  "sm_useful_ticks (io_completions S st) = sm_useful_ticks st"
  "sm_cs_overhead (io_completions S st) = sm_cs_overhead st"
  "sm_useful_ticks (preempt_check S st) = sm_useful_ticks st"
  "sm_cs_overhead (preempt_check S st) = sm_cs_overhead st"
  "sm_useful_ticks (dispatch S cs st) = sm_useful_ticks st"
  "sm_cs_overhead (run_one_tick st) = sm_cs_overhead st"
proof -
  have "sm_useful_ticks (fold (arrive_one S) js st) = sm_useful_ticks st \<and>
    sm_cs_overhead (fold (arrive_one S) js st) = sm_cs_overhead st" for js
    by (induction js arbitrary: st) (simp_all add: arrive_one_def)
  then show "sm_useful_ticks (arrivals S st) = sm_useful_ticks st"
    "sm_cs_overhead (arrivals S st) = sm_cs_overhead st" by (simp_all add: arrivals_def)
  have "sm_useful_ticks (io_loop S kept ws st) = sm_useful_ticks st \<and>
    sm_cs_overhead (io_loop S kept ws st) = sm_cs_overhead st" for kept ws
    by (induction S kept ws st rule: io_loop.induct) (simp_all add: io_done_def split_beta Let_def)
  then show "sm_useful_ticks (io_completions S st) = sm_useful_ticks st"
    "sm_cs_overhead (io_completions S st) = sm_cs_overhead st" by (simp_all add: io_completions_def)
  show "sm_useful_ticks (preempt_check S st) = sm_useful_ticks st"
    "sm_cs_overhead (preempt_check S st) = sm_cs_overhead st"
    by (simp_all add: preempt_check_def split: option.split)
  show "sm_useful_ticks (dispatch S cs st) = sm_useful_ticks st"
    by (auto simp: dispatch_def split: option.split prod.split)
  show "sm_cs_overhead (run_one_tick st) = sm_cs_overhead st"
    by (auto simp: run_one_tick_def burst_complete_def Let_def split: option.split prod.split bool.split)
qed

lemma run_one_tick_useful:
  "sm_useful_ticks (run_one_tick st) = sm_useful_ticks st + (if sm_running st = None then 0 else 1)"
  by (auto simp: run_one_tick_def burst_complete_def Let_def split: option.split prod.split bool.split)

text \<open>One iteration advances the clock by one tick and the cost of a switch, if there was one.\<close>

lemma sim_step_clock:
  obtains c u where "c = 0 \<or> c = cost_ticks cs" "u = 0 \<or> u = 1"
    "sm_tick (sim_step S cs st) = sm_tick st + c + 1"
    "sm_cs_overhead (sim_step S cs st) = sm_cs_overhead st + c"
    "sm_useful_ticks (sim_step S cs st) = sm_useful_ticks st + u"
proof -
  let ?st = "preempt_check S (io_completions S (arrivals S st))"
  obtain c where "c = 0 \<or> c = cost_ticks cs" "sm_tick (dispatch S cs ?st) = sm_tick st + c"
    "sm_cs_overhead (dispatch S cs ?st) = sm_cs_overhead st + c"
    using dispatch_tick [of S cs ?st] by fastforce
  then show thesis
    by (intro that [of c "if sm_running (dispatch S cs ?st) = None then 0 else 1"])
       (auto simp: sim_step_def Let_def run_one_tick_useful)
qed

lemma real_ratio_le_1: "a \<le> b \<Longrightarrow> real a / real b \<le> 1"
  by (cases "b = 0") (simp_all add: divide_le_eq_1)

definition cost_fits :: "CsModel \<Rightarrow> bool" where
  "cost_fits cs \<longleftrightarrow> unat (cost_ticks cs) + 50000 < 2 ^ 32"

lemma max_ticks_unat: "t < max_ticks \<longleftrightarrow> unat t < 50000" for t :: u32
  by (simp add: word_less_nat_alt)

lemma sim_step_clock_nat:
  assumes "cost_fits cs" "sm_tick st < max_ticks"
  obtains c u where "c = 0 \<or> c = unat (cost_ticks cs)" "u = 0 \<or> u = (1::nat)"
    "unat (sm_tick (sim_step S cs st)) = unat (sm_tick st) + c + 1"
    "sm_cs_overhead (sim_step S cs st) = sm_cs_overhead st + of_nat c"
    "sm_useful_ticks (sim_step S cs st) = sm_useful_ticks st + of_nat u"
proof -
  obtain c u where s: "c = 0 \<or> c = cost_ticks cs" "u = 0 \<or> u = 1"
    "sm_tick (sim_step S cs st) = sm_tick st + c + 1"
    "sm_cs_overhead (sim_step S cs st) = sm_cs_overhead st + c"
    "sm_useful_ticks (sim_step S cs st) = sm_useful_ticks st + u"
    by (rule sim_step_clock [of cs S st])
  have b: "unat (sm_tick st) + unat c + 1 < 2 ^ 32"
    using assms s(1) unfolding cost_fits_def max_ticks_unat by auto
  then have "unat (sm_tick st + c) = unat (sm_tick st) + unat c" by (intro unat_plus_less) simp
  with b have "unat (sm_tick st + c + 1) = unat (sm_tick st) + unat c + 1"
    using unat_plus_less [of "sm_tick st + c" 1] by simp
  with s show thesis by (intro that [of "unat c" "unat u"]) auto
qed

text \<open>
  Every invariant of the iterations holds of the result, and there is a result: the clock grows
  until the cap.
\<close>

lemma sim_loop_rule:
  assumes "cost_fits cs" "P st"
    and step: "\<And>st. P st \<Longrightarrow> \<not> all_done (sm_procs st) \<Longrightarrow> sm_tick st < max_ticks \<Longrightarrow> P (sim_step S cs st)"
  shows "\<exists>st'. sim_loop S cs st = Some st' \<and> P st' \<and>
    (all_done (sm_procs st') \<or> \<not> sm_tick st' < max_ticks)"
  using assms(2)
proof (induction "50000 - unat (sm_tick st)" arbitrary: st rule: less_induct)
  case less
  show ?case
  proof (cases "\<not> all_done (sm_procs st) \<and> sm_tick st < max_ticks")
    case True
    obtain c where c: "unat (sm_tick (sim_step S cs st)) = unat (sm_tick st) + c + 1"
      by (rule sim_step_clock_nat [of cs st S]) (use assms(1) True in auto)
    have "50000 - unat (sm_tick (sim_step S cs st)) < 50000 - unat (sm_tick st)"
      using c True by (auto simp: max_ticks_unat)
    from less.hyps [OF this step [OF less.prems]] True show ?thesis
      by (subst sim_loop.simps) auto
  next
    case False
    then show ?thesis using less.prems by (subst sim_loop.simps) auto
  qed
qed

text \<open>
  Accounting.  With a switch cost below \<open>2^32 - 50000\<close> a simulation returns under every
  scheduler object, the ticks spent running and the ticks spent switching fit in the total, and
  the reported utilization is between 0 and 1.
\<close>

theorem simulate_accounts:
  assumes "unat (cost_ticks cs) + 50000 < 2 ^ 32"
  shows "\<exists>st r. sim_loop S cs (sim_init s procs) = Some st \<and> simulate S s procs cs = Some r \<and>
    unat (sm_useful_ticks st) + unat (total_overhead_ticks r) \<le> unat (total_ticks r) \<and>
    0 \<le> cpu_util r \<and> cpu_util r \<le> 1 \<and>
    (all_done (sm_procs st) \<or> 50000 \<le> unat (total_ticks r)) \<and>
    unat (total_ticks r) \<le> 50000 + unat (cost_ticks cs)"
proof -
  let ?P = "\<lambda>st :: 'a sim. unat (sm_useful_ticks st) + unat (sm_cs_overhead st) \<le> unat (sm_tick st) \<and>
    unat (sm_tick st) \<le> 50000 + unat (cost_ticks cs)"
  have fits: "cost_fits cs" using assms by (simp add: cost_fits_def)
  have "?P (sim_init s procs)" by (simp add: sim_init_def)
  moreover have "?P (sim_step S cs st)" if P: "?P st" and t: "sm_tick st < max_ticks" for st
  proof -
    obtain c u where c: "c = 0 \<or> c = unat (cost_ticks cs)" "u = 0 \<or> u = (1::nat)"
      "unat (sm_tick (sim_step S cs st)) = unat (sm_tick st) + c + 1"
      "sm_cs_overhead (sim_step S cs st) = sm_cs_overhead st + of_nat c"
      "sm_useful_ticks (sim_step S cs st) = sm_useful_ticks st + of_nat u"
      by (rule sim_step_clock_nat [OF fits t])
    have "unat (sm_cs_overhead st + of_nat c) \<le> unat (sm_cs_overhead st) + c"
      "unat (sm_useful_ticks st + of_nat u) \<le> unat (sm_useful_ticks st) + u"
      using c(1,2) by (auto simp: unat_word_ariths intro: order_trans [OF mod_less_eq_dividend])
    then show ?thesis using P c t by (auto simp: max_ticks_unat)
  qed
  ultimately obtain st where st: "sim_loop S cs (sim_init s procs) = Some st" "?P st"
    "all_done (sm_procs st) \<or> \<not> sm_tick st < max_ticks"
    using sim_loop_rule [OF fits, of ?P "sim_init s procs" S] by blast
  have "0 \<le> cpu_util (sim_metrics st)" "cpu_util (sim_metrics st) \<le> 1"
    using st(2) real_ratio_le_1 [of "unat (sm_useful_ticks st)" "unat (sm_tick st)"]
    by (simp_all add: sim_metrics_def Let_def del: of_nat_unat)
  then show ?thesis using st
    by (auto simp: simulate_def max_ticks_unat sim_metrics_def Let_def not_less intro!: exI [of _ st])
qed

definition demo_procs :: "Process list" where
  "demo_procs = [Process_default\<lparr>p_pid := 1, p_bursts := [\<lparr>b_type = CPU, b_ticks = 2\<rparr>]\<rparr>,
     Process_default\<lparr>p_pid := 2, p_arrival := 1, p_bursts := [\<lparr>b_type = CPU, b_ticks = 1\<rparr>]\<rparr>]"

theorem simulate_accounts_witness:
  "\<exists>r. simulate FCFS [] demo_procs \<lparr>cost_ticks = 5, warmup_ticks = 0, warmup_denom = 1\<rparr> = Some r \<and>
     cpu_util r \<le> 1"
  using simulate_accounts [of "\<lparr>cost_ticks = 5, warmup_ticks = 0, warmup_denom = 1\<rparr>" FCFS "[]" demo_procs]
  by auto

subsection \<open>Every process finishes\<close>

lemma all_done_states: "all_done ps \<longleftrightarrow> (\<forall>i < length ps. p_state (ps ! i) = Terminated)"
  by (auto simp: all_done_def list_all_length)

lemma sum_list_zero_nat: "sum_list xs = 0 \<longleftrightarrow> (\<forall>x \<in> set xs. x = 0)" for xs :: "nat list"
  by (induction xs) auto

lemma no_new: "set (news ps) \<subseteq> {None} \<Longrightarrow> procs_in New ps = {}"
  by (force simp: news_def procs_in_def dest: nth_mem)

lemma work_pos: "proc_ok p \<Longrightarrow> p_state p \<in> {New, Ready, Running} \<Longrightarrow> 0 < work p"
  by (auto simp: proc_ok_def work_def unat_gt_0)

definition due_by :: "nat \<Rightarrow> 's sim \<Rightarrow> bool" where
  "due_by A st \<longleftrightarrow> (\<forall>a. Some a \<in> set (news (sm_procs st)) \<longrightarrow>
     unat (sm_tick st) \<le> unat a \<and> unat a \<le> A)"

context scheduler
begin

lemma remaining_zero:
  assumes "jobs_ok ws st" "in_places ok ready ws st"
  shows "remaining ws st = 0 \<longleftrightarrow> all_done (sm_procs st)"
proof
  assume 0: "remaining ws st = 0"
  have "p_state (sm_procs st ! i) = Terminated" if i: "i < length (sm_procs st)" for i
  proof (rule ccontr)
    assume nt: "p_state (sm_procs st ! i) \<noteq> Terminated"
    have "work (sm_procs st ! i) = 0" using 0 i by (auto simp: remaining_def sum_list_zero_nat)
    with work_pos [OF jobs_ok_nth [OF assms(1) i]] nt have w: "p_state (sm_procs st ! i) = Waiting"
      by (cases "p_state (sm_procs st ! i)") auto
    then have "i \<in># mset_set (procs_in Waiting (sm_procs st))" using i by (simp add: procs_in_def)
    then have "i \<in># mset (map fst ws)" using assms(2) by (metis in_places_def)
    then obtain n where n: "(i, n) \<in> set ws" by auto
    then have "n \<noteq> 0" using assms(1) by (force simp: jobs_ok_def)
    moreover have "unat n = 0" using 0 n by (force simp: remaining_def sum_list_zero_nat)
    ultimately show False by (simp add: unat_eq_0)
  qed
  then show "all_done (sm_procs st)" by (simp add: all_done_states)
next
  assume fin: "all_done (sm_procs st)"
  then have "procs_in Waiting (sm_procs st) = {}" by (auto simp: all_done_states procs_in_def)
  then have "ws = []" using assms(2) by (simp add: in_places_def)
  moreover have "\<forall>p \<in> set (sm_procs st). work p = 0" using fin by (auto simp: all_done_def list_all_iff work_def)
  ultimately show "remaining ws st = 0" by (auto simp: remaining_def sum_list_zero_nat)
qed

lemma sim_step_work:
  assumes "jobs_ok (sm_waiting st) st" "placed st" and st'_def: "st' = sim_step S cs st"
  shows "jobs_ok (sm_waiting st') st'" "remaining (sm_waiting st') st' \<le> remaining (sm_waiting st) st"
    "news (sm_procs st') = map (\<lambda>x. if x = Some (sm_tick st) then None else x) (news (sm_procs st))"
    "set (news (sm_procs st')) \<subseteq> {None} \<Longrightarrow> \<not> all_done (sm_procs st) \<Longrightarrow>
     remaining (sm_waiting st') st' < remaining (sm_waiting st) st"
proof -
  define st1 where "st1 = arrivals S st"
  define st2 where "st2 = io_completions S st1"
  define st3 where "st3 = preempt_check S st2"
  define st4 where "st4 = dispatch S cs st3"
  define st5 where "st5 = run_one_tick st4"
  have st': "st' = st5\<lparr>sm_tick := sm_tick st5 + 1\<rparr>"
    by (simp add: st'_def sim_step_def Let_def st5_def st4_def st3_def st2_def st1_def)
  have w: "sm_waiting st1 = sm_waiting st" "sm_waiting st3 = sm_waiting st2" "sm_waiting st4 = sm_waiting st2"
    by (simp_all add: st1_def st3_def st4_def frame_waiting)
  have p1: "placed st1" using arrivals_places [OF assms(2)] w by (simp add: st1_def)
  have p2: "placed st2" unfolding st2_def by (rule io_completions_places [OF p1])
  have p3: "placed st3" using preempt_places [OF p2] w by (simp add: st3_def)
  have p4: "placed st4" using dispatch_places [OF p3] w by (simp add: st4_def)
  have j1: "jobs_ok (sm_waiting st1) st1" "remaining (sm_waiting st1) st1 = remaining (sm_waiting st) st"
    using arrivals_work [OF assms(1), of S] w by (simp_all add: st1_def)
  note j2 = io_completions_work [OF j1(1) p1, folded st2_def]
  have j3: "jobs_ok (sm_waiting st3) st3" "remaining (sm_waiting st3) st3 = remaining (sm_waiting st2) st2"
    using preempt_work [OF j2(1) p2] w by (simp_all add: st3_def)
  have j4: "jobs_ok (sm_waiting st4) st4" "remaining (sm_waiting st4) st4 = remaining (sm_waiting st3) st3"
    using dispatch_work(1,2) [OF j3(1) p3, of cs] w by (simp_all add: st4_def)
  have j5: "jobs_ok (sm_waiting st5) st5 \<and> remaining (sm_waiting st5) st5 \<le> remaining (sm_waiting st4) st4 \<and>
      (sm_running st4 \<noteq> None \<longrightarrow> remaining (sm_waiting st5) st5 < remaining (sm_waiting st4) st4)"
  proof (cases "sm_running st4")
    case (Some i)
    then show ?thesis using run_one_tick_work [OF j4(1) Some] running_lt [OF p4 Some] by (simp add: st5_def)
  qed (use j4 in \<open>simp add: st5_def run_one_tick_def\<close>)
  then show "jobs_ok (sm_waiting st') st'" by (simp add: st')
  show "remaining (sm_waiting st') st' \<le> remaining (sm_waiting st) st"
    using j1 j2 j3 j4 j5 by (simp add: st')
  have n: "news (sm_procs st5) = news (sm_procs st1)" "news (sm_procs st3) = news (sm_procs st1)"
    using run_one_tick_news [OF p4] dispatch_news [OF p3, of cs] preempt_news [OF p2]
      io_loop_news [of "[]" "sm_waiting st1" st1] p1
    by (simp_all add: st5_def st4_def st3_def st2_def io_completions_def)
  then show "news (sm_procs st') = map (\<lambda>x. if x = Some (sm_tick st) then None else x) (news (sm_procs st))"
    by (simp add: st' st1_def arrivals_news)
  assume old: "set (news (sm_procs st')) \<subseteq> {None}" and nd: "\<not> all_done (sm_procs st)"
  show "remaining (sm_waiting st') st' < remaining (sm_waiting st) st"
  proof (cases "sm_waiting st = []")
    case False
    then have "0 < length (sm_waiting st1)" using w by simp
    moreover have "remaining (sm_waiting st') st' \<le> remaining (sm_waiting st4) st4" using j5 by (simp add: st')
    ultimately show ?thesis using j1(2) j2(2) j3(2) j4(2) by linarith
  next
    case True
    have "sm_running st4 \<noteq> None"
    proof
      assume "sm_running st4 = None"
      then have idle: "sm_running st3 = None" "procs_in Ready (sm_procs st3) = {}"
        using dispatch_work(3) [OF j3(1) p3, of cs] by (simp_all add: st4_def)
      have "sm_waiting st3 = []" using True w by (simp add: st2_def io_completions_def)
      then have "procs_in Waiting (sm_procs st3) = {}" "procs_in Running (sm_procs st3) = {}"
        using p3 idle(1) mset_set_empty_iff [of "procs_in Waiting (sm_procs st3)"] by (auto simp: in_places_def)
      moreover have "procs_in New (sm_procs st3) = {}"
        using old n by (intro no_new) (simp add: st')
      ultimately have "p_state (sm_procs st3 ! i) = Terminated" if "i < length (sm_procs st3)" for i
        using that idle(2) by (cases "p_state (sm_procs st3 ! i)") (auto simp: procs_in_def)
      then have "remaining (sm_waiting st3) st3 = 0"
        using remaining_zero [OF j3(1) p3] by (simp add: all_done_states)
      then have "remaining (sm_waiting st) st = 0" using j1 j2 j3 True w by simp
      then show False using remaining_zero [OF assms(1,2)] nd by simp
    qed
    then show ?thesis using j1 j2 j3 j4 j5 by (simp add: st')
  qed
qed

text \<open>
  With free context switches no arrival is missed, so after the last arrival every iteration
  reduces the remaining work.
\<close>

lemma sim_step_due:
  assumes "jobs_ok (sm_waiting st) st" "placed st" "due_by A st" "cost_ticks cs = 0" "sm_tick st < max_ticks"
  shows "due_by A (sim_step S cs st)" "unat (sm_tick (sim_step S cs st)) = unat (sm_tick st) + 1"
    "A \<le> unat (sm_tick st) \<Longrightarrow> set (news (sm_procs (sim_step S cs st))) \<subseteq> {None}"
proof -
  note n = sim_step_work(3) [OF assms(1,2) refl, of cs]
  have fits: "cost_fits cs" using assms(4) by (simp add: cost_fits_def)
  show t: "unat (sm_tick (sim_step S cs st)) = unat (sm_tick st) + 1"
    by (rule sim_step_clock_nat [OF fits assms(5), of S]) (use assms(4) in auto)
  have old: "Some a \<in> set (news (sm_procs st)) \<and> a \<noteq> sm_tick st"
    if "Some a \<in> set (news (sm_procs (sim_step S cs st)))" for a
    using that by (auto simp: n split: if_splits)
  have later: "unat (sm_tick st) < unat a \<and> unat a \<le> A"
    if "Some a \<in> set (news (sm_procs (sim_step S cs st)))" for a
  proof -
    have "unat (sm_tick st) \<le> unat a \<and> unat a \<le> A" using old [OF that] assms(3) by (auto simp: due_by_def)
    moreover have "unat a \<noteq> unat (sm_tick st)" using old [OF that] by (auto dest: unsigned_word_eqI)
    ultimately show ?thesis by linarith
  qed
  then show "due_by A (sim_step S cs st)" by (simp add: due_by_def t Suc_le_eq)
  show "set (news (sm_procs (sim_step S cs st))) \<subseteq> {None}" if "A \<le> unat (sm_tick st)"
  proof
    fix x assume x: "x \<in> set (news (sm_procs (sim_step S cs st)))"
    show "x \<in> {None}"
    proof (cases x)
      case (Some a)
      then show ?thesis using later [of a] x that by simp
    qed simp
  qed
qed

lemma completes:
  assumes "jobs_ok (sm_waiting st) st" "placed st" "due_by A st" "cost_ticks cs = 0" "sm_tick st = 0"
    "A + remaining (sm_waiting st) st < 50000"
  shows "\<exists>st'. sim_loop S cs st = Some st' \<and> placed st' \<and> all_done (sm_procs st') \<and>
    unat (sm_tick st') \<le> A + remaining (sm_waiting st) st"
proof -
  let ?R = "remaining (sm_waiting st) st"
  let ?P = "\<lambda>st. jobs_ok (sm_waiting st) st \<and> placed st \<and> due_by A st \<and>
    remaining (sm_waiting st) st + (unat (sm_tick st) - A) \<le> ?R"
  have fits: "cost_fits cs" using assms(4) by (simp add: cost_fits_def)
  have "?P st" using assms by simp
  moreover have "?P (sim_step S cs st)"
    if P: "?P st" and nd: "\<not> all_done (sm_procs st)" and t: "sm_tick st < max_ticks" for st
  proof -
    have i: "jobs_ok (sm_waiting st) st" "placed st" "due_by A st" using P by auto
    note w = sim_step_work [OF i(1,2) refl, of cs]
    note d = sim_step_due [OF i assms(4) t]
    show ?thesis
      using w(1,2) w(4) [OF _ nd] d P sim_step_placed [OF i(2), of cs]
      by (cases "A \<le> unat (sm_tick st)") auto
  qed
  ultimately obtain st' where st': "sim_loop S cs st = Some st'" "?P st'"
    "all_done (sm_procs st') \<or> \<not> sm_tick st' < max_ticks"
    using sim_loop_rule [OF fits, of ?P st S] by blast
  then have "unat (sm_tick st') \<le> A + ?R" by linarith
  moreover from this have "sm_tick st' < max_ticks" using assms(6) by (simp add: max_ticks_unat)
  ultimately show ?thesis using st' by auto
qed

end

subsection \<open>Generated workloads\<close>

definition draws_in_range :: "'g draw \<Rightarrow> bool" where
  "draws_in_range cpu_dist \<longleftrightarrow> (\<forall>g lo hi. lo \<le> hi \<longrightarrow> lo \<le> fst (cpu_dist g lo hi) \<and> fst (cpu_dist g lo hi) \<le> hi)"

lemma draws_in_rangeD:
  "draws_in_range cpu_dist \<Longrightarrow> lo \<le> hi \<Longrightarrow> lo \<le> fst (cpu_dist g lo hi) \<and> fst (cpu_dist g lo hi) \<le> hi"
  by (simp add: draws_in_range_def)

definition burst_bound :: "WorkloadType \<Rightarrow> nat \<Rightarrow> nat" where
  "burst_bound type b = (case type of CpuHeavy \<Rightarrow> if even b then 40 else 8
     | IoHeavy \<Rightarrow> if even b then 6 else 30 | Mixed \<Rightarrow> 20)"

lemma make_burst_ok:
  assumes "draws_in_range cpu_dist"
  shows "b_type (fst (make_burst cpu_dist type b g)) = (if even b then CPU else IO)"
    "b_ticks (fst (make_burst cpu_dist type b g)) \<noteq> 0"
    "unat (b_ticks (fst (make_burst cpu_dist type b g))) \<le> burst_bound type b"
proof -
  have *: "0 < fst (cpu_dist g lo hi) \<and> unat (fst (cpu_dist g lo hi)) \<le> unat hi" if "0 < lo" "lo \<le> hi" for lo hi
    using assms that unfolding draws_in_range_def by (metis order_less_le_trans word_le_nat_alt)
  have **: "fst (cpu_dist g lo hi) \<noteq> 0" "unat (fst (cpu_dist g lo hi)) \<le> unat hi" if "0 < lo" "lo \<le> hi" for lo hi
    using * [OF that] by auto
  show "b_type (fst (make_burst cpu_dist type b g)) = (if even b then CPU else IO)"
    by (simp add: make_burst_def split_beta Let_def even_iff_mod_2_eq_zero)
  show "b_ticks (fst (make_burst cpu_dist type b g)) \<noteq> 0"
    using **(1) by (cases type) (simp_all add: make_burst_def split_beta Let_def)
  show "unat (b_ticks (fst (make_burst cpu_dist type b g))) \<le> burst_bound type b"
    using **(2) [of 10 40] **(2) [of 2 8] **(2) [of 2 6] **(2) [of 10 30] **(2) [of 5 20]
    by (cases type) (simp_all add: make_burst_def split_beta Let_def burst_bound_def even_iff_mod_2_eq_zero)
qed

lemma make_bursts_ok:
  assumes "draws_in_range cpu_dist"
  shows "length (fst (make_bursts cpu_dist type bs g)) = length bs \<and>
    (\<forall>k < length bs. b_type (fst (make_bursts cpu_dist type bs g) ! k) = (if even (bs ! k) then CPU else IO) \<and>
       b_ticks (fst (make_bursts cpu_dist type bs g) ! k) \<noteq> 0) \<and>
    later 0 (fst (make_bursts cpu_dist type bs g)) \<le> sum_list (map (burst_bound type) bs)"
proof (induction bs arbitrary: g)
  case (Cons b bs)
  obtain x g1 where x: "make_burst cpu_dist type b g = (x, g1)" by fastforce
  note mb = make_burst_ok [OF assms, of type b g, unfolded x fst_conv]
  have tail: "later 0 (x # xs) = unat (b_ticks x) + later 0 xs" for xs by (simp add: later_def)
  show ?case using Cons.IH [of g1] mb
    by (auto simp: x split_beta Let_def tail nth_Cons split: nat.split intro: add_mono)
qed (simp add: later_def)

definition work_bound :: "WorkloadType \<Rightarrow> nat" where
  "work_bound type = (case type of CpuHeavy \<Rightarrow> 88 | IoHeavy \<Rightarrow> 114 | Mixed \<Rightarrow> 100)"

lemma work_bound_sum: "sum_list (map (burst_bound type) [0 ..< num_bursts type]) = work_bound type"
  by (cases type) (simp_all add: num_bursts_def burst_bound_def work_bound_def upt_rec)

definition job_shape :: "WorkloadType \<Rightarrow> nat \<Rightarrow> Process \<Rightarrow> bool" where
  "job_shape type i p \<longleftrightarrow> p_pid p = int i + 1 \<and> p_name p = CHR ''P'' # to_string (i + 1) \<and>
     p_arrival p \<le> 10 \<and> 1 \<le> p_priority p \<and> p_priority p \<le> 5 \<and>
     length (p_bursts p) = num_bursts type \<and> wf_bursts (p_bursts p) \<and>
     later 0 (p_bursts p) \<le> work_bound type \<and> p_state p = New \<and> p_cur_burst p = 0 \<and>
     p_burst_remaining p = b_ticks (p_bursts p ! 0)"

lemma make_process_shape:
  assumes "draws_in_range cpu_dist"
  shows "job_shape type i (fst (make_process cpu_dist type i g))"
proof -
  obtain arr g1 where 1: "cpu_dist g 0 10 = (arr, g1)" by fastforce
  obtain prio g2 where 2: "cpu_dist g1 1 5 = (prio, g2)" by fastforce
  obtain bs g3 where 3: "make_bursts cpu_dist type [0 ..< num_bursts type] g2 = (bs, g3)" by fastforce
  have "arr \<le> 10" "1 \<le> prio \<and> prio \<le> 5"
    using draws_in_rangeD [OF assms, of 0 10 g] draws_in_rangeD [OF assms, of 1 5 g1] 1 2 by auto
  moreover have n: "0 < num_bursts type" by (cases type) (simp_all add: num_bursts_def)
  moreover have "length bs = num_bursts type" "wf_bursts bs" "later 0 bs \<le> work_bound type"
    using make_bursts_ok [OF assms, of type "[0 ..< num_bursts type]" g2] n work_bound_sum [of type]
    by (auto simp: 3 wf_bursts_def)
  ultimately show ?thesis
    by (auto simp: make_process_def 1 2 3 job_shape_def Process_default_def)
qed

lemma make_processes_shape:
  "draws_in_range cpu_dist \<Longrightarrow>
   list_all2 (job_shape type) js (make_processes cpu_dist type js g)"
  by (induction js arbitrary: g) (auto simp: split_beta Let_def make_process_shape)

text \<open>
  C18. Whatever numbers the generator draws within the bounds it is asked for, the workload has
  the requested number of processes, the \<open>i\<close>-th with pid \<open>i + 1\<close> and name \<open>P<i + 1>\<close>, arrival at
  most 10, priority 1 to 5, bursts that alternate between CPU and IO starting and ending with
  CPU, none empty, whose ticks add up to at most 88, 114 or 100 depending on the type.
\<close>

theorem make_workload_shape:
  assumes "draws_in_range cpu_dist"
  shows "length (make_workload cpu_dist type n seed) = n \<and>
    (\<forall>i < n. job_shape type i (make_workload cpu_dist type n seed ! i) \<and>
      b_type (last (p_bursts (make_workload cpu_dist type n seed ! i))) = CPU)"
proof -
  have all: "list_all2 (job_shape type) [0 ..< n] (make_workload cpu_dist type n seed)"
    unfolding make_workload_def by (rule make_processes_shape [OF assms])
  moreover have "b_type (last (p_bursts p)) = CPU" if "job_shape type i p" for i p
  proof -
    have "odd (num_bursts type)" by (cases type) (simp_all add: num_bursts_def)
    then have "even (length (p_bursts p) - 1)" "p_bursts p \<noteq> []" "wf_bursts (p_bursts p)"
      using that by (auto simp: job_shape_def)
    then show ?thesis by (simp add: last_conv_nth wf_bursts_def)
  qed
  ultimately show ?thesis by (auto simp: list_all2_conv_all_nth)
qed

text \<open>A generator that draws the upper bound each time.\<close>

definition draw_hi :: "unit draw" where
  "draw_hi g lo hi = (hi, g)"

lemma draw_hi_range: "draws_in_range draw_hi"
  by (simp add: draws_in_range_def draw_hi_def)

theorem make_workload_shape_witness:
  "job_shape IoHeavy 1 (make_workload draw_hi IoHeavy 2 () ! 1) \<and>
   p_name (make_workload draw_hi IoHeavy 2 () ! 1) = ''P2''"
proof
  show 1: "job_shape IoHeavy 1 (make_workload draw_hi IoHeavy 2 () ! 1)"
    using make_workload_shape [OF draw_hi_range, of IoHeavy 2 "()"] by simp
  show "p_name (make_workload draw_hi IoHeavy 2 () ! 1) = ''P2''" by code_simp
qed

subsection \<open>The guarantees, policy by policy\<close>

definition completes_within :: "'s IScheduler \<Rightarrow> 's \<Rightarrow> Process list \<Rightarrow> CsModel \<Rightarrow> nat \<Rightarrow> bool" where
  "completes_within S s procs cs T \<longleftrightarrow>
     (\<exists>st r. sim_loop S cs (sim_init s procs) = Some st \<and> simulate S s procs cs = Some r \<and>
       all_done (sm_procs st) \<and> unat (total_ticks r) \<le> T)"

definition one_place :: "('s \<Rightarrow> nat multiset) \<Rightarrow> 's sim \<Rightarrow> bool" where
  "one_place ready st \<longleftrightarrow>
     ready (sm_sched st) = mset_set (procs_in Ready (sm_procs st)) \<and>
     mset (map fst (sm_waiting st)) = mset_set (procs_in Waiting (sm_procs st)) \<and>
     set_option (sm_running st) = procs_in Running (sm_procs st)"

text \<open>A process that the clock jumped over: it is never admitted, and only the cap ends the run.\<close>

definition misses_arrival :: "'s IScheduler \<Rightarrow> 's \<Rightarrow> Process list \<Rightarrow> CsModel \<Rightarrow> nat \<Rightarrow> bool" where
  "misses_arrival S s procs cs i \<longleftrightarrow>
     (\<exists>st. sim_loop S cs (sim_init s procs) = Some st \<and> p_state (sm_procs st ! i) = New \<and>
       50000 \<le> unat (sm_tick st))"

lemma total_ticks_metrics [simp]: "total_ticks (sim_metrics st) = sm_tick st"
  by (simp add: sim_metrics_def Let_def)

lemma sim_init_work:
  assumes "\<forall>p \<in> set procs. wf_bursts (p_bursts p)"
  shows "jobs_ok [] (sim_init s procs)"
    "remaining [] (sim_init s procs) = sum_list (map (\<lambda>p. later 0 (p_bursts p)) procs)"
proof -
  have r: "proc_ok (reset_process p) \<and> work (reset_process p) = later 0 (p_bursts p)" if "wf_bursts (p_bursts p)" for p
    using that by (auto simp: reset_process_def proc_ok_def work_def wf_bursts_def later_step)
  then show "jobs_ok [] (sim_init s procs)" using assms by (auto simp: jobs_ok_def sim_init_def)
  have "map work (map reset_process procs) = map (\<lambda>p. later 0 (p_bursts p)) procs"
    using assms r by simp
  then show "remaining [] (sim_init s procs) = sum_list (map (\<lambda>p. later 0 (p_bursts p)) procs)"
    by (simp add: remaining_def sim_init_def del: map_map)
qed

lemma sim_init_due:
  "\<forall>p \<in> set procs. unat (p_arrival p) \<le> A \<Longrightarrow> due_by A (sim_init s procs)"
  by (auto simp: due_by_def sim_init_def news_def reset_process_def)

context scheduler
begin

lemma completes_init:
  assumes "\<And>ps. ok ps s" "ready s = {#}" "cost_ticks cs = 0"
    "\<forall>p \<in> set procs. wf_bursts (p_bursts p) \<and> unat (p_arrival p) \<le> A"
    "A + sum_list (map (\<lambda>p. later 0 (p_bursts p)) procs) < 50000"
  shows "completes_within S s procs cs (A + sum_list (map (\<lambda>p. later 0 (p_bursts p)) procs))"
proof -
  have w: "sm_waiting (sim_init s procs) = []" "sm_tick (sim_init s procs) = 0" by (simp_all add: sim_init_def)
  have "\<forall>p \<in> set procs. wf_bursts (p_bursts p)" using assms(4) by blast
  note i = sim_init_work [OF this, of s]
  show ?thesis
    using completes [of "sim_init s procs" A cs] sim_init_placed [OF assms(1,2), of procs] assms(3-5) i
      sim_init_due [of procs A s]
    by (auto simp: w completes_within_def simulate_def)
qed

lemma one_place_reachable:
  assumes "\<And>ps. ok ps s" "ready s = {#}"
  shows "one_place ready ((sim_step S cs ^^ k) (sim_init s procs))"
proof -
  have "placed ((sim_step S cs ^^ k) (sim_init s procs))"
    by (induction k) (simp_all add: sim_init_placed [OF assms] sim_step_placed)
  then show ?thesis by (simp add: in_places_def one_place_def)
qed

lemma sim_step_news:
  assumes "placed st"
  shows "news (sm_procs (sim_step S cs st)) =
    map (\<lambda>x. if x = Some (sm_tick st) then None else x) (news (sm_procs st))"
proof -
  have p1: "placed (arrivals S st)" using arrivals_places [OF assms] by (simp add: frame_waiting)
  have p2: "placed (io_completions S (arrivals S st))" by (rule io_completions_places [OF p1])
  have p3: "placed (preempt_check S (io_completions S (arrivals S st)))"
    using preempt_places [OF p2] by (simp add: frame_waiting)
  have p4: "placed (dispatch S cs (preempt_check S (io_completions S (arrivals S st))))"
    using dispatch_places [OF p3, of cs] by (simp add: frame_waiting)
  show ?thesis
    using run_one_tick_news [OF p4] dispatch_news [OF p3, of cs] preempt_news [OF p2]
      io_loop_news [of "[]" "sm_waiting (arrivals S st)" "arrivals S st"] p1
    by (simp add: sim_step_def Let_def io_completions_def arrivals_news)
qed

lemma first_step_tick:
  assumes "\<And>ps. ok ps s" "ready s = {#}" "j < length procs" "p_arrival (procs ! j) = 0"
  shows "sm_tick (sim_step S cs (sim_init s procs)) = cost_ticks cs + 1"
proof -
  let ?st = "arrivals S (sim_init s procs)"
  have p: "placed ?st"
    using arrivals_places [OF sim_init_placed [OF assms(1,2)], of procs] by (simp add: frame_waiting)
  have w: "sm_waiting ?st = []" "sm_tick ?st = 0" by (simp_all add: frame_waiting sim_init_def)
  then have io: "io_completions S ?st = ?st" by (simp add: io_completions_def)
  have "sm_running (fold (arrive_one S) js (sim_init s procs)) = None" for js
  proof -
    have "sm_running (fold (arrive_one S) js st) = sm_running st" for st
      by (induction js arbitrary: st) (simp_all add: arrive_one_def)
    then show ?thesis by (simp add: sim_init_def)
  qed
  then have run: "sm_running ?st = None" by (simp add: arrivals_def)
  have len: "length (sm_procs ?st) = length procs"
    using arg_cong [OF arrivals_news [of S "sim_init s procs"], of length] by (simp add: sim_init_def)
  have "news (sm_procs ?st) ! j = None"
    using assms(3,4) by (simp add: arrivals_news) (simp add: news_def sim_init_def reset_process_def)
  then have "p_state (sm_procs ?st ! j) \<noteq> New" using assms(3) len by (auto simp: news_def split: if_splits)
  moreover have "procs_in Waiting (sm_procs ?st) = {}" "procs_in Running (sm_procs ?st) = {}"
    using p w(1) run mset_set_empty_iff [of "procs_in Waiting (sm_procs ?st)"] by (auto simp: in_places_def)
  moreover have "p_state (sm_procs ?st ! j) \<noteq> Terminated"
  proof -
    have "p_state (sm_procs (fold (arrive_one S) js st) ! j) \<noteq> Terminated"
      if "p_state (sm_procs st ! j) \<noteq> Terminated" for js and st
      using that
    proof (induction js arbitrary: st)
      case (Cons i js)
      have "p_state (sm_procs (arrive_one S i st) ! j) \<noteq> Terminated"
        using Cons.prems by (cases "i < length (sm_procs st)") (auto simp: arrive_one_def nth_list_update list_update_beyond)
      then show ?case using Cons.IH by simp
    qed simp
    moreover have "p_state (sm_procs (sim_init s procs) ! j) \<noteq> Terminated"
      using assms(3) by (simp add: sim_init_def reset_process_def)
    ultimately show ?thesis by (simp add: arrivals_def)
  qed
  ultimately have "p_state (sm_procs ?st ! j) = Ready"
    using assms(3) len by (cases "p_state (sm_procs ?st ! j)") (auto simp: procs_in_def)
  then have "j \<in> procs_in Ready (sm_procs ?st)" using assms(3) len by (simp add: procs_in_def)
  then have ne: "ready (sm_sched ?st) \<noteq> {#}" using p by (auto simp: in_places_def mset_set_empty_iff)
  have "sm_tick (dispatch S cs ?st) = cost_ticks cs"
    using p run by (cases rule: dispatch_cases [where cs = cs]) (use ne w in auto)
  then show ?thesis using run io by (simp add: sim_step_def Let_def preempt_check_def)
qed

lemma misses_arrival_init:
  assumes "\<And>ps. ok ps s" "ready s = {#}" "cost_fits cs"
    "j < length procs" "p_arrival (procs ! j) = 0"
    "i < length procs" "0 < p_arrival (procs ! i)" "p_arrival (procs ! i) \<le> cost_ticks cs"
  shows "misses_arrival S s procs cs i"
proof -
  let ?a = "p_arrival (procs ! i)"
  let ?P = "\<lambda>st. placed st \<and> length (sm_procs st) = length procs \<and> news (sm_procs st) ! i = Some ?a \<and>
    (st = sim_init s procs \<or> unat ?a < unat (sm_tick st))"
  have news0: "news (sm_procs (sim_init s procs)) ! i = Some ?a"
    using assms(6) by (simp add: news_def sim_init_def reset_process_def)
  then have "?P (sim_init s procs)" using sim_init_placed [OF assms(1,2)] by (simp add: sim_init_def)
  moreover have "?P (sim_step S cs st)" if P: "?P st" and t: "sm_tick st < max_ticks" for st
  proof -
    have n: "news (sm_procs (sim_step S cs st)) = map (\<lambda>x. if x = Some (sm_tick st) then None else x) (news (sm_procs st))"
      using P by (intro sim_step_news) simp
    have len: "length (sm_procs (sim_step S cs st)) = length procs"
      using arg_cong [OF n, of length] P by simp
    have "?a \<noteq> sm_tick st" using P assms(7) by (auto simp: sim_init_def)
    then have "news (sm_procs (sim_step S cs st)) ! i = Some ?a" using P assms(6) by (simp add: n)
    moreover have "unat ?a < unat (sm_tick (sim_step S cs st))"
    proof (cases "st = sim_init s procs")
      case True
      have "unat ?a \<le> unat (cost_ticks cs)" using assms(8) by (simp add: word_le_nat_alt)
      moreover have "unat (cost_ticks cs + 1) = unat (cost_ticks cs) + 1"
        using assms(3) by (intro trans [OF unat_plus_less]) (simp_all add: cost_fits_def)
      ultimately show ?thesis using True first_step_tick [OF assms(1,2,4,5), of cs] by simp
    next
      case False
      then have "unat ?a < unat (sm_tick st)" using P by blast
      moreover obtain c where "unat (sm_tick (sim_step S cs st)) = unat (sm_tick st) + c + 1"
        by (rule sim_step_clock_nat [OF assms(3) t])
      ultimately show ?thesis by linarith
    qed
    ultimately show ?thesis using sim_step_placed [of st cs] P len by simp
  qed
  ultimately obtain st where st: "sim_loop S cs (sim_init s procs) = Some st" "?P st"
    "all_done (sm_procs st) \<or> \<not> sm_tick st < max_ticks"
    using sim_loop_rule [OF assms(3), of ?P "sim_init s procs" S] by blast
  have new: "p_state (sm_procs st ! i) = New" using st(2) assms(6) by (auto simp: news_def split: if_splits)
  then have "\<not> all_done (sm_procs st)" using st(2) assms(6) by (auto simp: all_done_states)
  then show ?thesis using st new by (auto simp: misses_arrival_def max_ticks_unat not_less)
qed

end

lemma fresh_policies:
  "is_heap (burst_key ps) []" "mset (rr_q (RoundRobin_new q)) = {#}"
  "Priority_ok ps Priority_new" "mset (pr_data Priority_new) = {#}"
  "MLFQ_ok (MLFQ_new q b)" "MLFQ_ready (MLFQ_new q b) = {#}"
  by (auto simp: is_heap_def RoundRobin_new_def Priority_ok_def Priority_new_def MLFQ_ok_def MLFQ_new_def
      MLFQ_ready_def)

text \<open>
  C14. With free context switches every simulation of well-formed processes (bursts alternating,
  none empty) whose last arrival and total work fit below the cap of 50000 ticks ends with all
  processes terminated, under each of the six policies, and takes at most the last arrival plus
  the sum of all bursts.
\<close>

theorem simulate_completes:
  assumes "cost_ticks cs = 0" "\<forall>p \<in> set procs. wf_bursts (p_bursts p) \<and> unat (p_arrival p) \<le> A"
    and "T = A + sum_list (map (\<lambda>p. later 0 (p_bursts p)) procs)" "T < 50000"
  shows "completes_within FCFS [] procs cs T \<and> completes_within SJF [] procs cs T \<and>
    completes_within SRTF [] procs cs T \<and> completes_within RR (RoundRobin_new q) procs cs T \<and>
    completes_within Priority Priority_new procs cs T \<and>
    completes_within MLFQ_policy (MLFQ_new q b) procs cs T"
  unfolding assms(3)
  by (intro conjI fcfs.completes_init sjf.completes_init srtf.completes_init rr.completes_init
      priority.completes_init mlfq.completes_init)
     (use assms in \<open>simp_all add: fresh_policies\<close>)

text \<open>The workload of ten processes that \<open>main\<close> generates is within the bounds.\<close>

theorem simulate_completes_witness:
  "completes_within SRTF [] (make_workload draw_hi Mixed 10 ()) \<lparr>cost_ticks = 0, warmup_ticks = 0, warmup_denom = 1\<rparr> 1010"
proof -
  let ?ps = "make_workload draw_hi Mixed 10 ()"
  have shape: "length ?ps = 10" "\<forall>i < 10. job_shape Mixed i (?ps ! i)"
    using make_processes_shape [OF draw_hi_range, of Mixed "[0 ..< 10]" "()"]
    by (auto simp: make_workload_def list_all2_conv_all_nth)
  have *: "wf_bursts (p_bursts p) \<and> unat (p_arrival p) \<le> 10" if "p \<in> set ?ps" for p
    using that shape by (auto simp: in_set_conv_nth job_shape_def word_le_nat_alt)
  have t: "sum_list (map (\<lambda>p. later 0 (p_bursts p)) ?ps) = 1000" by code_simp
  then have T: "1010 = 10 + sum_list (map (\<lambda>p. later 0 (p_bursts p)) ?ps)" by simp
  show ?thesis
    using simulate_completes [of "\<lparr>cost_ticks = 0, warmup_ticks = 0, warmup_denom = 1\<rparr>" ?ps 10, OF _ _ T] *
    by auto
qed

text \<open>
  C15. After any number of iterations, under each of the six policies and whatever the bursts and
  the switch cost: the ready queue holds exactly the processes in state \<open>Ready\<close>, the waiting
  list exactly those in state \<open>Waiting\<close>, each once, and the running pointer the one in state
  \<open>Running\<close>, if any.
\<close>

theorem simulate_one_place:
  "one_place mset ((sim_step FCFS cs ^^ k) (sim_init [] procs)) \<and>
   one_place mset ((sim_step SJF cs ^^ k) (sim_init [] procs)) \<and>
   one_place mset ((sim_step SRTF cs ^^ k) (sim_init [] procs)) \<and>
   one_place (\<lambda>s. mset (rr_q s)) ((sim_step RR cs ^^ k) (sim_init (RoundRobin_new q) procs)) \<and>
   one_place (\<lambda>s. mset (pr_data s)) ((sim_step Priority cs ^^ k) (sim_init Priority_new procs)) \<and>
   one_place MLFQ_ready ((sim_step MLFQ_policy cs ^^ k) (sim_init (MLFQ_new q b) procs))"
  by (intro conjI fcfs.one_place_reachable sjf.one_place_reachable srtf.one_place_reachable
      rr.one_place_reachable priority.one_place_reachable mlfq.one_place_reachable)
     (simp_all add: fresh_policies)

text \<open>
  C19. When a context switch costs ticks the clock jumps: if some process arrives at tick 0, a
  process that arrives at a tick between 1 and the cost is never admitted, under any of the
  policies, and the simulation runs until the cap.
\<close>

theorem simulate_misses_arrivals:
  assumes "unat (cost_ticks cs) + 50000 < 2 ^ 32"
    and "j < length procs" "p_arrival (procs ! j) = 0"
    and "i < length procs" "0 < p_arrival (procs ! i)" "p_arrival (procs ! i) \<le> cost_ticks cs"
  shows "misses_arrival FCFS [] procs cs i \<and> misses_arrival SJF [] procs cs i \<and>
    misses_arrival SRTF [] procs cs i \<and> misses_arrival RR (RoundRobin_new q) procs cs i \<and>
    misses_arrival Priority Priority_new procs cs i \<and>
    misses_arrival MLFQ_policy (MLFQ_new q b) procs cs i"
  by (intro conjI fcfs.misses_arrival_init [where j = j] sjf.misses_arrival_init [where j = j]
      srtf.misses_arrival_init [where j = j] rr.misses_arrival_init [where j = j]
      priority.misses_arrival_init [where j = j] mlfq.misses_arrival_init [where j = j])
     (use assms in \<open>simp_all add: fresh_policies cost_fits_def\<close>)

theorem simulate_misses_arrivals_witness:
  "misses_arrival FCFS [] demo_procs \<lparr>cost_ticks = 5, warmup_ticks = 0, warmup_denom = 1\<rparr> 1"
  using simulate_misses_arrivals [of "\<lparr>cost_ticks = 5, warmup_ticks = 0, warmup_denom = 1\<rparr>" 0 demo_procs 1]
  by (simp add: demo_procs_def Process_default_def)

subsection \<open>Policies the simulator cannot tell apart\<close>

text \<open>
  Two policies whose states stay related, pick the same processes and preempt alike lead to the
  same simulation.
\<close>

locale policy_simulation =
  fixes S :: "'s IScheduler" and S' :: "'t IScheduler" and Q :: "'s \<Rightarrow> 't \<Rightarrow> bool"
  assumes add_rel: "Q s t \<Longrightarrow> Q (sc_add S ps i s) (sc_add S' ps i t)"
    and pick_rel: "Q s t \<Longrightarrow> fst (sc_pick_next S ps s) = fst (sc_pick_next S' ps t) \<and>
      Q (snd (sc_pick_next S ps s)) (snd (sc_pick_next S' ps t))"
    and preempt_rel: "Q s t \<Longrightarrow> sc_should_preempt S ps i n s = sc_should_preempt S' ps i n t"

definition sim_rel :: "('s \<Rightarrow> 't \<Rightarrow> bool) \<Rightarrow> 's sim \<Rightarrow> 't sim \<Rightarrow> bool" where
  "sim_rel Q x y \<longleftrightarrow> Q (sm_sched x) (sm_sched y) \<and> sm_procs x = sm_procs y \<and> sm_tick x = sm_tick y \<and>
     sm_useful_ticks x = sm_useful_ticks y \<and> sm_cs_overhead x = sm_cs_overhead y \<and>
     sm_total_cs x = sm_total_cs y \<and> sm_running x = sm_running y \<and> sm_ran_ticks x = sm_ran_ticks y \<and>
     sm_waiting x = sm_waiting y"

lemma sim_rel_set_proc: "sim_rel Q x y \<Longrightarrow> sim_rel Q (set_proc i p x) (set_proc i p y)"
  by (simp add: sim_rel_def)

lemma sim_rel_burst_complete: "sim_rel Q x y \<Longrightarrow> sim_rel Q (burst_complete i x) (burst_complete i y)"
  by (auto simp: sim_rel_def burst_complete_def Let_def split: option.split bool.split prod.split)

lemma sim_rel_run_one_tick: "sim_rel Q x y \<Longrightarrow> sim_rel Q (run_one_tick x) (run_one_tick y)"
proof -
  assume r: "sim_rel Q x y"
  then have "sm_running x = sm_running y" "sm_procs x = sm_procs y" by (simp_all add: sim_rel_def)
  moreover have "sim_rel Q ((set_proc i p x)\<lparr>sm_useful_ticks := sm_useful_ticks x + 1, sm_ran_ticks := sm_ran_ticks x + 1\<rparr>)
    ((set_proc i p y)\<lparr>sm_useful_ticks := sm_useful_ticks y + 1, sm_ran_ticks := sm_ran_ticks y + 1\<rparr>)" for i p
    using r by (simp add: sim_rel_def)
  ultimately show ?thesis using r
    by (auto simp: run_one_tick_def Let_def split: option.split intro!: sim_rel_burst_complete)
qed

lemma sim_rel_metrics: "sim_rel Q x y \<Longrightarrow> sim_metrics x = sim_metrics y"
  by (simp add: sim_rel_def sim_metrics_def)

context policy_simulation
begin

lemma enqueue_rel: "sim_rel Q x y \<Longrightarrow> sim_rel Q (enqueue S i x) (enqueue S' i y)"
  by (simp add: sim_rel_def enqueue_def Let_def add_rel)

lemma arrive_one_rel: "sim_rel Q x y \<Longrightarrow> sim_rel Q (arrive_one S i x) (arrive_one S' i y)"
  using enqueue_rel [of x y i] by (simp add: arrive_one_def sim_rel_def)

lemma arrivals_rel: "sim_rel Q x y \<Longrightarrow> sim_rel Q (arrivals S x) (arrivals S' y)"
proof -
  assume r: "sim_rel Q x y"
  then have "sim_rel Q (fold (arrive_one S) js x) (fold (arrive_one S') js y)" for js
    by (induction js arbitrary: x y) (simp_all add: arrive_one_rel)
  then show ?thesis using r by (simp add: arrivals_def sim_rel_def)
qed

lemma io_done_rel: "sim_rel Q x y \<Longrightarrow> sim_rel Q (io_done S i x) (io_done S' i y)"
proof -
  assume r: "sim_rel Q x y"
  then have "sm_procs x = sm_procs y" "sm_tick x = sm_tick y" by (simp_all add: sim_rel_def)
  then show ?thesis using r
    by (auto simp: io_done_def split_beta Let_def intro!: enqueue_rel sim_rel_set_proc)
qed

lemma io_loop_rel: "sim_rel Q x y \<Longrightarrow> sim_rel Q (io_loop S kept ws x) (io_loop S' kept ws y)"
proof (induction ws arbitrary: kept x y)
  case (Cons w ws)
  then show ?case by (cases w) (simp add: io_done_rel)
qed (simp add: sim_rel_def)

lemma io_completions_rel: "sim_rel Q x y \<Longrightarrow> sim_rel Q (io_completions S x) (io_completions S' y)"
  using io_loop_rel [of x y "[]" "sm_waiting x"] by (simp add: io_completions_def sim_rel_def)

lemma preempt_check_rel: "sim_rel Q x y \<Longrightarrow> sim_rel Q (preempt_check S x) (preempt_check S' y)"
proof -
  assume r: "sim_rel Q x y"
  then have "sm_running x = sm_running y"
    "\<And>i. sc_should_preempt S (sm_procs x) i (sm_ran_ticks x) (sm_sched x) =
       sc_should_preempt S' (sm_procs y) i (sm_ran_ticks y) (sm_sched y)"
    by (simp_all add: sim_rel_def preempt_rel)
  moreover have "sim_rel Q ((enqueue S i x)\<lparr>sm_running := None, sm_ran_ticks := 0\<rparr>)
      ((enqueue S' i y)\<lparr>sm_running := None, sm_ran_ticks := 0\<rparr>)" for i
    using enqueue_rel [OF r, of i] by (simp add: sim_rel_def)
  ultimately show ?thesis using r by (simp add: preempt_check_def split: option.split)
qed

lemma switch_to_rel: "sim_rel Q x y \<Longrightarrow> sim_rel Q (switch_to cs i x) (switch_to cs i y)"
  by (simp add: sim_rel_def) (simp add: switch_to_def Let_def)

lemma dispatch_rel: "sim_rel Q x y \<Longrightarrow> sim_rel Q (dispatch S cs x) (dispatch S' cs y)"
proof -
  assume r: "sim_rel Q x y"
  obtain a s where s: "sc_pick_next S (sm_procs x) (sm_sched x) = (a, s)" by fastforce
  obtain b t where t: "sc_pick_next S' (sm_procs y) (sm_sched y) = (b, t)" by fastforce
  have "a = b" "Q s t" using pick_rel [of "sm_sched x" "sm_sched y" "sm_procs x"] r s t by (simp_all add: sim_rel_def)
  moreover from this have "sim_rel Q (x\<lparr>sm_sched := s\<rparr>) (y\<lparr>sm_sched := t\<rparr>)" using r by (simp add: sim_rel_def)
  moreover have "sm_running x = sm_running y" using r by (simp add: sim_rel_def)
  ultimately show ?thesis using r s t switch_to_rel
    by (auto simp: dispatch_def split: option.split)
qed

lemma sim_step_rel: "sim_rel Q x y \<Longrightarrow> sim_rel Q (sim_step S cs x) (sim_step S' cs y)"
proof -
  assume "sim_rel Q x y"
  then have "sim_rel Q (run_one_tick (dispatch S cs (preempt_check S (io_completions S (arrivals S x)))))
    (run_one_tick (dispatch S' cs (preempt_check S' (io_completions S' (arrivals S' y)))))"
    by (intro sim_rel_run_one_tick dispatch_rel preempt_check_rel io_completions_rel arrivals_rel)
  then show ?thesis by (simp add: sim_step_def Let_def sim_rel_def)
qed

lemma sim_loop_simulates:
  assumes "sim_loop S cs x = Some x'" "sim_rel Q x y"
  shows "\<exists>y'. sim_loop S' cs y = Some y' \<and> sim_rel Q x' y'"
proof -
  have "P = S \<longrightarrow> (\<forall>y. sim_rel Q x y \<longrightarrow> (\<exists>y'. sim_loop S' cs y = Some y' \<and> sim_rel Q x' y'))"
    if "sim_loop P cs x = Some x'" for P
    using that
  proof (induction P cs x x' rule: sim_loop.raw_induct)
    case (1 loop P cs x x')
    show ?case
    proof (intro impI allI)
      fix y
      assume P: "P = S" and r: "sim_rel Q x y"
      have same: "sm_procs x = sm_procs y" "sm_tick x = sm_tick y" using r by (simp_all add: sim_rel_def)
      show "\<exists>y'. sim_loop S' cs y = Some y' \<and> sim_rel Q x' y'"
      proof (cases "\<not> all_done (sm_procs x) \<and> sm_tick x < max_ticks")
        case True
        then have "loop S cs (sim_step S cs x) = Some x'" using 1(2) P by simp
        moreover have "sim_loop S cs (sim_step S cs x) = Some x'"
          using 1(3) P True by (subst (asm) sim_loop.simps) simp
        ultimately obtain y' where "sim_loop S' cs (sim_step S' cs y) = Some y'" "sim_rel Q x' y'"
          using 1(1) sim_step_rel [OF r, of cs] by blast
        then show ?thesis using True same by (subst sim_loop.simps) simp
      next
        case False
        then show ?thesis using 1(2) r same by (subst sim_loop.simps) auto
      qed
    qed
  qed (use that in simp)
  from this [OF assms(1)] assms(2) show ?thesis by blast
qed

end

lemma policy_simulation_converse: "policy_simulation S S' Q \<Longrightarrow> policy_simulation S' S (\<lambda>t s. Q s t)"
  unfolding policy_simulation_def by auto

lemma policy_simulation_simulate:
  assumes "policy_simulation S S' Q" "Q s t"
  shows "simulate S s procs cs = simulate S' t procs cs"
proof -
  have conv: "policy_simulation S' S (\<lambda>t s. Q s t)" using assms(1) by (rule policy_simulation_converse)
  have r: "sim_rel Q (sim_init s procs) (sim_init t procs)" using assms(2) by (simp add: sim_rel_def sim_init_def)
  show ?thesis
  proof (cases "sim_loop S cs (sim_init s procs)")
    case None
    have "sim_loop S' cs (sim_init t procs) = None"
    proof (rule ccontr)
      assume "sim_loop S' cs (sim_init t procs) \<noteq> None"
      then obtain y where "sim_loop S' cs (sim_init t procs) = Some y" by blast
      moreover have "sim_rel (\<lambda>t s. Q s t) (sim_init t procs) (sim_init s procs)"
        using r by (simp add: sim_rel_def)
      ultimately have "\<exists>x. sim_loop S cs (sim_init s procs) = Some x \<and> sim_rel (\<lambda>t s. Q s t) y x"
        by (rule policy_simulation.sim_loop_simulates [OF conv])
      then show False using None by simp
    qed
    with None show ?thesis by (simp add: simulate_def)
  next
    case (Some x)
    then obtain y where "sim_loop S' cs (sim_init t procs) = Some y" "sim_rel Q x y"
      using policy_simulation.sim_loop_simulates [OF assms(1) Some r] by blast
    with Some show ?thesis using sim_rel_metrics [of Q x y] by (simp add: simulate_def)
  qed
qed

text \<open>
  The simulator re-queues a preempted process with \<open>add\<close> and returns a process from IO with
  \<open>add\<close>; it never calls \<open>on_quantum_expired\<close>, \<open>on_unblock\<close> or \<open>tick\<close>.  So every level stays 0.
\<close>

definition mlfq_flat :: "MLFQ \<Rightarrow> RoundRobin \<Rightarrow> bool" where
  "mlfq_flat s t \<longleftrightarrow> ml_queues s = [rr_q t, [], []] \<and> ml_qbase s = rr_quantum t \<and> ran (ml_level s) \<subseteq> {0}"

interpretation mlfq_rr: policy_simulation MLFQ_policy RR mlfq_flat
proof
  fix s t ps i n
  assume f: "mlfq_flat s t"
  have lvl: "level_of p s = 0" for p
    using f by (auto simp: mlfq_flat_def level_of_def ran_def split: option.split)
  show "mlfq_flat (sc_add MLFQ_policy ps i s) (sc_add RR ps i t)"
    using f by (auto simp: mlfq_flat_def MLFQ_policy_def RR_def MLFQ_add_def push_back_at_def RR_add_def ran_def)
  show "fst (sc_pick_next MLFQ_policy ps s) = fst (sc_pick_next RR ps t) \<and>
      mlfq_flat (snd (sc_pick_next MLFQ_policy ps s)) (snd (sc_pick_next RR ps t))"
    using f by (auto simp: mlfq_flat_def MLFQ_policy_def RR_def MLFQ_pick_cases RR_pick_next_def)
  show "sc_should_preempt MLFQ_policy ps i n s = sc_should_preempt RR ps i n t"
    using f by (simp add: mlfq_flat_def MLFQ_policy_def RR_def MLFQ_should_preempt_def RR_should_preempt_def
      quantum_for_def lvl)
qed

text \<open>
  C16. In the simulator the multi-level feedback queue is round robin: for every workload, switch
  cost, base quantum and boost interval the two give the same result.
\<close>

theorem simulate_MLFQ_is_RR:
  "simulate MLFQ_policy (MLFQ_new q b) procs cs = simulate RR (RoundRobin_new q) procs cs"
  by (rule policy_simulation_simulate [OF mlfq_rr.policy_simulation_axioms])
     (simp add: mlfq_flat_def MLFQ_new_def RoundRobin_new_def)

subsection \<open>Shortest first\<close>

lemma on_cpu_others:
  "j < length ps \<Longrightarrow> p_burst_remaining (ps[i := on_cpu t (ps ! i)] ! j) = p_burst_remaining (ps ! j)"
  by (cases "i = j") simp_all

lemma SRTF_dispatch_shortest:
  assumes "srtf.placed st" "sm_running (dispatch SRTF cs (preempt_check SRTF st)) = Some i"
    and j: "j \<in> procs_in Ready (sm_procs (dispatch SRTF cs (preempt_check SRTF st)))"
  shows "p_burst_remaining (sm_procs (dispatch SRTF cs (preempt_check SRTF st)) ! i)
    \<le> p_burst_remaining (sm_procs (dispatch SRTF cs (preempt_check SRTF st)) ! j)"
proof -
  define st1 where "st1 = preempt_check SRTF st"
  have p1: "srtf.placed st1" using srtf.preempt_places [OF assms(1)] by (simp add: st1_def srtf.frame_waiting)
  then have heap: "is_heap (burst_key (sm_procs st1)) (sm_sched st1)"
    and q: "mset (sm_sched st1) = mset_set (procs_in Ready (sm_procs st1))" by (simp_all add: in_places_def)
  have setq: "set (sm_sched st1) = procs_in Ready (sm_procs st1)"
    by (metis q finite_procs_in finite_set_mset_mset_set set_mset_mset)
  show ?thesis
  proof (cases "sm_running st1")
    case (Some k)
    then have d: "dispatch SRTF cs st1 = st1" "k = i" using assms(2) by (simp_all add: dispatch_def st1_def)
    have run: "sm_running st = Some i"
      using Some d by (auto simp: st1_def preempt_check_def split: option.splits if_splits)
    then have no: "\<not> SRTF_should_preempt (sm_procs st) i (sm_sched st)" and st: "st1 = st"
      using Some by (auto simp: st1_def preempt_check_def SRTF_def split: if_splits)
    have "j \<in> set (sm_sched st)" using j d setq by (simp add: st1_def [symmetric] st)
    with heap_hd_least [OF heap, of j] no d show ?thesis
      by (auto simp: st SRTF_should_preempt_def st1_def [symmetric] not_less split: if_splits)
  next
    case None
    from p1 None show ?thesis
    proof (cases rule: srtf.dispatch_cases [where cs = cs])
      case idle
      then show ?thesis using assms(2) None by (simp add: st1_def)
    next
      case (pick k s')
      then have ki: "k = i" using assms(2) by (simp add: st1_def)
      note i = srtf.picked_ready [OF p1 pick(3)]
      have jr: "j \<in> procs_in Ready (sm_procs st1)"
        using j i(1) pick(4) by (auto simp: st1_def [symmetric] procs_in_update split: if_splits)
      then have "j \<in> set (sm_sched st1)" using setq by simp
      moreover have "SJF_pick_next (sm_procs st1) (sm_sched st1) = (Some k, s')"
        using pick(1) by (simp add: SRTF_def SRTF_ops)
      ultimately have "p_burst_remaining (sm_procs st1 ! k) \<le> p_burst_remaining (sm_procs st1 ! j)"
        using SJF_pick_least [OF heap] by blast
      then show ?thesis using pick(4) i(1) jr ki
        by (simp add: st1_def [symmetric] on_cpu_others procs_in_def)
    qed
  qed
qed

text \<open>
  C17. Under SRTF the process on the CPU never has more ticks left in its burst than any process
  in state \<open>Ready\<close>: in every iteration, when the CPU is about to run a tick.
\<close>

theorem simulate_SRTF_shortest:
  assumes "st = (sim_step SRTF cs ^^ k) (sim_init [] procs)"
    and "d = dispatch SRTF cs (preempt_check SRTF (io_completions SRTF (arrivals SRTF st)))"
    and "sm_running d = Some i" "j \<in> procs_in Ready (sm_procs d)"
  shows "p_burst_remaining (sm_procs d ! i) \<le> p_burst_remaining (sm_procs d ! j)"
proof -
  have "srtf.placed st" unfolding assms(1)
    by (induction k) (simp_all add: srtf.sim_init_placed fresh_policies srtf.sim_step_placed)
  then have "srtf.placed (arrivals SRTF st)"
    using srtf.arrivals_places by (simp add: srtf.frame_waiting)
  then have "srtf.placed (io_completions SRTF (arrivals SRTF st))" by (rule srtf.io_completions_places)
  from SRTF_dispatch_shortest [OF this] assms(2-4) show ?thesis by blast
qed

text \<open>At tick 1 the second process arrives with a shorter burst and takes the CPU.\<close>

definition demo_srtf :: "Process list" where
  "demo_srtf = [Process_default\<lparr>p_pid := 1, p_bursts := [\<lparr>b_type = CPU, b_ticks = 5\<rparr>]\<rparr>,
     Process_default\<lparr>p_pid := 2, p_arrival := 1, p_bursts := [\<lparr>b_type = CPU, b_ticks = 2\<rparr>]\<rparr>]"

theorem simulate_SRTF_shortest_witness:
  "let cs = \<lparr>cost_ticks = 0, warmup_ticks = 0, warmup_denom = 1\<rparr>;
       st = (sim_step SRTF cs ^^ 1) (sim_init [] demo_srtf);
       d = dispatch SRTF cs (preempt_check SRTF (io_completions SRTF (arrivals SRTF st)))
   in sm_running d = Some 1 \<and> p_burst_remaining (sm_procs d ! 1) \<le> p_burst_remaining (sm_procs d ! 0)"
proof -
  let ?cs = "\<lparr>cost_ticks = 0, warmup_ticks = 0, warmup_denom = 1\<rparr>"
  define st where "st = (sim_step SRTF ?cs ^^ 1) (sim_init [] demo_srtf)"
  define d where "d = dispatch SRTF ?cs (preempt_check SRTF (io_completions SRTF (arrivals SRTF st)))"
  have "sm_running d = Some 1" "p_state (sm_procs d ! 0) = Ready" "length (sm_procs d) = 2"
    unfolding d_def st_def by code_simp+
  moreover from this have "0 \<in> procs_in Ready (sm_procs d)" by (simp add: procs_in_def)
  ultimately show ?thesis
    using simulate_SRTF_shortest [OF st_def d_def, of 1 0] by (simp add: Let_def d_def st_def)
qed

end
