(* ===== verification/EventLog.thy ===== *)
theory EventLog
  imports TextFormat
begin

text \<open>
  The two writers of event traces, \<^verbatim>\<open>EventLogger\<close> of the OS simulation and \<^verbatim>\<open>TraceWriter\<close> of
  memlab.  A writer is the text written so far and the flag that suppresses the first separator;
  closing it (the destructor) gives the contents of the file.  A reader of the format shows that
  no event is lost or garbled as long as names contain no quotation mark: the writers do not
  escape.
\<close>

abbreviation nl :: char where
  "nl \<equiv> CHR 0x0A"

abbreviation dq :: char where
  "dq \<equiv> CHR 0x22"

definition quoted :: "string \<Rightarrow> string" where
  "quoted s = [dq] @ s @ [dq]"

subsection \<open>EventLogger\<close>

record EventLogger =
  el_out :: string
  el_first :: bool

definition EventLogger_new :: EventLogger where
  "EventLogger_new = \<lparr>el_out = ''['' @ [nl], el_first = True\<rparr>"

definition EventLogger_close :: "EventLogger \<Rightarrow> string" where
  "EventLogger_close l = el_out l @ [nl] @ '']'' @ [nl]"

definition Log :: "int \<Rightarrow> string \<Rightarrow> int \<Rightarrow> (string \<times> string) list \<Rightarrow> EventLogger \<Rightarrow> EventLogger" where
  "Log tick type pid flds l =
     (let l1 = (if el_first l then l else l\<lparr>el_out := el_out l @ '','' @ [nl]\<rparr>);
          l2 = l1\<lparr>el_first := False\<rparr>
      in l2\<lparr>el_out := el_out l2 @ ''  {'' @ quoted ''tick'' @ '':'' @ int_to_string tick @ '','' @
             quoted ''type'' @ '':'' @ quoted type @ '','' @ quoted ''pid'' @ '':'' @ int_to_string pid @
             concat (map (\<lambda>(key, value). '','' @ quoted key @ '':'' @ value) flds) @ ''}''\<rparr>)"

definition Str :: "string \<Rightarrow> string" where
  "Str s = quoted s"

definition Num :: "int \<Rightarrow> string" where
  "Num n = int_to_string n"

subsection \<open>TraceWriter\<close>

record TraceWriter =
  tw_out :: string
  tw_first :: bool

definition TraceWriter_new :: TraceWriter where
  "TraceWriter_new = \<lparr>tw_out = ''['' @ [nl], tw_first = True\<rparr>"

definition TraceWriter_close :: "TraceWriter \<Rightarrow> string" where
  "TraceWriter_close w = tw_out w @ [nl] @ '']'' @ [nl]"

definition trace_log :: "int \<Rightarrow> string \<Rightarrow> int \<Rightarrow> (string \<times> string) list \<Rightarrow> TraceWriter \<Rightarrow> TraceWriter" where
  "trace_log tick type pid flds w =
     (let w1 = (if tw_first w then w else w\<lparr>tw_out := tw_out w @ '','' @ [nl]\<rparr>);
          w2 = w1\<lparr>tw_first := False\<rparr>
      in w2\<lparr>tw_out := tw_out w2 @ ''  {'' @ quoted ''tick'' @ '':'' @ int_to_string tick @ '','' @
             quoted ''type'' @ '':'' @ quoted type @ '','' @ quoted ''pid'' @ '':'' @ int_to_string pid @
             concat (map (\<lambda>kv. '','' @ quoted (fst kv) @ '':'' @ snd kv) flds) @ ''}''\<rparr>)"

definition trace_str :: "string \<Rightarrow> string" where
  "trace_str s = quoted s"

definition trace_num :: "int \<Rightarrow> string" where
  "trace_num n = int_to_string n"

subsection \<open>Events and their text\<close>

text \<open>The values the callers pass are made by \<open>Str\<close> and \<open>Num\<close>.\<close>

datatype field_value = VStr string | VNum int

type_synonym event = "int \<times> string \<times> int \<times> (string \<times> field_value) list"

fun value_text :: "field_value \<Rightarrow> string" where
  "value_text (VStr s) = Str s"
| "value_text (VNum n) = Num n"

fun log_event :: "event \<Rightarrow> EventLogger \<Rightarrow> EventLogger" where
  "log_event (tick, type, pid, flds) l =
     Log tick type pid (map (\<lambda>(k, v). (k, value_text v)) flds) l"

fun trace_event :: "event \<Rightarrow> TraceWriter \<Rightarrow> TraceWriter" where
  "trace_event (tick, type, pid, flds) w =
     trace_log tick type pid (map (\<lambda>(k, v). (k, value_text v)) flds) w"

definition fields_text :: "(string \<times> field_value) list \<Rightarrow> string" where
  "fields_text flds = concat (map (\<lambda>(k, v). '','' @ quoted k @ '':'' @ value_text v) flds)"

fun event_text :: "event \<Rightarrow> string" where
  "event_text (tick, type, pid, flds) =
     ''  {'' @ quoted ''tick'' @ '':'' @ int_to_string tick @ '','' @ quoted ''type'' @ '':'' @ quoted type @
     '','' @ quoted ''pid'' @ '':'' @ int_to_string pid @ fields_text flds @ ''}''"

fun events_text :: "event list \<Rightarrow> string" where
  "events_text [] = []"
| "events_text [e] = event_text e"
| "events_text (e # es) = event_text e @ '','' @ [nl] @ events_text es"

lemma flds_concat:
  "concat (map (\<lambda>(key, value). '','' @ quoted key @ '':'' @ value) (map (\<lambda>(k, v). (k, value_text v)) fs)) =
   fields_text fs"
  "concat (map (\<lambda>kv. '','' @ quoted (fst kv) @ '':'' @ snd kv) (map (\<lambda>(k, v). (k, value_text v)) fs)) =
   fields_text fs"
  unfolding fields_text_def by (induction fs) auto

lemma log_event_out:
  "el_out (log_event e l) = el_out l @ (if el_first l then [] else '','' @ [nl]) @ event_text e"
  "\<not> el_first (log_event e l)"
proof (atomize (full), cases e)
  case (fields tick type pid fs)
  show "el_out (log_event e l) = el_out l @ (if el_first l then [] else '','' @ [nl]) @ event_text e \<and>
    \<not> el_first (log_event e l)"
    unfolding fields log_event.simps event_text.simps Log_def flds_concat by (simp add: Let_def)
qed

lemma trace_event_out:
  "tw_out (trace_event e l) = tw_out l @ (if tw_first l then [] else '','' @ [nl]) @ event_text e"
  "\<not> tw_first (trace_event e l)"
proof (atomize (full), cases e)
  case (fields tick type pid fs)
  show "tw_out (trace_event e l) = tw_out l @ (if tw_first l then [] else '','' @ [nl]) @ event_text e \<and>
    \<not> tw_first (trace_event e l)"
    unfolding fields trace_event.simps event_text.simps trace_log_def flds_concat by (simp add: Let_def)
qed

lemma fold_log_out:
  "el_out (fold log_event es l) =
     el_out l @ (if es = [] \<or> el_first l then [] else '','' @ [nl]) @ events_text es"
proof (induction es arbitrary: l)
  case (Cons e es)
  then show ?case by (cases es) (simp_all add: log_event_out)
qed simp

lemma fold_trace_out:
  "tw_out (fold trace_event es l) =
     tw_out l @ (if es = [] \<or> tw_first l then [] else '','' @ [nl]) @ events_text es"
proof (induction es arbitrary: l)
  case (Cons e es)
  then show ?case by (cases es) (simp_all add: trace_event_out)
qed simp

lemma log_file:
  "EventLogger_close (fold log_event es EventLogger_new) = ''['' @ [nl] @ events_text es @ [nl] @ '']'' @ [nl]"
  by (simp add: EventLogger_close_def fold_log_out EventLogger_new_def)

lemma trace_file:
  "TraceWriter_close (fold trace_event es TraceWriter_new) = ''['' @ [nl] @ events_text es @ [nl] @ '']'' @ [nl]"
  by (simp add: TraceWriter_close_def fold_trace_out TraceWriter_new_def)

subsection \<open>A reader\<close>

definition lit :: "string \<Rightarrow> string \<Rightarrow> string option" where
  "lit l s = (if take (length l) s = l then Some (drop (length l) s) else None)"

definition numchar :: "char \<Rightarrow> bool" where
  "numchar c \<longleftrightarrow> is_digit c \<or> c = CHR ''-''"

definition p_int :: "string \<Rightarrow> int \<times> string" where
  "p_int s = (read_int (takeWhile numchar s), dropWhile numchar s)"

definition p_quoted :: "string \<Rightarrow> (string \<times> string) option" where
  "p_quoted s = (case lit [dq] s of None \<Rightarrow> None
     | Some t \<Rightarrow> (case dropWhile (\<lambda>c. c \<noteq> dq) t of [] \<Rightarrow> None | c # r \<Rightarrow> Some (takeWhile (\<lambda>c. c \<noteq> dq) t, r)))"

definition p_value :: "string \<Rightarrow> (field_value \<times> string) option" where
  "p_value s = (case p_quoted s of Some (t, r) \<Rightarrow> Some (VStr t, r)
     | None \<Rightarrow> (let (n, r) = p_int s in Some (VNum n, r)))"

text \<open>The number bounds the recursion; the length of the text is enough.\<close>

fun p_fields :: "nat \<Rightarrow> string \<Rightarrow> ((string \<times> field_value) list \<times> string) option" where
  "p_fields 0 s = None"
| "p_fields (Suc n) s =
     (case lit '','' s of
        None \<Rightarrow> Some ([], s)
      | Some s1 \<Rightarrow>
          (case p_quoted s1 of
             None \<Rightarrow> None
           | Some (k, s2) \<Rightarrow>
               (case lit '':'' s2 of
                  None \<Rightarrow> None
                | Some s3 \<Rightarrow>
                    (case p_value s3 of
                       None \<Rightarrow> None
                     | Some (v, s4) \<Rightarrow>
                         (case p_fields n s4 of None \<Rightarrow> None | Some (fs, s5) \<Rightarrow> Some ((k, v) # fs, s5))))))"

definition p_event :: "nat \<Rightarrow> string \<Rightarrow> (event \<times> string) option" where
  "p_event n s =
     (case lit (''  {'' @ quoted ''tick'' @ '':'') s of
        None \<Rightarrow> None
      | Some s1 \<Rightarrow>
          (let (tick, s2) = p_int s1 in
           case lit ('','' @ quoted ''type'' @ '':'') s2 of
             None \<Rightarrow> None
           | Some s3 \<Rightarrow>
               (case p_quoted s3 of
                  None \<Rightarrow> None
                | Some (type, s4) \<Rightarrow>
                    (case lit ('','' @ quoted ''pid'' @ '':'') s4 of
                       None \<Rightarrow> None
                     | Some s5 \<Rightarrow>
                         (let (pid, s6) = p_int s5 in
                          case p_fields n s6 of
                            None \<Rightarrow> None
                          | Some (fs, s7) \<Rightarrow>
                              map_option (\<lambda>s8. ((tick, type, pid, fs), s8)) (lit ''}'' s7))))))"

fun p_events :: "nat \<Rightarrow> string \<Rightarrow> (event list \<times> string) option" where
  "p_events 0 s = None"
| "p_events (Suc n) s =
     (case p_event (Suc n) s of
        None \<Rightarrow> Some ([], s)
      | Some (e, s1) \<Rightarrow>
          (case lit ('','' @ [nl]) s1 of
             None \<Rightarrow> Some ([e], s1)
           | Some s2 \<Rightarrow> (case p_events n s2 of None \<Rightarrow> None | Some (es, s3) \<Rightarrow> Some (e # es, s3))))"

definition read_trace :: "string \<Rightarrow> event list option" where
  "read_trace s =
     (case lit (''['' @ [nl]) s of
        None \<Rightarrow> None
      | Some s1 \<Rightarrow>
          (case p_events (length s) s1 of
             None \<Rightarrow> None
           | Some (es, s2) \<Rightarrow> if s2 = [nl] @ '']'' @ [nl] then Some es else None))"

subsection \<open>The reader inverts the writers\<close>

definition plain :: "string \<Rightarrow> bool" where
  "plain s \<longleftrightarrow> dq \<notin> set s"

fun plain_value :: "field_value \<Rightarrow> bool" where
  "plain_value (VStr s) = plain s"
| "plain_value (VNum n) = True"

fun plain_event :: "event \<Rightarrow> bool" where
  "plain_event (tick, type, pid, fs) \<longleftrightarrow> plain type \<and> (\<forall>(k, v) \<in> set fs. plain k \<and> plain_value v)"

definition stops :: "string \<Rightarrow> bool" where
  "stops r \<longleftrightarrow> (case r of [] \<Rightarrow> True | c # cs \<Rightarrow> \<not> numchar c)"

lemma lit_app [simp]: "lit l (l @ r) = Some r"
  by (simp add: lit_def)

lemma numchar_int: "c \<in> set (int_to_string i) \<Longrightarrow> numchar c"
  using int_to_string_chars [of c i] by (simp add: numchar_def)

lemma p_int_app: "stops r \<Longrightarrow> p_int (int_to_string i @ r) = (i, r)"
  by (cases r) (auto simp: p_int_def stops_def numchar_int takeWhile_append2 dropWhile_append2 takeWhile_tail
    takeWhile_eq_all_conv [THEN iffD2])

lemma p_quoted_app: "plain s \<Longrightarrow> p_quoted (quoted s @ r) = Some (s, r)"
proof -
  assume "plain s"
  then have "\<forall>c \<in> set s. c \<noteq> dq" by (auto simp: plain_def)
  then show ?thesis
    unfolding p_quoted_def quoted_def append_assoc lit_app option.case
    by (simp add: takeWhile_append2 dropWhile_append2)
qed

lemma p_quoted_int: "p_quoted (int_to_string i @ r) = None"
proof -
  obtain c cs where i: "int_to_string i = c # cs"
    by (cases "int_to_string i") (auto simp: int_to_string_def split: if_splits)
  then have "numchar c" using numchar_int [of c i] by simp
  then have "c \<noteq> dq" by (auto simp: numchar_def is_digit_def)
  then show ?thesis by (simp add: p_quoted_def i lit_def)
qed

lemma p_value_app: "plain_value v \<Longrightarrow> stops r \<Longrightarrow> p_value (value_text v @ r) = Some (v, r)"
  by (cases v) (simp_all add: p_value_def Str_def Num_def p_quoted_app p_quoted_int p_int_app)

lemma stops_simps [simp]: "stops (CHR '','' # r)" "stops (CHR ''}'' # r)"
  by (simp_all add: stops_def numchar_def is_digit_def)

lemma fields_text_Cons: "fields_text ((k, v) # fs) = '','' @ quoted k @ '':'' @ value_text v @ fields_text fs"
  by (simp add: fields_text_def)

lemma stops_fields: "stops (fields_text fs @ ''}'' @ r)"
  by (cases fs) (auto simp: fields_text_def)

lemma p_fields_app:
  "\<forall>(k, v) \<in> set fs. plain k \<and> plain_value v \<Longrightarrow> length fs < n \<Longrightarrow>
   p_fields n (fields_text fs @ ''}'' @ r) = Some (fs, ''}'' @ r)"
proof (induction fs arbitrary: n)
  case Nil
  then obtain m where "n = Suc m" by (cases n) auto
  then show ?case by (simp add: fields_text_def lit_def)
next
  case (Cons f fs)
  obtain k v where f: "f = (k, v)" by fastforce
  obtain m where n: "n = Suc m" "length fs < m" using Cons.prems(2) by (cases n) auto
  have plain: "plain k" "plain_value v" "\<forall>(k, v) \<in> set fs. plain k \<and> plain_value v"
    using Cons.prems(1) by (auto simp: f)
  let ?rest = "fields_text fs @ ''}'' @ r"
  have "p_fields n ('','' @ quoted k @ '':'' @ value_text v @ ?rest) = Some ((k, v) # fs, ''}'' @ r)"
    unfolding n(1) p_fields.simps lit_app option.case p_quoted_app [OF plain(1)] prod.case
      p_value_app [OF plain(2) stops_fields] Cons.IH [OF plain(3) n(2)] ..
  then show ?case unfolding f fields_text_Cons append_assoc .
qed

lemma p_event_app:
  assumes "plain_event e" "length (event_text e) < n"
  shows "p_event n (event_text e @ r) = Some (e, r)"
proof -
  obtain tick type pid fs where e: "e = (tick, type, pid, fs)" by (cases e)
  have plain: "plain type" "\<forall>(k, v) \<in> set fs. plain k \<and> plain_value v" using assms(1) by (auto simp: e)
  have "length fs \<le> length (fields_text fs)"
    by (induction fs) (auto simp: fields_text_def)
  then have len: "length fs < n" using assms(2) by (simp add: e)
  let ?s6 = "fields_text fs @ ''}'' @ r"
  let ?s5 = "int_to_string pid @ ?s6"
  let ?s4 = "('','' @ quoted ''pid'' @ '':'') @ ?s5"
  let ?s2 = "('','' @ quoted ''type'' @ '':'') @ quoted type @ ?s4"
  let ?s = "(''  {'' @ quoted ''tick'' @ '':'') @ int_to_string tick @ ?s2"
  have "stops ?s2" by simp
  then have "p_event n ?s = Some (e, r)"
    unfolding p_event_def lit_app option.case p_int_app [OF \<open>stops ?s2\<close>] Let_def prod.case
      p_quoted_app [OF plain(1)] p_int_app [OF stops_fields] p_fields_app [OF plain(2) len] e
    by simp
  moreover have "event_text e @ r = ?s" by (simp add: e)
  ultimately show ?thesis by simp
qed

lemma p_events_app:
  "\<forall>e \<in> set es. plain_event e \<Longrightarrow> length (events_text es) < n \<Longrightarrow>
   p_events n (events_text es @ [nl] @ r) = Some (es, [nl] @ r)"
proof (induction es arbitrary: n rule: events_text.induct)
  case 1
  then obtain m where "n = Suc m" by (cases n) auto
  then show ?case by (simp add: p_event_def lit_def)
next
  case (2 e)
  then obtain m where n: "n = Suc m" by (cases n) auto
  have "p_event (Suc m) (event_text e @ [nl] @ r) = Some (e, [nl] @ r)"
    using 2 n by (intro p_event_app) auto
  then show ?case by (simp add: n lit_def)
next
  case (3 e e' es)
  obtain m where n: "n = Suc m" using 3(3) by (cases n) auto
  have 1: "p_event (Suc m) (event_text e @ '','' @ [nl] @ events_text (e' # es) @ [nl] @ r) =
      Some (e, '','' @ [nl] @ events_text (e' # es) @ [nl] @ r)"
    using 3(2,3) n by (intro p_event_app) auto
  have "p_events m (events_text (e' # es) @ [nl] @ r) = Some (e' # es, [nl] @ r)"
    using 3 n by (intro 3(1)) auto
  then have "p_events (Suc m) (event_text e @ '','' @ [nl] @ events_text (e' # es) @ [nl] @ r) =
      Some (e # e' # es, [nl] @ r)"
    unfolding p_events.simps 1 option.case prod.case using lit_app [of "'','' @ [nl]"] by simp
  then show ?case by (simp add: n)
qed

lemma read_trace_text:
  assumes "\<forall>e \<in> set es. plain_event e"
  shows "read_trace (''['' @ [nl] @ events_text es @ [nl] @ '']'' @ [nl]) = Some es"
proof -
  let ?f = "(''['' @ [nl]) @ events_text es @ [nl] @ '']'' @ [nl]"
  have "p_events (length ?f) (events_text es @ [nl] @ '']'' @ [nl]) = Some (es, [nl] @ '']'' @ [nl])"
    by (rule p_events_app [OF assms]) simp
  then have "read_trace ?f = Some es" unfolding read_trace_def lit_app option.case by simp
  then show ?thesis by simp
qed

text \<open>
  C22. Both trace writers keep every event: the file left by \<open>EventLogger\<close> and the file left by
  \<open>TraceWriter\<close> after the same calls are the same text, and reading it gives back the events in
  order, provided no name, key or string value contains a quotation mark.
\<close>

theorem event_log_roundtrip:
  assumes "\<forall>e \<in> set es. plain_event e"
  shows "EventLogger_close (fold log_event es EventLogger_new) = TraceWriter_close (fold trace_event es TraceWriter_new) \<and>
    read_trace (EventLogger_close (fold log_event es EventLogger_new)) = Some es"
  by (simp only: log_file trace_file read_trace_text [OF assms] simp_thms)

definition demo_events :: "event list" where
  "demo_events = [(0, ''process_created'', 1, [(''name'', VStr ''init''), (''memoryRequest'', VNum 128)]),
     (3, ''process_terminated'', 1, [])]"

theorem event_log_roundtrip_witness:
  "read_trace (EventLogger_close (fold log_event demo_events EventLogger_new)) = Some demo_events"
proof -
  have "\<forall>e \<in> set demo_events. plain_event e" by (simp add: demo_events_def plain_def)
  from event_log_roundtrip [OF this] show ?thesis by (rule conjunct2)
qed

end
