(* ===== verification/OsScheduler.thy ===== *)
theory OsScheduler
  imports BuddyAllocator EventLog
begin

text \<open>
  The OS simulation: the process control block of \<^verbatim>\<open>include/Process.hpp\<close>, the round-robin
  scheduler with memory-constrained admission of \<^verbatim>\<open>include/Scheduler.hpp\<close> over the buddy
  allocator and the event log, and the set-up of \<^verbatim>\<open>examples/OSSimDemo.cpp\<close>.  The \<open>int\<close> counters
  of ticks are integers: they only count down from their initial value.
\<close>

subsection \<open>Processes\<close>

datatype ProcessState = NEW | READY | RUNNING | WAITING | TERMINATED

fun ToString :: "ProcessState \<Rightarrow> string" where
  "ToString NEW = ''NEW''"
| "ToString READY = ''READY''"
| "ToString RUNNING = ''RUNNING''"
| "ToString WAITING = ''WAITING''"
| "ToString TERMINATED = ''TERMINATED''"

record Burst =
  cpuTicks :: int
  ioTicks :: int

record Process =
  pc_id :: int
  pc_name :: string
  pc_arrivalTick :: int
  pc_memoryRequest :: size_t
  pc_bursts :: "Burst list"
  pc_currentBurst :: nat
  pc_remainingCpuTicks :: int
  pc_remainingIoTicks :: int
  pc_state :: ProcessState
  pc_memPtr :: ptr
  pc_memOffset :: size_t
  pc_memBlockSize :: size_t

definition HasMoreBursts :: "Process \<Rightarrow> bool" where
  "HasMoreBursts p \<longleftrightarrow> pc_currentBurst p < length (pc_bursts p)"

subsection \<open>The scheduler\<close>

record Scheduler =
  sd_allocator :: BuddyAllocator
  sd_log :: EventLogger
  sd_quantum :: int
  sd_tick :: int
  sd_allProcesses :: "Process list"
  sd_readyQueue :: "nat list"
  sd_waitingList :: "nat list"
  sd_runningIdx :: int

definition Scheduler_new :: "BuddyAllocator \<Rightarrow> EventLogger \<Rightarrow> int \<Rightarrow> Scheduler" where
  "Scheduler_new allocator lg quantum =
     \<lparr>sd_allocator = allocator, sd_log = lg, sd_quantum = quantum, sd_tick = 0, sd_allProcesses = [],
      sd_readyQueue = [], sd_waitingList = [], sd_runningIdx = -1\<rparr>"

definition AddProcess :: "Process \<Rightarrow> Scheduler \<Rightarrow> Scheduler" where
  "AddProcess p s = s\<lparr>sd_allProcesses := sd_allProcesses s @ [p]\<rparr>"

definition AllTerminated :: "Scheduler \<Rightarrow> bool" where
  "AllTerminated s \<longleftrightarrow> list_all (\<lambda>p. pc_state p = TERMINATED) (sd_allProcesses s)"

definition log_call :: "string \<Rightarrow> Process \<Rightarrow> (string \<times> string) list \<Rightarrow> Scheduler \<Rightarrow> Scheduler" where
  "log_call type p flds s = s\<lparr>sd_log := Log (sd_tick s) type (pc_id p) flds (sd_log s)\<rparr>"

definition put_proc :: "nat \<Rightarrow> Process \<Rightarrow> Scheduler \<Rightarrow> Scheduler" where
  "put_proc i p s = s\<lparr>sd_allProcesses := (sd_allProcesses s)[i := p]\<rparr>"

definition push_ready :: "nat \<Rightarrow> Scheduler \<Rightarrow> Scheduler" where
  "push_ready i s = s\<lparr>sd_readyQueue := sd_readyQueue s @ [i]\<rparr>"

text \<open>A \<open>size_t\<close> is logged after a cast to \<open>long long\<close>.\<close>

definition num_size :: "size_t \<Rightarrow> string" where
  "num_size n = Num (sint n)"

definition admit_one :: "nat \<Rightarrow> Scheduler \<Rightarrow> Scheduler" where
  "admit_one i s =
     (let p = sd_allProcesses s ! i in
      if pc_state p \<noteq> NEW \<or> pc_arrivalTick p > sd_tick s then s
      else
        let (ptr, b) = BuddyAllocator_Allocate (sd_allocator s) (pc_memoryRequest p);
            s1 = s\<lparr>sd_allocator := b\<rparr>
        in if ptr = nullptr then s1
           else
             let p1 = p\<lparr>pc_memPtr := ptr, pc_memOffset := OffsetOf b ptr,
                        pc_memBlockSize := BlockSizeForRequest b (pc_memoryRequest p), pc_state := READY\<rparr>;
                 s2 = put_proc i p1 s1;
                 s3 = log_call ''process_created'' p1
                        [(''name'', Str (pc_name p1)), (''memoryRequest'', num_size (pc_memoryRequest p1))] s2;
                 s4 = log_call ''memory_allocated'' p1
                        [(''offset'', num_size (pc_memOffset p1)), (''size'', num_size (pc_memBlockSize p1))] s3;
                 s5 = log_call ''process_ready'' p1 [] s4
             in push_ready i s5)"

definition AdmitPendingProcesses :: "Scheduler \<Rightarrow> Scheduler" where
  "AdmitPendingProcesses s = fold admit_one [0 ..< length (sd_allProcesses s)] s"

fun service_loop :: "nat list \<Rightarrow> nat list \<Rightarrow> Scheduler \<Rightarrow> Scheduler" where
  "service_loop kept [] s = s\<lparr>sd_waitingList := kept\<rparr>"
| "service_loop kept (i # ws) s =
     (let p = sd_allProcesses s ! i;
          p1 = p\<lparr>pc_remainingIoTicks := pc_remainingIoTicks p - 1\<rparr>
      in if pc_remainingIoTicks p1 \<le> 0 then
           let s1 = log_call ''io_ack'' p1 [] (put_proc i p1 s);
               p2 = p1\<lparr>pc_state := READY\<rparr>;
               s2 = log_call ''process_ready'' p2 [] (put_proc i p2 s1)
           in service_loop kept ws (push_ready i s2)
         else service_loop (kept @ [i]) ws (put_proc i p1 s))"

definition ServiceIoQueue :: "Scheduler \<Rightarrow> Scheduler" where
  "ServiceIoQueue s = service_loop [] (sd_waitingList s) s"

text \<open>\<open>finish_burst\<close> is the part of \<open>RunOneCpuSlice\<close> after the burst is used up.\<close>

definition finish_burst :: "nat \<Rightarrow> Burst \<Rightarrow> Process \<Rightarrow> Scheduler \<Rightarrow> Scheduler result" where
  "finish_burst idx burst p s =
     (if ioTicks burst > 0 then
        let p1 = p\<lparr>pc_state := WAITING, pc_remainingIoTicks := ioTicks burst,
                   pc_currentBurst := pc_currentBurst p + 1\<rparr>;
            s1 = log_call ''io_requested'' p1 [(''ioTicks'', Num (ioTicks burst))] (put_proc idx p1 s)
        in Inr (s1\<lparr>sd_waitingList := sd_waitingList s1 @ [idx]\<rparr>)
      else
        let p1 = p\<lparr>pc_currentBurst := pc_currentBurst p + 1\<rparr> in
        if HasMoreBursts p1 then
          let p2 = p1\<lparr>pc_state := READY\<rparr>
          in Inr (log_call ''process_ready'' p2 [] (push_ready idx (put_proc idx p2 s)))
        else
          (case BuddyAllocator_Free (sd_allocator s) (pc_memPtr p1) (pc_memBlockSize p1) of
             None \<Rightarrow> Inl No_return
           | Some b \<Rightarrow>
               let s1 = log_call ''memory_freed'' p1
                          [(''offset'', num_size (pc_memOffset p1)), (''size'', num_size (pc_memBlockSize p1))]
                          ((put_proc idx p1 s)\<lparr>sd_allocator := b\<rparr>);
                   p2 = p1\<lparr>pc_state := TERMINATED\<rparr>
               in Inr (log_call ''process_terminated'' p2 [] (put_proc idx p2 s1))))"

definition RunOneCpuSlice :: "Scheduler \<Rightarrow> Scheduler result" where
  "RunOneCpuSlice s =
     (case sd_readyQueue s of
        [] \<Rightarrow> Inr s
      | idx # rest \<Rightarrow>
          let p = (sd_allProcesses s ! idx)\<lparr>pc_state := RUNNING\<rparr>;
              s1 = log_call ''process_scheduled'' p [(''burstIndex'', Num (int (pc_currentBurst p)))]
                     (put_proc idx p (s\<lparr>sd_readyQueue := rest\<rparr>))
          in if pc_currentBurst p \<ge> length (pc_bursts p) then Inl Undefined
             else
               let burst = pc_bursts p ! pc_currentBurst p;
                   rem = (if pc_remainingCpuTicks p \<le> 0 then cpuTicks burst else pc_remainingCpuTicks p);
                   ran = min (sd_quantum s1) rem;
                   p1 = p\<lparr>pc_remainingCpuTicks := rem - ran\<rparr>;
                   s2 = log_call ''cpu_run'' p1 [(''ticks'', Num ran), (''remaining'', Num (rem - ran))]
                          (put_proc idx p1 s1)
               in if pc_remainingCpuTicks p1 > 0 then
                    let p2 = p1\<lparr>pc_state := READY\<rparr>
                    in Inr (push_ready idx (log_call ''process_ready'' p2 [(''reason'', Str ''preempted'')] (put_proc idx p2 s2)))
                  else finish_burst idx burst p1 s2)"

definition tick_body :: "Scheduler \<Rightarrow> Scheduler result" where
  "tick_body s = RunOneCpuSlice (ServiceIoQueue (AdmitPendingProcesses s))"

lemma os_frame [simp]:
  "sd_tick (log_call t p f s) = sd_tick s" "sd_tick (put_proc i p s) = sd_tick s" "sd_tick (push_ready i s) = sd_tick s"
  "sd_quantum (log_call t p f s) = sd_quantum s" "sd_quantum (put_proc i p s) = sd_quantum s"
  "sd_quantum (push_ready i s) = sd_quantum s"
  "sd_allocator (log_call t p f s) = sd_allocator s" "sd_allocator (put_proc i p s) = sd_allocator s"
  "sd_allocator (push_ready i s) = sd_allocator s"
  "sd_allProcesses (log_call t p f s) = sd_allProcesses s"
  "sd_allProcesses (put_proc i p s) = (sd_allProcesses s)[i := p]"
  "sd_allProcesses (push_ready i s) = sd_allProcesses s"
  "sd_readyQueue (log_call t p f s) = sd_readyQueue s" "sd_readyQueue (put_proc i p s) = sd_readyQueue s"
  "sd_readyQueue (push_ready i s) = sd_readyQueue s @ [i]"
  "sd_waitingList (log_call t p f s) = sd_waitingList s" "sd_waitingList (put_proc i p s) = sd_waitingList s"
  "sd_waitingList (push_ready i s) = sd_waitingList s"
  by (simp_all add: log_call_def put_proc_def push_ready_def)

lemma admit_tick [simp]: "sd_tick (admit_one i s) = sd_tick s" "sd_quantum (admit_one i s) = sd_quantum s"
  by (simp_all add: admit_one_def Let_def split_beta)

lemma admit_all_tick [simp]:
  "sd_tick (AdmitPendingProcesses s) = sd_tick s" "sd_quantum (AdmitPendingProcesses s) = sd_quantum s"
proof -
  have "sd_tick (fold admit_one js s) = sd_tick s \<and> sd_quantum (fold admit_one js s) = sd_quantum s" for js
    by (induction js arbitrary: s) simp_all
  then show "sd_tick (AdmitPendingProcesses s) = sd_tick s" "sd_quantum (AdmitPendingProcesses s) = sd_quantum s"
    by (simp_all add: AdmitPendingProcesses_def)
qed

lemma service_tick [simp]:
  "sd_tick (service_loop kept ws s) = sd_tick s" "sd_quantum (service_loop kept ws s) = sd_quantum s"
  by (induction kept ws s rule: service_loop.induct) (simp_all add: Let_def)

lemma slice_tick:
  "RunOneCpuSlice s = Inr s' \<Longrightarrow> sd_tick s' = sd_tick s"
  by (auto simp: RunOneCpuSlice_def finish_burst_def Let_def split: list.splits if_splits option.splits)

lemma tick_body_tick: "tick_body s = Inr s' \<Longrightarrow> sd_tick s' = sd_tick s"
  using slice_tick by (fastforce simp: tick_body_def ServiceIoQueue_def)

function Run_from :: "int \<Rightarrow> Scheduler \<Rightarrow> Scheduler result" where
  "Run_from maxTicks s =
     (if sd_tick s < maxTicks then
        (case tick_body s of
           Inl e \<Rightarrow> Inl e
         | Inr s1 \<Rightarrow>
             if AllTerminated s1 then Inr s1
             else Run_from maxTicks (s1\<lparr>sd_tick := sd_tick s1 + 1\<rparr>))
      else Inr s)"
  by pat_completeness auto
termination
  by (relation "measure (\<lambda>(maxTicks, s). nat (maxTicks - sd_tick s))") (auto dest: tick_body_tick)

declare Run_from.simps [simp del]

definition Run :: "int \<Rightarrow> Scheduler \<Rightarrow> Scheduler result" where
  "Run maxTicks s = Run_from maxTicks (s\<lparr>sd_tick := 0\<rparr>)"

subsection \<open>The demo\<close>

text \<open>
  The set-up of the demo.  \<open>draw g lo hi\<close> is one draw of \<open>uniform_int_distribution<int>(lo, hi)\<close>
  from the generator in state \<open>g\<close>.
\<close>

type_synonym 'g int_draw = "'g \<Rightarrow> int \<Rightarrow> int \<Rightarrow> int \<times> 'g"

definition memSizes :: "size_t list" where
  "memSizes = [128, 256, 512, 1024, 2048]"

definition demo_names :: "string list" where
  "demo_names = [''init'', ''shell'', ''compiler'', ''browser'', ''logger'', ''db_worker'', ''net_daemon'',
     ''renderer'', ''cache_svc'', ''watchdog'']"

fun demo_bursts :: "'g int_draw \<Rightarrow> nat \<Rightarrow> 'g \<Rightarrow> Burst list \<times> 'g" where
  "demo_bursts draw 0 g = ([], g)"
| "demo_bursts draw (Suc left) g =
     (let (cpu, g1) = draw g 2 6;
          (io, g2) = (if left = 0 then (0, g1) else draw g1 1 4);
          (bs, g3) = demo_bursts draw left g2
      in (\<lparr>cpuTicks = cpu, ioTicks = io\<rparr> # bs, g3))"

definition demo_process :: "'g int_draw \<Rightarrow> nat \<Rightarrow> 'g \<Rightarrow> Process \<times> 'g" where
  "demo_process draw i g =
     (let (arr, g1) = draw g 0 6;
          (m, g2) = draw g1 0 4;
          (num, g3) = draw g2 1 3;
          (bs, g4) = demo_bursts draw (nat num) g3
      in (\<lparr>pc_id = int i + 1, pc_name = demo_names ! (i mod length demo_names), pc_arrivalTick = arr,
           pc_memoryRequest = memSizes ! nat m, pc_bursts = bs, pc_currentBurst = 0, pc_remainingCpuTicks = 0,
           pc_remainingIoTicks = 0, pc_state = NEW, pc_memPtr = nullptr, pc_memOffset = 0, pc_memBlockSize = 0\<rparr>, g4))"

fun demo_processes :: "'g int_draw \<Rightarrow> nat list \<Rightarrow> 'g \<Rightarrow> Process list" where
  "demo_processes draw [] g = []"
| "demo_processes draw (i # js) g = (let (p, g1) = demo_process draw i g in p # demo_processes draw js g1)"

definition os_sim_demo :: "'g int_draw \<Rightarrow> 'g \<Rightarrow> BuddyAllocator \<Rightarrow> Scheduler result" where
  "os_sim_demo draw seed allocator =
     Run 200 (fold AddProcess (demo_processes draw [0 ..< 8] seed) (Scheduler_new allocator EventLogger_new 3))"

subsection \<open>One CPU slice\<close>

definition os_in :: "ProcessState \<Rightarrow> Process list \<Rightarrow> nat set" where
  "os_in X ps = {i. i < length ps \<and> pc_state (ps ! i) = X}"

lemma os_in_update:
  "i < length ps \<Longrightarrow>
   os_in X (ps[i := p]) = (if pc_state p = X then insert i (os_in X ps) else os_in X ps - {i})"
  by (auto simp: os_in_def nth_list_update)

definition slice_rem :: "Process \<Rightarrow> int" where
  "slice_rem p = (if pc_remainingCpuTicks p \<le> 0 then cpuTicks (pc_bursts p ! pc_currentBurst p) else pc_remainingCpuTicks p)"

text \<open>The four ways a slice ends, with the intermediate stores and log calls composed.\<close>

lemma slice_unfold:
  assumes "sd_readyQueue s = i # rest" "p = sd_allProcesses s ! i" "pc_currentBurst p < length (pc_bursts p)"
    and "k = min (sd_quantum s) (slice_rem p)"
    and "p1 = p\<lparr>pc_state := RUNNING, pc_remainingCpuTicks := slice_rem p - k\<rparr>"
  obtains s1 where "sd_allocator s1 = sd_allocator s" "sd_readyQueue s1 = rest" "sd_waitingList s1 = sd_waitingList s"
    "sd_quantum s1 = sd_quantum s" "sd_allProcesses s1 = (sd_allProcesses s)[i := p1]"
    "RunOneCpuSlice s =
      (if slice_rem p - k > 0
       then Inr (push_ready i (log_call ''process_ready'' (p1\<lparr>pc_state := READY\<rparr>) [(''reason'', Str ''preempted'')]
         (put_proc i (p1\<lparr>pc_state := READY\<rparr>) s1)))
       else finish_burst i (pc_bursts p ! pc_currentBurst p) p1 s1)"
proof -
  let ?p = "p\<lparr>pc_state := RUNNING\<rparr>"
  have p1: "p1 = ?p\<lparr>pc_remainingCpuTicks := slice_rem p - k\<rparr>" using assms(5) by simp
  have r: "(if pc_remainingCpuTicks ?p \<le> 0 then cpuTicks (pc_bursts ?p ! pc_currentBurst ?p)
      else pc_remainingCpuTicks ?p) = slice_rem p" by (simp add: slice_rem_def)
  define s1 where "s1 = log_call ''cpu_run'' p1 [(''ticks'', Num k), (''remaining'', Num (slice_rem p - k))]
    (put_proc i p1 (log_call ''process_scheduled'' ?p [(''burstIndex'', Num (int (pc_currentBurst p)))]
      (put_proc i ?p (s\<lparr>sd_readyQueue := rest\<rparr>))))"
  have "RunOneCpuSlice s =
      (if slice_rem p - k > 0
       then Inr (push_ready i (log_call ''process_ready'' (p1\<lparr>pc_state := READY\<rparr>) [(''reason'', Str ''preempted'')]
         (put_proc i (p1\<lparr>pc_state := READY\<rparr>) s1)))
       else finish_burst i (pc_bursts p ! pc_currentBurst p) p1 s1)"
    unfolding RunOneCpuSlice_def assms(1) list.case assms(2) [symmetric] s1_def Let_def r
    using assms(3) by (simp add: assms(4) p1)
  then show thesis by (rule that [rotated 5]) (simp_all add: s1_def)
qed

lemma slice_preempted:
  assumes "sd_readyQueue s = i # rest" "p = sd_allProcesses s ! i" "pc_currentBurst p < length (pc_bursts p)"
    "sd_quantum s < slice_rem p"
  shows "\<exists>s'. RunOneCpuSlice s = Inr s' \<and> sd_allocator s' = sd_allocator s \<and> sd_readyQueue s' = rest @ [i] \<and>
    sd_waitingList s' = sd_waitingList s \<and> sd_quantum s' = sd_quantum s \<and>
    sd_allProcesses s' = (sd_allProcesses s)[i := p\<lparr>pc_remainingCpuTicks := slice_rem p - sd_quantum s, pc_state := READY\<rparr>]"
proof -
  have m: "min (sd_quantum s) (slice_rem p) = sd_quantum s" using assms(4) by simp
  show ?thesis
  proof (rule slice_unfold [OF assms(1-3) refl refl], unfold m)
    fix s1
    assume s1: "sd_allocator s1 = sd_allocator s" "sd_readyQueue s1 = rest" "sd_waitingList s1 = sd_waitingList s"
      "sd_quantum s1 = sd_quantum s"
      "sd_allProcesses s1 = (sd_allProcesses s)[i := p\<lparr>pc_state := RUNNING, pc_remainingCpuTicks := slice_rem p - sd_quantum s\<rparr>]"
      and run: "RunOneCpuSlice s =
        (if slice_rem p - sd_quantum s > 0
         then Inr (push_ready i (log_call ''process_ready''
           (p\<lparr>pc_state := RUNNING, pc_remainingCpuTicks := slice_rem p - sd_quantum s\<rparr>\<lparr>pc_state := READY\<rparr>) [(''reason'', Str ''preempted'')]
           (put_proc i (p\<lparr>pc_state := RUNNING, pc_remainingCpuTicks := slice_rem p - sd_quantum s\<rparr>\<lparr>pc_state := READY\<rparr>) s1)))
         else finish_burst i (pc_bursts p ! pc_currentBurst p)
           (p\<lparr>pc_state := RUNNING, pc_remainingCpuTicks := slice_rem p - sd_quantum s\<rparr>) s1)"
    show ?thesis using assms(4) unfolding run by (simp add: s1)
  qed
qed

lemma slice_used_up:
  assumes "sd_readyQueue s = i # rest" "p = sd_allProcesses s ! i" "pc_currentBurst p < length (pc_bursts p)"
    "slice_rem p \<le> sd_quantum s"
  obtains s1 where "sd_allocator s1 = sd_allocator s" "sd_readyQueue s1 = rest" "sd_waitingList s1 = sd_waitingList s"
    "sd_quantum s1 = sd_quantum s"
    "sd_allProcesses s1 = (sd_allProcesses s)[i := p\<lparr>pc_state := RUNNING, pc_remainingCpuTicks := 0\<rparr>]"
    "RunOneCpuSlice s = finish_burst i (pc_bursts p ! pc_currentBurst p)
       (p\<lparr>pc_state := RUNNING, pc_remainingCpuTicks := 0\<rparr>) s1"
proof -
  have m: "min (sd_quantum s) (slice_rem p) = slice_rem p" using assms(4) by simp
  from slice_unfold [OF assms(1-3) refl refl] show thesis using that unfolding m by auto
qed

lemma slice_blocks:
  assumes "sd_readyQueue s = i # rest" "p = sd_allProcesses s ! i" "pc_currentBurst p < length (pc_bursts p)"
    "slice_rem p \<le> sd_quantum s" "b = pc_bursts p ! pc_currentBurst p" "0 < ioTicks b"
  shows "\<exists>s'. RunOneCpuSlice s = Inr s' \<and> sd_allocator s' = sd_allocator s \<and> sd_readyQueue s' = rest \<and>
    sd_waitingList s' = sd_waitingList s @ [i] \<and> sd_quantum s' = sd_quantum s \<and>
    sd_allProcesses s' = (sd_allProcesses s)[i := p\<lparr>pc_remainingCpuTicks := 0, pc_state := WAITING,
      pc_remainingIoTicks := ioTicks b, pc_currentBurst := pc_currentBurst p + 1\<rparr>]"
proof -
  have c: "pc_currentBurst p < length (pc_bursts p)" using assms(3) by simp
  obtain s1 where s1: "sd_allocator s1 = sd_allocator s" "sd_readyQueue s1 = rest"
    "sd_waitingList s1 = sd_waitingList s" "sd_quantum s1 = sd_quantum s"
    "sd_allProcesses s1 = (sd_allProcesses s)[i := p\<lparr>pc_state := RUNNING, pc_remainingCpuTicks := 0\<rparr>]"
    and run: "RunOneCpuSlice s = finish_burst i (pc_bursts p ! pc_currentBurst p)
       (p\<lparr>pc_state := RUNNING, pc_remainingCpuTicks := 0\<rparr>) s1"
    by (rule slice_used_up [OF assms(1,2) c assms(4)])
  show ?thesis unfolding run using assms(3-) s1
    by (simp add: finish_burst_def HasMoreBursts_def Let_def)
qed

lemma slice_next:
  assumes "sd_readyQueue s = i # rest" "p = sd_allProcesses s ! i" "pc_currentBurst p + 1 < length (pc_bursts p)"
    "slice_rem p \<le> sd_quantum s" "ioTicks (pc_bursts p ! pc_currentBurst p) \<le> 0"
  shows "\<exists>s'. RunOneCpuSlice s = Inr s' \<and> sd_allocator s' = sd_allocator s \<and> sd_readyQueue s' = rest @ [i] \<and>
    sd_waitingList s' = sd_waitingList s \<and> sd_quantum s' = sd_quantum s \<and>
    sd_allProcesses s' = (sd_allProcesses s)[i := p\<lparr>pc_remainingCpuTicks := 0,
      pc_currentBurst := pc_currentBurst p + 1, pc_state := READY\<rparr>]"
proof -
  have c: "pc_currentBurst p < length (pc_bursts p)" using assms(3) by simp
  obtain s1 where s1: "sd_allocator s1 = sd_allocator s" "sd_readyQueue s1 = rest"
    "sd_waitingList s1 = sd_waitingList s" "sd_quantum s1 = sd_quantum s"
    "sd_allProcesses s1 = (sd_allProcesses s)[i := p\<lparr>pc_state := RUNNING, pc_remainingCpuTicks := 0\<rparr>]"
    and run: "RunOneCpuSlice s = finish_burst i (pc_bursts p ! pc_currentBurst p)
       (p\<lparr>pc_state := RUNNING, pc_remainingCpuTicks := 0\<rparr>) s1"
    by (rule slice_used_up [OF assms(1,2) c assms(4)])
  show ?thesis unfolding run using assms(3-) s1
    by (simp add: finish_burst_def HasMoreBursts_def Let_def)
qed

lemma slice_finishes:
  assumes "sd_readyQueue s = i # rest" "p = sd_allProcesses s ! i" "pc_currentBurst p + 1 = length (pc_bursts p)"
    "slice_rem p \<le> sd_quantum s" "ioTicks (pc_bursts p ! pc_currentBurst p) \<le> 0"
    "BuddyAllocator_Free (sd_allocator s) (pc_memPtr p) (pc_memBlockSize p) = Some a"
  shows "\<exists>s'. RunOneCpuSlice s = Inr s' \<and> sd_allocator s' = a \<and> sd_readyQueue s' = rest \<and>
    sd_waitingList s' = sd_waitingList s \<and> sd_quantum s' = sd_quantum s \<and>
    sd_allProcesses s' = (sd_allProcesses s)[i := p\<lparr>pc_remainingCpuTicks := 0,
      pc_currentBurst := pc_currentBurst p + 1, pc_state := TERMINATED\<rparr>]"
proof -
  have c: "pc_currentBurst p < length (pc_bursts p)" using assms(3) by simp
  obtain s1 where s1: "sd_allocator s1 = sd_allocator s" "sd_readyQueue s1 = rest"
    "sd_waitingList s1 = sd_waitingList s" "sd_quantum s1 = sd_quantum s"
    "sd_allProcesses s1 = (sd_allProcesses s)[i := p\<lparr>pc_state := RUNNING, pc_remainingCpuTicks := 0\<rparr>]"
    and run: "RunOneCpuSlice s = finish_burst i (pc_bursts p ! pc_currentBurst p)
       (p\<lparr>pc_state := RUNNING, pc_remainingCpuTicks := 0\<rparr>) s1"
    by (rule slice_used_up [OF assms(1,2) c assms(4)])
  show ?thesis unfolding run using assms(3-) s1
    by (simp add: finish_burst_def HasMoreBursts_def Let_def)
qed

lemma slice_idle: "sd_readyQueue s = [] \<Longrightarrow> RunOneCpuSlice s = Inr s"
  by (simp add: RunOneCpuSlice_def)

subsection \<open>Who holds what\<close>

definition active :: "Process \<Rightarrow> bool" where
  "active p \<longleftrightarrow> pc_state p = READY \<or> pc_state p = RUNNING \<or> pc_state p = WAITING"

definition active_idx :: "Process list \<Rightarrow> nat set" where
  "active_idx ps = {i. i < length ps \<and> active (ps ! i)}"

definition region_of :: "Process \<Rightarrow> ptr \<times> size_t" where
  "region_of p = (pc_memPtr p, pc_memBlockSize p)"

definition os_holds :: "Process list \<Rightarrow> (ptr \<times> size_t) set" where
  "os_holds ps = (\<lambda>i. region_of (ps ! i)) ` active_idx ps"

definition own_ptrs :: "Process list \<Rightarrow> bool" where
  "own_ptrs ps \<longleftrightarrow> inj_on (\<lambda>i. pc_memPtr (ps ! i)) (active_idx ps)"

lemma active_idx_update:
  "i < length ps \<Longrightarrow> active_idx (ps[i := p]) = (if active p then insert i (active_idx ps) else active_idx ps - {i})"
  by (auto simp: active_idx_def nth_list_update)

lemma os_holds_keep:
  assumes "i < length ps" "active p = active (ps ! i)" "region_of p = region_of (ps ! i)"
  shows "os_holds (ps[i := p]) = os_holds ps" "own_ptrs ps \<Longrightarrow> own_ptrs (ps[i := p])"
proof -
  have a: "active_idx (ps[i := p]) = active_idx ps"
    using assms(1,2) by (auto simp: active_idx_def nth_list_update)
  have r: "region_of (ps[i := p] ! j) = region_of (ps ! j)" for j
    using assms by (cases "i = j") simp_all
  show "os_holds (ps[i := p]) = os_holds ps" by (simp add: os_holds_def a r)
  have "pc_memPtr (ps[i := p] ! j) = pc_memPtr (ps ! j)" for j using r [of j] by (simp add: region_of_def)
  then show "own_ptrs ps \<Longrightarrow> own_ptrs (ps[i := p])" by (simp add: own_ptrs_def a)
qed

lemma os_holds_new:
  assumes "i < length ps" "\<not> active (ps ! i)" "active p"
  shows "os_holds (ps[i := p]) = insert (region_of p) (os_holds ps)"
    "own_ptrs ps \<Longrightarrow> \<forall>m. (pc_memPtr p, m) \<notin> os_holds ps \<Longrightarrow> own_ptrs (ps[i := p])"
proof -
  have i: "i \<notin> active_idx ps" using assms(2) by (simp add: active_idx_def)
  then have n: "ps[i := p] ! j = ps ! j" if "j \<in> active_idx ps" for j using that by (cases "i = j") auto
  have a: "active_idx (ps[i := p]) = insert i (active_idx ps)" using assms by (simp add: active_idx_update)
  show "os_holds (ps[i := p]) = insert (region_of p) (os_holds ps)"
    using assms(1) by (auto simp: os_holds_def a n)
  assume own: "own_ptrs ps" and new: "\<forall>m. (pc_memPtr p, m) \<notin> os_holds ps"
  have "pc_memPtr p \<noteq> pc_memPtr (ps ! j)" if "j \<in> active_idx ps" for j
    using new that by (auto simp: os_holds_def region_of_def image_iff)
  then have "pc_memPtr p \<notin> (\<lambda>j. pc_memPtr (ps ! j)) ` active_idx ps" by blast
  moreover have "(\<lambda>j. pc_memPtr (ps[i := p] ! j)) ` active_idx ps = (\<lambda>j. pc_memPtr (ps ! j)) ` active_idx ps"
    by (rule image_cong) (simp_all add: n)
  moreover have "inj_on (\<lambda>j. pc_memPtr (ps[i := p] ! j)) (active_idx ps)"
    using own unfolding own_ptrs_def by (rule inj_on_cong [THEN iffD2, rotated]) (simp add: n)
  ultimately show "own_ptrs (ps[i := p])"
    using assms(1) i unfolding own_ptrs_def a inj_on_insert by simp
qed

lemma os_holds_drop:
  assumes "i < length ps" "active (ps ! i)" "\<not> active p" "own_ptrs ps"
  shows "os_holds (ps[i := p]) = os_holds ps - {region_of (ps ! i)}" "own_ptrs (ps[i := p])"
proof -
  have a: "active_idx (ps[i := p]) = active_idx ps - {i}" using assms by (simp add: active_idx_update)
  have i: "i \<in> active_idx ps" using assms by (simp add: active_idx_def)
  have n: "ps[i := p] ! j = ps ! j" if "j \<noteq> i" for j using that by simp
  have inj: "region_of (ps ! j) = region_of (ps ! i) \<Longrightarrow> j = i" if "j \<in> active_idx ps" for j
    using assms(4) i that by (auto simp: own_ptrs_def inj_on_def region_of_def)
  have "os_holds (ps[i := p]) = (\<lambda>j. region_of (ps ! j)) ` (active_idx ps - {i})"
    unfolding os_holds_def a by (rule image_cong) (auto simp: n)
  also have "\<dots> = os_holds ps - {region_of (ps ! i)}"
    using inj i by (auto simp: os_holds_def)
  finally show "os_holds (ps[i := p]) = os_holds ps - {region_of (ps ! i)}" .
  show "own_ptrs (ps[i := p])"
    using assms(4) unfolding own_ptrs_def a by (auto simp: inj_on_def n)
qed

subsection \<open>The invariant\<close>

text \<open>
  A job is well formed when it has a burst, every burst needs the CPU, and no IO follows the last
  one.  The waiting list is an argument because the loop over it works on a part at a time.
\<close>

definition os_wf :: "Process \<Rightarrow> bool" where
  "os_wf p \<longleftrightarrow> pc_bursts p \<noteq> [] \<and> (\<forall>b \<in> set (pc_bursts p). 0 < cpuTicks b \<and> 0 \<le> ioTicks b) \<and>
     ioTicks (last (pc_bursts p)) = 0"

definition os_job :: "Process \<Rightarrow> bool" where
  "os_job p \<longleftrightarrow> os_wf p \<and> (active p \<longrightarrow> unat (pc_memoryRequest p) \<le> unat (pc_memBlockSize p)) \<and>
     (case pc_state p of
        NEW \<Rightarrow> pc_currentBurst p = 0 \<and> pc_remainingCpuTicks p \<le> 0
      | READY \<Rightarrow> pc_currentBurst p < length (pc_bursts p)
      | RUNNING \<Rightarrow> False
      | WAITING \<Rightarrow> pc_currentBurst p < length (pc_bursts p) \<and> 0 < pc_remainingIoTicks p \<and> pc_remainingCpuTicks p \<le> 0
      | TERMINATED \<Rightarrow> True)"

definition os_inv :: "nat \<Rightarrow> nat list \<Rightarrow> Scheduler \<Rightarrow> bool" where
  "os_inv c ws s \<longleftrightarrow>
     buddy_admission.blocks_only c (sd_allocator s) (os_holds (sd_allProcesses s)) \<and>
     own_ptrs (sd_allProcesses s) \<and> (\<forall>p \<in> set (sd_allProcesses s). os_job p) \<and>
     distinct (sd_readyQueue s) \<and> set (sd_readyQueue s) = os_in READY (sd_allProcesses s) \<and>
     distinct ws \<and> set ws = os_in WAITING (sd_allProcesses s)"

definition os_tail :: "nat \<Rightarrow> Burst list \<Rightarrow> nat" where
  "os_tail k bs = sum_list (map (\<lambda>b. nat (cpuTicks b) + nat (ioTicks b)) (drop k bs))"

definition os_work :: "Process \<Rightarrow> nat" where
  "os_work p =
     (case pc_state p of
        TERMINATED \<Rightarrow> 0
      | WAITING \<Rightarrow> nat (pc_remainingIoTicks p) + os_tail (pc_currentBurst p) (pc_bursts p)
      | _ \<Rightarrow> nat (slice_rem p) + nat (ioTicks (pc_bursts p ! pc_currentBurst p)) +
             os_tail (pc_currentBurst p + 1) (pc_bursts p))"

definition os_total :: "Scheduler \<Rightarrow> nat" where
  "os_total s = sum_list (map os_work (sd_allProcesses s))"

lemma os_tail_step:
  "k < length bs \<Longrightarrow> os_tail k bs = nat (cpuTicks (bs ! k)) + nat (ioTicks (bs ! k)) + os_tail (k + 1) bs"
  by (simp add: os_tail_def flip: Cons_nth_drop_Suc)

lemma os_tail_end [simp]: "length bs \<le> k \<Longrightarrow> os_tail k bs = 0"
  by (simp add: os_tail_def)

lemma os_total_put:
  assumes "i < length ps"
  shows "sum_list (map os_work (ps[i := p])) + os_work (ps ! i) = sum_list (map os_work ps) + os_work p"
  using assms
proof (induction ps arbitrary: i)
  case (Cons q ps)
  then show ?case by (cases i) auto
qed simp

lemma os_jobs_put: "\<forall>p \<in> set ps. os_job p \<Longrightarrow> os_job p \<Longrightarrow> \<forall>q \<in> set (ps[i := p]). os_job q"
  by (auto dest!: set_update_subset_insert [THEN subsetD])

lemma os_inv_job: "os_inv c ws s \<Longrightarrow> i < length (sd_allProcesses s) \<Longrightarrow> os_job (sd_allProcesses s ! i)"
  by (simp add: os_inv_def)

subsection \<open>Admission\<close>

lemma admit_one_cases:
  fixes s :: Scheduler
  obtains (skip) "admit_one i s = s" "pc_state (sd_allProcesses s ! i) \<noteq> NEW \<or> pc_arrivalTick (sd_allProcesses s ! i) > sd_tick s"
  | (refused) b where "pc_state (sd_allProcesses s ! i) = NEW"
      "BuddyAllocator_Allocate (sd_allocator s) (pc_memoryRequest (sd_allProcesses s ! i)) = (nullptr, b)"
      "admit_one i s = s\<lparr>sd_allocator := b\<rparr>"
  | (granted) x b s' p where "pc_state (sd_allProcesses s ! i) = NEW" "x \<noteq> nullptr"
      "BuddyAllocator_Allocate (sd_allocator s) (pc_memoryRequest (sd_allProcesses s ! i)) = (x, b)"
      "p = (sd_allProcesses s ! i)\<lparr>pc_memPtr := x, pc_memOffset := OffsetOf b x,
         pc_memBlockSize := BlockSizeForRequest b (pc_memoryRequest (sd_allProcesses s ! i)), pc_state := READY\<rparr>"
      "admit_one i s = s'" "sd_allocator s' = b" "sd_allProcesses s' = (sd_allProcesses s)[i := p]"
      "sd_readyQueue s' = sd_readyQueue s @ [i]" "sd_waitingList s' = sd_waitingList s"
proof -
  let ?p = "sd_allProcesses s ! i"
  obtain x b where a: "BuddyAllocator_Allocate (sd_allocator s) (pc_memoryRequest ?p) = (x, b)" by fastforce
  consider "pc_state ?p \<noteq> NEW \<or> pc_arrivalTick ?p > sd_tick s"
    | "pc_state ?p = NEW" "\<not> pc_arrivalTick ?p > sd_tick s" "x = nullptr"
    | "pc_state ?p = NEW" "\<not> pc_arrivalTick ?p > sd_tick s" "x \<noteq> nullptr" by blast
  then show thesis
  proof cases
    case 1
    then show ?thesis by (intro skip) (simp_all add: admit_one_def Let_def)
  next
    case 2
    then show ?thesis using a by (intro refused [of b]) (simp_all add: admit_one_def Let_def)
  next
    case 3
    then show ?thesis using a
      by (intro granted [OF 3(1,3) a refl refl]) (simp_all add: admit_one_def Let_def)
  qed
qed

lemma admit_one_inv:
  assumes "os_inv c (sd_waitingList s) s" "i < length (sd_allProcesses s)"
  shows "os_inv c (sd_waitingList (admit_one i s)) (admit_one i s) \<and> os_total (admit_one i s) = os_total s \<and>
    length (sd_allProcesses (admit_one i s)) = length (sd_allProcesses s) \<and>
    sd_waitingList (admit_one i s) = sd_waitingList s"
proof (cases rule: admit_one_cases [of i s])
  case skip
  then show ?thesis using assms by simp
next
  case (refused b)
  then have "b = sd_allocator s"
    using assms(1) buddy.alloc_null [of c "sd_allocator s"] by (auto simp: os_inv_def buddy_admission.blocks_only_def)
  then show ?thesis using refused assms by simp
next
  case (granted x b s' p)
  let ?ps = "sd_allProcesses s" and ?q = "sd_allProcesses s ! i"
  have blk: "buddy_admission.blocks_only c (sd_allocator s) (os_holds ?ps)" using assms(1) by (simp add: os_inv_def)
  note g = buddy_admission.blocks_only_grant [OF blk granted(3,2)]
  have ina: "\<not> active ?q" using granted(1) by (simp add: active_def)
  have p: "active p" "region_of p = (x, BlockSizeForRequest b (pc_memoryRequest ?q))" "pc_memPtr p = x" "pc_state p = READY"
    using granted(4) by (simp_all add: active_def region_of_def)
  note h = os_holds_new [OF assms(2) ina p(1)]
  have job: "os_job ?q" using os_inv_job [OF assms] .
  then have "0 < length (pc_bursts ?q)" by (simp add: os_job_def os_wf_def)
  then have jp: "os_job p" using job granted(1,4) g(3) by (simp add: os_job_def os_wf_def active_def)
  have w: "os_work p = os_work ?q" using granted(1,4) by (simp add: os_work_def slice_rem_def)
  have "i \<notin> os_in READY ?ps" "i \<notin> os_in WAITING ?ps" using granted(1) by (auto simp: os_in_def)
  moreover have "own_ptrs (?ps[i := p])" using h(2) g(2) assms(1) p(3) by (simp add: os_inv_def)
  ultimately have "os_inv c (sd_waitingList s) s'"
    using assms g(1) h(1) p os_jobs_put [OF _ jp, of ?ps i] granted(6-9)
    by (auto simp: os_inv_def os_in_update)
  moreover have "os_total s' = os_total s"
    using os_total_put [OF assms(2), of p] w granted(7) by (simp add: os_total_def)
  ultimately show ?thesis using granted(5,7,9) by simp
qed

lemma admit_inv:
  assumes "os_inv c (sd_waitingList s) s"
  shows "os_inv c (sd_waitingList (AdmitPendingProcesses s)) (AdmitPendingProcesses s) \<and>
    os_total (AdmitPendingProcesses s) = os_total s"
proof -
  have "os_inv c (sd_waitingList (fold admit_one js s)) (fold admit_one js s) \<and> os_total (fold admit_one js s) = os_total s"
    if "\<forall>i \<in> set js. i < length (sd_allProcesses s)" for js
    using that assms
  proof (induction js arbitrary: s)
    case (Cons i js)
    have one: "os_inv c (sd_waitingList (admit_one i s)) (admit_one i s)" "os_total (admit_one i s) = os_total s"
      "length (sd_allProcesses (admit_one i s)) = length (sd_allProcesses s)"
      using admit_one_inv [OF Cons.prems(2), of i] Cons.prems(1) by auto
    have "\<forall>j \<in> set js. j < length (sd_allProcesses (admit_one i s))" using Cons.prems(1) one(3) by simp
    from Cons.IH [OF this one(1)] one(2) show ?case by simp
  qed simp
  then show ?thesis by (simp add: AdmitPendingProcesses_def)
qed

subsection \<open>IO and CPU\<close>

lemma slice_rem_new: "pc_remainingCpuTicks p \<le> 0 \<Longrightarrow> slice_rem p = cpuTicks (pc_bursts p ! pc_currentBurst p)"
  by (simp add: slice_rem_def)

text \<open>Replacing a process by one with the same region.\<close>

lemma os_inv_put:
  assumes "os_inv c ws s" "i < length (sd_allProcesses s)" "os_job p"
    "active p = active (sd_allProcesses s ! i)" "region_of p = region_of (sd_allProcesses s ! i)"
    and s': "sd_allProcesses s' = (sd_allProcesses s)[i := p]" "sd_allocator s' = sd_allocator s"
    and lists: "distinct (sd_readyQueue s')" "set (sd_readyQueue s') = os_in READY (sd_allProcesses s')"
      "distinct ws'" "set ws' = os_in WAITING (sd_allProcesses s')"
  shows "os_inv c ws' s'"
  using assms os_holds_keep [OF assms(2,4,5)] os_jobs_put [OF _ assms(3), of "sd_allProcesses s" i]
  by (simp add: os_inv_def)

lemma service_loop_inv:
  assumes "os_inv c (kept @ ws) s"
  shows "os_inv c (sd_waitingList (service_loop kept ws s)) (service_loop kept ws s) \<and>
    os_total (service_loop kept ws s) + length ws = os_total s"
  using assms
proof (induction ws arbitrary: kept s)
  case Nil
  then show ?case by (simp add: os_inv_def os_total_def)
next
  case (Cons i ws)
  let ?ps = "sd_allProcesses s" and ?p = "sd_allProcesses s ! i"
  have w: "i \<in> os_in WAITING ?ps" "distinct (kept @ i # ws)" "set (kept @ i # ws) = os_in WAITING ?ps"
    using Cons.prems by (auto simp: os_inv_def)
  have i: "i < length ?ps" "pc_state ?p = WAITING" using w(1) by (auto simp: os_in_def)
  have job: "os_job ?p" using os_inv_job [OF Cons.prems i(1)] .
  then have cur: "pc_currentBurst ?p < length (pc_bursts ?p)" "0 < pc_remainingIoTicks ?p" "pc_remainingCpuTicks ?p \<le> 0"
    using i(2) by (simp_all add: os_job_def)
  show ?case
  proof (cases "pc_remainingIoTicks ?p - 1 \<le> 0")
    case True
    define q where "q = ?p\<lparr>pc_remainingIoTicks := pc_remainingIoTicks ?p - 1, pc_state := READY\<rparr>"
    define s1 where "s1 = push_ready i (log_call ''process_ready'' q [] (put_proc i q
      (log_call ''io_ack'' (?p\<lparr>pc_remainingIoTicks := pc_remainingIoTicks ?p - 1\<rparr>) []
        (put_proc i (?p\<lparr>pc_remainingIoTicks := pc_remainingIoTicks ?p - 1\<rparr>) s))))"
    have run: "service_loop kept (i # ws) s = service_loop kept ws s1"
      using True by (simp add: s1_def q_def Let_def)
    have s1: "sd_allProcesses s1 = ?ps[i := q]" "sd_allocator s1 = sd_allocator s"
      "sd_readyQueue s1 = sd_readyQueue s @ [i]" by (simp_all add: s1_def)
    have q: "os_job q" "active q = active ?p" "region_of q = region_of ?p"
      using job i(2) cur by (simp_all add: q_def os_job_def os_wf_def active_def region_of_def)
    have "i \<notin> os_in READY ?ps" using i by (simp add: os_in_def)
    then have "os_inv c (kept @ ws) s1"
      using Cons.prems w i(1) s1
      by (intro os_inv_put [OF Cons.prems i(1) q s1(1,2)]) (auto simp: os_inv_def os_in_update q_def)
    moreover have "os_work q + 1 = os_work ?p"
      using i(2) cur True os_tail_step [OF cur(1)] by (simp add: q_def os_work_def slice_rem_def)
    then have "os_total s1 + 1 = os_total s"
      using os_total_put [OF i(1), of q] s1(1) by (simp add: os_total_def)
    ultimately show ?thesis using Cons.IH [of kept s1] run by simp
  next
    case False
    define q where "q = ?p\<lparr>pc_remainingIoTicks := pc_remainingIoTicks ?p - 1\<rparr>"
    have run: "service_loop kept (i # ws) s = service_loop (kept @ [i]) ws (put_proc i q s)"
      using False by (simp add: q_def Let_def)
    have q: "os_job q" "active q = active ?p" "region_of q = region_of ?p"
      using job i(2) cur False by (simp_all add: q_def os_job_def os_wf_def active_def region_of_def)
    have "i \<notin> os_in READY ?ps" using i by (simp add: os_in_def)
    then have "os_inv c ((kept @ [i]) @ ws) (put_proc i q s)"
      using Cons.prems w i
      by (intro os_inv_put [OF Cons.prems i(1) q]) (auto simp: os_inv_def os_in_update q_def)
    moreover have "os_work q + 1 = os_work ?p"
      using i(2) False by (simp add: q_def os_work_def)
    then have "os_total (put_proc i q s) + 1 = os_total s"
      using os_total_put [OF i(1), of q] by (simp add: os_total_def)
    ultimately show ?thesis using Cons.IH [of "kept @ [i]" "put_proc i q s"] run by simp
  qed
qed

lemma service_inv:
  assumes "os_inv c (sd_waitingList s) s"
  shows "os_inv c (sd_waitingList (ServiceIoQueue s)) (ServiceIoQueue s)"
    "os_total (ServiceIoQueue s) + length (sd_waitingList s) = os_total s"
  using service_loop_inv [of c "[]" "sd_waitingList s" s] assms by (simp_all add: ServiceIoQueue_def)

text \<open>What never changes: requests, arrivals and the shape of the arena.\<close>

definition static_of :: "Process \<Rightarrow> size_t \<times> int" where
  "static_of p = (pc_memoryRequest p, pc_arrivalTick p)"

definition os_same :: "Scheduler \<Rightarrow> Scheduler \<Rightarrow> bool" where
  "os_same s s' \<longleftrightarrow> map static_of (sd_allProcesses s') = map static_of (sd_allProcesses s) \<and>
     same_params (sd_allocator s) (sd_allocator s')"

lemma os_same_refl [simp]: "os_same s s"
  by (simp add: os_same_def)

lemma os_same_trans: "os_same s t \<Longrightarrow> os_same t u \<Longrightarrow> os_same s u"
  by (simp add: os_same_def same_params_def)

lemma os_same_put:
  assumes "i < length (sd_allProcesses s)" "sd_allProcesses s' = (sd_allProcesses s)[i := x]"
    "static_of x = static_of (sd_allProcesses s ! i)" "same_params (sd_allocator s) (sd_allocator s')"
  shows "os_same s s'"
proof -
  have "map static_of ((sd_allProcesses s)[i := x]) = (map static_of (sd_allProcesses s))[i := map static_of (sd_allProcesses s) ! i]"
    using assms(1,3) by (simp add: map_update)
  then have "map static_of ((sd_allProcesses s)[i := x]) = map static_of (sd_allProcesses s)"
    by (simp only: list_update_id)
  then show ?thesis using assms by (simp add: os_same_def)
qed

lemma admit_one_same:
  assumes "os_inv c (sd_waitingList s) s" "i < length (sd_allProcesses s)"
  shows "os_same s (admit_one i s)"
proof (cases rule: admit_one_cases [of i s])
  case skip
  then show ?thesis by simp
next
  case (refused b)
  then have "b = sd_allocator s"
    using assms(1) buddy.alloc_null [of c "sd_allocator s"] by (auto simp: os_inv_def buddy_admission.blocks_only_def)
  then show ?thesis using refused by simp
next
  case (granted x b s' p)
  have inv: "buddy_inv c (sd_allocator s) (os_holds (sd_allProcesses s))"
    using assms(1) by (simp add: os_inv_def buddy_admission.blocks_only_def)
  then have "same_params (sd_allocator s) (sd_allocator s')"
    using Allocate_ok [OF inv granted(3,2)] granted(6) by simp
  then show ?thesis unfolding granted(5)
    using assms(2) granted(7) by (intro os_same_put [of i s s' p]) (simp_all add: granted(4) static_of_def)
qed

lemma admit_same:
  assumes "os_inv c (sd_waitingList s) s"
  shows "os_same s (AdmitPendingProcesses s)"
proof -
  have "os_same s (fold admit_one js s)" if "\<forall>i \<in> set js. i < length (sd_allProcesses s)" for js
    using that assms
  proof (induction js arbitrary: s)
    case (Cons i js)
    have i: "i < length (sd_allProcesses s)" using Cons.prems(1) by simp
    have one: "os_inv c (sd_waitingList (admit_one i s)) (admit_one i s)"
      "length (sd_allProcesses (admit_one i s)) = length (sd_allProcesses s)"
      using admit_one_inv [OF Cons.prems(2) i] by auto
    have "\<forall>j \<in> set js. j < length (sd_allProcesses (admit_one i s))" using Cons.prems(1) one(2) by simp
    from os_same_trans [OF admit_one_same [OF Cons.prems(2) i] Cons.IH [OF this one(1)]] show ?case by simp
  qed simp
  then show ?thesis by (simp add: AdmitPendingProcesses_def)
qed

lemma service_same: "os_same s (ServiceIoQueue s)"
proof -
  have put: "os_same s (put_proc i x s)" if "static_of x = static_of (sd_allProcesses s ! i)" for i x and s :: Scheduler
  proof (cases "i < length (sd_allProcesses s)")
    case True
    then show ?thesis using that by (intro os_same_put [of i s _ x]) simp_all
  next
    case False
    then show ?thesis by (simp add: os_same_def list_update_beyond)
  qed
  have "os_same s (service_loop kept ws s)" for kept ws
  proof (induction ws arbitrary: kept s)
    case (Cons i ws)
    define p where "p = (sd_allProcesses s ! i)\<lparr>pc_remainingIoTicks := pc_remainingIoTicks (sd_allProcesses s ! i) - 1\<rparr>"
    have st: "static_of p = static_of (sd_allProcesses s ! i)" "static_of (p\<lparr>pc_state := READY\<rparr>) = static_of (sd_allProcesses s ! i)"
      by (simp_all add: p_def static_of_def)
    have "os_same s (put_proc i p s)" using st by (intro put)
    moreover have "os_same s (put_proc i (p\<lparr>pc_state := READY\<rparr>) s)" using st by (intro put)
    then have "os_same s (push_ready i (log_call ''process_ready'' (p\<lparr>pc_state := READY\<rparr>) []
        (put_proc i (p\<lparr>pc_state := READY\<rparr>) (log_call ''io_ack'' p [] (put_proc i p s)))))"
      by (simp add: os_same_def)
    ultimately show ?case using Cons.IH os_same_trans by (simp add: Let_def p_def)
  qed (simp add: os_same_def)
  then show ?thesis by (simp add: ServiceIoQueue_def)
qed

lemma slice_inv:
  assumes inv: "os_inv c (sd_waitingList s) s" and q: "1 \<le> sd_quantum s" and r: "sd_readyQueue s = i # rest"
  shows "\<exists>s'. RunOneCpuSlice s = Inr s' \<and> os_inv c (sd_waitingList s') s' \<and> os_total s' < os_total s \<and>
    sd_quantum s' = sd_quantum s \<and> os_same s s'"
proof -
  let ?ps = "sd_allProcesses s"
  define p where "p = ?ps ! i"
  have rq: "i \<in> os_in READY ?ps" "distinct (i # rest)" "set (i # rest) = os_in READY ?ps"
    and wl: "distinct (sd_waitingList s)" "set (sd_waitingList s) = os_in WAITING ?ps"
    using inv r by (auto simp: os_inv_def)
  have i: "i < length ?ps" "pc_state p = READY" using rq(1) by (auto simp: os_in_def p_def)
  have nw: "i \<notin> os_in WAITING ?ps" using i by (simp add: os_in_def p_def)
  have job: "os_job p" using os_inv_job [OF inv i(1)] by (simp add: p_def)
  then have cur: "pc_currentBurst p < length (pc_bursts p)" and wf: "os_wf p"
    and mem: "unat (pc_memoryRequest p) \<le> unat (pc_memBlockSize p)"
    using i(2) by (simp_all add: os_job_def active_def)
  define b where "b = pc_bursts p ! pc_currentBurst p"
  have b: "0 < cpuTicks b" "0 \<le> ioTicks b" using wf cur by (simp_all add: b_def os_wf_def)
  have rem: "0 < slice_rem p" using b(1) by (simp add: slice_rem_def b_def)
  have wp: "os_work p = nat (slice_rem p) + nat (ioTicks b) + os_tail (pc_currentBurst p + 1) (pc_bursts p)"
    using i(2) by (simp add: os_work_def b_def)
  have ap: "active (?ps ! i)" using i(2) by (simp add: active_def p_def)
  have total: "os_total s' < os_total s" if "sd_allProcesses s' = ?ps[i := x]" "os_work x < os_work p" for s' x
    using os_total_put [OF i(1), of x] that by (simp add: os_total_def p_def)
  have same: "os_same s s'" if "sd_allProcesses s' = ?ps[i := x]" "static_of x = static_of p"
      "same_params (sd_allocator s) (sd_allocator s')" for s' x
    using that i(1) by (intro os_same_put [of i s s' x]) (simp_all add: p_def)
  have put: "os_inv c (sd_waitingList s') s'"
    if "os_job x" "active x" "region_of x = region_of p" "sd_allProcesses s' = ?ps[i := x]" "sd_allocator s' = sd_allocator s"
      "distinct (sd_readyQueue s')" "set (sd_readyQueue s') = os_in READY (?ps[i := x])"
      "distinct (sd_waitingList s')" "set (sd_waitingList s') = os_in WAITING (?ps[i := x])" for s' x
    using that ap by (intro os_inv_put [OF inv i(1), of x]) (simp_all add: p_def)
  consider (pre) "sd_quantum s < slice_rem p"
    | (io) "slice_rem p \<le> sd_quantum s" "0 < ioTicks b"
    | (more) "slice_rem p \<le> sd_quantum s" "ioTicks b \<le> 0" "pc_currentBurst p + 1 < length (pc_bursts p)"
    | (fin) "slice_rem p \<le> sd_quantum s" "ioTicks b \<le> 0" "pc_currentBurst p + 1 = length (pc_bursts p)"
    using cur by linarith
  then show ?thesis
  proof cases
    case pre
    let ?x = "p\<lparr>pc_remainingCpuTicks := slice_rem p - sd_quantum s, pc_state := READY\<rparr>"
    obtain s' where s': "RunOneCpuSlice s = Inr s'" "sd_allocator s' = sd_allocator s" "sd_readyQueue s' = rest @ [i]"
      "sd_waitingList s' = sd_waitingList s" "sd_quantum s' = sd_quantum s" "sd_allProcesses s' = ?ps[i := ?x]"
      using slice_preempted [OF r p_def cur pre] by blast
    have "os_work ?x < os_work p" using wp pre q cur by (simp add: os_work_def slice_rem_def [of ?x] b_def)
    moreover have "os_job ?x" using job i(2) cur by (simp add: os_job_def os_wf_def active_def)
    ultimately show ?thesis
      using s' put [of ?x s'] total [of s' ?x] same [of s' ?x] rq wl nw i
      by (auto simp: os_in_update active_def region_of_def static_of_def)
  next
    case io
    have "pc_currentBurst p \<noteq> length (pc_bursts p) - 1"
      using io(2) wf by (auto simp: b_def os_wf_def last_conv_nth)
    then have more: "pc_currentBurst p + 1 < length (pc_bursts p)" using cur by linarith
    let ?x = "p\<lparr>pc_remainingCpuTicks := 0, pc_state := WAITING, pc_remainingIoTicks := ioTicks b,
      pc_currentBurst := pc_currentBurst p + 1\<rparr>"
    obtain s' where s': "RunOneCpuSlice s = Inr s'" "sd_allocator s' = sd_allocator s" "sd_readyQueue s' = rest"
      "sd_waitingList s' = sd_waitingList s @ [i]" "sd_quantum s' = sd_quantum s" "sd_allProcesses s' = ?ps[i := ?x]"
      using slice_blocks [OF r p_def cur io(1) b_def io(2)] by blast
    have "os_work ?x < os_work p" using wp rem by (simp add: os_work_def)
    moreover have "os_job ?x" using job i(2) more io(2) by (simp add: os_job_def os_wf_def active_def)
    ultimately show ?thesis
      using s' put [of ?x s'] total [of s' ?x] same [of s' ?x] rq wl nw i
      by (auto simp: os_in_update active_def region_of_def static_of_def)
  next
    case more
    let ?x = "p\<lparr>pc_remainingCpuTicks := 0, pc_currentBurst := pc_currentBurst p + 1, pc_state := READY\<rparr>"
    obtain s' where s': "RunOneCpuSlice s = Inr s'" "sd_allocator s' = sd_allocator s" "sd_readyQueue s' = rest @ [i]"
      "sd_waitingList s' = sd_waitingList s" "sd_quantum s' = sd_quantum s" "sd_allProcesses s' = ?ps[i := ?x]"
      using slice_next [OF r p_def more(3,1)] more(2) by (auto simp: b_def)
    have "slice_rem ?x = cpuTicks (pc_bursts p ! Suc (pc_currentBurst p))" by (simp add: slice_rem_def)
    then have "os_work ?x = os_tail (pc_currentBurst p + 1) (pc_bursts p)"
      using os_tail_step [OF more(3)] by (simp add: os_work_def)
    then have "os_work ?x < os_work p" using wp rem by simp
    moreover have "os_job ?x" using job i(2) more(3) by (simp add: os_job_def os_wf_def active_def)
    ultimately show ?thesis
      using s' put [of ?x s'] total [of s' ?x] same [of s' ?x] rq wl nw i
      by (auto simp: os_in_update active_def region_of_def static_of_def)
  next
    case fin
    let ?x = "p\<lparr>pc_remainingCpuTicks := 0, pc_currentBurst := pc_currentBurst p + 1, pc_state := TERMINATED\<rparr>"
    have blk: "buddy_admission.blocks_only c (sd_allocator s) (os_holds ?ps)" and own: "own_ptrs ?ps"
      using inv by (simp_all add: os_inv_def)
    have "region_of p \<in> os_holds ?ps" using ap i(1) by (auto simp: os_holds_def active_idx_def p_def)
    then have held: "(pc_memPtr p, pc_memBlockSize p) \<in> os_holds ?ps" by (simp add: region_of_def)
    obtain a where a: "BuddyAllocator_Free (sd_allocator s) (pc_memPtr p) (pc_memBlockSize p) = Some a"
      "buddy_admission.blocks_only c a (os_holds ?ps - {region_of p})"
      using buddy_admission.blocks_only_free [OF blk held] by (auto simp: region_of_def)
    have binv: "buddy_inv c (sd_allocator s) (os_holds ?ps)" using blk by (simp add: buddy_admission.blocks_only_def)
    have sp: "same_params (sd_allocator s) a" using Free_ok [OF binv held] a(1) by auto
    obtain s' where s': "RunOneCpuSlice s = Inr s'" "sd_allocator s' = a" "sd_readyQueue s' = rest"
      "sd_waitingList s' = sd_waitingList s" "sd_quantum s' = sd_quantum s" "sd_allProcesses s' = ?ps[i := ?x]"
      using slice_finishes [OF r p_def fin(3,1) _ a(1)] fin(2) by (auto simp: b_def)
    have ix: "\<not> active ?x" by (simp add: active_def)
    note h = os_holds_drop [OF i(1) ap ix own]
    have "os_work ?x < os_work p" using wp rem by (simp add: os_work_def)
    moreover have jx: "os_job ?x" using job by (simp add: os_job_def os_wf_def active_def)
    moreover have "os_inv c (sd_waitingList s') s'"
      using s' a(2) h rq wl nw i os_jobs_put [OF _ jx, of ?ps i] inv
      by (auto simp: os_inv_def os_in_update p_def)
    moreover have "os_same s s'" using same [of s' ?x] s'(2,6) sp by (simp add: static_of_def)
    ultimately show ?thesis using s'(1,5,6) total [of s' ?x] by blast
  qed
qed

subsection \<open>A tick\<close>

lemma os_same_nth:
  assumes "os_same s s'"
  shows "length (sd_allProcesses s') = length (sd_allProcesses s)"
    "i < length (sd_allProcesses s) \<Longrightarrow> static_of (sd_allProcesses s' ! i) = static_of (sd_allProcesses s ! i)"
proof -
  have m: "map static_of (sd_allProcesses s') = map static_of (sd_allProcesses s)" using assms by (simp add: os_same_def)
  show len: "length (sd_allProcesses s') = length (sd_allProcesses s)" using arg_cong [OF m, of length] by simp
  show "i < length (sd_allProcesses s) \<Longrightarrow> static_of (sd_allProcesses s' ! i) = static_of (sd_allProcesses s ! i)"
    using arg_cong [OF m, of "\<lambda>xs. xs ! i"] len by simp
qed

lemma os_work_zero: "os_job p \<Longrightarrow> os_work p = 0 \<longleftrightarrow> pc_state p = TERMINATED"
proof -
  assume job: "os_job p"
  have "0 < slice_rem p" if "pc_currentBurst p < length (pc_bursts p)"
    using job that by (auto simp: os_job_def os_wf_def slice_rem_def)
  then show ?thesis using job
    by (cases "pc_state p") (auto simp: os_work_def os_job_def os_wf_def)
qed

lemma os_total_zero:
  assumes "os_inv c ws s"
  shows "os_total s = 0 \<longleftrightarrow> AllTerminated s"
proof -
  have "os_work p = 0 \<longleftrightarrow> pc_state p = TERMINATED" if "p \<in> set (sd_allProcesses s)" for p
    using assms that by (intro os_work_zero) (simp add: os_inv_def)
  then show ?thesis by (auto simp: os_total_def AllTerminated_def list_all_iff)
qed

lemma tick_body_inv:
  assumes "os_inv c (sd_waitingList s) s" "1 \<le> sd_quantum s"
  shows "\<exists>s'. tick_body s = Inr s' \<and> os_inv c (sd_waitingList s') s' \<and> os_same s s' \<and> sd_quantum s' = sd_quantum s \<and>
    os_total s' \<le> os_total s \<and>
    (active_idx (sd_allProcesses (AdmitPendingProcesses s)) \<noteq> {} \<longrightarrow> os_total s' < os_total s)"
proof -
  define s1 where "s1 = AdmitPendingProcesses s"
  define s2 where "s2 = ServiceIoQueue s1"
  have i1: "os_inv c (sd_waitingList s1) s1" "os_total s1 = os_total s" using admit_inv [OF assms(1)] by (simp_all add: s1_def)
  note i2 = service_inv [OF i1(1), folded s2_def]
  have q2: "sd_quantum s2 = sd_quantum s" by (simp add: s2_def s1_def ServiceIoQueue_def)
  have same: "os_same s s2" using os_same_trans [OF admit_same [OF assms(1)] service_same] by (simp add: s2_def s1_def)
  show ?thesis
  proof (cases "sd_readyQueue s2")
    case Nil
    have "os_total s2 < os_total s" if "active_idx (sd_allProcesses s1) \<noteq> {}"
    proof (cases "sd_waitingList s1 = []")
      case True
      then have "s2 = s1\<lparr>sd_waitingList := []\<rparr>" by (simp add: s2_def ServiceIoQueue_def)
      then have "os_in READY (sd_allProcesses s1) = {}" "os_in WAITING (sd_allProcesses s1) = {}"
        using Nil i1(1) True by (simp_all add: os_inv_def)
      moreover have "os_job (sd_allProcesses s1 ! i)" if "i < length (sd_allProcesses s1)" for i
        using os_inv_job [OF i1(1) that] .
      ultimately show ?thesis using that by (fastforce simp: active_idx_def active_def os_in_def os_job_def)
    next
      case False
      then show ?thesis using i2(2) i1(2) by (cases "sd_waitingList s1") simp_all
    qed
    then show ?thesis using Nil i2 i1(2) same q2
      by (simp add: tick_body_def slice_idle s1_def [symmetric] s2_def [symmetric])
  next
    case (Cons i rest)
    have "1 \<le> sd_quantum s2" using assms(2) q2 by simp
    from slice_inv [OF i2(1) this Cons] obtain s' where "RunOneCpuSlice s2 = Inr s'"
      "os_inv c (sd_waitingList s') s'" "os_total s' < os_total s2" "sd_quantum s' = sd_quantum s2" "os_same s2 s'" by blast
    then show ?thesis using i1(2) i2(2) q2 os_same_trans [OF same]
      by (auto simp: tick_body_def s1_def [symmetric] s2_def [symmetric])
  qed
qed

text \<open>An idle machine admits: if nobody holds memory, the first pending process gets its request.\<close>

lemma admit_one_progress:
  assumes "os_inv c (sd_waitingList s) s" "i < length (sd_allProcesses s)"
    "pc_arrivalTick (sd_allProcesses s ! i) \<le> sd_tick s"
    "unat (pc_memoryRequest (sd_allProcesses s ! i)) \<le> 2 ^ (c + bd_maxOrder (sd_allocator s))"
  shows "active_idx (sd_allProcesses (admit_one i s)) \<noteq> {} \<or> pc_state (sd_allProcesses (admit_one i s) ! i) \<noteq> NEW"
proof (cases rule: admit_one_cases [of i s])
  case skip
  then show ?thesis using assms(3) by auto
next
  case (refused b)
  have "active_idx (sd_allProcesses s) \<noteq> {}"
  proof
    assume "active_idx (sd_allProcesses s) = {}"
    then have "buddy_inv c (sd_allocator s) {}"
      using assms(1) by (simp add: os_inv_def os_holds_def buddy_admission.blocks_only_def)
    from buddy_admission.empty_grants [OF this assms(4)] refused(2) show False by simp
  qed
  then show ?thesis using refused(3) by simp
next
  case (granted x b s' p)
  then show ?thesis using assms(2) by (simp add: active_idx_update active_def)
qed

lemma admit_one_keeps:
  assumes "i < length (sd_allProcesses s)"
  shows "active_idx (sd_allProcesses s) \<subseteq> active_idx (sd_allProcesses (admit_one i s))"
    "pc_state (sd_allProcesses s ! j) \<noteq> NEW \<Longrightarrow> pc_state (sd_allProcesses (admit_one i s) ! j) \<noteq> NEW"
proof (atomize (full), cases rule: admit_one_cases [of i s])
  case (granted x b s' p)
  have "pc_state p = READY" using granted(4) by simp
  then show "active_idx (sd_allProcesses s) \<subseteq> active_idx (sd_allProcesses (admit_one i s)) \<and>
    (pc_state (sd_allProcesses s ! j) \<noteq> NEW \<longrightarrow> pc_state (sd_allProcesses (admit_one i s) ! j) \<noteq> NEW)"
    using assms granted(5,7) by (cases "i = j") (auto simp: active_idx_update active_def)
qed simp_all

lemma admit_progress:
  assumes inv: "os_inv c (sd_waitingList s) s"
    and due: "\<forall>p \<in> set (sd_allProcesses s). pc_arrivalTick p \<le> sd_tick s"
    and fit: "\<forall>p \<in> set (sd_allProcesses s). unat (pc_memoryRequest p) \<le> 2 ^ (c + bd_maxOrder (sd_allocator s))"
    and nd: "\<not> AllTerminated s"
  shows "active_idx (sd_allProcesses (AdmitPendingProcesses s)) \<noteq> {}"
proof -
  let ?n = "length (sd_allProcesses s)"
  have *: "active_idx (sd_allProcesses (fold admit_one [0 ..< m] s)) \<noteq> {} \<or>
      (\<forall>i < m. pc_state (sd_allProcesses (fold admit_one [0 ..< m] s) ! i) \<noteq> NEW)" and
    i: "os_inv c (sd_waitingList (fold admit_one [0 ..< m] s)) (fold admit_one [0 ..< m] s)"
    "os_same s (fold admit_one [0 ..< m] s)" "sd_tick (fold admit_one [0 ..< m] s) = sd_tick s" if "m \<le> ?n" for m
    using that
  proof (induction m)
    case (Suc m)
    let ?s = "fold admit_one [0 ..< m] s"
    { case 1
      have p: "os_inv c (sd_waitingList ?s) ?s" "os_same s ?s" "sd_tick ?s = sd_tick s" and m: "m < ?n" using Suc 1 by simp_all
      have len: "m < length (sd_allProcesses ?s)" using os_same_nth(1) [OF p(2)] m by simp
      have st: "static_of (sd_allProcesses ?s ! m) = static_of (sd_allProcesses s ! m)" using os_same_nth(2) [OF p(2) m] .
      have ord: "bd_maxOrder (sd_allocator ?s) = bd_maxOrder (sd_allocator s)" using p(2) by (simp add: os_same_def same_params_def)
      have "active_idx (sd_allProcesses (admit_one m ?s)) \<noteq> {} \<or> pc_state (sd_allProcesses (admit_one m ?s) ! m) \<noteq> NEW"
        using st p(3) m due fit ord by (intro admit_one_progress [OF p(1) len]) (auto simp: static_of_def)
      then show ?case using Suc(1) m admit_one_keeps [OF len] by (auto simp: less_Suc_eq)
    next
      case 2
      then show ?case using admit_one_inv [of c ?s m] Suc os_same_nth(1) [of s ?s] by auto
    next
      case 3
      then have p: "os_inv c (sd_waitingList ?s) ?s" "os_same s ?s" using Suc by simp_all
      then show ?case using os_same_trans [OF p(2) admit_one_same [OF p(1), of m]] os_same_nth(1) [OF p(2)] 3 by simp
    next
      case 4
      then show ?case using Suc by simp
    }
  qed (use inv in simp_all)
  let ?s = "AdmitPendingProcesses s"
  have e: "?s = fold admit_one [0 ..< ?n] s" by (simp add: AdmitPendingProcesses_def)
  show ?thesis
  proof
    assume none: "active_idx (sd_allProcesses ?s) = {}"
    then have "pc_state (sd_allProcesses ?s ! i) \<noteq> NEW" if "i < ?n" for i using * [of ?n] that by (simp add: e)
    then have "pc_state (sd_allProcesses ?s ! i) = TERMINATED" if "i < ?n" for i
      using that none os_same_nth(1) [OF i(2), of ?n]
      by (cases "pc_state (sd_allProcesses ?s ! i)") (auto simp: active_idx_def active_def e)
    then have "AllTerminated ?s"
      using os_same_nth(1) [OF i(2), of ?n] by (simp add: AllTerminated_def list_all_length e)
    then have "os_total s = 0" using os_total_zero [of c "sd_waitingList ?s" ?s] admit_inv [OF inv] by simp
    then show False using nd os_total_zero [OF inv] by simp
  qed
qed

subsection \<open>Runs\<close>

text \<open>
  From any state within the invariant \<open>Run\<close> returns; with enough ticks after the last arrival
  every process terminates.
\<close>

lemma Run_from_ok:
  assumes "os_inv c (sd_waitingList s) s" "1 \<le> sd_quantum s"
  shows "\<exists>s'. Run_from maxTicks s = Inr s' \<and> os_inv c (sd_waitingList s') s' \<and> os_same s s'"
  using assms
proof (induction maxTicks s rule: Run_from.induct)
  case (1 maxTicks s)
  show ?case
  proof (cases "sd_tick s < maxTicks")
    case True
    obtain s1 where s1: "tick_body s = Inr s1" "os_inv c (sd_waitingList s1) s1" "os_same s s1" "sd_quantum s1 = sd_quantum s"
      using tick_body_inv [OF 1(2,3)] by blast
    show ?thesis
    proof (cases "AllTerminated s1")
      case False
      let ?t = "s1\<lparr>sd_tick := sd_tick s1 + 1\<rparr>"
      have "os_inv c (sd_waitingList ?t) ?t" "1 \<le> sd_quantum ?t" using s1 1(3) by (simp_all add: os_inv_def)
      from 1(1) [OF True s1(1) False this] obtain s' where
        "Run_from maxTicks ?t = Inr s'" "os_inv c (sd_waitingList s') s'" "os_same ?t s'" by blast
      moreover from this(3) s1(3) have "os_same s s'" by (simp add: os_same_def same_params_def)
      ultimately show ?thesis using True s1(1) False by (subst Run_from.simps) simp
    qed (use True s1 in \<open>subst Run_from.simps, simp\<close>)
  qed (use 1(2) in \<open>subst Run_from.simps, simp\<close>)
qed

lemma Run_from_completes:
  assumes "os_inv c (sd_waitingList s) s" "1 \<le> sd_quantum s"
    and "\<forall>p \<in> set (sd_allProcesses s). pc_arrivalTick p \<le> A \<and>
      unat (pc_memoryRequest p) \<le> 2 ^ (c + bd_maxOrder (sd_allocator s))"
    and "\<not> AllTerminated s" "max A (sd_tick s) + int (os_total s) \<le> maxTicks" "0 \<le> A"
  shows "\<exists>s'. Run_from maxTicks s = Inr s' \<and> AllTerminated s'"
  using assms
proof (induction maxTicks s rule: Run_from.induct)
  case (1 maxTicks s)
  have pos: "0 < os_total s" using os_total_zero [OF 1(2)] 1(5) by simp
  then have t: "sd_tick s < maxTicks" using 1(6) by linarith
  obtain s1 where s1: "tick_body s = Inr s1" "os_inv c (sd_waitingList s1) s1" "os_same s s1" "sd_quantum s1 = sd_quantum s"
    "os_total s1 \<le> os_total s"
    "active_idx (sd_allProcesses (AdmitPendingProcesses s)) \<noteq> {} \<longrightarrow> os_total s1 < os_total s"
    using tick_body_inv [OF 1(2,3)] by blast
  have tick: "sd_tick s1 = sd_tick s" by (rule tick_body_tick [OF s1(1)])
  show ?case
  proof (cases "AllTerminated s1")
    case True
    then show ?thesis using t s1(1) by (subst Run_from.simps) simp
  next
    case False
    let ?t = "s1\<lparr>sd_tick := sd_tick s1 + 1\<rparr>"
    have dec: "os_total s1 < os_total s" if "A \<le> sd_tick s"
      using s1(6) admit_progress [OF 1(2) _ _ 1(5)] 1(4) that by fastforce
    have "\<forall>p \<in> set (sd_allProcesses s1). pc_arrivalTick p \<le> A \<and>
        unat (pc_memoryRequest p) \<le> 2 ^ (c + bd_maxOrder (sd_allocator s1))"
    proof
      fix p assume "p \<in> set (sd_allProcesses s1)"
      then obtain i where i: "i < length (sd_allProcesses s1)" "p = sd_allProcesses s1 ! i" by (auto simp: in_set_conv_nth)
      then have "i < length (sd_allProcesses s)" "static_of p = static_of (sd_allProcesses s ! i)"
        using os_same_nth [OF s1(3)] by auto
      moreover have "bd_maxOrder (sd_allocator s1) = bd_maxOrder (sd_allocator s)"
        using s1(3) by (simp add: os_same_def same_params_def)
      ultimately show "pc_arrivalTick p \<le> A \<and> unat (pc_memoryRequest p) \<le> 2 ^ (c + bd_maxOrder (sd_allocator s1))"
        using 1(4) by (auto simp: static_of_def dest!: nth_mem)
    qed
    then have "\<forall>p \<in> set (sd_allProcesses ?t). pc_arrivalTick p \<le> A \<and>
        unat (pc_memoryRequest p) \<le> 2 ^ (c + bd_maxOrder (sd_allocator ?t))" by simp
    moreover have "max A (sd_tick ?t) + int (os_total ?t) \<le> maxTicks"
      using 1(6) s1(5) dec tick by (cases "A \<le> sd_tick s") (auto simp: os_total_def)
    moreover have "os_inv c (sd_waitingList ?t) ?t" "1 \<le> sd_quantum ?t" "\<not> AllTerminated ?t"
      using s1 1(3) False by (simp_all add: os_inv_def AllTerminated_def)
    ultimately have "\<exists>s'. Run_from maxTicks ?t = Inr s' \<and> AllTerminated s'" using 1(1) [OF t s1(1) False] 1(7) by blast
    then show ?thesis using t s1(1) False by (subst Run_from.simps) simp
  qed
qed

text \<open>The state before the run: processes added to a scheduler over a fresh allocator.\<close>

definition fresh_process :: "Process \<Rightarrow> bool" where
  "fresh_process p \<longleftrightarrow> pc_state p = NEW \<and> pc_currentBurst p = 0 \<and> pc_remainingCpuTicks p = 0 \<and> os_wf p"

lemma fold_AddProcess:
  "fold AddProcess ps s = s\<lparr>sd_allProcesses := sd_allProcesses s @ ps\<rparr>"
  by (induction ps arbitrary: s) (simp_all add: AddProcess_def)

definition os_start :: "BuddyAllocator \<Rightarrow> int \<Rightarrow> Process list \<Rightarrow> Scheduler" where
  "os_start b quantum ps = fold AddProcess ps (Scheduler_new b EventLogger_new quantum)"

lemma os_start_sel:
  "sd_allProcesses (os_start b q ps) = ps" "sd_allocator (os_start b q ps) = b" "sd_quantum (os_start b q ps) = q"
  "sd_tick (os_start b q ps) = 0" "sd_waitingList (os_start b q ps) = []" "sd_readyQueue (os_start b q ps) = []"
  by (simp_all add: os_start_def fold_AddProcess Scheduler_new_def)

lemma os_start_inv:
  assumes "buddy_inv c b {}" "\<forall>p \<in> set ps. fresh_process p"
  shows "os_inv c (sd_waitingList (os_start b q ps)) (os_start b q ps)"
proof -
  have none: "pc_state (ps ! i) = NEW" if "i < length ps" for i using assms(2) that by (simp add: fresh_process_def)
  then have "active_idx ps = {}" "os_in READY ps = {}" "os_in WAITING ps = {}"
    by (auto simp: active_idx_def active_def os_in_def)
  then show ?thesis using assms
    by (auto simp: os_inv_def os_start_sel os_holds_def own_ptrs_def buddy_admission.blocks_only_def os_job_def
      fresh_process_def active_def)
qed

lemma Run_start: "Run n (os_start b q ps) = Run_from n (os_start b q ps)"
proof -
  have "(os_start b q ps)\<lparr>sd_tick := 0\<rparr> = os_start b q ps"
    by (simp add: os_start_def fold_AddProcess Scheduler_new_def)
  then show ?thesis by (simp add: Run_def)
qed

subsection \<open>Properties\<close>

text \<open>
  C20. Over a fresh buddy allocator with blocks of at least 8 bytes on an arena aligned to its size (which \<open>mmap\<close> does not
  promise, not even for the 8 KB of the demo), with a quantum of at least 1, a run of any length of well-formed
  processes returns (no read outside a burst list, no diverging free, no access to a node outside the arena); every admitted and not yet
  terminated process then holds a block inside the arena that is at least as large as its request,
  blocks of different processes do not overlap, and once all processes have terminated the whole
  arena can be granted again.
\<close>

theorem Scheduler_memory_safe:
  assumes new: "BuddyAllocator_new api os m (2 ^ (c + N)) (2 ^ c) = (Inr b, os')" and c3: "3 \<le> c" and cN: "c + N < 64"
    and al: "2 ^ (c + N) dvd unat (bd_base b)" and fit: "unat (bd_base b) + 2 ^ (c + N) \<le> 2 ^ 64"
    and ps: "\<forall>p \<in> set ps. fresh_process p" and q: "1 \<le> quantum"
  shows "\<exists>s. Run maxTicks (os_start b quantum ps) = Inr s \<and> bd_defined (sd_allocator s) \<and>
    (\<forall>i \<in> active_idx (sd_allProcesses s). let p = sd_allProcesses s ! i in
       unat (bd_base b) \<le> unat (pc_memPtr p) \<and>
       unat (pc_memPtr p) + unat (pc_memBlockSize p) \<le> unat (bd_base b) + 2 ^ (c + N) \<and>
       unat (pc_memoryRequest p) \<le> unat (pc_memBlockSize p) \<and>
       (\<forall>j \<in> active_idx (sd_allProcesses s) - {i}. let r = sd_allProcesses s ! j in
          disjoint_regions (unat (pc_memPtr p)) (unat (pc_memBlockSize p)) (unat (pc_memPtr r)) (unat (pc_memBlockSize r)))) \<and>
    (AllTerminated s \<longrightarrow> fst (BuddyAllocator_Allocate (sd_allocator s) (2 ^ (c + N))) = bd_base b)"
proof -
  note inv0 = BuddyAllocator_new_inv [OF new c3 cN al fit]
  note sh = BuddyAllocator_new_shape [OF new cN]
  obtain s where run: "Run_from maxTicks (os_start b quantum ps) = Inr s"
    and inv: "os_inv c (sd_waitingList s) s" and same: "os_same (os_start b quantum ps) s"
    using Run_from_ok [OF os_start_inv [OF inv0 ps], of quantum maxTicks] q by (auto simp: os_start_sel)
  let ?ps = "sd_allProcesses s"
  have par: "same_params b (sd_allocator s)" using same by (simp add: os_same_def os_start_sel)
  then have arena: "bd_base (sd_allocator s) = bd_base b" "bd_end (sd_allocator s) = unat (bd_base b) + 2 ^ (c + N)"
    "bd_maxOrder (sd_allocator s) = N"
    using sh cN by (simp_all add: same_params_def bd_end_def bd_base_def blockSize_def push_bit_eq_mult flip: power_add)
  have blk: "buddy_admission.blocks_only c (sd_allocator s) (os_holds ?ps)" and own: "own_ptrs ?ps"
    using inv by (simp_all add: os_inv_def)
  have held: "(pc_memPtr (?ps ! i), pc_memBlockSize (?ps ! i)) \<in> os_holds ?ps" if "i \<in> active_idx ?ps" for i
    using that by (auto simp: os_holds_def region_of_def)
  have inside: "unat (bd_base b) \<le> unat (pc_memPtr (?ps ! i)) \<and>
      unat (pc_memPtr (?ps ! i)) + unat (pc_memBlockSize (?ps ! i)) \<le> unat (bd_base b) + 2 ^ (c + N) \<and>
      unat (pc_memoryRequest (?ps ! i)) \<le> unat (pc_memBlockSize (?ps ! i))" if i: "i \<in> active_idx ?ps" for i
    using buddy_admission.blocks_only_inside [OF blk held [OF i]] arena os_inv_job [OF inv, of i] i
    by (auto simp: active_idx_def os_job_def)
  have apart: "disjoint_regions (unat (pc_memPtr (?ps ! i))) (unat (pc_memBlockSize (?ps ! i)))
      (unat (pc_memPtr (?ps ! j))) (unat (pc_memBlockSize (?ps ! j)))"
    if "i \<in> active_idx ?ps" "j \<in> active_idx ?ps - {i}" for i j
  proof (rule buddy_admission.blocks_only_apart [OF blk held held])
    show "(pc_memPtr (?ps ! i), pc_memBlockSize (?ps ! i)) \<noteq> (pc_memPtr (?ps ! j), pc_memBlockSize (?ps ! j))"
      using own that by (auto simp: own_ptrs_def inj_on_def)
  qed (use that in auto)
  have "fst (BuddyAllocator_Allocate (sd_allocator s) (2 ^ (c + N))) = bd_base b" if "AllTerminated s"
  proof -
    have "active_idx ?ps = {}" using that by (auto simp: AllTerminated_def list_all_length active_idx_def active_def)
    then have "buddy_inv c (sd_allocator s) {}" using blk by (simp add: os_holds_def buddy_admission.blocks_only_def)
    from empty_whole_block [OF this] arena show ?thesis by auto
  qed
  moreover have "bd_defined (sd_allocator s)"
    using blk by (auto simp: buddy_admission.blocks_only_def buddy_inv_def buddy_ok_def sound_params_def)
  ultimately show ?thesis using run inside apart unfolding Run_start Let_def by blast
qed

definition demo_pcb :: "int \<Rightarrow> size_t \<Rightarrow> Burst list \<Rightarrow> Process" where
  "demo_pcb i req bs = \<lparr>pc_id = i, pc_name = ''p'', pc_arrivalTick = 0, pc_memoryRequest = req, pc_bursts = bs,
     pc_currentBurst = 0, pc_remainingCpuTicks = 0, pc_remainingIoTicks = 0, pc_state = NEW, pc_memPtr = nullptr,
     pc_memOffset = 0, pc_memBlockSize = 0\<rparr>"

definition demo_pcbs :: "Process list" where
  "demo_pcbs = [demo_pcb 1 100 [\<lparr>cpuTicks = 4, ioTicks = 2\<rparr>, \<lparr>cpuTicks = 1, ioTicks = 0\<rparr>],
     demo_pcb 2 64 [\<lparr>cpuTicks = 3, ioTicks = 0\<rparr>]]"

lemma demo_pcbs_fresh: "\<forall>p \<in> set demo_pcbs. fresh_process p"
  by (simp add: demo_pcbs_def demo_pcb_def fresh_process_def os_wf_def)

lemma demo_arena: "2 ^ (6 + 1) dvd unat (bd_base demo_buddy)" "unat (bd_base demo_buddy) + 2 ^ (6 + 1) \<le> 2 ^ 64"
  by (simp_all add: demo_buddy_def bd_base_def)

theorem Scheduler_memory_safe_witness:
  "\<exists>s. Run 5 (os_start demo_buddy 3 demo_pcbs) = Inr s \<and> bd_defined (sd_allocator s) \<and>
     (AllTerminated s \<longrightarrow> fst (BuddyAllocator_Allocate (sd_allocator s) (2 ^ (6 + 1))) = bd_base demo_buddy)"
  using Scheduler_memory_safe [OF demo_buddy_new _ _ demo_arena demo_pcbs_fresh, of 3 5] by auto

text \<open>
  C21. No process starves for memory: over a fresh buddy allocator with blocks of at least 8 bytes on an arena aligned to its size,
  with a quantum of at least 1 and when every request fits in the arena, a run with as many
  ticks as the last arrival plus the total of all bursts ends with every process terminated.
\<close>

theorem Scheduler_all_terminate:
  assumes new: "BuddyAllocator_new api os m (2 ^ (c + N)) (2 ^ c) = (Inr b, os')" and c3: "3 \<le> c" and cN: "c + N < 64"
    and al: "2 ^ (c + N) dvd unat (bd_base b)" and fit: "unat (bd_base b) + 2 ^ (c + N) \<le> 2 ^ 64"
    and ps: "\<forall>p \<in> set ps. fresh_process p \<and> pc_arrivalTick p \<le> A \<and> unat (pc_memoryRequest p) \<le> 2 ^ (c + N)"
    and q: "1 \<le> quantum" and A: "0 \<le> A"
    and ticks: "A + int (sum_list (map (\<lambda>p. os_tail 0 (pc_bursts p)) ps)) \<le> maxTicks"
  shows "\<exists>s. Run maxTicks (os_start b quantum ps) = Inr s \<and> AllTerminated s"
proof -
  have fresh: "\<forall>p \<in> set ps. fresh_process p" using ps by blast
  note inv = os_start_inv [OF BuddyAllocator_new_inv [OF new c3 cN al fit] fresh, of quantum]
  have N: "bd_maxOrder b = N" using BuddyAllocator_new_shape [OF new cN] by simp
  have "os_work p = os_tail 0 (pc_bursts p)" if "p \<in> set ps" for p
    using fresh that os_tail_step [of 0 "pc_bursts p"]
    by (auto simp: fresh_process_def os_work_def slice_rem_def os_wf_def)
  then have total: "os_total (os_start b quantum ps) = sum_list (map (\<lambda>p. os_tail 0 (pc_bursts p)) ps)"
    by (simp add: os_total_def os_start_sel cong: map_cong)
  show ?thesis
  proof (cases "ps = []")
    case True
    obtain s where "Run_from maxTicks (os_start b quantum ps) = Inr s" "os_same (os_start b quantum ps) s"
      using Run_from_ok [OF inv] q by (auto simp: os_start_sel)
    then show ?thesis using True by (auto simp: Run_start os_same_def os_start_sel AllTerminated_def)
  next
    case False
    then have "\<not> AllTerminated (os_start b quantum ps)"
      using fresh by (cases ps) (auto simp: AllTerminated_def os_start_sel fresh_process_def)
    then show ?thesis
      unfolding Run_start using Run_from_completes [OF inv, of A maxTicks] q A ps N ticks total
      by (simp add: os_start_sel)
  qed
qed

theorem Scheduler_all_terminate_witness:
  "\<exists>s. Run 10 (os_start demo_buddy 3 demo_pcbs) = Inr s \<and> AllTerminated s"
proof -
  have "\<forall>p \<in> set demo_pcbs. fresh_process p \<and> pc_arrivalTick p \<le> 0 \<and> unat (pc_memoryRequest p) \<le> 2 ^ (6 + 1)"
    using demo_pcbs_fresh by (auto simp: demo_pcbs_def demo_pcb_def)
  from Scheduler_all_terminate [OF demo_buddy_new _ _ demo_arena this, of 3 10] show ?thesis
    by (simp add: demo_pcbs_def demo_pcb_def os_tail_def)
qed

text \<open>
  An IO burst after the last CPU burst, which the type of a burst allows, makes the scheduler
  read past the end of the burst list: a process with one burst whose CPU time fits in the quantum
  and which asks for one tick of IO is undefined on its second tick.
\<close>

theorem Scheduler_trailing_io_undefined:
  assumes "pc_state p = NEW" "pc_currentBurst p = 0" "pc_remainingCpuTicks p = 0" "pc_arrivalTick p \<le> 0"
    and "pc_bursts p = [\<lparr>cpuTicks = n, ioTicks = 1\<rparr>]" "0 < n" "n \<le> quantum"
    and "fst (BuddyAllocator_Allocate b (pc_memoryRequest p)) \<noteq> nullptr" "2 \<le> maxTicks"
  shows "Run maxTicks (os_start b quantum [p]) = Inl Undefined"
proof -
  let ?s = "os_start b quantum [p]"
  obtain x a where alloc: "BuddyAllocator_Allocate b (pc_memoryRequest p) = (x, a)" "x \<noteq> nullptr"
    using assms(8) by (cases "BuddyAllocator_Allocate b (pc_memoryRequest p)") auto
  define s1 where "s1 = admit_one 0 ?s"
  define p1 where "p1 = p\<lparr>pc_memPtr := x, pc_memOffset := OffsetOf a x,
    pc_memBlockSize := BlockSizeForRequest a (pc_memoryRequest p), pc_state := READY\<rparr>"
  have s1: "sd_allProcesses s1 = [p1]" "sd_readyQueue s1 = [0]" "sd_waitingList s1 = []" "sd_quantum s1 = quantum" "sd_tick s1 = 0"
  proof -
    have new: "pc_state (sd_allProcesses ?s ! 0) = NEW" "\<not> pc_arrivalTick (sd_allProcesses ?s ! 0) > sd_tick ?s"
      using assms(1,4) by (simp_all add: os_start_sel)
    have "sd_allProcesses s1 = [p1] \<and> sd_readyQueue s1 = [0] \<and> sd_waitingList s1 = []"
    proof (cases rule: admit_one_cases [of 0 ?s])
      case skip
      then show ?thesis using new by blast
    next
      case (refused a')
      then show ?thesis using alloc by (simp add: os_start_sel)
    next
      case (granted x' a' s' p')
      have x': "x' = x" "a' = a" using granted(3) alloc(1) by (simp_all add: os_start_sel)
      have "p' = p1" using granted(4) unfolding p1_def x' by (simp add: os_start_sel)
      then show ?thesis using granted(5,7,8,9) by (simp add: s1_def os_start_sel)
    qed
    then show "sd_allProcesses s1 = [p1]" "sd_readyQueue s1 = [0]" "sd_waitingList s1 = []" by simp_all
    show "sd_quantum s1 = quantum" "sd_tick s1 = 0" by (simp_all add: s1_def os_start_sel)
  qed
  have io1: "ServiceIoQueue s1 = s1\<lparr>sd_waitingList := []\<rparr>" by (simp add: ServiceIoQueue_def s1)
  let ?s1 = "s1\<lparr>sd_waitingList := []\<rparr>"
  define p2 where "p2 = p1\<lparr>pc_remainingCpuTicks := 0, pc_state := WAITING, pc_remainingIoTicks := 1, pc_currentBurst := 1\<rparr>"
  have f: "pc_currentBurst p1 = 0" "pc_bursts p1 = [\<lparr>cpuTicks = n, ioTicks = 1\<rparr>]" "slice_rem p1 = n"
    using assms(2,3,5) by (simp_all add: p1_def slice_rem_def)
  have "\<exists>s2. RunOneCpuSlice ?s1 = Inr s2 \<and> sd_allocator s2 = sd_allocator ?s1 \<and> sd_readyQueue s2 = [] \<and>
    sd_waitingList s2 = sd_waitingList ?s1 @ [0] \<and> sd_quantum s2 = sd_quantum ?s1 \<and>
    sd_allProcesses s2 = (sd_allProcesses ?s1)[0 := p1\<lparr>pc_remainingCpuTicks := 0, pc_state := WAITING,
      pc_remainingIoTicks := ioTicks \<lparr>cpuTicks = n, ioTicks = 1\<rparr>, pc_currentBurst := pc_currentBurst p1 + 1\<rparr>]"
    by (rule slice_blocks) (simp_all add: s1 f assms(7))
  then obtain s2 where s2: "RunOneCpuSlice ?s1 = Inr s2" "sd_readyQueue s2 = []" "sd_waitingList s2 = [0]" "sd_allProcesses s2 = [p2]"
    unfolding p2_def f by (auto simp: s1)
  have t2: "sd_tick s2 = 0" using slice_tick [OF s2(1)] s1 by simp
  have body1: "tick_body ?s = Inr s2" using s2(1) io1
    by (simp add: tick_body_def AdmitPendingProcesses_def os_start_sel s1_def)
  let ?s2 = "s2\<lparr>sd_tick := 1\<rparr>"
  have adm2: "AdmitPendingProcesses ?s2 = ?s2"
    by (simp add: AdmitPendingProcesses_def admit_one_def Let_def s2 p2_def)
  define s3 where "s3 = ServiceIoQueue ?s2"
  have s3: "sd_readyQueue s3 = [0]" "pc_currentBurst (sd_allProcesses s3 ! 0) = 1" "pc_bursts (sd_allProcesses s3 ! 0) = pc_bursts p"
    using s2 by (simp_all add: s3_def ServiceIoQueue_def Let_def p2_def p1_def)
  have "RunOneCpuSlice s3 = Inl Undefined" using s3 assms(5) by (simp add: RunOneCpuSlice_def Let_def)
  then have body2: "tick_body ?s2 = Inl Undefined" by (simp add: tick_body_def adm2 s3_def)
  have "\<not> AllTerminated s2" by (simp add: AllTerminated_def s2 p2_def)
  then show ?thesis unfolding Run_start
    using body1 body2 assms(9) t2 by (subst Run_from.simps, simp add: os_start_sel) (subst Run_from.simps, simp)
qed

theorem Scheduler_trailing_io_undefined_witness:
  "Run 200 (os_start demo_buddy 3 [demo_pcb 1 100 [\<lparr>cpuTicks = 2, ioTicks = 1\<rparr>]]) = Inl Undefined"
proof -
  have "buddy_inv 6 demo_buddy {}" by (rule BuddyAllocator_new_inv [OF demo_buddy_new _ _ demo_arena]) simp_all
  then have "fst (BuddyAllocator_Allocate demo_buddy 100) \<noteq> nullptr"
    by (rule empty_serves) (simp add: demo_buddy_def)
  then show ?thesis
    by (intro Scheduler_trailing_io_undefined [of _ 2]) (simp_all add: demo_pcb_def)
qed

end
