(* ===== verification/SlabCache.thy ===== *)
theory SlabCache
  imports PoolAllocator RegionAllocator
begin

text \<open>
  \<^verbatim>\<open>include/SlabCache.hpp\<close>: a cache of objects of one type, kept in slabs and in one magazine per
  thread.  The template parameter \<open>T\<close> enters as its size, its alignment and the effect of its
  default constructor on the first word of an object (\<open>ctor\<close>, from the address and the word stored
  there before): a free slot keeps its link in that word.  The magazines are \<open>static thread_local\<close>,
  so they belong to the type and not to a cache.

  An operation touches its own thread's magazine, which no other thread sees, and then either
  returns or works under the mutex of the cache; concurrent executions are therefore sequences of
  whole operations, each with the number of the thread that makes it.
\<close>

subsection \<open>Slab\<close>

record Slab =
  sl_storage :: VirtualMemory
  sl_freeList :: ptr
  sl_freeSlots :: size_t
  sl_totalSlots :: size_t

definition construct_slots ::
  "(ptr \<Rightarrow> ptr \<Rightarrow> ptr) \<Rightarrow> nat \<Rightarrow> size_t \<Rightarrow> ptr \<Rightarrow> node_mem \<Rightarrow> node_mem" where
  "construct_slots ctor cnt slotSize mem m =
     fold (\<lambda>i m. let objPtr = mem + of_nat i * slotSize in m(objPtr := ctor objPtr (m objPtr))) [0..<cnt] m"

text \<open>
  The loops write through the mapped pointer: outside the storage, or when the mapping failed and
  the pointer is \<open>MAP_FAILED\<close>, that is undefined.
\<close>

definition Slab_new ::
  "'os os_api \<Rightarrow> 'os \<Rightarrow> (ptr \<Rightarrow> ptr \<Rightarrow> ptr) \<Rightarrow> node_mem \<Rightarrow> size_t \<Rightarrow> size_t \<Rightarrow> (Slab \<times> node_mem) result \<times> 'os" where
  "Slab_new api os ctor m cnt slotSize =
     (case VirtualMemory_new api os (cnt * slotSize) of
        (Inl e, os') \<Rightarrow> (Inl e, os')
      | (Inr v, os') \<Rightarrow>
          (let mem = vm_ptr v; k = unat (cnt - 1) in
           if mem \<noteq> MAP_FAILED \<and> k * unat slotSize + 8 \<le> unat (vm_size v)
           then (Inr (\<lparr>sl_storage = v, sl_freeList = mem, sl_freeSlots = cnt, sl_totalSlots = cnt\<rparr>,
                      construct_slots ctor (unat cnt) slotSize mem (link_slots k slotSize m mem)), os')
           else (Inl Undefined, os')))"

definition Slab_Contains :: "Slab \<Rightarrow> ptr \<Rightarrow> bool" where
  "Slab_Contains slab p =
     (let start = vm_ptr (sl_storage slab) in p \<ge> start \<and> p < start + vm_size (sl_storage slab))"

subsection \<open>SlabCache\<close>

record SlabCache =
  sc_objectsPerSlab :: size_t
  sc_magazineSize :: size_t
  sc_slotSize :: size_t
  sc_slabs :: "Slab list"

record 'os slab_heap =
  sh_os :: 'os
  sh_mem :: node_mem
  sh_magazine :: "nat \<Rightarrow> ptr list"

definition SlabCache_new :: "size_t \<Rightarrow> size_t \<Rightarrow> size_t \<Rightarrow> size_t \<Rightarrow> SlabCache" where
  "SlabCache_new sizeof_T alignof_T objectsPerSlab magazineSize =
     \<lparr>sc_objectsPerSlab = objectsPerSlab, sc_magazineSize = magazineSize,
      sc_slotSize = AlignUp (if sizeof_T > 8 then sizeof_T else 8) alignof_T, sc_slabs = []\<rparr>"

text \<open>Reading \<open>freeList->next\<close> is defined when the list head lies in the slab's storage.\<close>

definition AllocateFromSlab :: "node_mem \<Rightarrow> Slab \<Rightarrow> (ptr \<times> Slab) result" where
  "AllocateFromSlab m slab =
     (let node = sl_freeList slab in
      if Slab_Contains slab node
      then Inr (node, slab\<lparr>sl_freeList := m node, sl_freeSlots := sl_freeSlots slab - 1\<rparr>)
      else Inl Undefined)"

fun allocate_slabs :: "node_mem \<Rightarrow> Slab list \<Rightarrow> (ptr \<times> Slab list) result option" where
  "allocate_slabs m [] = None"
| "allocate_slabs m (slab # slabs) =
     (if sl_freeSlots slab > 0
      then Some (case AllocateFromSlab m slab of Inl e \<Rightarrow> Inl e | Inr (p, slab') \<Rightarrow> Inr (p, slab' # slabs))
      else map_option (map_sum id (map_prod id ((#) slab))) (allocate_slabs m slabs))"

definition SlabCache_Allocate ::
  "'os os_api \<Rightarrow> (ptr \<Rightarrow> ptr \<Rightarrow> ptr) \<Rightarrow> nat \<Rightarrow> SlabCache \<times> 'os slab_heap \<Rightarrow> ptr result \<times> SlabCache \<times> 'os slab_heap" where
  "SlabCache_Allocate api ctor t s =
     (let (c, h) = s; tlsMag = sh_magazine h t in
      if tlsMag \<noteq> [] then
        (Inr (last tlsMag), c, h\<lparr>sh_magazine := (sh_magazine h)(t := butlast tlsMag)\<rparr>)
      else case allocate_slabs (sh_mem h) (sc_slabs c) of
        Some (Inl e) \<Rightarrow> (Inl e, c, h)
      | Some (Inr (p, slabs)) \<Rightarrow> (Inr p, c\<lparr>sc_slabs := slabs\<rparr>, h)
      | None \<Rightarrow>
          (case Slab_new api (sh_os h) ctor (sh_mem h) (sc_objectsPerSlab c) (sc_slotSize c) of
             (Inl e, os') \<Rightarrow> (Inl e, c, h\<lparr>sh_os := os'\<rparr>)
           | (Inr (slab, m'), os') \<Rightarrow>
               (case AllocateFromSlab m' slab of
                  Inl e \<Rightarrow> (Inl e, c\<lparr>sc_slabs := sc_slabs c @ [slab]\<rparr>, h\<lparr>sh_os := os', sh_mem := m'\<rparr>)
                | Inr (p, slab') \<Rightarrow>
                    (Inr p, c\<lparr>sc_slabs := sc_slabs c @ [slab']\<rparr>, h\<lparr>sh_os := os', sh_mem := m'\<rparr>))))"

fun free_slabs :: "ptr \<Rightarrow> Slab list \<times> node_mem \<Rightarrow> Slab list \<times> node_mem" where
  "free_slabs p ([], m) = ([], m)"
| "free_slabs p (slab # slabs, m) =
     (if Slab_Contains slab p
      then (slab\<lparr>sl_freeList := p, sl_freeSlots := sl_freeSlots slab + 1\<rparr> # slabs, m(p := sl_freeList slab))
      else let (slabs', m') = free_slabs p (slabs, m) in (slab # slabs', m'))"

definition SlabCache_Free :: "nat \<Rightarrow> ptr \<Rightarrow> SlabCache \<times> 'os slab_heap \<Rightarrow> SlabCache \<times> 'os slab_heap" where
  "SlabCache_Free t p s =
     (let (c, h) = s; tlsMag = sh_magazine h t in
      if p = nullptr then (c, h)
      else if length tlsMag < unat (sc_magazineSize c) then
        (c, h\<lparr>sh_magazine := (sh_magazine h)(t := tlsMag @ [p])\<rparr>)
      else let (slabs, m) = free_slabs p (sc_slabs c, sh_mem h) in (c\<lparr>sc_slabs := slabs\<rparr>, h\<lparr>sh_mem := m\<rparr>))"

subsection \<open>Where every slot is\<close>

text \<open>
  The proof assigns a place to every slot: on the free list of its slab, in the magazine of a
  thread, or with a client.  The invariant says that the lists and the magazines hold exactly the
  slots placed there, each once.
\<close>

datatype place = Listed | Cached nat | Held

definition slab_slots :: "SlabCache \<Rightarrow> Slab \<Rightarrow> ptr set" where
  "slab_slots c slab = set (slot_list (unat (sc_objectsPerSlab c)) (sc_slotSize c) (vm_ptr (sl_storage slab)))"

definition cache_slots :: "SlabCache \<Rightarrow> ptr set" where
  "cache_slots c = (\<Union>slab \<in> set (sc_slabs c). slab_slots c slab)"

definition region :: "VirtualMemory \<Rightarrow> ptr \<times> size_t" where
  "region v = (vm_ptr v, vm_size v)"

definition apart :: "ptr \<times> size_t \<Rightarrow> ptr \<times> size_t \<Rightarrow> bool" where
  "apart r q \<longleftrightarrow> disjoint_regions (unat (fst r)) (unat (snd r)) (unat (fst q)) (unat (snd q))"

definition slab_fits :: "SlabCache \<Rightarrow> VirtualMemory \<Rightarrow> bool" where
  "slab_fits c v \<longleftrightarrow> vm_ptr v \<noteq> nullptr \<and> unat (vm_ptr v) + unat (vm_size v) < 2 ^ 64 \<and>
     unat (sc_objectsPerSlab c) * unat (sc_slotSize c) \<le> unat (vm_size v) \<and> 8 \<le> unat (sc_slotSize c)"

definition slab_lists :: "SlabCache \<Rightarrow> node_mem \<Rightarrow> (ptr \<Rightarrow> place) \<Rightarrow> Slab \<Rightarrow> bool" where
  "slab_lists c m own slab \<longleftrightarrow> (\<exists>xs. nodes m (sl_freeList slab) xs \<and>
     set xs = {p \<in> slab_slots c slab. own p = Listed} \<and> unat (sl_freeSlots slab) = length xs)"

definition slab_inv :: "('os \<Rightarrow> (ptr \<times> size_t) set) \<Rightarrow> (ptr \<Rightarrow> place) \<Rightarrow> SlabCache \<times> 'os slab_heap \<Rightarrow> bool" where
  "slab_inv live own s \<longleftrightarrow> (let (c, h) = s in
     (\<forall>slab \<in> set (sc_slabs c). slab_fits c (sl_storage slab) \<and> slab_lists c (sh_mem h) own slab \<and>
        region (sl_storage slab) \<in> live (sh_os h)) \<and>
     sorted_wrt (\<lambda>a b. apart (region (sl_storage a)) (region (sl_storage b))) (sc_slabs c) \<and>
     (\<forall>t. distinct (sh_magazine h t) \<and> set (sh_magazine h t) = {p \<in> cache_slots c. own p = Cached t}))"

lemma slab_slot_inside:
  assumes "slab_fits c (sl_storage slab)" "p \<in> slab_slots c slab"
  shows "Slab_Contains slab p" "p \<noteq> nullptr" "unat (vm_ptr (sl_storage slab)) \<le> unat p"
    "unat p + unat (sc_slotSize c) \<le> unat (vm_ptr (sl_storage slab)) + unat (vm_size (sl_storage slab))"
proof -
  let ?v = "sl_storage slab" and ?n = "unat (sc_objectsPerSlab c)" and ?s = "sc_slotSize c"
  have f: "vm_ptr ?v \<noteq> 0" "unat (vm_ptr ?v) + unat (vm_size ?v) < 2 ^ 64" "?n * unat ?s \<le> unat (vm_size ?v)" "0 < unat ?s"
    using assms(1) by (auto simp: slab_fits_def)
  have b: "unat (vm_ptr ?v) + ?n * unat ?s \<le> 2 ^ 64" using f by linarith
  obtain i where i: "i < ?n" "p = vm_ptr ?v + of_nat i * ?s"
    using assms(2) by (auto simp: slab_slots_def slot_list_def)
  note u = unat_slot [OF b i(1) f(4), folded i(2)]
  have "i * unat ?s + unat ?s \<le> ?n * unat ?s"
    using i(1) by (metis Suc_leI add.commute mult_Suc mult_le_mono1)
  then show e: "unat p + unat ?s \<le> unat (vm_ptr ?v) + unat (vm_size ?v)" using u f(3) by linarith
  show l: "unat (vm_ptr ?v) \<le> unat p" using u by simp
  then show "p \<noteq> nullptr" using f(1) by (auto simp: unat_eq_0 [symmetric])
  have "unat (vm_ptr ?v + vm_size ?v) = unat (vm_ptr ?v) + unat (vm_size ?v)" using f(2) by (simp add: unat_plus_less)
  then show "Slab_Contains slab p"
    using l e f(4) by (simp add: Slab_Contains_def Let_def word_le_nat_alt word_less_nat_alt)
qed

lemma Contains_inside:
  assumes "slab_fits c (sl_storage slab)" "Slab_Contains slab p"
  shows "unat (vm_ptr (sl_storage slab)) \<le> unat p" "unat p < unat (vm_ptr (sl_storage slab)) + unat (vm_size (sl_storage slab))"
proof -
  let ?v = "sl_storage slab"
  have "unat (vm_ptr ?v + vm_size ?v) = unat (vm_ptr ?v) + unat (vm_size ?v)"
    using assms(1) by (simp add: slab_fits_def unat_plus_less)
  then show "unat (vm_ptr (sl_storage slab)) \<le> unat p" "unat p < unat (vm_ptr (sl_storage slab)) + unat (vm_size (sl_storage slab))"
    using assms(2) by (simp_all add: Slab_Contains_def Let_def word_le_nat_alt word_less_nat_alt)
qed

lemma slots_apart:
  assumes "slab_fits c (sl_storage a)" "slab_fits c (sl_storage b)" "p \<in> slab_slots c a"
    and "apart (region (sl_storage a)) (region (sl_storage b)) \<or> apart (region (sl_storage b)) (region (sl_storage a))"
  shows "\<not> Slab_Contains b p" "p \<notin> slab_slots c b"
proof -
  have "0 < unat (sc_slotSize c)" using assms(1) by (simp add: slab_fits_def)
  then show "\<not> Slab_Contains b p"
    using slab_slot_inside [OF assms(1,3)] Contains_inside [OF assms(2), of p] assms(4)
    by (auto simp: apart_def region_def disjoint_regions_def)
  then show "p \<notin> slab_slots c b" using slab_slot_inside(1) [OF assms(2)] by blast
qed

lemma slab_lists_other:
  "p \<notin> slab_slots c slab \<Longrightarrow> slab_lists c m own slab \<Longrightarrow> slab_lists c (m(p := v)) (own(p := x)) slab"
  unfolding slab_lists_def by (elim exE conjE, rule_tac x = xs in exI) auto

lemma slab_lists_own:
  "p \<notin> slab_slots c slab \<Longrightarrow> slab_lists c m own slab \<Longrightarrow> slab_lists c m (own(p := x)) slab"
  using slab_lists_other [of p c slab m own "m p" x] by simp

lemma slab_lists_write:
  "own p \<noteq> Listed \<Longrightarrow> slab_lists c m own slab \<Longrightarrow> slab_lists c (m(p := v)) own slab"
  unfolding slab_lists_def by (elim exE conjE, rule_tac x = xs in exI) auto

lemma slab_lists_replace:
  "own p \<noteq> Listed \<Longrightarrow> x \<noteq> Listed \<Longrightarrow> slab_lists c m own slab \<Longrightarrow> slab_lists c m (own(p := x)) slab"
  unfolding slab_lists_def by (elim exE conjE, rule_tac x = xs in exI) auto

text \<open>Taking the head of a slab's list and pushing a held slot back.\<close>

lemma AllocateFromSlab_ok:
  assumes "slab_fits c (sl_storage slab)" "slab_lists c m own slab" "0 < sl_freeSlots slab"
  obtains p slab' where "AllocateFromSlab m slab = Inr (p, slab')" "p \<in> slab_slots c slab" "own p = Listed"
    "sl_storage slab' = sl_storage slab" "slab_lists c m (own(p := Held)) slab'"
proof -
  obtain xs where xs: "nodes m (sl_freeList slab) xs" "set xs = {p \<in> slab_slots c slab. own p = Listed}"
    "unat (sl_freeSlots slab) = length xs" using assms(2) by (auto simp: slab_lists_def)
  have "xs \<noteq> []" using assms(3) xs(3) by (auto simp: word_less_nat_alt)
  then obtain p ys where cons: "xs = p # ys" by (cases xs) auto
  then have p: "sl_freeList slab = p" "nodes m (m p) ys" using xs(1) by auto
  have d: "p \<notin> set ys" using nodes_distinct [OF xs(1)] cons by simp
  have P: "p \<in> slab_slots c slab" "own p = Listed" using xs(2) cons by auto
  let ?s = "slab\<lparr>sl_freeList := m p, sl_freeSlots := sl_freeSlots slab - 1\<rparr>"
  have a: "AllocateFromSlab m slab = Inr (p, ?s)"
    using slab_slot_inside(1) [OF assms(1) P(1)] p by (simp add: AllocateFromSlab_def Let_def)
  have "set ys = set xs - {p}" using d cons by auto
  then have "set ys = {q \<in> slab_slots c ?s. (own(p := Held)) q = Listed}" using xs(2) by (auto simp: slab_slots_def)
  moreover have "unat (sl_freeSlots slab - 1) = length ys"
    using xs(3) cons assms(3) by (simp add: unat_minus_one word_gt_0_no word_neq_0_conv)
  ultimately have "slab_lists c m (own(p := Held)) ?s" unfolding slab_lists_def using p by (intro exI [of _ ys]) simp
  with a P show thesis by (intro that [of p ?s]) simp_all
qed

lemma slab_push_ok:
  assumes "slab_fits c (sl_storage slab)" "slab_lists c m own slab" "p \<in> slab_slots c slab" "own p = Held"
  shows "slab_lists c (m(p := sl_freeList slab)) (own(p := Listed))
    (slab\<lparr>sl_freeList := p, sl_freeSlots := sl_freeSlots slab + 1\<rparr>)"
proof -
  obtain xs where xs: "nodes m (sl_freeList slab) xs" "set xs = {p \<in> slab_slots c slab. own p = Listed}"
    "unat (sl_freeSlots slab) = length xs" using assms(2) by (auto simp: slab_lists_def)
  have d: "p \<notin> set xs" using xs(2) assms(4) by simp
  have "card (set xs) = length xs" using nodes_distinct [OF xs(1)] by (rule distinct_card)
  moreover have "insert p (set xs) \<subseteq> slab_slots c slab" using xs(2) assms(3) by auto
  then have "card (insert p (set xs)) \<le> unat (sc_objectsPerSlab c)"
    unfolding slab_slots_def by (metis card_length card_mono le_trans length_slot_list List.finite_set)
  ultimately have "length xs + 1 \<le> unat (sc_objectsPerSlab c)" using d by simp
  moreover have "unat (sc_objectsPerSlab c) < 2 ^ 64" by (rule order_less_le_trans [OF unsigned_less]) simp
  ultimately have "length xs + 1 < 2 ^ 64" by linarith
  then have "unat (sl_freeSlots slab + 1) = length (p # xs)"
    using xs(3) by (simp add: unat_plus_less)
  moreover have "nodes (m(p := sl_freeList slab)) p (p # xs)"
    by (rule nodes_push [OF xs(1) d slab_slot_inside(2) [OF assms(1,3)]])
  moreover have "set (p # xs) = {q \<in> slab_slots c (slab\<lparr>sl_freeList := p, sl_freeSlots := sl_freeSlots slab + 1\<rparr>).
      (own(p := Listed)) q = Listed}" using xs(2) assms(3) by (auto simp: slab_slots_def)
  ultimately show ?thesis unfolding slab_lists_def by (intro exI [of _ "p # xs"]) simp
qed

text \<open>The slabs around one that changes, and the slots of a cache.\<close>

lemma cache_slots_same:
  assumes "map sl_storage (sc_slabs c') = map sl_storage (sc_slabs c)" "sc_objectsPerSlab c' = sc_objectsPerSlab c"
    "sc_slotSize c' = sc_slotSize c"
  shows "cache_slots c' = cache_slots c"
proof -
  have *: "cache_slots d = (\<Union>v \<in> set (map sl_storage (sc_slabs d)).
      set (slot_list (unat (sc_objectsPerSlab d)) (sc_slotSize d) (vm_ptr v)))" for d
    by (simp add: cache_slots_def slab_slots_def)
  show ?thesis unfolding * using assms by simp
qed

lemma slabs_other:
  assumes "slab_inv live own (c\<lparr>sc_slabs := us @ slab # vs\<rparr>, h)" "p \<in> slab_slots c slab" "b \<in> set us \<union> set vs"
  shows "p \<notin> slab_slots c b" "\<not> Slab_Contains b p"
  using assms slots_apart [of c slab b p]
  by (auto simp: slab_inv_def sorted_wrt_append slab_fits_def slab_slots_def)

lemma slab_inv_set_slab:
  assumes inv: "slab_inv live own (c\<lparr>sc_slabs := us @ slab # vs\<rparr>, h)" and p: "p \<in> slab_slots c slab"
    and st: "sl_storage slab' = sl_storage slab" and l: "slab_lists c m' (own(p := x)) slab'"
    and m': "m' = (sh_mem h)(p := v)" and x: "own p = Listed \<or> own p = Held" "x = Listed \<or> x = Held"
  shows "slab_inv live (own(p := x)) (c\<lparr>sc_slabs := us @ slab' # vs\<rparr>, h\<lparr>sh_mem := m'\<rparr>)"
proof -
  have cs: "cache_slots (c\<lparr>sc_slabs := us @ slab' # vs\<rparr>) = cache_slots (c\<lparr>sc_slabs := us @ slab # vs\<rparr>)"
    by (rule cache_slots_same) (simp_all add: st)
  have "slab_lists c m' (own(p := x)) b" if "b \<in> set us \<union> set vs" for b
    unfolding m' using inv that slab_lists_other [OF slabs_other(1) [OF inv p that]]
    by (auto simp: slab_inv_def slab_lists_def slab_slots_def)
  then show ?thesis using inv l st x
    by (auto simp: slab_inv_def cs sorted_wrt_append slab_fits_def slab_lists_def slab_slots_def)
qed

lemma slab_inv_magazine:
  assumes "slab_inv live own (c, h)" "distinct xs" "own p \<noteq> Listed" "x \<noteq> Listed" "p \<in> cache_slots c"
    and "set xs = {q \<in> cache_slots c. (own(p := x)) q = Cached t}"
    and "\<forall>u. u \<noteq> t \<longrightarrow> own p \<noteq> Cached u \<and> x \<noteq> Cached u"
  shows "slab_inv live (own(p := x)) (c, h\<lparr>sh_magazine := (sh_magazine h)(t := xs)\<rparr>)"
  using assms slab_lists_replace [of own p x c "sh_mem h"] by (auto simp: slab_inv_def)

lemma allocate_slabs_cases:
  obtains "allocate_slabs m slabs = None" "\<forall>slab \<in> set slabs. sl_freeSlots slab = 0"
  | us slab vs where "slabs = us @ slab # vs" "0 < sl_freeSlots slab"
      "allocate_slabs m slabs = Some (map_sum id (map_prod id (\<lambda>s. us @ s # vs)) (AllocateFromSlab m slab))"
proof -
  have "allocate_slabs m slabs = None \<and> (\<forall>slab \<in> set slabs. sl_freeSlots slab = 0) \<or>
    (\<exists>us slab vs. slabs = us @ slab # vs \<and> 0 < sl_freeSlots slab \<and>
      allocate_slabs m slabs = Some (map_sum id (map_prod id (\<lambda>s. us @ s # vs)) (AllocateFromSlab m slab)))"
  proof (induction slabs)
    case (Cons s slabs)
    show ?case
    proof (cases "0 < sl_freeSlots s")
      case True
      then have "allocate_slabs m (s # slabs) = Some (map_sum id (map_prod id (\<lambda>a. [] @ a # slabs)) (AllocateFromSlab m s))"
        by (auto split: sum.splits)
      with True show ?thesis by blast
    next
      case False
      from Cons.IH show ?thesis
      proof (elim disjE exE conjE)
        fix us slab vs
        assume a: "slabs = us @ slab # vs" "0 < sl_freeSlots slab"
          "allocate_slabs m slabs = Some (map_sum id (map_prod id (\<lambda>s. us @ s # vs)) (AllocateFromSlab m slab))"
        then have "allocate_slabs m (s # slabs) =
            Some (map_sum id (map_prod id (\<lambda>a. (s # us) @ a # vs)) (AllocateFromSlab m slab))"
          using False by (cases "AllocateFromSlab m slab") auto
        with a(1,2) show ?thesis by (metis append_Cons)
      qed (use False in \<open>simp add: word_gt_0\<close>)
    qed
  qed simp
  then show thesis using that by blast
qed

lemma free_slabs_split:
  "\<forall>b \<in> set us. \<not> Slab_Contains b p \<Longrightarrow> Slab_Contains slab p \<Longrightarrow>
   free_slabs p (us @ slab # vs, m) =
     (us @ slab\<lparr>sl_freeList := p, sl_freeSlots := sl_freeSlots slab + 1\<rparr> # vs, m(p := sl_freeList slab))"
  by (induction us) simp_all

text \<open>A new slab, all of whose slots are free.\<close>

lemma slab_inv_add:
  assumes inv: "slab_inv live own (c, h)" and fits: "slab_fits c (sl_storage slab)"
    and ap: "\<forall>b \<in> set (sc_slabs c). apart (region (sl_storage b)) (region (sl_storage slab))"
    and own': "own' = (\<lambda>q. if q \<in> slab_slots c slab then Listed else own q)"
    and l: "slab_lists c m' own' slab" and m': "\<And>q. q \<notin> slab_slots c slab \<Longrightarrow> m' q = sh_mem h q"
    and live: "live os' = insert (region (sl_storage slab)) (live (sh_os h))"
  shows "slab_inv live own' (c\<lparr>sc_slabs := sc_slabs c @ [slab]\<rparr>, h\<lparr>sh_os := os', sh_mem := m'\<rparr>)"
proof -
  have new: "q \<notin> slab_slots c b" if "q \<in> slab_slots c slab" "b \<in> set (sc_slabs c)" for q b
    using slots_apart(2) [OF fits _ that(1), of b] inv ap that(2) by (auto simp: slab_inv_def)
  have old: "slab_lists c m' own' b" if b: "b \<in> set (sc_slabs c)" for b
  proof -
    obtain xs where xs: "nodes (sh_mem h) (sl_freeList b) xs" "set xs = {p \<in> slab_slots c b. own p = Listed}"
      "unat (sl_freeSlots b) = length xs" using inv b by (auto simp: slab_inv_def slab_lists_def)
    have "nodes m' (sl_freeList b) xs" using xs(1,2) m' new b by (subst nodes_cong [of xs m' "sh_mem h"]) auto
    moreover have "set xs = {p \<in> slab_slots c b. own' p = Listed}" using xs(2) new b own' by auto
    ultimately show ?thesis using xs(3) by (auto simp: slab_lists_def)
  qed
  let ?c = "c\<lparr>sc_slabs := sc_slabs c @ [slab]\<rparr>"
  have ss: "slab_slots ?c = slab_slots c" "slab_lists ?c = slab_lists c" "slab_fits ?c = slab_fits c"
    by (simp_all add: fun_eq_iff slab_slots_def slab_lists_def slab_fits_def)
  have "{p \<in> cache_slots ?c. own' p = Cached t} = {p \<in> cache_slots c. own p = Cached t}" for t
    using new own' by (auto simp: cache_slots_def ss)
  then show ?thesis using inv fits ap l old live by (auto simp: slab_inv_def ss sorted_wrt_append)
qed

lemma construct_slots_keeps:
  "\<forall>p w. ctor p w = w \<Longrightarrow> construct_slots ctor n s mem m = m"
  unfolding construct_slots_def by (induction n arbitrary: m) (simp_all add: Let_def)

text \<open>
  What the cache relies on from the kernel, for a function \<open>live\<close> that reads the mapped regions
  off an OS state: a successful \<open>mmap\<close> maps a region that does not wrap around the address space
  and overlaps no mapped region; a failed one changes nothing.
\<close>

definition os_apart :: "'os os_api \<Rightarrow> ('os \<Rightarrow> (ptr \<times> size_t) set) \<Rightarrow> bool" where
  "os_apart api live \<longleftrightarrow> (\<forall>os sz p os'. os_mmap api os sz = (p, os') \<longrightarrow>
     (if p = MAP_FAILED then live os' = live os
      else p \<noteq> nullptr \<and> unat p + unat sz < 2 ^ 64 \<and> live os' = insert (p, sz) (live os) \<and>
           (\<forall>r \<in> live os. apart r (p, sz))))"

text \<open>The parameters of a cache are sensible: slots hold a link and a slab's size does not overflow.\<close>

definition cache_params :: "SlabCache \<Rightarrow> bool" where
  "cache_params c \<longleftrightarrow> 0 < unat (sc_objectsPerSlab c) \<and> 8 \<le> unat (sc_slotSize c) \<and>
     unat (sc_objectsPerSlab c) * unat (sc_slotSize c) + 4096 \<le> 2 ^ 64"

lemma slab_bytes:
  assumes "cache_params c"
  shows "unat (sc_objectsPerSlab c) * unat (sc_slotSize c) \<le> unat (AlignUp (sc_objectsPerSlab c * sc_slotSize c) 4096)"
proof -
  let ?n = "sc_objectsPerSlab c" and ?s = "sc_slotSize c"
  have par: "unat ?n * unat ?s + 4096 \<le> 2 ^ 64" using assms by (simp add: cache_params_def)
  then have mul: "unat (?n * ?s) = unat ?n * unat ?s" by (simp add: unat_word_ariths)
  have "unat (AlignUp (?n * ?s) (2 ^ 12)) = (unat (?n * ?s) + (2 ^ 12 - 1)) div 2 ^ 12 * 2 ^ 12"
    using par mul by (intro AlignUp_nat) simp_all
  then show ?thesis using round_up_bounds(1) [of "2 ^ 12" "unat (?n * ?s)"] mul by simp
qed

lemma Slab_new_cases:
  assumes "os_apart api live" "cache_params c" "\<forall>p w. ctor p w = w"
    and new: "Slab_new api os ctor m (sc_objectsPerSlab c) (sc_slotSize c) = (r, os')"
  obtains "r = Inl Undefined" "live os' = live os" "fst (os_mmap api os (AlignUp (sc_objectsPerSlab c * sc_slotSize c) 4096)) = MAP_FAILED"
  | slab m' where "r = Inr (slab, m')" "slab_fits c (sl_storage slab)" "\<forall>q \<in> live os. apart q (region (sl_storage slab))"
    "live os' = insert (region (sl_storage slab)) (live os)" "\<And>q. q \<notin> slab_slots c slab \<Longrightarrow> m' q = m q"
    "0 < sl_freeSlots slab" "\<And>own. \<forall>q \<in> slab_slots c slab. own q = Listed \<Longrightarrow> slab_lists c m' own slab"
proof -
  let ?n = "sc_objectsPerSlab c" and ?s = "sc_slotSize c"
  let ?b = "AlignUp (?n * ?s) 4096"
  have par: "0 < unat ?n" "8 \<le> unat ?s" "unat ?n * unat ?s + 4096 \<le> 2 ^ 64" using assms(2) by (simp_all add: cache_params_def)
  obtain p o' where mm: "os_mmap api os ?b = (p, o')" by fastforce
  note size = slab_bytes [OF assms(2)]
  have k: "Suc (unat (?n - 1)) = unat ?n" using par(1) unat_minus_one [of ?n] by (cases "?n = 0") simp_all
  have step: "unat (?n - 1) * unat ?s + unat ?s = unat ?n * unat ?s" using k by (metis add.commute mult_Suc)
  show thesis
  proof (cases "p = MAP_FAILED")
    case True
    have "p \<noteq> 0" using True by (simp add: MAP_FAILED_def)
    then have "r = Inl Undefined" "os' = o'"
      using new mm True by (simp_all add: Slab_new_def VirtualMemory_new_def AllocateVirtualMemory_def Let_def)
    moreover have "live o' = live os" using assms(1) mm True by (simp add: os_apart_def)
    ultimately show ?thesis using True mm that(1) by simp
  next
    case False
    then have os: "p \<noteq> 0" "unat p + unat ?b < 2 ^ 64" "live o' = insert (p, ?b) (live os)" "\<forall>q \<in> live os. apart q (p, ?b)"
      using assms(1) mm unfolding os_apart_def by (metis (full_types))+
    let ?v = "\<lparr>vm_ptr = p, vm_size = ?b\<rparr>"
    let ?slab = "\<lparr>sl_storage = ?v, sl_freeList = p, sl_freeSlots = ?n, sl_totalSlots = ?n\<rparr>"
    let ?m = "link_slots (unat (?n - 1)) ?s m p"
    have r: "r = Inr (?slab, ?m)" "os' = o'"
      using new mm False os(1) step size par(2)
      by (simp_all add: Slab_new_def VirtualMemory_new_def AllocateVirtualMemory_def Let_def construct_slots_keeps [OF assms(3)])
    have fits: "slab_fits c (sl_storage ?slab)" using os size par by (simp add: slab_fits_def)
    have sl: "slab_slots c ?slab = set (slot_list (Suc (unat (?n - 1))) ?s p)" unfolding k by (simp add: slab_slots_def)
    have bound: "unat p + Suc (unat (?n - 1)) * unat ?s \<le> 2 ^ 64" using os(2) size k by simp
    have s0: "0 < unat ?s" using par(2) by simp
    note dst = slot_list_distinct [OF bound s0]
    have nd: "nodes ?m p (slot_list (Suc (unat (?n - 1))) ?s p)"
      by (rule link_slots_nodes [OF dst slot_list_nonnull [OF bound s0 os(1)]])
    have lists: "slab_lists c ?m own ?slab" if "\<forall>q \<in> slab_slots c ?slab. own q = Listed" for own
      unfolding slab_lists_def using nd that sl k
      by (intro exI [of _ "slot_list (Suc (unat (?n - 1))) ?s p"]) auto
    show ?thesis
      by (rule that(2) [OF r(1) fits]) (use os r lists sl link_slots_outside par in \<open>auto simp: region_def word_gt_0 unat_gt_0\<close>)
  qed
qed

definition slab_held :: "(ptr \<Rightarrow> place) \<Rightarrow> SlabCache \<Rightarrow> ptr set" where
  "slab_held own c = {p \<in> cache_slots c. own p = Held}"

definition same_cache :: "SlabCache \<Rightarrow> SlabCache \<Rightarrow> bool" where
  "same_cache c d \<longleftrightarrow> sc_objectsPerSlab d = sc_objectsPerSlab c \<and> sc_slotSize d = sc_slotSize c \<and>
     sc_magazineSize d = sc_magazineSize c"

lemma Allocate_inv:
  assumes os: "os_apart api live" and par: "cache_params c" and ctor: "\<forall>p w. ctor p w = w"
    and inv: "slab_inv live own (c, h)" and al: "SlabCache_Allocate api ctor t (c, h) = (r, c', h')"
  obtains "r = Inl Undefined" "slab_inv live own (c', h')" "slab_held own c' = slab_held own c" "same_cache c c'"
      "fst (os_mmap api (sh_os h) (AlignUp (sc_objectsPerSlab c * sc_slotSize c) 4096)) = MAP_FAILED"
  | p own' where "r = Inr p" "slab_inv live own' (c', h')" "p \<in> cache_slots c'" "p \<notin> slab_held own c"
      "slab_held own' c' = insert p (slab_held own c)" "same_cache c c'"
proof -
  let ?mag = "sh_magazine h t"
  consider "?mag \<noteq> []" | us slab vs where "?mag = []" "sc_slabs c = us @ slab # vs" "0 < sl_freeSlots slab"
      "allocate_slabs (sh_mem h) (sc_slabs c) =
         Some (map_sum id (map_prod id (\<lambda>s. us @ s # vs)) (AllocateFromSlab (sh_mem h) slab))"
    | "?mag = []" "allocate_slabs (sh_mem h) (sc_slabs c) = None"
    by (rule allocate_slabs_cases [of "sh_mem h" "sc_slabs c"]) blast+
  then show thesis
  proof cases
    case 1
    let ?p = "last ?mag"
    have mag: "distinct ?mag" "set ?mag = {p \<in> cache_slots c. own p = Cached t}" using inv by (simp_all add: slab_inv_def)
    then have p: "?p \<in> cache_slots c" "own ?p = Cached t" using 1 last_in_set [of ?mag] by auto
    have b: "set (butlast ?mag) = set ?mag - {?p}" "distinct (butlast ?mag)"
      using mag(1) append_butlast_last_id [OF 1] by (metis Diff_insert_absorb distinct_append not_distinct_conv_prefix
        set_append Un_commute insert_is_Un list.set(1) list.set(2) rotate1.simps(2) set_rotate1, metis distinct_butlast)
    have "slab_inv live (own(?p := Held)) (c, h\<lparr>sh_magazine := (sh_magazine h)(t := butlast ?mag)\<rparr>)"
      using inv b p mag by (intro slab_inv_magazine) auto
    moreover have "r = Inr ?p" "c' = c" "h' = h\<lparr>sh_magazine := (sh_magazine h)(t := butlast ?mag)\<rparr>"
      using al 1 by (simp_all add: SlabCache_Allocate_def Let_def)
    ultimately show ?thesis using p by (intro that(2) [of ?p "own(?p := Held)"]) (auto simp: slab_held_def same_cache_def)
  next
    case (2 us slab vs)
    let ?c = "c\<lparr>sc_slabs := us @ slab # vs\<rparr>"
    have c: "?c = c" using 2(2) by simp
    have s: "slab_fits c (sl_storage slab)" "slab_lists c (sh_mem h) own slab" using inv 2(2) by (auto simp: slab_inv_def)
    obtain p slab' where a: "AllocateFromSlab (sh_mem h) slab = Inr (p, slab')" "p \<in> slab_slots c slab" "own p = Listed"
      "sl_storage slab' = sl_storage slab" "slab_lists c (sh_mem h) (own(p := Held)) slab'"
      by (rule AllocateFromSlab_ok [OF s 2(3)])
    have i: "slab_inv live own (?c, h)" using inv c by simp
    have "slab_inv live (own(p := Held)) (c\<lparr>sc_slabs := us @ slab' # vs\<rparr>, h\<lparr>sh_mem := sh_mem h\<rparr>)"
      by (rule slab_inv_set_slab [OF i a(2,4,5), of "sh_mem h p"]) (use a(3) in simp_all)
    then have i': "slab_inv live (own(p := Held)) (c\<lparr>sc_slabs := us @ slab' # vs\<rparr>, h)" by simp
    have r: "r = Inr p" "c' = c\<lparr>sc_slabs := us @ slab' # vs\<rparr>" "h' = h" using al 2 a(1) by (simp_all add: SlabCache_Allocate_def Let_def)
    have cs: "cache_slots c' = cache_slots c" unfolding r by (rule cache_slots_same) (simp_all add: 2(2) a(4))
    have "p \<in> cache_slots c" using a(2) 2(2) by (auto simp: cache_slots_def)
    then show ?thesis using i' r cs a(3)
      by (intro that(2) [of p "own(p := Held)"]) (auto simp: slab_held_def same_cache_def)
  next
    case 3
    obtain q os' where n: "Slab_new api (sh_os h) ctor (sh_mem h) (sc_objectsPerSlab c) (sc_slotSize c) = (q, os')" by fastforce
    show ?thesis
    proof (rule Slab_new_cases [OF os par ctor n])
      assume q: "q = Inl Undefined" "live os' = live (sh_os h)"
        "fst (os_mmap api (sh_os h) (AlignUp (sc_objectsPerSlab c * sc_slotSize c) 4096)) = MAP_FAILED"
      then have "r = Inl Undefined" "c' = c" "h' = h\<lparr>sh_os := os'\<rparr>" using al 3 n by (simp_all add: SlabCache_Allocate_def Let_def)
      then show ?thesis using q inv by (intro that(1)) (simp_all add: slab_inv_def same_cache_def)
    next
      fix slab m'
      assume q: "q = Inr (slab, m')" and fits: "slab_fits c (sl_storage slab)"
        and ap: "\<forall>r \<in> live (sh_os h). apart r (region (sl_storage slab))"
        and live: "live os' = insert (region (sl_storage slab)) (live (sh_os h))"
        and out: "\<And>p. p \<notin> slab_slots c slab \<Longrightarrow> m' p = sh_mem h p" and fs: "0 < sl_freeSlots slab"
        and lst: "\<And>o'. \<forall>p \<in> slab_slots c slab. o' p = Listed \<Longrightarrow> slab_lists c m' o' slab"
      define o1 where "o1 = (\<lambda>p. if p \<in> slab_slots c slab then Listed else own p)"
      have l1: "slab_lists c m' o1 slab" by (rule lst) (simp add: o1_def)
      let ?c1 = "c\<lparr>sc_slabs := sc_slabs c @ slab # []\<rparr>" and ?h1 = "h\<lparr>sh_os := os', sh_mem := m'\<rparr>"
      have i1: "slab_inv live o1 (?c1, ?h1)"
        by (rule slab_inv_add [OF inv fits _ o1_def l1 out live]) (use inv ap in \<open>auto simp: slab_inv_def\<close>)
      obtain p slab' where a: "AllocateFromSlab m' slab = Inr (p, slab')" "p \<in> slab_slots c slab" "o1 p = Listed"
        "sl_storage slab' = sl_storage slab" "slab_lists c m' (o1(p := Held)) slab'"
        by (rule AllocateFromSlab_ok [OF fits l1 fs])
      let ?c2 = "c\<lparr>sc_slabs := sc_slabs c @ slab' # []\<rparr>"
      have "slab_inv live (o1(p := Held)) (?c2, ?h1\<lparr>sh_mem := m'\<rparr>)"
        by (rule slab_inv_set_slab [OF i1 a(2,4,5), of "m' p"]) (use a(3) in simp_all)
      then have i2: "slab_inv live (o1(p := Held)) (?c2, ?h1)" by simp
      have r: "r = Inr p" "c' = ?c2" "h' = ?h1" using al 3 n q a(1) by (simp_all add: SlabCache_Allocate_def Let_def)
      have ss: "slab_slots ?c2 = slab_slots c" "slab_slots c slab' = slab_slots c slab"
        using a(4) by (simp_all add: fun_eq_iff slab_slots_def)
      have cs: "cache_slots c' = cache_slots c \<union> slab_slots c slab" unfolding r by (auto simp: cache_slots_def ss)
      have new: "x \<notin> cache_slots c" if "x \<in> slab_slots c slab" for x
        using slots_apart(2) [OF fits _ that] inv ap by (fastforce simp: slab_inv_def cache_slots_def)
      have "slab_held (o1(p := Held)) c' = insert p (slab_held own c)"
        using cs a(2) new by (auto simp: slab_held_def o1_def)
      then show ?thesis using i2 r cs a(2) new
        by (intro that(2) [of p "o1(p := Held)"]) (auto simp: slab_held_def same_cache_def)
    qed
  qed
qed

lemma Free_inv:
  assumes inv: "slab_inv live own (c, h)" and p: "p \<in> slab_held own c" and fr: "SlabCache_Free t p (c, h) = (c', h')"
  obtains own' where "slab_inv live own' (c', h')" "slab_held own' c' = slab_held own c - {p}" "same_cache c c'"
proof -
  let ?mag = "sh_magazine h t"
  have p': "p \<in> cache_slots c" "own p = Held" using p by (simp_all add: slab_held_def)
  then obtain slab where slab: "slab \<in> set (sc_slabs c)" "p \<in> slab_slots c slab" by (auto simp: cache_slots_def)
  have fits: "slab_fits c (sl_storage slab)" "slab_lists c (sh_mem h) own slab" using inv slab(1) by (auto simp: slab_inv_def)
  note ins = slab_slot_inside [OF fits(1) slab(2)]
  show thesis
  proof (cases "length ?mag < unat (sc_magazineSize c)")
    case True
    have mag: "distinct ?mag" "set ?mag = {q \<in> cache_slots c. own q = Cached t}" using inv by (simp_all add: slab_inv_def)
    have "slab_inv live (own(p := Cached t)) (c, h\<lparr>sh_magazine := (sh_magazine h)(t := ?mag @ [p])\<rparr>)"
      using inv p' mag by (intro slab_inv_magazine) auto
    moreover have "c' = c" "h' = h\<lparr>sh_magazine := (sh_magazine h)(t := ?mag @ [p])\<rparr>"
      using fr True ins(2) by (simp_all add: SlabCache_Free_def Let_def)
    ultimately show ?thesis by (intro that [of "own(p := Cached t)"]) (auto simp: slab_held_def same_cache_def)
  next
    case False
    obtain us vs where s: "sc_slabs c = us @ slab # vs" using slab(1) by (meson split_list)
    let ?c = "c\<lparr>sc_slabs := us @ slab # vs\<rparr>"
    have c: "?c = c" using s by simp
    have i: "slab_inv live own (?c, h)" using inv c by simp
    let ?slab = "slab\<lparr>sl_freeList := p, sl_freeSlots := sl_freeSlots slab + 1\<rparr>"
    have "free_slabs p (us @ slab # vs, sh_mem h) = (us @ ?slab # vs, (sh_mem h)(p := sl_freeList slab))"
      using slabs_other(2) [OF i slab(2)] ins(1) by (intro free_slabs_split) auto
    then have r: "c' = c\<lparr>sc_slabs := us @ ?slab # vs\<rparr>" "h' = h\<lparr>sh_mem := (sh_mem h)(p := sl_freeList slab)\<rparr>"
      using fr False ins(2) s by (simp_all add: SlabCache_Free_def Let_def)
    have "slab_inv live (own(p := Listed)) (c', h')" unfolding r
      by (rule slab_inv_set_slab [OF i slab(2) _ slab_push_ok [OF fits slab(2) p'(2)]]) (use p'(2) in simp_all)
    moreover have "cache_slots c' = cache_slots c" unfolding r by (rule cache_slots_same) (simp_all add: s)
    ultimately show ?thesis using r(1) by (intro that [of "own(p := Listed)"]) (auto simp: slab_held_def same_cache_def)
  qed
qed

subsection \<open>Histories of a cache\<close>

text \<open>
  Any number of threads allocate and free in any order; a client may write to the objects it holds;
  freeing what is not held is misuse and has no run.
\<close>

inductive slab_run ::
  "'os os_api \<Rightarrow> (ptr \<Rightarrow> ptr \<Rightarrow> ptr) \<Rightarrow> SlabCache \<times> 'os slab_heap \<Rightarrow> SlabCache \<times> 'os slab_heap \<Rightarrow> ptr set \<Rightarrow> bool"
  for api ctor s0 where
  start: "slab_run api ctor s0 s0 {}"
| alloc: "slab_run api ctor s0 s out \<Longrightarrow> SlabCache_Allocate api ctor t s = (Inr p, s') \<Longrightarrow>
    slab_run api ctor s0 s' (insert p out)"
| throws: "slab_run api ctor s0 s out \<Longrightarrow> SlabCache_Allocate api ctor t s = (Inl Runtime_error, s') \<Longrightarrow>
    slab_run api ctor s0 s' out"
| free: "slab_run api ctor s0 s out \<Longrightarrow> p \<in> out \<Longrightarrow> slab_run api ctor s0 (SlabCache_Free t p s) (out - {p})"
| writes: "slab_run api ctor s0 (c, h) out \<Longrightarrow> p \<in> out \<Longrightarrow>
    slab_run api ctor s0 (c, h\<lparr>sh_mem := (sh_mem h)(p := v)\<rparr>) out"

lemma cache_params_same: "same_cache c d \<Longrightarrow> cache_params d = cache_params c"
  by (simp add: same_cache_def cache_params_def)

lemma same_cache_trans: "same_cache a b \<Longrightarrow> same_cache b c \<Longrightarrow> same_cache a c"
  by (simp add: same_cache_def)

lemma slab_run_inv:
  assumes "slab_run api ctor s0 s out" and os: "os_apart api live" and ctor: "\<forall>p w. ctor p w = w"
    and "cache_params (fst s0)" "sc_slabs (fst s0) = []" "\<forall>t. sh_magazine (snd s0) t = []"
  shows "\<exists>own. slab_inv live own s \<and> slab_held own (fst s) = out \<and> same_cache (fst s0) (fst s)"
  using assms(1)
proof (induction rule: slab_run.induct)
  case start
  show ?case using assms(5,6)
    by (cases s0) (auto simp: slab_inv_def slab_held_def cache_slots_def same_cache_def)
next
  case (alloc s out t p s')
  then obtain own where own: "slab_inv live own s" "slab_held own (fst s) = out" "same_cache (fst s0) (fst s)" by blast
  obtain c h c' h' where s: "s = (c, h)" "s' = (c', h')" by (metis surj_pair)
  have par: "cache_params c" using own(3) assms(4) s by (simp add: cache_params_same)
  show ?case
    by (rule Allocate_inv [OF os par ctor own(1) [unfolded s] alloc.hyps(2) [unfolded s]])
      (use own s same_cache_trans in \<open>auto 4 4\<close>)
next
  case (throws s out t s')
  then obtain own where own: "slab_inv live own s" "slab_held own (fst s) = out" "same_cache (fst s0) (fst s)" by blast
  obtain c h c' h' where s: "s = (c, h)" "s' = (c', h')" by (metis surj_pair)
  have par: "cache_params c" using own(3) assms(4) s by (simp add: cache_params_same)
  show ?case
    by (rule Allocate_inv [OF os par ctor own(1) [unfolded s] throws.hyps(2) [unfolded s]]) simp_all
next
  case (free s out p t)
  then obtain own where own: "slab_inv live own s" "slab_held own (fst s) = out" "same_cache (fst s0) (fst s)" by blast
  obtain c h c' h' where s: "s = (c, h)" "SlabCache_Free t p (c, h) = (c', h')" by (metis surj_pair)
  have "p \<in> slab_held own c" using own(2) free.hyps(2) s by simp
  from Free_inv [OF own(1) [unfolded s(1)] this s(2)] own s same_cache_trans show ?case by (metis fst_conv)
next
  case (writes c h out p v)
  then obtain own where own: "slab_inv live own (c, h)" "slab_held own c = out" "same_cache (fst s0) c" by auto
  then have "own p \<noteq> Listed" using writes.hyps(2) by (auto simp: slab_held_def)
  then have "slab_inv live own (c, h\<lparr>sh_mem := (sh_mem h)(p := v)\<rparr>)"
    using own(1) slab_lists_write [of own p c "sh_mem h" _ v] by (auto simp: slab_inv_def)
  with own(2,3) show ?case by auto
qed

lemma slots_disjoint:
  assumes inv: "slab_inv live own (c, h)" and p: "p \<in> cache_slots c" and q: "q \<in> cache_slots c" and ne: "p \<noteq> q"
  shows "disjoint_regions (unat p) (unat (sc_slotSize c)) (unat q) (unat (sc_slotSize c))"
proof -
  let ?s = "unat (sc_slotSize c)"
  obtain a b where ab: "a \<in> set (sc_slabs c)" "p \<in> slab_slots c a" "b \<in> set (sc_slabs c)" "q \<in> slab_slots c b"
    using p q by (auto simp: cache_slots_def)
  have fa: "slab_fits c (sl_storage a)" and fb: "slab_fits c (sl_storage b)" using inv ab by (auto simp: slab_inv_def)
  show ?thesis
  proof (cases "a = b")
    case True
    let ?v = "sl_storage a" and ?n = "unat (sc_objectsPerSlab c)"
    have f: "unat (vm_ptr ?v) + ?n * ?s \<le> 2 ^ 64" "0 < ?s" using fa by (auto simp: slab_fits_def)
    obtain i j where i: "i < ?n" "unat p = unat (vm_ptr ?v) + i * ?s" and j: "j < ?n" "unat q = unat (vm_ptr ?v) + j * ?s"
      using ab True unat_slot [OF f(1) _ f(2)] by (fastforce simp: slab_slots_def slot_list_def)
    have step: "x * ?s + ?s \<le> y * ?s" if "x < y" for x y using that by (metis Suc_leI add.commute mult_Suc mult_le_mono1)
    have "unat p \<noteq> unat q" using ne by (metis unsigned_word_eqI)
    then have "i \<noteq> j" using i(2) j(2) by auto
    then show ?thesis using i(2) j(2) step [of i j] step [of j i] by (auto simp: disjoint_regions_def linorder_neq_iff)
  next
    case False
    obtain i j where ij: "i < length (sc_slabs c)" "j < length (sc_slabs c)" "sc_slabs c ! i = a" "sc_slabs c ! j = b"
      using ab by (metis in_set_conv_nth)
    then have "apart (region (sl_storage a)) (region (sl_storage b)) \<or> apart (region (sl_storage b)) (region (sl_storage a))"
      using inv False by (cases i j rule: linorder_cases) (auto simp: slab_inv_def sorted_wrt_iff_nth_less)
    then show ?thesis using slab_slot_inside [OF fa ab(2)] slab_slot_inside [OF fb ab(4)]
      by (auto simp: apart_def region_def disjoint_regions_def)
  qed
qed

lemma held_not_cached:
  "slab_inv live own (c, h) \<Longrightarrow> p \<in> slab_held own c \<Longrightarrow> p \<notin> set (sh_magazine h t)"
  by (auto simp: slab_inv_def slab_held_def)

lemma construct_slots_zero:
  assumes "\<forall>p w. ctor p w = 0" "i < n"
  shows "construct_slots ctor n s p m (p + of_nat i * s) = 0"
proof -
  have step: "construct_slots ctor (Suc k) s p m =
      (construct_slots ctor k s p m)(p + of_nat k * s := 0)" for k
    using assms(1) by (simp add: construct_slots_def Let_def)
  from assms(2) show ?thesis
    by (induction n) (auto simp: step simp del: upt_Suc elim: less_SucE)
qed

subsection \<open>Properties\<close>

text \<open>
  C23. With a constructor that leaves the first word of an object alone, every history of a slab
  cache, by any number of threads, hands out exclusive objects: objects held at the same time are
  at least \<open>sizeof(T)\<close> apart, each lies in a slab of the cache and in no magazine, and the next
  \<open>Allocate\<close> of any thread returns an object that nobody holds, unless the kernel refuses to map
  a slab.
\<close>

theorem SlabCache_exclusive:
  assumes os: "os_apart api live" and ctor: "\<forall>p w. ctor p w = w"
    and c0: "c0 = SlabCache_new sizeof_T (2 ^ a) n mag" and h0: "\<forall>t. sh_magazine h0 t = []"
    and sz: "a < 64" "unat sizeof_T + 8 + 2 ^ a \<le> 2 ^ 64" "0 < unat n" "unat n * unat (sc_slotSize c0) + 4096 \<le> 2 ^ 64"
    and run: "slab_run api ctor (c0, h0) (c, h) out"
  shows "(\<forall>p \<in> out. p \<noteq> nullptr \<and> (\<exists>slab \<in> set (sc_slabs c). Slab_Contains slab p) \<and> (\<forall>t. p \<notin> set (sh_magazine h t)) \<and>
      (\<forall>q \<in> out. p \<noteq> q \<longrightarrow> disjoint_regions (unat p) (unat sizeof_T) (unat q) (unat sizeof_T))) \<and>
    (\<forall>t. case SlabCache_Allocate api ctor t (c, h) of
       (Inr p, s') \<Rightarrow> p \<noteq> nullptr \<and> p \<notin> out
     | (Inl e, s') \<Rightarrow> fst (os_mmap api (sh_os h) (AlignUp (sc_objectsPerSlab c * sc_slotSize c) 4096)) = MAP_FAILED)"
proof -
  have slot: "sc_slotSize c0 = SlotSize sizeof_T (2 ^ a)" "sc_objectsPerSlab c0 = n" "sc_slabs c0 = []"
    unfolding c0 SlabCache_new_def SlotSize_def by simp_all
  have big: "8 \<le> unat (sc_slotSize c0)" "unat sizeof_T \<le> unat (sc_slotSize c0)" using SlotSize_pos [OF sz(1,2)] slot by simp_all
  have par0: "cache_params c0" using sz(3,4) big slot by (simp add: cache_params_def)
  obtain own where own: "slab_inv live own (c, h)" "slab_held own c = out" "same_cache c0 c"
    using slab_run_inv [OF run os ctor] par0 slot(3) h0 by auto
  have ss: "unat sizeof_T \<le> unat (sc_slotSize c)" using own(3) big(2) by (simp add: same_cache_def)
  have in_slab: "\<exists>slab \<in> set (sc_slabs d). Slab_Contains slab p \<and> p \<noteq> nullptr"
    if "p \<in> cache_slots d" "slab_inv live o' (d, k)" for p d o' k
    using that slab_slot_inside [of d _ p] by (fastforce simp: cache_slots_def slab_inv_def)
  have "p \<noteq> nullptr \<and> (\<exists>slab \<in> set (sc_slabs c). Slab_Contains slab p) \<and> (\<forall>t. p \<notin> set (sh_magazine h t)) \<and>
      (\<forall>q \<in> out. p \<noteq> q \<longrightarrow> disjoint_regions (unat p) (unat sizeof_T) (unat q) (unat sizeof_T))" if p: "p \<in> out" for p
  proof (intro conjI ballI impI allI)
    have pc: "p \<in> cache_slots c" using p own(2) by (auto simp: slab_held_def)
    show "p \<noteq> nullptr" "\<exists>slab \<in> set (sc_slabs c). Slab_Contains slab p" using in_slab [OF pc own(1)] by auto
    show "p \<notin> set (sh_magazine h t)" for t using held_not_cached [OF own(1)] p own(2) by blast
    fix q assume "q \<in> out" "p \<noteq> q"
    then show "disjoint_regions (unat p) (unat sizeof_T) (unat q) (unat sizeof_T)"
      using slots_disjoint [OF own(1) pc, of q] own(2) ss by (auto simp: slab_held_def disjoint_regions_def)
  qed
  moreover have "case SlabCache_Allocate api ctor t (c, h) of (Inr p, s') \<Rightarrow> p \<noteq> nullptr \<and> p \<notin> out
     | (Inl e, s') \<Rightarrow> fst (os_mmap api (sh_os h) (AlignUp (sc_objectsPerSlab c * sc_slotSize c) 4096)) = MAP_FAILED" for t
  proof -
    obtain r c' h' where al: "SlabCache_Allocate api ctor t (c, h) = (r, c', h')" by (metis surj_pair)
    have par: "cache_params c" using par0 own(3) by (simp add: cache_params_same)
    show ?thesis unfolding al
      by (rule Allocate_inv [OF os par ctor own(1) al]) (use own(2) in_slab in auto)
  qed
  ultimately show ?thesis by blast
qed


definition small_os :: "(ptr \<times> size_t) list os_api" where
  "small_os =
     \<lparr>os_mmap = \<lambda>os sz. if os = [] \<and> unat sz \<le> 2 ^ 20 then (8192, [(8192, sz)]) else (MAP_FAILED, os),
      os_munmap = \<lambda>os p sz. filter (\<lambda>r. r \<noteq> (p, sz)) os\<rparr>"

lemma small_os_apart: "os_apart small_os set"
  by (auto simp: os_apart_def small_os_def MAP_FAILED_def)

definition small_cache :: SlabCache where
  "small_cache = SlabCache_new 8 (2 ^ 3) 2 1"

definition small_heap :: "(ptr \<times> size_t) list slab_heap" where
  "small_heap = \<lparr>sh_os = [], sh_mem = \<lambda>_. 0, sh_magazine = \<lambda>_. []\<rparr>"

definition small_slab :: Slab where
  "small_slab = \<lparr>sl_storage = \<lparr>vm_ptr = 8192, vm_size = 4096\<rparr>, sl_freeList = 8200, sl_freeSlots = 1, sl_totalSlots = 2\<rparr>"

lemma small_cache_eq: "small_cache = \<lparr>sc_objectsPerSlab = 2, sc_magazineSize = 1, sc_slotSize = 8, sc_slabs = []\<rparr>"
  by (simp add: small_cache_def SlabCache_new_def AlignUp_def)

lemma small_alloc:
  "SlabCache_Allocate small_os (\<lambda>p w. w) 0 (small_cache, small_heap) =
     (Inr 8192, small_cache\<lparr>sc_slabs := [small_slab]\<rparr>,
      small_heap\<lparr>sh_os := [(8192, 4096)], sh_mem := (\<lambda>_. 0)(8192 := 8200, 8200 := 0)\<rparr>)"
proof -
  have two: "[0..<2] = [0, Suc 0]" by (simp add: upt_rec)
  have one: "unat (1 :: size_t) = Suc 0" by simp
  show ?thesis
    by (simp add: SlabCache_Allocate_def small_cache_eq small_heap_def Slab_new_def VirtualMemory_new_def
        AllocateVirtualMemory_def small_os_def AlignUp_def Let_def AllocateFromSlab_def Slab_Contains_def
        small_slab_def construct_slots_def two MAP_FAILED_def)
qed

theorem SlabCache_exclusive_witness:
  "\<exists>s. slab_run small_os (\<lambda>p w. w) (small_cache, small_heap) s {8192} \<and>
     (case SlabCache_Allocate small_os (\<lambda>p w. w) 1 s of (Inr p, s') \<Rightarrow> p \<notin> {8192} | (Inl e, s') \<Rightarrow> False)"
proof -
  let ?c = "small_cache\<lparr>sc_slabs := [small_slab]\<rparr>"
  let ?h = "small_heap\<lparr>sh_os := [(8192, 4096)], sh_mem := (\<lambda>_. 0)(8192 := 8200, 8200 := 0)\<rparr>"
  have run: "slab_run small_os (\<lambda>p w. w) (small_cache, small_heap) (?c, ?h) {8192}"
    by (rule slab_run.alloc [OF slab_run.start small_alloc])
  have "unat (2 :: size_t) * unat (sc_slotSize small_cache) + 4096 \<le> 2 ^ 64" by (simp add: small_cache_eq)
  note th = SlabCache_exclusive [OF small_os_apart _ small_cache_def _ _ _ _ this run]
  have "case SlabCache_Allocate small_os (\<lambda>p w. w) 1 (?c, ?h) of (Inr p, s') \<Rightarrow> p \<noteq> nullptr \<and> p \<notin> {8192}
     | (Inl e, s') \<Rightarrow> fst (os_mmap small_os (sh_os ?h) (AlignUp (sc_objectsPerSlab ?c * sc_slotSize ?c) 4096)) = MAP_FAILED"
    using th by (simp add: small_heap_def)
  moreover have "SlabCache_Allocate small_os (\<lambda>p w. w) 1 (?c, ?h) =
      (Inr 8200, ?c\<lparr>sc_slabs := [small_slab\<lparr>sl_freeList := 0, sl_freeSlots := 0\<rparr>]\<rparr>, ?h)"
    by (simp add: SlabCache_Allocate_def small_heap_def small_cache_eq AllocateFromSlab_def Slab_Contains_def small_slab_def Let_def)
  ultimately show ?thesis using run by (intro exI [of _ "(?c, ?h)"]) simp
qed

text \<open>
  C27. The constructor of a slab builds the free list first and constructs the objects over it.  When
  the default constructor of \<open>T\<close> clears the first word (a value-initialised pointer or 64-bit
  integer, a class that begins with a null pointer), the links are gone: the first \<open>Allocate\<close> of a
  cache with at least two objects per slab succeeds and the second one reads through a null pointer.
\<close>

theorem SlabCache_constructor_breaks_list:
  assumes ctor: "\<forall>p w. ctor p w = 0" and empty: "sc_slabs c = []" "sh_magazine h t = []"
    and par: "cache_params c" "2 \<le> unat (sc_objectsPerSlab c)"
    and mm: "os_mmap api (sh_os h) (AlignUp (sc_objectsPerSlab c * sc_slotSize c) 4096) = (p, os')"
    and p: "p \<noteq> nullptr" "p \<noteq> MAP_FAILED"
      "unat p + unat (AlignUp (sc_objectsPerSlab c * sc_slotSize c) 4096) < 2 ^ 64"
  shows "\<exists>s. SlabCache_Allocate api ctor t (c, h) = (Inr p, s) \<and> fst (SlabCache_Allocate api ctor t s) = Inl Undefined"
proof -
  let ?n = "sc_objectsPerSlab c" and ?s = "sc_slotSize c"
  let ?b = "AlignUp (?n * ?s) 4096"
  have k: "unat (?n - 1) * unat ?s + unat ?s = unat ?n * unat ?s"
    using par(2) unat_minus_one [of ?n] by (cases "?n = 0") (simp_all add: algebra_simps)
  let ?m = "construct_slots ctor (unat ?n) ?s p (link_slots (unat (?n - 1)) ?s (sh_mem h) p)"
  let ?slab = "\<lparr>sl_storage = \<lparr>vm_ptr = p, vm_size = ?b\<rparr>, sl_freeList = p, sl_freeSlots = ?n, sl_totalSlots = ?n\<rparr>"
  have size: "unat ?n * unat ?s \<le> unat ?b" "8 \<le> unat ?s"
    using par(1) slab_bytes [OF par(1)] by (simp_all add: cache_params_def)
  have new: "Slab_new api (sh_os h) ctor (sh_mem h) ?n ?s = (Inr (?slab, ?m), os')"
    using mm p k size by (simp add: Slab_new_def VirtualMemory_new_def AllocateVirtualMemory_def Let_def)
  have fits: "slab_fits c (sl_storage ?slab)" using p size by (simp add: slab_fits_def)
  have "p \<in> slab_slots c ?slab"
    using par(2) by (auto simp: slab_slots_def slot_list_def intro!: image_eqI [of _ _ 0])
  then have inside: "Slab_Contains ?slab p" using slab_slot_inside(1) [OF fits] by blast
  have zero: "?m p = 0" using construct_slots_zero [OF ctor, of 0 "unat ?n" ?s p] par(2) by simp
  let ?slab' = "?slab\<lparr>sl_freeList := 0, sl_freeSlots := ?n - 1\<rparr>"
  let ?c = "c\<lparr>sc_slabs := [?slab']\<rparr>" and ?h = "h\<lparr>sh_os := os', sh_mem := ?m\<rparr>"
  have first: "SlabCache_Allocate api ctor t (c, h) = (Inr p, ?c, ?h)"
    using new inside zero empty by (simp add: SlabCache_Allocate_def Let_def AllocateFromSlab_def)
  have "0 < ?n - 1" using par(2) unat_minus_one [of ?n] by (cases "?n = 0") (simp_all add: word_less_nat_alt)
  moreover have "\<not> Slab_Contains ?slab' 0" using p(1) by (simp add: Slab_Contains_def Let_def)
  ultimately have "fst (SlabCache_Allocate api ctor t (?c, ?h)) = Inl Undefined"
    using empty by (simp add: SlabCache_Allocate_def Let_def AllocateFromSlab_def)
  with first show ?thesis by blast
qed

theorem SlabCache_constructor_breaks_list_witness:
  "\<exists>s. SlabCache_Allocate small_os (\<lambda>p w. 0) 0 (small_cache, small_heap) = (Inr 8192, s) \<and>
     fst (SlabCache_Allocate small_os (\<lambda>p w. 0) 0 s) = Inl Undefined"
  by (rule SlabCache_constructor_breaks_list [where os' = "[(8192, 4096)]"])
     (simp_all add: small_cache_eq small_heap_def cache_params_def small_os_def AlignUp_def MAP_FAILED_def)

end
