(* ===== verification/Stats.thy ===== *)
theory Stats
  imports TextFormat
begin

text \<open>
  \<^verbatim>\<open>memlab/common/stats.hpp\<close>: percentiles, mean and standard deviation of samples, and the CSV
  writer.  A sample is an \<open>int64_t\<close>, here an integer; \<open>double\<close> arithmetic is taken over the reals.
  A failed \<open>assert\<close> and the overflow of the signed sum in \<open>std::accumulate\<close> are \<open>Undefined\<close>.
\<close>

subsection \<open>Percentiles\<close>

definition percentile_sorted :: "int list \<Rightarrow> real \<Rightarrow> real result" where
  "percentile_sorted xs p =
     (if xs = [] then Inl Undefined
      else let n = length xs;
               idx0 = nat \<lceil>p / 100 * real n\<rceil>;
               idx1 = (if idx0 > 0 then idx0 - 1 else idx0);
               idx = min idx1 (n - 1)
           in Inr (real_of_int (xs ! idx)))"

record Percentiles =
  p50 :: "real result"
  p99 :: "real result"
  p999 :: "real result"

definition compute_percentiles :: "int list \<Rightarrow> Percentiles" where
  "compute_percentiles samples =
     (let s = sort samples
      in \<lparr>p50 = percentile_sorted s 50, p99 = percentile_sorted s 99, p999 = percentile_sorted s (999 / 10)\<rparr>)"

subsection \<open>Mean and standard deviation\<close>

definition int64 :: "int \<Rightarrow> bool" where
  "int64 x \<longleftrightarrow> - (2 ^ 63) \<le> x \<and> x < 2 ^ 63"

fun accumulate :: "int list \<Rightarrow> int \<Rightarrow> int result" where
  "accumulate [] acc = Inr acc"
| "accumulate (x # xs) acc = (if int64 (acc + x) then accumulate xs (acc + x) else Inl Undefined)"

definition mean :: "int list \<Rightarrow> real result" where
  "mean v = (if v = [] then Inr 0 else map_sum id (\<lambda>s. real_of_int s / real (length v)) (accumulate v 0))"

definition stddev :: "int list \<Rightarrow> real result" where
  "stddev v =
     (if length v < 2 then Inr 0
      else map_sum id (\<lambda>m. let sq = fold (\<lambda>x sq. let d = real_of_int x - m in sq + d * d) v 0
                           in sqrt (sq / real (length v - 1))) (mean v))"

subsection \<open>CsvWriter\<close>

text \<open>
  The writer holds the text of its file.  Opening the file is the parameter \<open>opened\<close>: \<open>None\<close> when
  it cannot be opened, otherwise what it holds before.
\<close>

record CsvWriter =
  csv_file :: string

definition CsvWriter_new :: "string option \<Rightarrow> bool \<Rightarrow> CsvWriter result" where
  "CsvWriter_new opened app =
     (case opened of None \<Rightarrow> Inl Runtime_error
      | Some old \<Rightarrow> Inr \<lparr>csv_file = (if app then old else [])\<rparr>)"

fun write_cells :: "nat \<Rightarrow> string list \<Rightarrow> string \<Rightarrow> string" where
  "write_cells i [] file = file"
| "write_cells i (c # cs) file = write_cells (i + 1) cs ((if i \<noteq> 0 then file @ '','' else file) @ c)"

definition write_row :: "string list \<Rightarrow> CsvWriter \<Rightarrow> CsvWriter" where
  "write_row cells w = w\<lparr>csv_file := write_cells 0 cells (csv_file w) @ [CHR 0x0A]\<rparr>"

definition write_header :: "string list \<Rightarrow> CsvWriter \<Rightarrow> CsvWriter" where
  "write_header cols w = write_row cols w"

subsection \<open>What a percentile is\<close>

text \<open>
  The nearest-rank percentile of a collection of samples: the least sample that at least \<open>p\<close> per
  cent of the samples do not exceed.
\<close>

definition not_above :: "int list \<Rightarrow> int \<Rightarrow> nat" where
  "not_above xs v = length (filter (\<lambda>x. x \<le> v) xs)"

definition nearest_rank :: "int list \<Rightarrow> real \<Rightarrow> int \<Rightarrow> bool" where
  "nearest_rank xs p v \<longleftrightarrow> v \<in> set xs \<and> p / 100 * real (length xs) \<le> real (not_above xs v) \<and>
     (\<forall>w \<in> set xs. w < v \<longrightarrow> real (not_above xs w) < p / 100 * real (length xs))"

lemma nearest_rank_unique: "nearest_rank xs p v \<Longrightarrow> nearest_rank xs p w \<Longrightarrow> v = w"
  unfolding nearest_rank_def by (metis linorder_neqE not_less)

lemma not_above_sort: "not_above (sort xs) v = not_above xs v"
  unfolding not_above_def by (metis mset_filter mset_sort size_mset)

lemma nearest_rank_sort: "nearest_rank (sort xs) p v = nearest_rank xs p v"
  by (simp add: nearest_rank_def not_above_sort)

lemma not_above_nth:
  assumes "sorted xs" "i < length xs"
  shows "i < not_above xs (xs ! i)"
proof -
  have "\<forall>x \<in> set (take (Suc i) xs). x \<le> xs ! i"
    using assms by (auto simp: in_set_conv_nth intro!: sorted_nth_mono)
  then have "filter (\<lambda>x. x \<le> xs ! i) (take (Suc i) xs) = take (Suc i) xs" by (simp add: filter_id_conv)
  then have "length (take (Suc i) xs) \<le> not_above xs (xs ! i)"
    unfolding not_above_def by (metis append_take_drop_id filter_append le_add1 length_append)
  then show ?thesis using assms(2) by simp
qed

lemma not_above_smaller:
  assumes "sorted xs" "i < length xs" "w < xs ! i"
  shows "not_above xs w \<le> i"
proof -
  have "\<forall>x \<in> set (drop i xs). \<not> x \<le> w"
  proof
    fix x assume "x \<in> set (drop i xs)"
    then obtain j where j: "j < length (drop i xs)" "x = drop i xs ! j" by (auto simp: in_set_conv_nth)
    then have "xs ! i \<le> x" using assms(1) by (auto intro!: sorted_nth_mono)
    with assms(3) show "\<not> x \<le> w" by simp
  qed
  then have "filter (\<lambda>x. x \<le> w) xs = filter (\<lambda>x. x \<le> w) (take i xs)"
    by (metis append_Nil2 append_take_drop_id filter_append filter_False)
  then show ?thesis unfolding not_above_def by (metis length_filter_le length_take min.bounded_iff)
qed

lemma percentile_sorted_nearest:
  assumes s: "sorted xs" and ne: "xs \<noteq> []" and p: "0 \<le> p" "p \<le> 100"
  obtains v where "percentile_sorted xs p = Inr (real_of_int v)" "nearest_rank xs p v"
proof -
  define r where "r = p / 100 * real (length xs)"
  define c where "c = nat \<lceil>r\<rceil>"
  define i where "i = min (if c > 0 then c - 1 else c) (length xs - 1)"
  have n: "0 < length xs" using ne by simp
  have r0: "0 \<le> r" using p by (simp add: r_def)
  have "r \<le> 1 * real (length xs)" unfolding r_def using p by (intro mult_right_mono) simp_all
  then have c: "c \<le> length xs" unfolding c_def by linarith
  have rc: "r \<le> real c" using r0 unfolding c_def by linarith
  have i: "i < length xs" "c \<le> Suc i" unfolding i_def using n c by auto
  have "r \<le> real (not_above xs (xs ! i))"
    using not_above_nth [OF s i(1)] i(2) rc by linarith
  moreover have "real (not_above xs w) < r" if w: "w \<in> set xs" "w < xs ! i" for w
  proof -
    have le: "not_above xs w \<le> i" by (rule not_above_smaller [OF s i(1) w(2)])
    obtain j where j: "j < length xs" "w = xs ! j" using w(1) by (auto simp: in_set_conv_nth)
    have "0 < not_above xs w" using not_above_nth [OF s j(1)] j(2) by simp
    then have "0 < i" using le by linarith
    then have "i < c" unfolding i_def by (auto split: if_splits)
    then have "real i < r" unfolding c_def by linarith
    with le show ?thesis by linarith
  qed
  ultimately have "nearest_rank xs p (xs ! i)" using i(1) by (simp add: nearest_rank_def r_def)
  moreover have "percentile_sorted xs p = Inr (real_of_int (xs ! i))"
    using ne unfolding percentile_sorted_def Let_def i_def c_def r_def by simp
  ultimately show thesis using that by blast
qed

lemma nearest_rank_mono: "nearest_rank xs p v \<Longrightarrow> nearest_rank xs q w \<Longrightarrow> p \<le> q \<Longrightarrow> v \<le> w"
proof (rule ccontr)
  assume v: "nearest_rank xs p v" and w: "nearest_rank xs q w" and le: "p \<le> q" and "\<not> v \<le> w"
  then have "real (not_above xs w) < p / 100 * real (length xs)" by (auto simp: nearest_rank_def)
  moreover have "p / 100 * real (length xs) \<le> q / 100 * real (length xs)" using le by (intro mult_right_mono) simp_all
  ultimately show False using w by (auto simp: nearest_rank_def)
qed

subsection \<open>Sums\<close>

lemma accumulate_sum: "accumulate xs acc = Inr s \<Longrightarrow> s = acc + sum_list xs"
  by (induction xs arbitrary: acc) (fastforce split: if_splits)+

lemma mean_bounds:
  assumes "mean v = Inr m" "\<forall>x \<in> set v. lo \<le> x \<and> x \<le> hi" "v \<noteq> []"
  shows "real_of_int lo \<le> m \<and> m \<le> real_of_int hi"
proof -
  have m: "m = real_of_int (sum_list v) / real (length v)"
    using assms(1,3) accumulate_sum [of v 0] by (cases "accumulate v 0") (auto simp: mean_def)
  have "int (length v) * lo \<le> sum_list v \<and> sum_list v \<le> int (length v) * hi"
    using assms(2) by (induction v) (auto simp: algebra_simps)
  then have "real (length v) * lo \<le> real_of_int (sum_list v)" "real_of_int (sum_list v) \<le> real (length v) * hi"
    by (metis of_int_le_iff of_int_mult of_int_of_nat_eq)+
  then show ?thesis using assms(3) unfolding m by (simp add: field_simps)
qed


subsection \<open>Reading a CSV file back\<close>

fun split_at :: "char \<Rightarrow> string \<Rightarrow> string list" where
  "split_at d [] = [[]]"
| "split_at d (c # cs) =
     (case split_at d cs of w # ws \<Rightarrow> if c = d then [] # w # ws else (c # w) # ws | [] \<Rightarrow> [])"

definition read_csv :: "string \<Rightarrow> string list list" where
  "read_csv s = map (split_at (CHR '','')) (butlast (split_at (CHR 0x0A) s))"

fun row_text :: "string list \<Rightarrow> string" where
  "row_text [] = []"
| "row_text [c] = c"
| "row_text (c # cs) = c @ '','' @ row_text cs"

definition plain_cell :: "string \<Rightarrow> bool" where
  "plain_cell c \<longleftrightarrow> CHR '','' \<notin> set c \<and> CHR 0x0A \<notin> set c"

lemma split_at_nonempty: "split_at d s \<noteq> []"
  by (induction s) (auto split: list.splits)

lemma split_at_app: "d \<notin> set w \<Longrightarrow> split_at d (w @ d # s) = w # split_at d s"
  by (induction w) (auto split: list.splits simp: split_at_nonempty)

lemma split_at_last: "d \<notin> set w \<Longrightarrow> split_at d w = [w]"
  by (induction w) auto

lemma write_cells_text:
  "write_cells (Suc i) cs buf = buf @ concat (map (\<lambda>c. '','' @ c) cs)"
  by (induction cs arbitrary: i buf) auto

lemma row_text_concat: "row_text (c # cs) = c @ concat (map (\<lambda>c. '','' @ c) cs)"
  by (induction cs arbitrary: c) auto

lemma write_row_file: "cells \<noteq> [] \<Longrightarrow> csv_file (write_row cells w) = csv_file w @ row_text cells @ [CHR 0x0A]"
  by (cases cells) (simp_all add: write_row_def write_cells_text row_text_concat del: row_text.simps)

lemma fold_write_row:
  "\<forall>r \<in> set rows. r \<noteq> [] \<Longrightarrow>
   csv_file (fold write_row rows w) = csv_file w @ concat (map (\<lambda>r. row_text r @ [CHR 0x0A]) rows)"
  by (induction rows arbitrary: w) (simp_all add: write_row_file)

lemma row_text_plain: "\<forall>c \<in> set r. plain_cell c \<Longrightarrow> CHR 0x0A \<notin> set (row_text r)"
  by (induction r rule: row_text.induct) (auto simp: plain_cell_def)

lemma split_row: "r \<noteq> [] \<Longrightarrow> \<forall>c \<in> set r. plain_cell c \<Longrightarrow> split_at (CHR '','') (row_text r) = r"
  by (induction r rule: row_text.induct) (auto simp: plain_cell_def split_at_app split_at_last)

lemma split_rows:
  "\<forall>r \<in> set rows. \<forall>c \<in> set r. plain_cell c \<Longrightarrow>
   split_at (CHR 0x0A) (concat (map (\<lambda>r. row_text r @ [CHR 0x0A]) rows)) = map row_text rows @ [[]]"
  by (induction rows) (simp_all add: split_at_app row_text_plain)

subsection \<open>Properties\<close>

text \<open>
  \<open>compute_percentiles\<close> of at least one sample returns the nearest-rank percentiles of the
  samples in the order given: the least sample that at least 50, 99 or 99.9 per cent of the samples
  do not exceed; so the result does not depend on the order of the samples, and p50 \<open>\<le>\<close> p99 \<open>\<le>\<close> p999.
\<close>

theorem compute_percentiles_nearest_rank:
  assumes "samples \<noteq> []"
  shows "\<exists>a b c. compute_percentiles samples = \<lparr>p50 = Inr (real_of_int a), p99 = Inr (real_of_int b), p999 = Inr (real_of_int c)\<rparr> \<and>
    nearest_rank samples 50 a \<and> nearest_rank samples 99 b \<and> nearest_rank samples (999 / 10) c \<and> a \<le> b \<and> b \<le> c"
proof -
  have s: "sorted (sort samples)" "sort samples \<noteq> []"
    using assms by (simp, metis length_0_conv length_sort)
  obtain a where a: "percentile_sorted (sort samples) 50 = Inr (real_of_int a)" "nearest_rank samples 50 a"
    by (rule percentile_sorted_nearest [OF s, of 50]) (auto simp: nearest_rank_sort)
  obtain b where b: "percentile_sorted (sort samples) 99 = Inr (real_of_int b)" "nearest_rank samples 99 b"
    by (rule percentile_sorted_nearest [OF s, of 99]) (auto simp: nearest_rank_sort)
  obtain c where c: "percentile_sorted (sort samples) (999 / 10) = Inr (real_of_int c)" "nearest_rank samples (999 / 10) c"
    by (rule percentile_sorted_nearest [OF s, of "999 / 10"]) (auto simp: nearest_rank_sort)
  have "a \<le> b" using nearest_rank_mono [OF a(2) b(2)] by simp
  moreover have "b \<le> c" using nearest_rank_mono [OF b(2) c(2)] by simp
  ultimately show ?thesis using a b c by (auto simp: compute_percentiles_def Let_def)
qed

theorem compute_percentiles_nearest_rank_witness:
  "\<exists>a b c. compute_percentiles [7, 3, 5, 1] = \<lparr>p50 = Inr (real_of_int a), p99 = Inr (real_of_int b), p999 = Inr (real_of_int c)\<rparr> \<and>
    nearest_rank [7, 3, 5, 1] 50 a \<and> nearest_rank [7, 3, 5, 1] 99 b"
  using compute_percentiles_nearest_rank [of "[7, 3, 5, 1]"] by blast

text \<open>
  A CSV file written row by row, opened afresh, reads back as the rows written, as long as no row is
  empty and no cell contains a comma or a line break (the writer does not quote).
\<close>

theorem csv_roundtrip:
  assumes "CsvWriter_new opened False = Inr w" and "\<forall>r \<in> set rows. r \<noteq> [] \<and> (\<forall>c \<in> set r. plain_cell c)"
    and "cols \<noteq> []" and "\<forall>c \<in> set cols. plain_cell c"
  shows "read_csv (csv_file (fold write_row rows (write_header cols w))) = cols # rows"
proof -
  have "csv_file w = []" using assms(1) by (auto simp: CsvWriter_new_def split: option.splits)
  moreover have "\<forall>r \<in> set (cols # rows). r \<noteq> []" using assms(2,3) by simp
  ultimately have out: "csv_file (fold write_row rows (write_header cols w)) =
      concat (map (\<lambda>r. row_text r @ [CHR 0x0A]) (cols # rows))"
    using fold_write_row [of "cols # rows" w] by (simp add: write_header_def)
  have "split_at (CHR 0x0A) (concat (map (\<lambda>r. row_text r @ [CHR 0x0A]) (cols # rows))) = map row_text (cols # rows) @ [[]]"
    using assms(2,4) by (intro split_rows) auto
  then have "read_csv (csv_file (fold write_row rows (write_header cols w))) =
      map (split_at (CHR '','')) (map row_text (cols # rows))"
    unfolding out read_csv_def by (metis butlast_snoc)
  also have "\<dots> = cols # rows"
    using assms(2-4) split_row by (simp add: map_idI)
  finally show ?thesis .
qed

theorem csv_roundtrip_witness:
  "\<exists>w. CsvWriter_new (Some ''old'') False = Inr w \<and>
     read_csv (csv_file (fold write_row [[''RR'', ''4''], [''FCFS'', ''0'']] (write_header [''policy'', ''q''] w))) =
       [[''policy'', ''q''], [''RR'', ''4''], [''FCFS'', ''0'']]"
proof -
  let ?w = "\<lparr>csv_file = []\<rparr>"
  have "CsvWriter_new (Some ''old'') False = Inr ?w" by (simp add: CsvWriter_new_def)
  with csv_roundtrip [OF this, of "[[''RR'', ''4''], [''FCFS'', ''0'']]" "[''policy'', ''q'']"]
  show ?thesis by (simp add: plain_cell_def)
qed

end
