(* ===== verification/VmemRegion.thy ===== *)
theory VmemRegion
  imports MemoryUtils
begin

text \<open>
  \<^verbatim>\<open>memlab/vm/vmem_region.hpp\<close>: an owner of an anonymous mapping with four policies for paying the
  cost of page faults.  The kernel calls are the fields of a \<open>vmem_os\<close> record over an arbitrary type
  of OS states, the Linux branch of the \<open>#if\<close>s is modelled; whether the headers define
  \<open>MADV_POPULATE_WRITE\<close> is a field too.  The background thread of the adaptive policy is a state
  machine of its own with one step per access to a shared variable or call of the kernel.
\<close>

datatype PrefaultPolicy = Lazy | EagerTouch | MapPopulate | Adaptive

record 'os vmem_os =
  vo_mmap :: "'os \<Rightarrow> size_t \<Rightarrow> bool \<Rightarrow> bool \<Rightarrow> ptr \<times> 'os"
  vo_munmap :: "'os \<Rightarrow> ptr \<Rightarrow> size_t \<Rightarrow> 'os"
  vo_touch :: "'os \<Rightarrow> ptr \<Rightarrow> 'os"
  vo_populate :: "'os \<Rightarrow> ptr \<Rightarrow> size_t \<Rightarrow> bool \<times> 'os"
  vo_mlock :: "'os \<Rightarrow> ptr \<Rightarrow> size_t \<Rightarrow> bool \<times> 'os"
  vo_munlock :: "'os \<Rightarrow> ptr \<Rightarrow> size_t \<Rightarrow> 'os"
  vo_page_size :: size_t
  vo_has_populate :: bool

text \<open>
  Where the worker is: at the loop test, about to load the high-water mark, about to touch up to a
  target, about to publish how far it got, or returned.
\<close>

datatype worker = Loop_test size_t | Load_hwm size_t | Touch_to size_t size_t | Publish size_t | Returned

record VmemRegion =
  vr_base :: ptr
  vr_size :: size_t
  vr_policy :: PrefaultPolicy
  vr_locked :: bool
  vr_prefaulted :: size_t
  vr_hwm_bytes :: size_t
  vr_stop_bg :: bool
  vr_bg_thread :: "worker option"

definition kWatermarkPages :: size_t where
  "kWatermarkPages = 64"

definition round_up_to_page :: "'os vmem_os \<Rightarrow> size_t \<Rightarrow> size_t" where
  "round_up_to_page api bytes = (let ps = vo_page_size api in (bytes + ps - 1) AND NOT (ps - 1))"

text \<open>
  The flags of the call are \<open>MAP_POPULATE\<close> and \<open>MAP_HUGETLB\<close>.  The request for transparent huge
  pages that follows in the code needs \<open>huge\<close> without \<open>MAP_HUGETLB\<close>, which this branch never has.
\<close>

definition map_region :: "'os vmem_os \<Rightarrow> 'os \<Rightarrow> size_t \<Rightarrow> PrefaultPolicy \<Rightarrow> bool \<Rightarrow> ptr result \<times> 'os" where
  "map_region api os sz policy huge =
     (let (p, os') = vo_mmap api os sz (policy = MapPopulate) huge
      in if p = MAP_FAILED then (Inl Runtime_error, os') else (Inr p, os'))"

definition unmap_region :: "'os vmem_os \<Rightarrow> 'os \<Rightarrow> ptr \<Rightarrow> size_t \<Rightarrow> 'os" where
  "unmap_region api os p sz = (if p = nullptr \<or> sz = 0 then os else vo_munmap api os p sz)"

partial_function (option) touch_loop :: "'os vmem_os \<Rightarrow> ptr \<Rightarrow> size_t \<Rightarrow> size_t \<Rightarrow> 'os \<Rightarrow> 'os option" where
  "touch_loop api p off sz os =
     (if off < sz then touch_loop api p (off + vo_page_size api) sz (vo_touch api os (p + off)) else Some os)"

definition eager_touch :: "'os vmem_os \<Rightarrow> ptr \<Rightarrow> size_t \<Rightarrow> 'os \<Rightarrow> 'os option" where
  "eager_touch api base sz os = touch_loop api base 0 sz os"

definition do_mlock :: "'os vmem_os \<Rightarrow> VmemRegion \<times> 'os \<Rightarrow> VmemRegion \<times> 'os" where
  "do_mlock api = (\<lambda>(r, os). let (ok, os') = vo_mlock api os (vr_base r) (vr_size r)
     in (if ok then r\<lparr>vr_locked := True\<rparr> else r, os'))"

definition do_munlock :: "'os vmem_os \<Rightarrow> VmemRegion \<times> 'os \<Rightarrow> VmemRegion \<times> 'os" where
  "do_munlock api = (\<lambda>(r, os). (r\<lparr>vr_locked := False\<rparr>, vo_munlock api os (vr_base r) (vr_size r)))"

definition VmemRegion_new ::
  "'os vmem_os \<Rightarrow> 'os \<Rightarrow> size_t \<Rightarrow> PrefaultPolicy \<Rightarrow> bool \<Rightarrow> bool \<Rightarrow> VmemRegion result \<times> 'os" where
  "VmemRegion_new api os bytes policy huge lock =
     (let sz = round_up_to_page api bytes in
      case map_region api os sz policy huge of
        (Inl e, os1) \<Rightarrow> (Inl e, os1)
      | (Inr p, os1) \<Rightarrow>
          (let r = \<lparr>vr_base = p, vr_size = sz, vr_policy = policy, vr_locked = False, vr_prefaulted = 0,
                    vr_hwm_bytes = 0, vr_stop_bg = False, vr_bg_thread = None\<rparr>;
               started =
                 (case policy of
                    Lazy \<Rightarrow> Some (r, os1)
                  | MapPopulate \<Rightarrow> Some (r\<lparr>vr_prefaulted := sz\<rparr>, os1)
                  | EagerTouch \<Rightarrow> map_option (\<lambda>os2. (r\<lparr>vr_prefaulted := sz\<rparr>, os2)) (eager_touch api p sz os1)
                  | Adaptive \<Rightarrow> Some (r\<lparr>vr_bg_thread := Some (Loop_test 0)\<rparr>, os1))
           in case started of
                None \<Rightarrow> (Inl No_return, os1)
              | Some s \<Rightarrow> (let (r2, os2) = (if lock then do_mlock api s else s) in (Inr r2, os2))))"

definition prefaulted_bytes :: "VmemRegion \<Rightarrow> size_t" where
  "prefaulted_bytes r = vr_prefaulted r"

definition advance_hwm :: "size_t \<Rightarrow> VmemRegion \<Rightarrow> VmemRegion" where
  "advance_hwm consumed_bytes r = r\<lparr>vr_hwm_bytes := consumed_bytes\<rparr>"

subsection \<open>The adaptive worker\<close>

text \<open>
  The manual loop touches \<open>p[off]\<close> from the first byte not yet touched.  What \<open>madvise\<close> returns is
  not looked at.
\<close>

definition touch_range :: "'os vmem_os \<Rightarrow> ptr \<Rightarrow> size_t \<Rightarrow> size_t \<Rightarrow> 'os \<Rightarrow> 'os option" where
  "touch_range api base prefaulted_off target os =
     (if vo_has_populate api then Some (snd (vo_populate api os (base + prefaulted_off) (target - prefaulted_off)))
      else touch_loop api (base + prefaulted_off) 0 (target - prefaulted_off) os)"

definition worker_target :: "'os vmem_os \<Rightarrow> VmemRegion \<Rightarrow> size_t" where
  "worker_target api r =
     (let target = vr_hwm_bytes r + kWatermarkPages * vo_page_size api
      in if target > vr_size r then vr_size r else target)"

definition adaptive_worker :: "'os vmem_os \<Rightarrow> VmemRegion \<times> 'os \<Rightarrow> (VmemRegion \<times> 'os) option" where
  "adaptive_worker api = (\<lambda>(r, os).
     case vr_bg_thread r of
       Some (Loop_test off) \<Rightarrow>
         Some (r\<lparr>vr_bg_thread := Some (if vr_stop_bg r then Returned else Load_hwm off)\<rparr>, os)
     | Some (Load_hwm off) \<Rightarrow> Some (r\<lparr>vr_bg_thread := Some (Touch_to off (worker_target api r))\<rparr>, os)
     | Some (Touch_to off target) \<Rightarrow>
         if off < target
         then map_option (\<lambda>os'. (r\<lparr>vr_bg_thread := Some (Publish target)\<rparr>, os')) (touch_range api (vr_base r) off target os)
         else Some (r\<lparr>vr_bg_thread := Some (Loop_test off)\<rparr>, os)
     | Some (Publish off) \<Rightarrow> Some (r\<lparr>vr_prefaulted := off, vr_bg_thread := Some (Loop_test off)\<rparr>, os)
     | _ \<Rightarrow> Some (r, os))"

subsection \<open>The end of a region\<close>

text \<open>
  \<open>join\<close> waits while the worker goes on, from wherever it is, until it has seen the stop flag and
  returned.
\<close>

partial_function (option) join_worker :: "'os vmem_os \<Rightarrow> VmemRegion \<times> 'os \<Rightarrow> (VmemRegion \<times> 'os) option" where
  "join_worker api s =
     (case vr_bg_thread (fst s) of
        None \<Rightarrow> Some s
      | Some w \<Rightarrow>
          if w = Returned then Some ((fst s)\<lparr>vr_bg_thread := None\<rparr>, snd s)
          else Option.bind (adaptive_worker api s) (join_worker api))"

definition stop_worker :: "VmemRegion \<Rightarrow> VmemRegion" where
  "stop_worker r = (if vr_bg_thread r \<noteq> None then r\<lparr>vr_stop_bg := True\<rparr> else r)"

definition VmemRegion_destroy :: "'os vmem_os \<Rightarrow> VmemRegion \<times> 'os \<Rightarrow> 'os option" where
  "VmemRegion_destroy api = (\<lambda>(r, os).
     case join_worker api (stop_worker r, os) of
       None \<Rightarrow> None
     | Some (r1, os1) \<Rightarrow>
         (let (r2, os2) = (if vr_locked r1 then do_munlock api (r1, os1) else (r1, os1))
          in Some (unmap_region api os2 (vr_base r2) (vr_size r2))))"

text \<open>
  The move constructor: the new object and what is left in the old one.  It clears \<open>_base\<close> and \<open>_size\<close>
  of the old object, which are not atomic, before it stops and joins the old object's worker, which
  reads them: with a worker that is a data race, so the behaviour is undefined.
\<close>

definition VmemRegion_move :: "VmemRegion \<Rightarrow> (VmemRegion \<times> VmemRegion) result" where
  "VmemRegion_move r =
     (if vr_bg_thread r \<noteq> None then Inl Undefined
      else Inr (\<lparr>vr_base = vr_base r, vr_size = vr_size r, vr_policy = vr_policy r, vr_locked = vr_locked r,
                 vr_prefaulted = vr_prefaulted r, vr_hwm_bytes = vr_hwm_bytes r, vr_stop_bg = False, vr_bg_thread = None\<rparr>,
                r\<lparr>vr_base := nullptr, vr_size := 0, vr_locked := False\<rparr>))"

subsection \<open>Fault counters\<close>

record FaultStats =
  minor_faults :: int
  major_faults :: int

definition FaultStats_minus :: "FaultStats \<Rightarrow> FaultStats \<Rightarrow> FaultStats" where
  "FaultStats_minus a b = \<lparr>minor_faults = minor_faults a - minor_faults b, major_faults = major_faults a - major_faults b\<rparr>"

subsection \<open>What the region relies on from the kernel\<close>

text \<open>
  \<open>live\<close> reads the mappings off an OS state (base, length asked for, whether of huge pages) and \<open>pop\<close>
  the numbers of the pages that have been given memory.  Pages are of \<open>2 ^ k\<close> bytes, huge pages of
  \<open>2 ^ hk\<close>.  A successful \<open>mmap\<close> maps a fresh page-aligned region.  \<open>munmap\<close> of a whole mapping
  removes it, but of a huge-page mapping only when the length is a multiple of the huge page size: otherwise it
  fails with \<open>EINVAL\<close>.  A write that returns has committed its page.  \<open>madvise(MADV_POPULATE_WRITE)\<close> may
  fail; only its success says that the pages of the range are committed, and with an address that is not
  page-aligned it always fails, with \<open>EINVAL\<close>.  Locking may commit pages and unmaps nothing.  A write or a
  \<open>madvise\<close> outside a mapping is not described at all.
\<close>

definition pages :: "nat \<Rightarrow> nat \<Rightarrow> nat \<Rightarrow> nat set" where
  "pages ps a len = {n. a div ps \<le> n \<and> n * ps < a + len}"

type_synonym mapping_set = "(ptr \<times> size_t \<times> bool) set"

definition mmap_ok :: "'os vmem_os \<Rightarrow> nat \<Rightarrow> ('os \<Rightarrow> mapping_set) \<Rightarrow> bool" where
  "mmap_ok api k live \<longleftrightarrow>
     (\<forall>os sz a huge p os'. vo_mmap api os sz a huge = (p, os') \<longrightarrow>
        (if p = MAP_FAILED then live os' = live os
         else p \<noteq> nullptr \<and> 2 ^ k dvd unat p \<and> unat p + unat sz \<le> 2 ^ 64 \<and> p \<notin> fst ` live os \<and>
              live os' = insert (p, sz, huge) (live os)))"

definition munmap_ok :: "'os vmem_os \<Rightarrow> nat \<Rightarrow> ('os \<Rightarrow> mapping_set) \<Rightarrow> bool" where
  "munmap_ok api hk live \<longleftrightarrow>
     (\<forall>os p sz huge. (p, sz, huge) \<in> live os \<longrightarrow>
        live (vo_munmap api os p sz) = (if huge \<and> \<not> 2 ^ hk dvd unat sz then live os else live os - {(p, sz, huge)}))"

definition touch_ok :: "'os vmem_os \<Rightarrow> nat \<Rightarrow> ('os \<Rightarrow> mapping_set) \<Rightarrow> ('os \<Rightarrow> nat set) \<Rightarrow> bool" where
  "touch_ok api k live pop \<longleftrightarrow>
     (\<forall>os p sz huge off. (p, sz, huge) \<in> live os \<longrightarrow> off < sz \<longrightarrow>
        live (vo_touch api os (p + off)) = live os \<and>
        insert (unat (p + off) div 2 ^ k) (pop os) \<subseteq> pop (vo_touch api os (p + off)))"

definition populate_ok :: "'os vmem_os \<Rightarrow> nat \<Rightarrow> ('os \<Rightarrow> mapping_set) \<Rightarrow> ('os \<Rightarrow> nat set) \<Rightarrow> bool" where
  "populate_ok api k live pop \<longleftrightarrow>
     (\<forall>os p sz huge off n ok os'. (p, sz, huge) \<in> live os \<longrightarrow> unat off + unat n \<le> unat sz \<longrightarrow>
        vo_populate api os (p + off) n = (ok, os') \<longrightarrow>
        live os' = live os \<and> pop os \<subseteq> pop os' \<and> (ok \<longrightarrow> pages (2 ^ k) (unat (p + off)) (unat n) \<subseteq> pop os') \<and>
        (\<not> 2 ^ k dvd unat (p + off) \<longrightarrow> \<not> ok \<and> pop os' = pop os))"

definition mlock_ok :: "'os vmem_os \<Rightarrow> ('os \<Rightarrow> mapping_set) \<Rightarrow> ('os \<Rightarrow> nat set) \<Rightarrow> bool" where
  "mlock_ok api live pop \<longleftrightarrow>
     (\<forall>os p sz. live (snd (vo_mlock api os p sz)) = live os \<and> pop os \<subseteq> pop (snd (vo_mlock api os p sz)) \<and>
        live (vo_munlock api os p sz) = live os \<and> pop os \<subseteq> pop (vo_munlock api os p sz))"

definition vmem_os_ok :: "'os vmem_os \<Rightarrow> nat \<Rightarrow> nat \<Rightarrow> ('os \<Rightarrow> mapping_set) \<Rightarrow> ('os \<Rightarrow> nat set) \<Rightarrow> bool" where
  "vmem_os_ok api k hk live pop \<longleftrightarrow> vo_page_size api = 2 ^ k \<and> k < 64 \<and> mmap_ok api k live \<and> munmap_ok api hk live \<and>
     touch_ok api k live pop \<and> populate_ok api k live pop \<and> mlock_ok api live pop"

lemma pages_empty [simp]: "0 < ps \<Longrightarrow> ps dvd a \<Longrightarrow> pages ps a 0 = {}"
  by (auto simp: pages_def elim!: dvdE)

lemma pages_split:
  assumes "0 < ps" "ps dvd a" "ps dvd m"
  shows "pages ps a (m + n) = pages ps a m \<union> pages ps (a + m) n"
proof -
  obtain i j where a: "a = ps * i" "m = ps * j" using assms(2,3) by (auto elim!: dvdE)
  have "pages ps a q = {x. i \<le> x \<and> x * ps < a + q}" for q using assms(1) a by (simp add: pages_def)
  moreover have "pages ps (a + m) n = {x. i + j \<le> x \<and> x * ps < a + m + n}"
    using assms(1) a by (simp add: pages_def flip: distrib_left)
  moreover have "a + m = (i + j) * ps" using a by (simp add: algebra_simps)
  then have "x * ps < a + m \<longleftrightarrow> x < i + j" for x using assms(1) by (metis mult_less_cancel2)
  moreover have "x * ps < a + (m + n)" if "x * ps < a + m" for x using that by simp
  ultimately show ?thesis by (auto simp: add.assoc)
qed

text \<open>The loop of writes, from any offset: it ends, stays in the mapping and commits a page per step.\<close>

lemma touch_loop_ok:
  assumes ok: "vmem_os_ok api k hk live pop" and m: "(b, S, huge) \<in> live os"
    and fit: "unat pre + unat sz \<le> unat S" "unat S + 2 ^ k \<le> 2 ^ 64"
  shows "\<exists>os'. touch_loop api (b + pre) off sz os = Some os' \<and> live os' = live os \<and> pop os \<subseteq> pop os' \<and>
    (\<forall>j. unat off + j * 2 ^ k < unat sz \<longrightarrow> unat (b + (pre + (off + of_nat (j * 2 ^ k)))) div 2 ^ k \<in> pop os')"
  using m
proof (induction "unat sz - unat off" arbitrary: off os rule: less_induct)
  case less
  have k: "vo_page_size api = 2 ^ k" "k < 64" using ok by (auto simp: vmem_os_ok_def)
  show ?case
  proof (cases "off < sz")
    case False
    then show ?thesis by (subst touch_loop.simps) (auto simp: word_less_nat_alt)
  next
    case True
    then have lt: "unat off < unat sz" by (simp add: word_less_nat_alt)
    have u: "unat (off + 2 ^ k) = unat off + 2 ^ k" using lt fit k(2) by (simp add: unat_plus_less)
    have po: "unat (pre + off) = unat pre + unat off" using lt fit by (intro unat_plus_less) simp
    then have "pre + off < S" using lt fit(1) by (simp add: word_less_nat_alt)
    then have t: "live (vo_touch api os (b + (pre + off))) = live os"
      "insert (unat (b + (pre + off)) div 2 ^ k) (pop os) \<subseteq> pop (vo_touch api os (b + (pre + off)))"
      using ok less.prems unfolding vmem_os_ok_def touch_ok_def by metis+
    have "unat sz - unat (off + 2 ^ k) < unat sz - unat off" unfolding u by (rule diff_less_mono2) (use lt in simp_all)
    from less.hyps [OF this, of "vo_touch api os (b + (pre + off))"] less.prems t(1)
    obtain os' where os': "touch_loop api (b + pre) (off + 2 ^ k) sz (vo_touch api os (b + (pre + off))) = Some os'"
      "live os' = live os" "pop (vo_touch api os (b + (pre + off))) \<subseteq> pop os'"
      "\<forall>j. unat (off + 2 ^ k) + j * 2 ^ k < unat sz \<longrightarrow>
         unat (b + (pre + (off + 2 ^ k + of_nat (j * 2 ^ k)))) div 2 ^ k \<in> pop os'" by auto
    have "unat (b + (pre + (off + of_nat (j * 2 ^ k)))) div 2 ^ k \<in> pop os'" if j: "unat off + j * 2 ^ k < unat sz" for j
    proof (cases j)
      case 0
      then show ?thesis using t(2) os'(3) by auto
    next
      case (Suc i)
      then show ?thesis using spec [OF os'(4), of i] j u by (simp add: algebra_simps)
    qed
    then show ?thesis using True os' t(2) k(1) by (subst touch_loop.simps) (auto simp: add.assoc)
  qed
qed

text \<open>The pages of an aligned range, as the loop meets them.\<close>

lemma pages_offset:
  assumes "n \<in> pages (2 ^ k) a len" "2 ^ k dvd a"
  obtains j where "n = (a + j * 2 ^ k) div 2 ^ k" "j * 2 ^ k < len"
proof
  obtain i where a: "a = 2 ^ k * i" using assms(2) by blast
  have n: "i \<le> n" "n * 2 ^ k < a + len" using assms(1) a by (simp_all add: pages_def)
  then have "i * 2 ^ k \<le> n * 2 ^ k" by simp
  then show "(n - a div 2 ^ k) * 2 ^ k < len" using n(2) a by (simp add: diff_mult_distrib mult.commute less_diff_conv2)
  show "n = (a + (n - a div 2 ^ k) * 2 ^ k) div 2 ^ k" using n(1) a by simp
qed

lemma touch_loop_pages:
  assumes ok: "vmem_os_ok api k hk live pop" and m: "(b, S, huge) \<in> live os"
    and fit: "unat pre + unat sz \<le> unat S" "unat S + 2 ^ k \<le> 2 ^ 64" "unat b + unat S \<le> 2 ^ 64"
    and al: "2 ^ k dvd unat b" "2 ^ k dvd unat pre"
  shows "\<exists>os'. touch_loop api (b + pre) 0 sz os = Some os' \<and> live os' = live os \<and> pop os \<subseteq> pop os' \<and>
    pages (2 ^ k) (unat b + unat pre) (unat sz) \<subseteq> pop os'"
proof -
  obtain os' where os': "touch_loop api (b + pre) 0 sz os = Some os'" "live os' = live os" "pop os \<subseteq> pop os'"
    "\<forall>j. unat (0 :: size_t) + j * 2 ^ k < unat sz \<longrightarrow> unat (b + (pre + (0 + of_nat (j * 2 ^ k)))) div 2 ^ k \<in> pop os'"
    using touch_loop_ok [OF ok m fit(1,2), of 0] by blast
  have "n \<in> pop os'" if n: "n \<in> pages (2 ^ k) (unat b + unat pre) (unat sz)" for n
  proof -
    obtain j where j: "n = (unat b + unat pre + j * 2 ^ k) div 2 ^ k" "j * 2 ^ k < unat sz"
      using pages_offset [OF n] al by auto
    define d where "d = (of_nat (j * 2 ^ k) :: size_t)"
    have szlt: "unat sz < 2 ^ 64" by (rule order_less_le_trans [OF unsigned_less]) simp
    have d: "unat d = j * 2 ^ k" unfolding d_def using j(2) szlt by (simp only: unat_of_nat) simp
    have "unat (pre + d) = unat pre + unat d" using fit j(2) d by (intro unat_plus_less) simp
    moreover from this have "unat (b + (pre + d)) = unat b + unat (pre + d)" using fit j(2) d by (intro unat_plus_less) simp
    moreover have "unat (b + (pre + d)) div 2 ^ k \<in> pop os'" using spec [OF os'(4), of j] j(2) unfolding d_def by (simp del: of_nat_mult)
    ultimately show ?thesis using j d by (simp add: add.assoc)
  qed
  then show ?thesis using os' by blast
qed

subsection \<open>The adaptive worker stays inside the region and ahead of the allocator\<close>

text \<open>
  Whether the next step of the worker is a call of \<open>madvise\<close> that fails, and the runs of the worker
  interleaved with calls of \<open>advance_hwm\<close>: \<open>hwms\<close> says which values clients report, and the last
  argument of the run whether no call of \<open>madvise\<close> has failed so far.
\<close>

definition populate_fails :: "'os vmem_os \<Rightarrow> VmemRegion \<times> 'os \<Rightarrow> bool" where
  "populate_fails api = (\<lambda>(r, os).
     case vr_bg_thread r of
       Some (Touch_to off target) \<Rightarrow>
         off < target \<and> vo_has_populate api \<and> \<not> fst (vo_populate api os (vr_base r + off) (target - off))
     | _ \<Rightarrow> False)"

inductive adaptive_run ::
  "'os vmem_os \<Rightarrow> (size_t \<Rightarrow> bool) \<Rightarrow> VmemRegion \<times> 'os \<Rightarrow> VmemRegion \<times> 'os \<Rightarrow> bool \<Rightarrow> bool"
  for api hwms s0 where
  created: "adaptive_run api hwms s0 s0 True"
| works: "adaptive_run api hwms s0 s b \<Longrightarrow> adaptive_worker api s = Some s' \<Longrightarrow>
    adaptive_run api hwms s0 s' (b \<and> \<not> populate_fails api s)"
| reports: "adaptive_run api hwms s0 (r, os) b \<Longrightarrow> hwms h \<Longrightarrow> adaptive_run api hwms s0 (advance_hwm h r, os) b"

fun worker_at :: "worker \<Rightarrow> size_t" where
  "worker_at (Loop_test off) = off"
| "worker_at (Load_hwm off) = off"
| "worker_at (Touch_to off target) = off"
| "worker_at (Publish off) = off"
| "worker_at Returned = 0"

definition region_ok :: "nat \<Rightarrow> VmemRegion \<Rightarrow> bool" where
  "region_ok k r \<longleftrightarrow> vr_base r \<noteq> nullptr \<and> 2 ^ k dvd unat (vr_base r) \<and> 2 ^ k dvd unat (vr_size r) \<and>
     unat (vr_base r) + unat (vr_size r) \<le> 2 ^ 64"

text \<open>The worker's offsets lie in the mapped region and are the ones it has published, up to the next one.\<close>

definition region_safe :: "nat \<Rightarrow> bool \<Rightarrow> ('os \<Rightarrow> mapping_set) \<Rightarrow> VmemRegion \<times> 'os \<Rightarrow> bool" where
  "region_safe k huge live = (\<lambda>(r, os). region_ok k r \<and> (vr_base r, vr_size r, huge) \<in> live os \<and> vr_prefaulted r \<le> vr_size r \<and>
     (\<forall>w. vr_bg_thread r = Some w \<longrightarrow> worker_at w \<le> vr_size r \<and> (w = Returned \<longrightarrow> vr_stop_bg r) \<and>
       (w \<noteq> Returned \<longrightarrow> (\<forall>off. w \<noteq> Publish off) \<longrightarrow> vr_prefaulted r = worker_at w) \<and>
       (\<forall>off target. w = Touch_to off target \<longrightarrow> target \<le> vr_size r)))"

text \<open>What it has published is committed.\<close>

definition backed :: "nat \<Rightarrow> ('os \<Rightarrow> nat set) \<Rightarrow> VmemRegion \<times> 'os \<Rightarrow> bool" where
  "backed k pop = (\<lambda>(r, os). 2 ^ k dvd unat (vr_hwm_bytes r) \<and>
     (\<exists>w. vr_bg_thread r = Some w \<and> 2 ^ k dvd unat (worker_at w) \<and> (w \<noteq> Returned \<longrightarrow> vr_prefaulted r \<le> worker_at w) \<and>
       pages (2 ^ k) (unat (vr_base r)) (unat (worker_at w)) \<subseteq> pop os \<and>
       (\<forall>off target. w = Touch_to off target \<longrightarrow> 2 ^ k dvd unat target)))"

lemma region_ok_room: "region_ok k r \<Longrightarrow> unat (vr_size r) + 2 ^ k \<le> 2 ^ 64"
proof -
  assume r: "region_ok k r"
  then have "0 < unat (vr_base r)" "2 ^ k dvd unat (vr_base r)"
    by (auto simp: region_ok_def unat_gt_0)
  then have "2 ^ k \<le> unat (vr_base r)" by (intro dvd_imp_le)
  then show ?thesis using r by (simp add: region_ok_def)
qed

lemma region_ok_upd [simp]:
  "region_ok k (r\<lparr>vr_prefaulted := a\<rparr>) = region_ok k r" "region_ok k (r\<lparr>vr_bg_thread := t\<rparr>) = region_ok k r"
  "region_ok k (r\<lparr>vr_hwm_bytes := h\<rparr>) = region_ok k r" "region_ok k (r\<lparr>vr_stop_bg := st\<rparr>) = region_ok k r"
  "region_ok k (r\<lparr>vr_locked := l\<rparr>) = region_ok k r"
  by (simp_all add: region_ok_def)

lemma watermark_dvd: "k < 64 \<Longrightarrow> 2 ^ k dvd unat (kWatermarkPages * 2 ^ k)"
proof -
  assume k: "k < 64"
  have d: "(2::nat) ^ k dvd 2 ^ 64" using k by (intro le_imp_power_dvd) simp
  have "unat (kWatermarkPages * 2 ^ k) = (64 * 2 ^ k) mod 2 ^ 64"
    using k by (simp add: kWatermarkPages_def unat_word_ariths)
  then show ?thesis using d by (simp add: dvd_mod)
qed

lemma worker_target_le: "worker_target api r \<le> vr_size r"
  by (auto simp: worker_target_def Let_def)

lemma worker_target_dvd:
  assumes "vo_page_size api = 2 ^ k" "k < 64" "region_ok k r" "2 ^ k dvd unat (vr_hwm_bytes r)"
  shows "2 ^ k dvd unat (worker_target api r)"
proof -
  have "(2::nat) ^ k dvd 2 ^ 64" using assms(2) by (intro le_imp_power_dvd) simp
  then have "2 ^ k dvd (unat (vr_hwm_bytes r) + unat (kWatermarkPages * 2 ^ k)) mod 2 ^ 64"
    using assms(4) watermark_dvd [OF assms(2)] by (simp add: dvd_mod)
  then have "2 ^ k dvd unat (vr_hwm_bytes r + kWatermarkPages * 2 ^ k)" by (simp add: unat_word_ariths)
  then show ?thesis using assms(1,3) by (auto simp: worker_target_def Let_def region_ok_def)
qed

lemma touch_range_ok:
  assumes ok: "vmem_os_ok api k hk live pop" and r: "region_ok k r" "(vr_base r, vr_size r, huge) \<in> live os"
    and t: "off < target" "target \<le> vr_size r"
  obtains os' where "touch_range api (vr_base r) off target os = Some os'" "live os' = live os" "pop os \<subseteq> pop os'"
    "2 ^ k dvd unat off \<longrightarrow> \<not> (vo_has_populate api \<and> \<not> fst (vo_populate api os (vr_base r + off) (target - off))) \<longrightarrow>
      pages (2 ^ k) (unat (vr_base r) + unat off) (unat target - unat off) \<subseteq> pop os'"
proof -
  let ?b = "vr_base r"
  have le: "unat off < unat target" "unat target \<le> unat (vr_size r)" using t by (simp_all add: word_less_nat_alt word_le_nat_alt)
  have b: "2 ^ k dvd unat ?b" "unat ?b + unat (vr_size r) \<le> 2 ^ 64" using r(1) by (simp_all add: region_ok_def)
  have bo: "unat (?b + off) = unat ?b + unat off" using le b(2) by (intro unat_plus_less) simp
  have d: "unat (target - off) = unat target - unat off" using le by (simp add: unat_sub word_le_nat_alt)
  then have fit: "unat off + unat (target - off) \<le> unat (vr_size r)" using le by simp
  show thesis
  proof (cases "vo_has_populate api")
    case True
    obtain c os' where p: "vo_populate api os (?b + off) (target - off) = (c, os')" by fastforce
    have "populate_ok api k live pop" using ok by (simp add: vmem_os_ok_def)
    then have "live os' = live os \<and> pop os \<subseteq> pop os' \<and> (c \<longrightarrow> pages (2 ^ k) (unat (?b + off)) (unat (target - off)) \<subseteq> pop os')"
      using r(2) fit p unfolding populate_ok_def by blast
    then show ?thesis using that [of os'] True p bo d by (simp add: touch_range_def)
  next
    case False
    have room: "unat (vr_size r) + 2 ^ k \<le> 2 ^ 64" by (rule region_ok_room [OF r(1)])
    show ?thesis
    proof (cases "2 ^ k dvd unat off")
      case al: True
      then show ?thesis using that touch_loop_pages [OF ok r(2) fit room b(2,1) al] False d by (auto simp: touch_range_def)
    next
      case na: False
      then show ?thesis using that touch_loop_ok [OF ok r(2) fit room, of 0] False by (auto simp: touch_range_def)
    qed
  qed
qed

lemma worker_step:
  assumes ok: "vmem_os_ok api k hk live pop" and safe: "region_safe k huge live (r, os)"
  obtains r' os' where "adaptive_worker api (r, os) = Some (r', os')" "region_safe k huge live (r', os')"
    "vr_base r' = vr_base r" "vr_size r' = vr_size r" "vr_locked r' = vr_locked r" "vr_stop_bg r' = vr_stop_bg r"
    "vr_hwm_bytes r' = vr_hwm_bytes r" "vr_bg_thread r' = None \<longleftrightarrow> vr_bg_thread r = None" "live os' = live os" "pop os \<subseteq> pop os'"
    "backed k pop (r, os) \<longrightarrow> \<not> populate_fails api (r, os) \<longrightarrow> \<not> vr_stop_bg r \<longrightarrow> backed k pop (r', os')"
proof -
  have k: "vo_page_size api = 2 ^ k" "k < 64" using ok by (simp_all add: vmem_os_ok_def)
  have r: "region_ok k r" "(vr_base r, vr_size r, huge) \<in> live os" using safe by (simp_all add: region_safe_def)
  show thesis
  proof (cases "vr_bg_thread r")
    case None
    then show ?thesis using safe by (intro that [of r os]) (auto simp: adaptive_worker_def backed_def)
  next
    case (Some w)
    show ?thesis
    proof (cases w)
      case (Loop_test off)
      with Some safe show ?thesis
        by (intro that [of "r\<lparr>vr_bg_thread := Some (if vr_stop_bg r then Returned else Load_hwm off)\<rparr>" os])
          (auto simp: adaptive_worker_def region_safe_def backed_def)
    next
      case (Load_hwm off)
      with Some safe worker_target_le [of api r] worker_target_dvd [OF k r(1)] show ?thesis
        by (intro that [of "r\<lparr>vr_bg_thread := Some (Touch_to off (worker_target api r))\<rparr>" os])
          (auto simp: adaptive_worker_def region_safe_def backed_def)
    next
      case (Touch_to off target)
      have t: "target \<le> vr_size r" using safe Some Touch_to by (simp add: region_safe_def)
      show ?thesis
      proof (cases "off < target")
        case True
        obtain os' where os': "touch_range api (vr_base r) off target os = Some os'" "live os' = live os" "pop os \<subseteq> pop os'"
          "2 ^ k dvd unat off \<longrightarrow> \<not> (vo_has_populate api \<and> \<not> fst (vo_populate api os (vr_base r + off) (target - off))) \<longrightarrow>
            pages (2 ^ k) (unat (vr_base r) + unat off) (unat target - unat off) \<subseteq> pop os'"
          by (rule touch_range_ok [OF ok r True t])
        have "backed k pop (r\<lparr>vr_bg_thread := Some (Publish target)\<rparr>, os')"
          if b: "backed k pop (r, os)" "\<not> populate_fails api (r, os)"
        proof -
          have o: "2 ^ k dvd unat off" "2 ^ k dvd unat target" "vr_prefaulted r \<le> off" "2 ^ k dvd unat (vr_hwm_bytes r)"
            "pages (2 ^ k) (unat (vr_base r)) (unat off) \<subseteq> pop os"
            using b(1) Some Touch_to by (auto simp: backed_def)
          have "pages (2 ^ k) (unat (vr_base r) + unat off) (unat target - unat off) \<subseteq> pop os'"
            using os'(4) o(1) b(2) Some Touch_to True by (auto simp: populate_fails_def)
          moreover have "unat off \<le> unat target" using True by (simp add: word_less_nat_alt)
          then have "pages (2 ^ k) (unat (vr_base r)) (unat target) =
              pages (2 ^ k) (unat (vr_base r)) (unat off) \<union> pages (2 ^ k) (unat (vr_base r) + unat off) (unat target - unat off)"
            using pages_split [of "2 ^ k" "unat (vr_base r)" "unat off" "unat target - unat off"] r(1) o(1) by (simp add: region_ok_def)
          ultimately have "pages (2 ^ k) (unat (vr_base r)) (unat target) \<subseteq> pop os'" using o(5) os'(3) by blast
          then show ?thesis using o True by (auto simp: backed_def)
        qed
        moreover have "region_safe k huge live (r\<lparr>vr_bg_thread := Some (Publish target)\<rparr>, os')"
          using safe t os'(2) by (auto simp: region_safe_def)
        ultimately show ?thesis using Some Touch_to True os'
          by (intro that [of "r\<lparr>vr_bg_thread := Some (Publish target)\<rparr>" os']) (auto simp: adaptive_worker_def)
      next
        case False
        with Some Touch_to safe show ?thesis
          by (intro that [of "r\<lparr>vr_bg_thread := Some (Loop_test off)\<rparr>" os])
            (auto simp: adaptive_worker_def region_safe_def backed_def)
      qed
    next
      case (Publish off)
      with Some safe show ?thesis
        by (intro that [of "r\<lparr>vr_prefaulted := off, vr_bg_thread := Some (Loop_test off)\<rparr>" os])
          (auto simp: adaptive_worker_def region_safe_def backed_def)
    next
      case Returned
      with Some safe show ?thesis by (intro that [of r os]) (auto simp: adaptive_worker_def)
    qed
  qed
qed

subsection \<open>Joining the worker\<close>

lemma join_none: "vr_bg_thread r = None \<Longrightarrow> join_worker api (r, os) = Some (r, os)"
  by (subst join_worker.simps) simp

lemma join_returned: "vr_bg_thread r = Some Returned \<Longrightarrow> join_worker api (r, os) = Some (r\<lparr>vr_bg_thread := None\<rparr>, os)"
  by (subst join_worker.simps) simp

lemma join_step:
  assumes "vr_bg_thread r = Some w" "w \<noteq> Returned" "adaptive_worker api (r, os) = Some s"
  shows "join_worker api (r, os) = join_worker api s"
  using assms by (subst join_worker.simps) simp

text \<open>How many steps the worker takes to return once the stop flag is set.\<close>

fun worker_rank :: "worker \<Rightarrow> nat" where
  "worker_rank Returned = 0"
| "worker_rank (Loop_test off) = 1"
| "worker_rank (Publish off) = 2"
| "worker_rank (Touch_to off target) = 3"
| "worker_rank (Load_hwm off) = 4"

lemma worker_rank_step:
  assumes "vr_bg_thread r = Some w" "w \<noteq> Returned" "vr_stop_bg r" "adaptive_worker api (r, os) = Some (r', os')"
  shows "\<exists>w'. vr_bg_thread r' = Some w' \<and> worker_rank w' < worker_rank w"
  using assms by (cases w) (auto simp: adaptive_worker_def split: if_splits)

lemma join_ok:
  assumes ok: "vmem_os_ok api k hk live pop" and "region_safe k huge live (r, os)" "vr_bg_thread r = Some w" "vr_stop_bg r"
  shows "\<exists>r' os'. join_worker api (r, os) = Some (r', os') \<and> vr_base r' = vr_base r \<and> vr_size r' = vr_size r \<and>
    vr_locked r' = vr_locked r \<and> live os' = live os"
  using assms(2-4)
proof (induction "worker_rank w" arbitrary: w r os rule: less_induct)
  case less
  show ?case
  proof (cases "w = Returned")
    case True
    then show ?thesis using less.prems join_returned [of r api os] by auto
  next
    case False
    obtain r1 os1 where st: "adaptive_worker api (r, os) = Some (r1, os1)" "region_safe k huge live (r1, os1)"
      "vr_base r1 = vr_base r" "vr_size r1 = vr_size r" "vr_locked r1 = vr_locked r" "vr_stop_bg r1 = vr_stop_bg r" "live os1 = live os"
      by (rule worker_step [OF ok less.prems(1)])
    obtain w1 where w1: "vr_bg_thread r1 = Some w1" "worker_rank w1 < worker_rank w"
      using worker_rank_step [OF less.prems(2) False less.prems(3) st(1)] by blast
    have "vr_stop_bg r1" using st(6) less.prems(3) by simp
    from less.hyps [OF w1(2) st(2) w1(1) this] show ?thesis
      using join_step [OF less.prems(2) False st(1)] st(3-5,7) by simp
  qed
qed

lemma region_safe_stop: "region_safe k huge live (r, os) \<Longrightarrow> region_safe k huge live (stop_worker r, os)"
  by (auto simp: region_safe_def stop_worker_def)

lemma destroy_live:
  assumes ok: "vmem_os_ok api k hk live pop" and safe: "region_safe k huge live (r, os)" and nz: "vr_size r \<noteq> 0"
  shows "\<exists>os'. VmemRegion_destroy api (r, os) = Some os' \<and>
    live os' = (if huge \<and> \<not> 2 ^ hk dvd unat (vr_size r) then live os else live os - {(vr_base r, vr_size r, huge)})"
proof -
  have "\<exists>r1 os1. join_worker api (stop_worker r, os) = Some (r1, os1) \<and> vr_base r1 = vr_base r \<and> vr_size r1 = vr_size r \<and> live os1 = live os"
  proof (cases "vr_bg_thread r")
    case None
    then show ?thesis using join_none [of r api os] by (simp add: stop_worker_def)
  next
    case (Some w)
    then have "vr_bg_thread (stop_worker r) = Some w" "vr_stop_bg (stop_worker r)" by (simp_all add: stop_worker_def)
    from join_ok [OF ok region_safe_stop [OF safe] this] show ?thesis by (auto simp: stop_worker_def)
  qed
  then obtain r1 os1 where j: "join_worker api (stop_worker r, os) = Some (r1, os1)" "vr_base r1 = vr_base r"
    "vr_size r1 = vr_size r" "live os1 = live os" by blast
  define os2 where "os2 = (if vr_locked r1 then vo_munlock api os1 (vr_base r1) (vr_size r1) else os1)"
  have l2: "live os2 = live os" using ok j(4) by (auto simp: os2_def vmem_os_ok_def mlock_ok_def)
  have base: "vr_base r \<noteq> nullptr" "(vr_base r, vr_size r, huge) \<in> live os2" using safe l2 by (auto simp: region_safe_def region_ok_def)
  have "VmemRegion_destroy api (r, os) = Some (vo_munmap api os2 (vr_base r) (vr_size r))"
    using j base(1) nz by (simp add: VmemRegion_destroy_def do_munlock_def unmap_region_def os2_def)
  moreover have "live (vo_munmap api os2 (vr_base r) (vr_size r)) =
      (if huge \<and> \<not> 2 ^ hk dvd unat (vr_size r) then live os2 else live os2 - {(vr_base r, vr_size r, huge)})"
    using ok base(2) unfolding vmem_os_ok_def munmap_ok_def by blast
  ultimately show ?thesis using l2 by simp
qed

lemma destroy_moved:
  assumes "VmemRegion_move r = Inr (n, old)"
  shows "VmemRegion_destroy api (old, os) = Some os"
proof -
  have "vr_bg_thread old = None" "\<not> vr_locked old" "vr_base old = nullptr"
    using assms by (auto simp: VmemRegion_move_def split: if_splits)
  then show ?thesis using join_none [of old api os] by (simp add: VmemRegion_destroy_def stop_worker_def unmap_region_def)
qed

subsection \<open>Runs of a region\<close>

lemma run_safe:
  assumes "adaptive_run api hwms s0 s b" and ok: "vmem_os_ok api k hk live pop" and "region_safe k huge live s0"
    "\<not> vr_stop_bg (fst s0)"
  shows "region_safe k huge live s \<and> \<not> vr_stop_bg (fst s) \<and> vr_base (fst s) = vr_base (fst s0) \<and>
    vr_size (fst s) = vr_size (fst s0) \<and> live (snd s) = live (snd s0) \<and>
    (vr_bg_thread (fst s) = None \<longleftrightarrow> vr_bg_thread (fst s0) = None) \<and>
    (b \<and> (\<forall>h. hwms h \<longrightarrow> 2 ^ k dvd unat h) \<and> backed k pop s0 \<longrightarrow> backed k pop s)"
  using assms(1)
proof (induction rule: adaptive_run.induct)
  case created
  then show ?case using assms(3,4) by simp
next
  case (works s b s')
  obtain r os where s: "s = (r, os)" by fastforce
  obtain r' os' where st: "adaptive_worker api (r, os) = Some (r', os')" "region_safe k huge live (r', os')"
    "vr_base r' = vr_base r" "vr_size r' = vr_size r" "vr_stop_bg r' = vr_stop_bg r"
    "vr_bg_thread r' = None \<longleftrightarrow> vr_bg_thread r = None" "live os' = live os"
    "backed k pop (r, os) \<longrightarrow> \<not> populate_fails api (r, os) \<longrightarrow> \<not> vr_stop_bg r \<longrightarrow> backed k pop (r', os')"
    using works.IH s by (auto intro: worker_step [OF ok, of huge r os])
  then have "s' = (r', os')" using works.hyps(2) s by simp
  then show ?case using works.IH st s by auto
next
  case (reports r os b h)
  then show ?case by (auto simp: region_safe_def advance_hwm_def backed_def)
qed

fun worker_steps :: "'os vmem_os \<Rightarrow> nat \<Rightarrow> VmemRegion \<times> 'os \<Rightarrow> (VmemRegion \<times> 'os) option" where
  "worker_steps api 0 s = Some s"
| "worker_steps api (Suc n) s = Option.bind (adaptive_worker api s) (worker_steps api n)"


lemma round_up_page:
  assumes "vo_page_size api = 2 ^ k" "k < 64" "unat bytes + 2 ^ k \<le> 2 ^ 64"
  shows "2 ^ k dvd unat (round_up_to_page api bytes)" "unat bytes \<le> unat (round_up_to_page api bytes)"
    "unat (round_up_to_page api bytes) < unat bytes + 2 ^ k"
proof -
  have "round_up_to_page api bytes = AlignUp bytes (2 ^ k)"
    using assms(1) by (simp add: round_up_to_page_def AlignUp_def Let_def)
  then have "unat (round_up_to_page api bytes) = (unat bytes + (2 ^ k - 1)) div 2 ^ k * 2 ^ k"
    using AlignUp_nat [OF assms(2,3)] by simp
  then show "2 ^ k dvd unat (round_up_to_page api bytes)" "unat bytes \<le> unat (round_up_to_page api bytes)"
    "unat (round_up_to_page api bytes) < unat bytes + 2 ^ k"
    using round_up_bounds [of "2 ^ k" "unat bytes"] by simp_all
qed

text \<open>What the constructor leaves behind, for every policy.\<close>

lemma VmemRegion_new_cases:
  assumes ok: "vmem_os_ok api k hk live pop" and room: "unat bytes + 2 ^ k \<le> 2 ^ 64"
    and new: "VmemRegion_new api os bytes policy huge lock = (res, os')"
  obtains "res = Inl Runtime_error" "live os' = live os"
  | r where "res = Inr r" "vr_size r = round_up_to_page api bytes" "region_safe k huge live (r, os')"
      "live os' = insert (vr_base r, vr_size r, huge) (live os)" "vr_base r \<notin> fst ` live os"
      "vr_bg_thread r = (if policy = Adaptive then Some (Loop_test 0) else None)" "vr_hwm_bytes r = 0" "\<not> vr_stop_bg r"
      "vr_prefaulted r = (if policy \<in> {Lazy, Adaptive} then 0 else vr_size r)"
      "policy = EagerTouch \<longrightarrow> pages (2 ^ k) (unat (vr_base r)) (unat (vr_size r)) \<subseteq> pop os'"
proof -
  let ?sz = "round_up_to_page api bytes"
  have k: "vo_page_size api = 2 ^ k" "k < 64" using ok by (simp_all add: vmem_os_ok_def)
  note sz = round_up_page [OF k room]
  obtain p os1 where mm: "vo_mmap api os ?sz (policy = MapPopulate) huge = (p, os1)" by fastforce
  have M: "if p = MAP_FAILED then live os1 = live os
      else p \<noteq> nullptr \<and> 2 ^ k dvd unat p \<and> unat p + unat ?sz \<le> 2 ^ 64 \<and> p \<notin> fst ` live os \<and>
        live os1 = insert (p, ?sz, huge) (live os)"
    using ok mm unfolding vmem_os_ok_def mmap_ok_def by blast
  show thesis
  proof (cases "p = MAP_FAILED")
    case True
    then show ?thesis using that(1) new mm M by (simp add: VmemRegion_new_def map_region_def Let_def)
  next
    case False
    then have os1: "p \<noteq> nullptr" "2 ^ k dvd unat p" "unat p + unat ?sz \<le> 2 ^ 64" "p \<notin> fst ` live os"
      "live os1 = insert (p, ?sz, huge) (live os)" using M by simp_all
    define r where "r = \<lparr>vr_base = p, vr_size = ?sz, vr_policy = policy, vr_locked = False,
        vr_prefaulted = (if policy \<in> {Lazy, Adaptive} then 0 else ?sz), vr_hwm_bytes = 0, vr_stop_bg = False,
        vr_bg_thread = (if policy = Adaptive then Some (Loop_test 0) else None)\<rparr>"
    have rok: "region_ok k r" using os1 sz(1) by (simp add: region_ok_def r_def)
    have m1: "(p, ?sz, huge) \<in> live os1" using os1(5) by simp
    have "unat ?sz + 2 ^ k \<le> 2 ^ 64" using region_ok_room [OF rok] by (simp add: r_def)
    from touch_loop_pages [OF ok m1, of 0 ?sz] this os1
    obtain os2 where os2: "eager_touch api p ?sz os1 = Some os2" "live os2 = live os1" "pages (2 ^ k) (unat p) (unat ?sz) \<subseteq> pop os2"
      by (auto simp: eager_touch_def)
    define os3 where "os3 = (if policy = EagerTouch then os2 else os1)"
    have step: "VmemRegion_new api os bytes policy huge lock =
        (let (r2, os2) = (if lock then do_mlock api (r, os3) else (r, os3)) in (Inr r2, os2))"
      using mm False os2(1) by (cases policy) (simp_all add: VmemRegion_new_def map_region_def Let_def r_def os3_def)
    obtain b os4 where l: "vo_mlock api os3 p ?sz = (b, os4)" by fastforce
    then have l': "live os4 = live os3" "pop os3 \<subseteq> pop os4" using ok unfolding vmem_os_ok_def mlock_ok_def by (metis snd_conv)+
    have ok3: "live os3 = live os1" "policy = EagerTouch \<longrightarrow> pages (2 ^ k) (unat p) (unat ?sz) \<subseteq> pop os3"
      using os2 by (simp_all add: os3_def)
    define r' where "r' = (if lock \<and> b then r\<lparr>vr_locked := True\<rparr> else r)"
    have res: "res = Inr r'" "os' = (if lock then os4 else os3)"
      using step new l by (auto simp: do_mlock_def r'_def r_def split: if_splits)
    have f: "vr_base r' = p" "vr_size r' = ?sz" "vr_bg_thread r' = vr_bg_thread r" "vr_hwm_bytes r' = 0"
      "\<not> vr_stop_bg r'" "vr_prefaulted r' = vr_prefaulted r" by (simp_all add: r'_def r_def)
    have "region_ok k r'" using rok by (simp add: r'_def)
    then have "region_safe k huge live (r', os')"
      using f res(2) os1(5) ok3(1) l'(1) by (auto simp: region_safe_def r_def)
    then show ?thesis
      by (rule that(2) [OF res(1) f(2)]) (use f res(2) os1 ok3 l' in \<open>auto simp: r_def\<close>)
  qed
qed

lemma moved_safe:
  assumes mv: "VmemRegion_move r = Inr (n, old)" and safe: "region_safe k huge live (r, os)"
  shows "vr_bg_thread r = None" "vr_base n = vr_base r" "vr_size n = vr_size r" "region_safe k huge live (n, os)"
proof -
  have t: "vr_bg_thread r = None" using mv by (auto simp: VmemRegion_move_def split: if_splits)
  then have "n = \<lparr>vr_base = vr_base r, vr_size = vr_size r, vr_policy = vr_policy r, vr_locked = vr_locked r,
      vr_prefaulted = vr_prefaulted r, vr_hwm_bytes = vr_hwm_bytes r, vr_stop_bg = False, vr_bg_thread = None\<rparr>"
    using mv by (simp add: VmemRegion_move_def)
  then show "vr_base n = vr_base r" "vr_size n = vr_size r" "region_safe k huge live (n, os)"
    using safe by (simp_all add: region_safe_def region_ok_def)
qed (use mv in \<open>auto simp: VmemRegion_move_def split: if_splits\<close>)

subsection \<open>Properties\<close>

text \<open>
  C25. The life of a region of at least one byte, under every policy.  The size is the request rounded up
  to whole pages; a refused mapping is reported as an exception and leaves nothing mapped; with \<open>EagerTouch\<close>
  every page is committed when the constructor returns.  At any later time, whatever the worker has
  done and whatever marks clients have reported: the destructor returns (the worker does) and unmaps exactly this
  region, unless it is a mapping of huge pages whose length is not a multiple of the huge page size,
  which \<open>munmap\<close> refuses and which stays mapped; a region with a worker cannot be moved without a data race;
  any other region can, it then belongs to the new object alone, and destroying both objects in either order unmaps it
  once.
\<close>

theorem VmemRegion_lifecycle:
  assumes ok: "vmem_os_ok api k hk live pop" and room: "unat bytes + 2 ^ k \<le> 2 ^ 64" and pos: "0 < unat bytes"
    and new: "VmemRegion_new api os bytes policy huge lock = (res, os0)"
  shows "case res of
      Inl e \<Rightarrow> e = Runtime_error \<and> live os0 = live os
    | Inr r0 \<Rightarrow> 2 ^ k dvd unat (vr_size r0) \<and> unat bytes \<le> unat (vr_size r0) \<and> unat (vr_size r0) < unat bytes + 2 ^ k \<and>
        live os0 = insert (vr_base r0, vr_size r0, huge) (live os) \<and> (vr_base r0, vr_size r0, huge) \<notin> live os \<and>
        (policy = EagerTouch \<longrightarrow> pages (2 ^ k) (unat (vr_base r0)) (unat (vr_size r0)) \<subseteq> pop os0) \<and>
        (\<forall>hwms r os1 b. adaptive_run api hwms (r0, os0) (r, os1) b \<longrightarrow>
           (let left = (if huge \<and> \<not> 2 ^ hk dvd unat (vr_size r0) then live os0 else live os)
            in map_option live (VmemRegion_destroy api (r, os1)) = Some left \<and>
               (case VmemRegion_move r of
                  Inl e \<Rightarrow> policy = Adaptive \<and> e = Undefined
                | Inr (n, old) \<Rightarrow> policy \<noteq> Adaptive \<and>
                    map_option live (Option.bind (VmemRegion_destroy api (n, os1)) (\<lambda>os2. VmemRegion_destroy api (old, os2))) = Some left \<and>
                    map_option live (Option.bind (VmemRegion_destroy api (old, os1)) (\<lambda>os2. VmemRegion_destroy api (n, os2))) = Some left)))"
  using ok room new
proof (rule VmemRegion_new_cases)
  assume "res = Inl Runtime_error" "live os0 = live os"
  then show ?thesis by simp
next
  fix r0
  assume r0: "res = Inr r0" "vr_size r0 = round_up_to_page api bytes" "region_safe k huge live (r0, os0)"
    "live os0 = insert (vr_base r0, vr_size r0, huge) (live os)" "vr_base r0 \<notin> fst ` live os"
    "vr_bg_thread r0 = (if policy = Adaptive then Some (Loop_test 0) else None)" "\<not> vr_stop_bg r0"
    "policy = EagerTouch \<longrightarrow> pages (2 ^ k) (unat (vr_base r0)) (unat (vr_size r0)) \<subseteq> pop os0"
  have k: "vo_page_size api = 2 ^ k" "k < 64" using ok by (simp_all add: vmem_os_ok_def)
  note sz = round_up_page [OF k room, folded r0(2)]
  have nz: "vr_size r0 \<noteq> 0" using sz(2) pos by (auto simp: unat_eq_0 [symmetric])
  have out: "(vr_base r0, vr_size r0, huge) \<notin> live os" using r0(5) by (metis fst_conv image_eqI)
  define left where "left = (if huge \<and> \<not> 2 ^ hk dvd unat (vr_size r0) then live os0 else live os)"
  have gone: "map_option live (VmemRegion_destroy api (q, os1)) = Some left"
    if "region_safe k huge live (q, os1)" "vr_base q = vr_base r0" "vr_size q = vr_size r0" "live os1 = live os0" for q os1
    using destroy_live [OF ok that(1)] that(2-4) nz r0(4) out by (auto simp: left_def)
  have later: "map_option live (VmemRegion_destroy api (r, os1)) = Some left \<and>
      (case VmemRegion_move r of
         Inl e \<Rightarrow> policy = Adaptive \<and> e = Undefined
       | Inr (n, old) \<Rightarrow> policy \<noteq> Adaptive \<and>
           map_option live (Option.bind (VmemRegion_destroy api (n, os1)) (\<lambda>os2. VmemRegion_destroy api (old, os2))) = Some left \<and>
           map_option live (Option.bind (VmemRegion_destroy api (old, os1)) (\<lambda>os2. VmemRegion_destroy api (n, os2))) = Some left)"
    if run: "adaptive_run api hwms (r0, os0) (r, os1) b" for hwms r os1 b
  proof -
    from run_safe [OF run ok r0(3)] r0(7) have s: "region_safe k huge live (r, os1)" "vr_base r = vr_base r0"
      "vr_size r = vr_size r0" "live os1 = live os0" "vr_bg_thread r = None \<longleftrightarrow> policy \<noteq> Adaptive"
      using r0(6) by auto
    have d: "map_option live (VmemRegion_destroy api (r, os1)) = Some left" by (rule gone [OF s(1-4)])
    show ?thesis
    proof (cases "VmemRegion_move r")
      case (Inl e)
      then show ?thesis using d s(5) by (auto simp: VmemRegion_move_def split: if_splits)
    next
      case (Inr p)
      obtain n old where p: "p = (n, old)" by fastforce
      then have mv: "VmemRegion_move r = Inr (n, old)" using Inr by simp
      have n: "policy \<noteq> Adaptive" "vr_base n = vr_base r0" "vr_size n = vr_size r0" "region_safe k huge live (n, os1)"
        using moved_safe [OF mv s(1)] s(2,3,5) by simp_all
      have "map_option live (VmemRegion_destroy api (n, os1)) = Some left" by (rule gone [OF n(4,2,3) s(4)])
      then obtain z where z: "VmemRegion_destroy api (n, os1) = Some z" "live z = left" by auto
      show ?thesis unfolding mv using d n(1) z destroy_moved [OF mv, of api z] destroy_moved [OF mv, of api os1] by simp
    qed
  qed
  then have "\<forall>hwms r os1 b. adaptive_run api hwms (r0, os0) (r, os1) b \<longrightarrow> map_option live (VmemRegion_destroy api (r, os1)) = Some left \<and>
      (case VmemRegion_move r of
         Inl e \<Rightarrow> policy = Adaptive \<and> e = Undefined
       | Inr (n, old) \<Rightarrow> policy \<noteq> Adaptive \<and>
           map_option live (Option.bind (VmemRegion_destroy api (n, os1)) (\<lambda>os2. VmemRegion_destroy api (old, os2))) = Some left \<and>
           map_option live (Option.bind (VmemRegion_destroy api (old, os1)) (\<lambda>os2. VmemRegion_destroy api (n, os2))) = Some left)"
    by (intro allI impI)
  then show ?thesis unfolding r0(1) sum.case Let_def left_def [symmetric] using sz r0(4,8) out by (intro conjI)
qed

text \<open>A kernel for the witnesses: one region at a time, pages of 4096 bytes, huge pages of 2 MB.\<close>

type_synonym tiny_state = "(size_t \<times> bool) option \<times> nat set"

definition tiny_live :: "tiny_state \<Rightarrow> mapping_set" where
  "tiny_live = (\<lambda>(m, P). case m of None \<Rightarrow> {} | Some (sz, b) \<Rightarrow> {(2 ^ 21, sz, b)})"

definition tiny_os :: "tiny_state vmem_os" where
  "tiny_os = \<lparr>
     vo_mmap = (\<lambda>(m, P) sz a b. if m \<noteq> None \<or> unat sz > 2 ^ 40 then (MAP_FAILED, m, P) else (2 ^ 21, Some (sz, b), P)),
     vo_munmap = (\<lambda>(m, P) p sz. (if \<exists>b. m = Some (sz, b) \<and> (b \<longrightarrow> 2 ^ 21 dvd unat sz) then None else m, P)),
     vo_touch = (\<lambda>(m, P) a. (m, insert (unat a div 4096) P)),
     vo_populate = (\<lambda>(m, P) a n. if 4096 dvd unat a then (True, m, P \<union> pages 4096 (unat a) (unat n)) else (False, m, P)),
     vo_mlock = (\<lambda>(m, P) p sz. (True, m, P \<union> pages 4096 (unat p) (unat sz))), vo_munlock = (\<lambda>s p sz. s),
     vo_page_size = 4096, vo_has_populate = True\<rparr>"

lemma tiny_os_ok: "vmem_os_ok tiny_os 12 21 tiny_live snd"
proof -
  have "unat ((2 :: ptr) ^ 21) = 2 ^ 21" "(2 :: ptr) ^ 21 \<noteq> MAP_FAILED" by (simp_all add: MAP_FAILED_def)
  then have "mmap_ok tiny_os 12 tiny_live" by (auto simp: mmap_ok_def tiny_os_def tiny_live_def split: if_splits option.splits)
  moreover have "munmap_ok tiny_os 21 tiny_live" by (auto simp: munmap_ok_def tiny_os_def tiny_live_def split: if_splits option.splits)
  moreover have "touch_ok tiny_os 12 tiny_live snd" "mlock_ok tiny_os tiny_live snd"
    by (auto simp: touch_ok_def mlock_ok_def tiny_os_def tiny_live_def)
  moreover have "populate_ok tiny_os 12 tiny_live snd" by (auto simp: populate_ok_def tiny_os_def tiny_live_def split: if_splits)
  moreover have "vo_page_size tiny_os = 2 ^ 12" by (simp add: tiny_os_def)
  ultimately show ?thesis by (simp add: vmem_os_ok_def)
qed

definition tiny_region :: VmemRegion where
  "tiny_region = \<lparr>vr_base = 2 ^ 21, vr_size = 1048576, vr_policy = Adaptive, vr_locked = False, vr_prefaulted = 0,
     vr_hwm_bytes = 0, vr_stop_bg = False, vr_bg_thread = Some (Loop_test 0)\<rparr>"

lemma tiny_new:
  "VmemRegion_new tiny_os (None, {}) 1048000 Adaptive huge False = (Inr tiny_region, (Some (1048576, huge), {}))"
  by (simp add: VmemRegion_new_def map_region_def round_up_to_page_def tiny_os_def Let_def MAP_FAILED_def tiny_region_def)

lemma tiny_room: "unat (1048000 :: size_t) + 2 ^ 12 \<le> 2 ^ 64" "0 < unat (1048000 :: size_t)"
  by simp_all

theorem VmemRegion_lifecycle_witness:
  "map_option tiny_live (VmemRegion_destroy tiny_os (tiny_region, (Some (1048576, False), {}))) = Some {} \<and>
   map_option tiny_live (VmemRegion_destroy tiny_os (tiny_region, (Some (1048576, True), {}))) = Some {(2 ^ 21, 1048576, True)}"
proof -
  have "map_option tiny_live (VmemRegion_destroy tiny_os (tiny_region, (Some (1048576, huge), {}))) =
      Some (if huge \<and> \<not> 2 ^ 21 dvd unat (vr_size tiny_region) then tiny_live (Some (1048576, huge), {}) else tiny_live (None, {}))" for huge
    using VmemRegion_lifecycle [OF tiny_os_ok tiny_room tiny_new [of huge]] adaptive_run.created [of tiny_os _ "(tiny_region, (Some (1048576, huge), {}))"]
    unfolding sum.case Let_def by blast
  from this [of False] this [of True] show ?thesis by (simp add: tiny_region_def tiny_live_def)
qed



text \<open>
  A failed call is not noticed: whatever the reason (no memory, an old kernel, an address that is not page-aligned
  because a client reported such a mark), the worker reports the whole range as backed by memory.
\<close>

theorem adaptive_worker_overclaims:
  assumes has: "vo_has_populate api" and r: "\<not> vr_stop_bg r" "vr_bg_thread r = Some (Loop_test off)" "off < worker_target api r"
    and fails: "vo_populate api os (vr_base r + off) (worker_target api r - off) = (False, os')"
  shows "\<exists>r'. worker_steps api 4 (r, os) = Some (r', os') \<and> prefaulted_bytes r' = worker_target api r"
proof -
  have tgt: "worker_target api (r\<lparr>vr_bg_thread := w\<rparr>) = worker_target api r" for w by (simp add: worker_target_def Let_def)
  show ?thesis using assms
    by (simp add: numeral_eq_Suc adaptive_worker_def tgt touch_range_def prefaulted_bytes_def)
qed

theorem adaptive_worker_overclaims_witness:
  "\<exists>r' os'. worker_steps (tiny_os\<lparr>vo_populate := \<lambda>s a n. (False, s)\<rparr>) 4 (tiny_region, (Some (1048576, False), {})) = Some (r', os') \<and>
     prefaulted_bytes r' = 262144 \<and> snd os' = {}"
proof -
  let ?os = "tiny_os\<lparr>vo_populate := \<lambda>s a n. (False, s)\<rparr>"
  have t: "worker_target ?os tiny_region = 262144"
    by (simp add: worker_target_def tiny_region_def tiny_os_def kWatermarkPages_def)
  then have "0 < worker_target ?os tiny_region" by simp
  from adaptive_worker_overclaims [OF _ _ _ this, of "(Some (1048576, False), {})" "(Some (1048576, False), {})"] t
  show ?thesis by (auto simp: tiny_os_def tiny_region_def)
qed

end
