(* ===== verification/VmExperiments.thy ===== *)
theory VmExperiments
  imports VMSystem SchedSimProofs
begin

text \<open>
  The workload generators and the three experiments of \<^verbatim>\<open>memlab/sim/vm_sim_main.cpp\<close>.  The generator
  \<open>std::mt19937\<close> is a parameter: \<open>seeded\<close> gives the state for a seed, \<open>draw g lo hi\<close> one number of
  \<open>uniform_int_distribution<uint32_t>(lo, hi)\<close> and \<open>coin\<close> one number of \<open>uniform_real_distribution<>()\<close>,
  with the next state of the generator.  The iteration order of the optimal policy's hash set is the parameter \<open>ord\<close>.  A row of the CSV file is a record; the numbers are
  kept as values, percentages and times as reals.
\<close>

subsection \<open>Workload generators\<close>

fun uniform_loop :: "'g draw \<Rightarrow> u32 \<Rightarrow> nat \<Rightarrow> 'g \<Rightarrow> u32 list" where
  "uniform_loop draw pages 0 g = []"
| "uniform_loop draw pages (Suc n) g = (let (x, g') = draw g 0 (pages - 1) in x # uniform_loop draw pages n g')"

definition gen_uniform :: "'g draw \<Rightarrow> (u64 \<Rightarrow> 'g) \<Rightarrow> u32 \<Rightarrow> u32 \<Rightarrow> u64 \<Rightarrow> u32 list" where
  "gen_uniform draw seeded pages n seed = uniform_loop draw pages (unat n) (seeded seed)"

definition locality_shift :: "'g draw \<Rightarrow> u32 \<Rightarrow> u32 \<Rightarrow> u32 \<Rightarrow> u32 \<Rightarrow> u32 \<Rightarrow> 'g \<Rightarrow> u32 \<times> 'g" where
  "locality_shift draw total_pages n working_set i ws_start g =
     (if i mod (n div 4) = 0 then draw g 0 (total_pages - working_set) else (ws_start, g))"

fun locality_loop :: "'g draw \<Rightarrow> ('g \<Rightarrow> real \<times> 'g) \<Rightarrow> u32 \<Rightarrow> u32 \<Rightarrow> u32 \<Rightarrow> nat list \<Rightarrow> u32 \<Rightarrow> 'g \<Rightarrow> u32 list" where
  "locality_loop draw coin total_pages n working_set [] ws_start g = []"
| "locality_loop draw coin total_pages n working_set (i # js) ws_start g =
     (let (ws_start', g1) = locality_shift draw total_pages n working_set (of_nat i) ws_start g;
          (c, g2) = coin g1;
          (page, g3) = (if c < 9 / 10
                        then let (x, g3) = draw g2 0 (working_set - 1) in (ws_start' + x, g3)
                        else draw g2 0 (total_pages - 1))
      in page # locality_loop draw coin total_pages n working_set js ws_start' g3)"

text \<open>With fewer than four accesses (and at least one) \<open>i % (n / 4)\<close> divides by zero.\<close>

definition gen_locality ::
  "'g draw \<Rightarrow> ('g \<Rightarrow> real \<times> 'g) \<Rightarrow> (u64 \<Rightarrow> 'g) \<Rightarrow> u32 \<Rightarrow> u32 \<Rightarrow> u32 \<Rightarrow> u64 \<Rightarrow> u32 list result" where
  "gen_locality draw coin seeded total_pages n working_set seed =
     (if n \<noteq> 0 \<and> n div 4 = 0 then Inl Undefined
      else Inr (locality_loop draw coin total_pages n working_set [0..<unat n] 0 (seeded seed)))"

subsection \<open>The experiments of main\<close>

record vm_row =
  vr_experiment :: string
  vr_workload :: string
  vr_policy :: string
  vr_frames :: u32
  vr_faults :: u64
  vr_total :: u64
  vr_rate_pct :: real
  vr_eat :: real

definition run_row :: "string \<Rightarrow> string \<Rightarrow> string \<Rightarrow> u32 \<Rightarrow> RunResult \<Rightarrow> vm_row" where
  "run_row experiment workload policy frames r =
     \<lparr>vr_experiment = experiment, vr_workload = workload, vr_policy = policy, vr_frames = frames, vr_faults = rr_faults r,
      vr_total = rr_total r, vr_rate_pct = rr_fault_rate r * 100, vr_eat = rr_eat_ns r\<rparr>"

text \<open>The statements of a loop, in order, until one of them is undefined.\<close>

fun in_turn :: "'a result list \<Rightarrow> 'a list result" where
  "in_turn [] = Inr []"
| "in_turn (x # xs) = (case x of Inl e \<Rightarrow> Inl e | Inr a \<Rightarrow> map_sum id ((#) a) (in_turn xs))"

definition belady_trace :: "u32 list" where
  "belady_trace = [1, 2, 3, 4, 1, 2, 5, 1, 2, 3, 4, 5]"

definition belady_experiment :: "vm_row list result" where
  "belady_experiment =
     in_turn (map (\<lambda>frames. map_sum id (run_row ''belady_anomaly'' ''belady'' ''FIFO'' frames)
       (run_sim FIFO FIFO_new belady_trace frames default_costs)) [3, 4])"

definition policy_rows :: "(nat \<Rightarrow> u32 list \<Rightarrow> u32 list) \<Rightarrow> string \<Rightarrow> u32 list \<Rightarrow> u32 \<Rightarrow> vm_row list result" where
  "policy_rows ord name trace f =
     in_turn
       [map_sum id (run_row ''fault_vs_frames'' name ''FIFO'' f) (run_sim FIFO FIFO_new trace f default_costs),
        map_sum id (run_row ''fault_vs_frames'' name ''LRU'' f) (run_sim LRU LRU_new trace f default_costs),
        map_sum id (run_row ''fault_vs_frames'' name ''Clock'' f) (run_sim Clock Clock_new trace f default_costs),
        map_sum id (run_row ''fault_vs_frames'' name ''Optimal'' f) (run_sim Optimal (Optimal_new ord trace) trace f default_costs)]"

definition frames_experiment ::
  "(nat \<Rightarrow> u32 list \<Rightarrow> u32 list) \<Rightarrow> 'g draw \<Rightarrow> ('g \<Rightarrow> real \<times> 'g) \<Rightarrow> (u64 \<Rightarrow> 'g) \<Rightarrow> vm_row list result" where
  "frames_experiment ord draw coin seeded =
     (case gen_locality draw coin seeded 20 1000 5 42 of
        Inl e \<Rightarrow> Inl e
      | Inr locality \<Rightarrow>
          map_sum id concat
            (in_turn (concat (map (\<lambda>(name, trace). map (\<lambda>f. policy_rows ord name trace (of_nat f)) [1..<16])
              [(''sequential'', gen_sequential 20 (1000 div 20)),
               (''uniform'', gen_uniform draw seeded 20 1000 42),
               (''locality'', locality)]))))"

definition thrash_run ::
  "'g draw \<Rightarrow> ('g \<Rightarrow> real \<times> 'g) \<Rightarrow> (u64 \<Rightarrow> 'g) \<Rightarrow> u32 \<Rightarrow> u32 \<Rightarrow> RunResult result" where
  "thrash_run draw coin seeded num_procs pid =
     (case gen_locality draw coin seeded 8 200 4 (ucast pid) of
        Inl e \<Rightarrow> Inl e
      | Inr trace \<Rightarrow> run_sim LRU LRU_new trace (max 1 (20 div num_procs)) default_costs)"

definition thrash_row :: "u32 \<Rightarrow> RunResult list \<Rightarrow> vm_row" where
  "thrash_row num_procs rs =
     (let total_faults = sum_list (map rr_faults rs); total_accesses = sum_list (map rr_total rs);
          fault_rate = real (unat total_faults) / real (unat total_accesses);
          cpu_util = max 0 (1 - fault_rate * 10)
      in \<lparr>vr_experiment = ''thrashing'', vr_workload = ''multi_proc'', vr_policy = ''LRU'', vr_frames = 20 div num_procs,
          vr_faults = total_faults, vr_total = total_accesses, vr_rate_pct = fault_rate * 100, vr_eat = cpu_util * 100\<rparr>)"

definition thrash_experiment ::
  "'g draw \<Rightarrow> ('g \<Rightarrow> real \<times> 'g) \<Rightarrow> (u64 \<Rightarrow> 'g) \<Rightarrow> vm_row list result" where
  "thrash_experiment draw coin seeded =
     in_turn (map (\<lambda>num_procs. map_sum id (thrash_row (of_nat num_procs))
       (in_turn (map (\<lambda>pid. thrash_run draw coin seeded (of_nat num_procs) (of_nat pid)) [0..<num_procs]))) [1..<9])"

definition vm_sim_rows ::
  "(nat \<Rightarrow> u32 list \<Rightarrow> u32 list) \<Rightarrow> 'g draw \<Rightarrow> ('g \<Rightarrow> real \<times> 'g) \<Rightarrow> (u64 \<Rightarrow> 'g) \<Rightarrow> vm_row list result" where
  "vm_sim_rows ord draw coin seeded =
     map_sum id concat (in_turn [belady_experiment, frames_experiment ord draw coin seeded, thrash_experiment draw coin seeded])"

subsection \<open>The anomaly that does not happen\<close>

text \<open>The definitions a run under FIFO unfolds.\<close>

lemmas fifo_run = VMSystem_access_def VMSystem_new_def default_costs_def TLB_new_def FIFO_new_def FIFO_def
  TLB_lookup_def table_of_def set_table_def obtain_frame_def load_page_def FrameAllocator_has_free_def
  FrameAllocator_alloc_def PageTable_get_or_create_def PageTable_lookup_def TLB_insert_def TLB_count_miss_def
  TLB_store_def FIFO_on_load_def FIFO_victim_def FIFO_on_evict_def FIFO_on_access_def evict_scan_def
  evict_page_def TLB_invalidate_def

lemma few_frames:
  "FrameAllocator_new 3 = \<lparr>fa_total = 3, fa_free = [0, 1, 2]\<rparr>"
  "FrameAllocator_new 4 = \<lparr>fa_total = 4, fa_free = [0, 1, 2, 3]\<rparr>"
  by (simp_all add: FrameAllocator_new_def upt_rec)

lemma belady_runs:
  "map_sum id (\<lambda>(s, p). vs_faults s) (run_trace FIFO belady_trace (VMSystem_new 3 default_costs) FIFO_new) = Inr 9"
  "map_sum id (\<lambda>(s, p). vs_faults s) (run_trace FIFO belady_trace (VMSystem_new 4 default_costs) FIFO_new) = Inr 7"
  by (simp_all add: belady_trace_def few_frames fifo_run Let_def)

lemma run_sim_faults_of:
  "map_sum id (\<lambda>(s, p). vs_faults s) (run_trace pol trace (VMSystem_new frames cm) p) = Inr n \<Longrightarrow>
     \<exists>r. run_sim pol p trace frames cm = Inr r \<and> rr_faults r = n"
  by (auto simp: run_sim_def split: sum.splits)

text \<open>
  Belady's anomaly.  The experiment is announced to show 9 faults with 3 frames and 10 with 4; the
  simulator counts 9 and 7.  With the policy of \<open>fifo.hpp\<close>, which nominates the frame it last evicted
  again, more frames do not hurt on this trace.
\<close>

theorem belady_experiment_faults:
  "map_sum id (map (\<lambda>r. (vr_policy r, vr_frames r, vr_faults r))) belady_experiment =
     Inr [(''FIFO'', 3, 9), (''FIFO'', 4, 7)]"
  using run_sim_faults_of [OF belady_runs(1)] run_sim_faults_of [OF belady_runs(2)]
  by (auto simp: belady_experiment_def run_row_def)

subsection \<open>The traces\<close>

lemma draw_below:
  assumes "draws_in_range draw" "pages \<noteq> 0"
  shows "fst (draw g 0 (pages - 1)) < pages"
proof -
  have "fst (draw g 0 (pages - 1)) \<le> pages - 1" using draws_in_rangeD [OF assms(1), of 0 "pages - 1" g] by simp
  moreover have "pages - 1 < pages" using assms(2) by (simp add: word_less_nat_alt unat_minus_one unat_gt_0)
  ultimately show ?thesis by (rule order_le_less_trans)
qed

lemma uniform_loop_ok:
  assumes "draws_in_range draw" "pages \<noteq> 0"
  shows "length (uniform_loop draw pages n g) = n" "set (uniform_loop draw pages n g) \<subseteq> {..<pages}"
proof -
  show "length (uniform_loop draw pages n g) = n" "set (uniform_loop draw pages n g) \<subseteq> {..<pages}"
    using draw_below [OF assms] by (induction n arbitrary: g) (auto simp: split_beta Let_def)
qed

lemma local_page:
  fixes start x ws pages :: u32
  assumes "start \<le> pages - ws" "x \<le> ws - 1" "0 < ws" "ws \<le> pages"
  shows "start + x < pages"
proof -
  have "unat (pages - ws) = unat pages - unat ws" using assms(4) by (simp add: unat_sub)
  moreover have "unat (ws - 1) = unat ws - 1" using assms(3) by (simp add: unat_minus_one)
  moreover have "unat ws \<le> unat pages" "0 < unat ws" using assms(3,4) by (simp_all add: word_le_nat_alt word_less_nat_alt)
  ultimately have lt: "unat start + unat x < unat pages" using assms(1,2) by (simp add: word_le_nat_alt)
  moreover have "unat pages < 2 ^ 32" using unsigned_less [of pages, where 'a = nat] by simp
  ultimately show ?thesis by (simp add: word_less_nat_alt unat_plus_less)
qed

lemma locality_loop_ok:
  assumes "draws_in_range draw" "0 < ws" "ws \<le> pages" "start \<le> pages - ws"
  shows "length (locality_loop draw coin pages n ws js start g) = length js \<and>
    set (locality_loop draw coin pages n ws js start g) \<subseteq> {..<pages}"
  using assms(4)
proof (induction js arbitrary: start g)
  case (Cons i js)
  obtain start' g1 where s: "locality_shift draw pages n ws (of_nat i) start g = (start', g1)" by fastforce
  have "fst (draw g 0 (pages - ws)) \<le> pages - ws" using draws_in_rangeD [OF assms(1), of 0 "pages - ws" g] by simp
  then have s': "start' \<le> pages - ws" using s Cons.prems by (auto simp: locality_shift_def split: if_splits)
  obtain c g2 where c: "coin g1 = (c, g2)" by fastforce
  define y where "y = (if c < 9 / 10 then let (x, g3) = draw g2 0 (ws - 1) in (start' + x, g3) else draw g2 0 (pages - 1))"
  have "pages \<noteq> 0" using assms(2,3) by auto
  then have "fst (draw g2 0 (pages - 1)) < pages" by (rule draw_below [OF assms(1)])
  moreover have "start' + fst (draw g2 0 (ws - 1)) < pages"
    using draws_in_rangeD [OF assms(1), of 0 "ws - 1" g2] by (intro local_page [OF s' _ assms(2,3)]) simp
  ultimately have "fst y < pages" by (simp add: y_def split_beta Let_def)
  moreover have "locality_loop draw coin pages n ws (i # js) start g = fst y # locality_loop draw coin pages n ws js start' (snd y)"
    by (simp add: s c y_def split_beta Let_def)
  ultimately show ?case using Cons.IH [OF s'] by simp
qed simp

subsection \<open>The experiments run\<close>

lemma in_turn_ok:
  assumes "\<And>i. i < length xs \<Longrightarrow> \<exists>a. xs ! i = Inr a \<and> P i a"
  shows "\<exists>as. in_turn xs = Inr as \<and> length as = length xs \<and> (\<forall>i < length xs. P i (as ! i))"
  using assms
proof (induction xs arbitrary: P)
  case (Cons x xs)
  obtain a where a: "x = Inr a" "P 0 a" using Cons.prems [of 0] by auto
  have "\<exists>as. in_turn xs = Inr as \<and> length as = length xs \<and> (\<forall>i < length xs. P (Suc i) (as ! i))"
    by (rule Cons.IH) (use Cons.prems [of "Suc _"] in auto)
  then show ?case using a by (auto simp: less_Suc_eq_0_disj)
qed simp

text \<open>A row of \<open>n\<close> accesses.\<close>

definition row_ok :: "nat \<Rightarrow> vm_row \<Rightarrow> bool" where
  "row_ok n r \<longleftrightarrow> unat (vr_total r) = n \<and> 0 < unat (vr_faults r) \<and> unat (vr_faults r) \<le> n \<and>
     vr_rate_pct r = real (unat (vr_faults r)) / real n * 100"

definition run_ok :: "u32 list \<Rightarrow> u32 \<Rightarrow> RunResult \<Rightarrow> bool" where
  "run_ok trace frames r \<longleftrightarrow> unat (rr_total r) = length trace \<and> card (set trace) \<le> unat (rr_faults r) \<and>
     unat (rr_faults r) \<le> length trace \<and> (card (set trace) \<le> unat frames \<longrightarrow> unat (rr_faults r) = card (set trace)) \<and>
     rr_fault_rate r = real (unat (rr_faults r)) / real (length trace)"

lemma run_sim_run_ok:
  assumes "replacement_policy pol tracks" "tracks p {}" "frames \<noteq> 0" "length trace < 2 ^ 64" "trace \<noteq> []"
  shows "\<exists>r. run_sim pol p trace frames cm = Inr r \<and> run_ok trace frames r"
proof -
  obtain r where r: "run_sim pol p trace frames cm = Inr r" "unat (rr_total r) = length trace"
    "card (set trace) \<le> unat (rr_faults r)" "unat (rr_faults r) \<le> length trace"
    "card (set trace) \<le> unat frames \<longrightarrow> unat (rr_faults r) = card (set trace)"
    using run_sim_counts [OF assms(1-4), of cm] by auto
  have "0 < rr_total r" using r(2) assms(5) by (simp add: word_less_nat_alt)
  then have "rr_fault_rate r = real (unat (rr_faults r)) / real (unat (rr_total r))"
    using r(1) by (auto simp: run_sim_def VMSystem_fault_rate_def split: sum.splits)
  then show ?thesis using r by (auto simp: run_ok_def)
qed

lemma fresh_replacements:
  "FIFO_tracks FIFO_new {}" "LRU_tracks LRU_new {}" "Clock_tracks Clock_new {}" "visits_set ord \<Longrightarrow> Optimal_tracks (Optimal_new ord trace) {}"
  by (simp_all add: FIFO_tracks_def FIFO_new_def LRU_tracks_def LRU_new_def lru_ok_def lru_frames_def Clock_tracks_def
      Clock_new_def clock_ok_def Optimal_tracks_def Optimal_new_def)

lemmas runs_ok = run_sim_run_ok [OF fifo.replacement_policy_axioms fresh_replacements(1)]
  run_sim_run_ok [OF lru.replacement_policy_axioms fresh_replacements(2)]
  run_sim_run_ok [OF clock.replacement_policy_axioms fresh_replacements(3)]
  run_sim_run_ok [OF optimal.replacement_policy_axioms fresh_replacements(4)]

lemma run_row_ok: "run_ok trace frames r \<Longrightarrow> trace \<noteq> [] \<Longrightarrow> row_ok (length trace) (run_row e w p f r)"
  by (auto simp: run_ok_def row_ok_def run_row_def card_gt_0_iff intro: order_less_le_trans [of 0 "card (set trace)"])

lemma run_ok_row:
  "\<exists>r. x = Inr r \<and> run_ok trace frames r \<Longrightarrow> trace \<noteq> [] \<Longrightarrow> \<exists>row. map_sum id (run_row e w p f) x = Inr row \<and> row_ok (length trace) row"
  using run_row_ok by fastforce

lemma policy_rows_ok:
  assumes "trace \<noteq> []" "length trace < 2 ^ 64" "f \<noteq> 0" and ord: "visits_set ord"
  shows "\<exists>rows. policy_rows ord name trace f = Inr rows \<and> length rows = 4 \<and> (\<forall>r \<in> set rows. row_ok (length trace) r)"
proof -
  let ?row = "\<lambda>p. run_row ''fault_vs_frames'' name p f" and ?ok = "row_ok (length trace)"
  have "\<exists>r. map_sum id (?row ''FIFO'') (run_sim FIFO FIFO_new trace f default_costs) = Inr r \<and> ?ok r"
    by (rule run_ok_row [OF runs_ok(1) [OF assms(3,2,1)] assms(1)])
  moreover have "\<exists>r. map_sum id (?row ''LRU'') (run_sim LRU LRU_new trace f default_costs) = Inr r \<and> ?ok r"
    by (rule run_ok_row [OF runs_ok(2) [OF assms(3,2,1)] assms(1)])
  moreover have "\<exists>r. map_sum id (?row ''Clock'') (run_sim Clock Clock_new trace f default_costs) = Inr r \<and> ?ok r"
    by (rule run_ok_row [OF runs_ok(3) [OF assms(3,2,1)] assms(1)])
  moreover have "\<exists>r. map_sum id (?row ''Optimal'') (run_sim Optimal (Optimal_new ord trace) trace f default_costs) = Inr r \<and> ?ok r"
    by (rule run_ok_row [OF runs_ok(4) [OF ord assms(3,2,1)] assms(1)])
  ultimately show ?thesis unfolding policy_rows_def by auto
qed

lemma belady_experiment_ok:
  "\<exists>rows. belady_experiment = Inr rows \<and> length rows = 2 \<and> (\<forall>r \<in> set rows. row_ok 12 r)"
proof -
  have l: "length belady_trace = 12" "belady_trace \<noteq> []" by (simp_all add: belady_trace_def)
  have "\<exists>row. map_sum id (run_row ''belady_anomaly'' ''belady'' ''FIFO'' f) (run_sim FIFO FIFO_new belady_trace f default_costs) = Inr row \<and>
      row_ok 12 row" if "f \<noteq> 0" for f
    using run_ok_row [OF runs_ok(1) [OF that, of belady_trace default_costs] l(2)] l by simp
  from this [of 3] this [of 4] show ?thesis unfolding belady_experiment_def by auto
qed

lemma gen_locality_ok:
  assumes "draws_in_range draw" "0 < ws" "ws \<le> pages" "4 \<le> n"
  shows "\<exists>t. gen_locality draw coin seeded pages n ws seed = Inr t \<and> length t = unat n \<and> set t \<subseteq> {..<pages}"
proof -
  have "n div 4 \<noteq> 0" using assms(4) by (simp add: word_le_nat_alt unat_eq_0 [symmetric] unat_div)
  moreover have "0 \<le> pages - ws" by simp
  ultimately show ?thesis
    using locality_loop_ok [OF assms(1-3), of 0 coin n "[0..<unat n]" "seeded seed"] by (simp add: gen_locality_def)
qed

lemma gen_uniform_ok:
  assumes "draws_in_range draw" "pages \<noteq> 0"
  shows "length (gen_uniform draw seeded pages n seed) = unat n" "set (gen_uniform draw seeded pages n seed) \<subseteq> {..<pages}"
  using uniform_loop_ok [OF assms] by (simp_all add: gen_uniform_def)

lemma length_gen_sequential: "length (gen_sequential pages reps) = unat reps * unat pages"
  by (simp add: gen_sequential_def length_concat sum_list_replicate)

lemma concat_rows_ok:
  assumes "\<forall>rows \<in> set rss. length rows = k \<and> (\<forall>r \<in> set rows. P r)"
  shows "length (concat rss) = length rss * k \<and> (\<forall>r \<in> set (concat rss). P r)"
  using assms by (induction rss) auto

lemma frames_experiment_ok:
  assumes "draws_in_range draw" and ord: "visits_set ord"
  shows "\<exists>rows. frames_experiment ord draw coin seeded = Inr rows \<and> length rows = 180 \<and> (\<forall>r \<in> set rows. row_ok 1000 r)"
proof -
  obtain t where t: "gen_locality draw coin seeded 20 1000 5 42 = Inr t" "length t = 1000"
    using gen_locality_ok [OF assms(1), of 5 20 1000 coin seeded 42] by auto
  define wls where "wls = [(''sequential'', gen_sequential 20 (1000 div 20)), (''uniform'', gen_uniform draw seeded 20 1000 42), (''locality'', t)]"
  have wl: "length (snd wl) = 1000" if "wl \<in> set wls" for wl
    using that t(2) gen_uniform_ok(1) [OF assms(1), of 20 seeded 1000 42] by (auto simp: wls_def length_gen_sequential)
  define xs where "xs = concat (map (\<lambda>(name, trace). map (\<lambda>f. policy_rows ord name trace (of_nat f)) [1..<16]) wls)"
  have x: "\<exists>rows. x = Inr rows \<and> length rows = 4 \<and> (\<forall>r \<in> set rows. row_ok 1000 r)" if "x \<in> set xs" for x
  proof -
    obtain name trace f where f: "(name, trace) \<in> set wls" "f \<in> set [1..<16]" "x = policy_rows ord name trace (of_nat f)"
      using \<open>x \<in> set xs\<close> unfolding xs_def by auto
    have "(of_nat f :: u32) \<noteq> 0" using f(2) by (simp add: word_unat_eq_iff unat_of_nat)
    then show ?thesis using policy_rows_ok [OF _ _ _ ord, of trace "of_nat f" name] wl [OF f(1)] f(3) by fastforce
  qed
  have "\<exists>rss. in_turn xs = Inr rss \<and> length rss = length xs \<and>
      (\<forall>i < length xs. length (rss ! i) = 4 \<and> (\<forall>r \<in> set (rss ! i). row_ok 1000 r))"
    by (rule in_turn_ok) (use x in \<open>auto simp: in_set_conv_nth\<close>)
  then obtain rss where rss: "in_turn xs = Inr rss" "length rss = length xs"
    "\<forall>rows \<in> set rss. length rows = 4 \<and> (\<forall>r \<in> set rows. row_ok 1000 r)" by (metis in_set_conv_nth)
  have "length xs = 45" by (simp add: xs_def wls_def)
  then show ?thesis using t(1) rss(1,2) concat_rows_ok [OF rss(3)] by (simp add: frames_experiment_def xs_def wls_def)
qed

lemma unat_sum_small:
  fixes xs :: "u64 list"
  assumes "\<forall>x \<in> set xs. unat x \<le> b" "length xs * b < 2 ^ 64"
  shows "unat (sum_list xs) = sum_list (map unat xs) \<and> sum_list (map unat xs) \<le> length xs * b"
  using assms
proof (induction xs)
  case (Cons x xs)
  then have ih: "unat (sum_list xs) = sum_list (map unat xs)" "sum_list (map unat xs) \<le> length xs * b" by auto
  have "unat x \<le> b" using Cons.prems(1) by simp
  then have "unat x + unat (sum_list xs) < 2 ^ 64" using ih Cons.prems(2) by simp
  then have "unat (x + sum_list xs) = unat x + unat (sum_list xs)" by (intro unat_plus_less) simp
  then show ?case using ih \<open>unat x \<le> b\<close> by simp
qed simp

lemma thrash_run_ok:
  assumes "draws_in_range draw"
  shows "\<exists>r. thrash_run draw coin seeded np pid = Inr r \<and> unat (rr_total r) = 200 \<and> 0 < unat (rr_faults r) \<and>
    unat (rr_faults r) \<le> 200 \<and> (8 \<le> unat (20 div np) \<longrightarrow> unat (rr_faults r) \<le> 8)"
proof -
  obtain t where t: "gen_locality draw coin seeded 8 200 4 (ucast pid) = Inr t" "length t = 200" "set t \<subseteq> {..<8}"
    using gen_locality_ok [OF assms, of 4 8 200 coin seeded "ucast pid"] by auto
  have f: "max 1 (20 div np) \<noteq> 0" by (auto simp: max_def word_le_nat_alt)
  have ne: "t \<noteq> []" using t(2) by auto
  obtain r where r: "run_sim LRU LRU_new t (max 1 (20 div np)) default_costs = Inr r" "run_ok t (max 1 (20 div np)) r"
    using runs_ok(2) [OF f, of t default_costs] t(2) ne by auto
  have "set t \<subseteq> of_nat ` {0..<8}"
  proof
    fix x assume "x \<in> set t"
    then have "unat x < 8" using t(3) by (auto simp: word_less_nat_alt)
    then show "x \<in> of_nat ` {0..<8}" by (intro image_eqI [of _ _ "unat x"]) simp_all
  qed
  then have card: "card (set t) \<le> 8" using card_image_le [of "{0..<8}" "of_nat :: nat \<Rightarrow> u32"] card_mono [of "of_nat ` {0..<8}" "set t"] by simp
  have "0 < card (set t)" using ne by (simp add: card_gt_0_iff)
  moreover have "unat (rr_faults r) \<le> 8" if "8 \<le> unat (20 div np)"
  proof -
    have "unat (20 div np) \<le> unat (max 1 (20 div np))" by (simp add: max_def word_le_nat_alt)
    then show ?thesis using r(2) card that by (simp add: run_ok_def)
  qed
  ultimately show ?thesis using r t(1,2) by (auto simp: thrash_run_def run_ok_def)
qed

lemma thrash_row_ok:
  assumes "length rs = n" "n \<noteq> 0" "n < 9" and rs: "\<forall>r \<in> set rs. unat (rr_total r) = 200 \<and> 0 < unat (rr_faults r) \<and> unat (rr_faults r) \<le> b" "b \<le> 200"
  shows "row_ok (200 * n) (thrash_row np rs)" "unat (vr_faults (thrash_row np rs)) \<le> n * b"
proof -
  have "n * b \<le> 8 * 200" using assms(3) rs(2) by (intro mult_le_mono) auto
  then have small: "length (map rr_faults rs) * b < 2 ^ 64" "length (map rr_total rs) * 200 < 2 ^ 64" using assms(1,3) by simp_all
  have f: "unat (sum_list (map rr_faults rs)) = sum_list (map (\<lambda>r. unat (rr_faults r)) rs)" "sum_list (map (\<lambda>r. unat (rr_faults r)) rs) \<le> n * b"
    using unat_sum_small [OF _ small(1)] rs(1) assms(1) by (simp_all add: o_def)
  have "\<forall>x \<in> set (map rr_total rs). unat x \<le> 200" using rs(1) by simp
  from unat_sum_small [OF this small(2)] have "unat (sum_list (map rr_total rs)) = sum_list (map (\<lambda>r. unat (rr_total r)) rs)" by (simp add: o_def)
  also have "map (\<lambda>r. unat (rr_total r)) rs = replicate n 200" using rs(1) assms(1) by (intro nth_equalityI) simp_all
  finally have t: "unat (sum_list (map rr_total rs)) = 200 * n" by (simp add: sum_list_replicate)
  have pos: "0 < sum_list (map (\<lambda>r. unat (rr_faults r)) rs)"
    using rs(1) assms(1,2) by (cases rs) auto
  have "n * b \<le> 200 * n" using rs(2) by simp
  then have "sum_list (map (\<lambda>r. unat (rr_faults r)) rs) \<le> 200 * n" using f(2) by (rule order_trans [rotated])
  moreover have row: "unat (vr_total (thrash_row np rs)) = 200 * n"
    "unat (vr_faults (thrash_row np rs)) = sum_list (map (\<lambda>r. unat (rr_faults r)) rs)"
    using f(1) t by (simp_all add: thrash_row_def Let_def)
  moreover have "vr_rate_pct (thrash_row np rs) = real (unat (vr_faults (thrash_row np rs))) / real (unat (vr_total (thrash_row np rs))) * 100"
    by (simp add: thrash_row_def Let_def)
  then have "vr_rate_pct (thrash_row np rs) = real (unat (vr_faults (thrash_row np rs))) / real (200 * n) * 100" unfolding row(1) .
  ultimately show "row_ok (200 * n) (thrash_row np rs)" using pos unfolding row_ok_def by linarith
  show "unat (vr_faults (thrash_row np rs)) \<le> n * b" using f by (simp add: thrash_row_def Let_def)
qed

lemma thrash_experiment_ok:
  assumes "draws_in_range draw"
  shows "\<exists>rows. thrash_experiment draw coin seeded = Inr rows \<and> length rows = 8 \<and>
    (\<forall>i < 8. row_ok (200 * (i + 1)) (rows ! i) \<and> (i < 2 \<longrightarrow> unat (vr_faults (rows ! i)) \<le> 8 * (i + 1)))"
proof -
  define xs where "xs = map (\<lambda>np. map_sum id (thrash_row (of_nat np))
       (in_turn (map (\<lambda>pid. thrash_run draw coin seeded (of_nat np) (of_nat pid)) [0..<np]))) [1..<9]"
  have len: "length xs = 8" by (simp add: xs_def)
  have "\<exists>row. xs ! i = Inr row \<and> (row_ok (200 * (i + 1)) row \<and> (i < 2 \<longrightarrow> unat (vr_faults row) \<le> 8 * (i + 1)))" if i: "i < length xs" for i
  proof -
    let ?np = "i + 1"
    have lt: "i < 8" using i len by simp
    then have xi: "xs ! i = map_sum id (thrash_row (of_nat ?np))
        (in_turn (map (\<lambda>pid. thrash_run draw coin seeded (of_nat ?np) (of_nat pid)) [0..<?np]))"
      unfolding xs_def by (simp del: upt_Suc upt_rec_numeral add: nth_upt)
    define b where "b = (if i < 2 then 8 else 200 :: nat)"
    have b: "unat (rr_faults r) \<le> b" if "8 \<le> unat (20 div of_nat ?np :: u32) \<longrightarrow> unat (rr_faults r) \<le> 8" "unat (rr_faults r) \<le> 200" for r
    proof (cases "i < 2")
      case True
      then have "i = 0 \<or> i = 1" by auto
      then have "8 \<le> unat (20 div of_nat ?np :: u32)" by auto
      then show ?thesis using that(1) True by (simp add: b_def)
    qed (use that(2) in \<open>simp add: b_def\<close>)
    let ?ys = "map (\<lambda>pid. thrash_run draw coin seeded (of_nat ?np) (of_nat pid)) [0..<?np]"
    have "\<exists>rs. in_turn ?ys = Inr rs \<and> length rs = length ?ys \<and>
        (\<forall>j < length ?ys. unat (rr_total (rs ! j)) = 200 \<and> 0 < unat (rr_faults (rs ! j)) \<and> unat (rr_faults (rs ! j)) \<le> b)"
    proof (rule in_turn_ok)
      fix j assume "j < length ?ys"
      then have "?ys ! j = thrash_run draw coin seeded (of_nat ?np) (of_nat j)" by (simp del: upt_Suc)
      then show "\<exists>a. ?ys ! j = Inr a \<and> (unat (rr_total a) = 200 \<and> 0 < unat (rr_faults a) \<and> unat (rr_faults a) \<le> b)"
        using thrash_run_ok [OF assms, of coin seeded "of_nat ?np" "of_nat j"] b by auto
    qed
    then obtain rs where rs0: "in_turn ?ys = Inr rs" "length rs = length ?ys"
      "\<forall>j < length ?ys. unat (rr_total (rs ! j)) = 200 \<and> 0 < unat (rr_faults (rs ! j)) \<and> unat (rr_faults (rs ! j)) \<le> b" by blast
    have "length ?ys = ?np" by simp
    then have rs: "in_turn ?ys = Inr rs" "length rs = ?np"
      "\<forall>r \<in> set rs. unat (rr_total r) = 200 \<and> 0 < unat (rr_faults r) \<and> unat (rr_faults r) \<le> b"
      using rs0 by (auto simp only: in_set_conv_nth)
    have "b \<le> 200" by (simp add: b_def)
    note row = thrash_row_ok [OF rs(2) _ _ rs(3) this, of "of_nat ?np"]
    have "row_ok (200 * ?np) (thrash_row (of_nat ?np) rs)" "unat (vr_faults (thrash_row (of_nat ?np) rs)) \<le> ?np * b"
      using row lt by simp_all
    then show ?thesis using xi rs(1) by (auto simp: b_def mult.commute simp del: upt_Suc)
  qed
  from in_turn_ok [of xs, OF this] show ?thesis unfolding thrash_experiment_def xs_def [symmetric] by (simp add: len)
qed

text \<open>
  C32. The experiments.  Whatever the generator draws within the bounds it is asked for, and in whatever
  order the hash set of the optimal policy is visited, the three
  experiments run without undefined behaviour and write 2 + 180 + 8 rows; the accesses counted in the rows are
  12, 1000 and 200 per process; every row has at least one and at most as many faults as accesses, with the
  percentage that belongs to them; and while the frames of each process hold its pages (one or two processes)
  thrashing costs at most one fault per page and process.
\<close>

theorem vm_sim_rows_sound:
  assumes draws: "draws_in_range draw" and ord: "visits_set ord"
  shows "\<exists>rows. vm_sim_rows ord draw coin seeded = Inr rows \<and>
    map (\<lambda>r. unat (vr_total r)) rows = replicate 2 12 @ replicate 180 1000 @ map (\<lambda>n. 200 * n) [1..<9] \<and>
    (\<forall>r \<in> set rows. 0 < unat (vr_faults r) \<and> unat (vr_faults r) \<le> unat (vr_total r) \<and>
       vr_rate_pct r = real (unat (vr_faults r)) / real (unat (vr_total r)) * 100) \<and>
    unat (vr_faults (rows ! 182)) \<le> 8 \<and> unat (vr_faults (rows ! 183)) \<le> 16"
proof -
  obtain bs where b: "belady_experiment = Inr bs" "length bs = 2" "\<forall>r \<in> set bs. row_ok 12 r"
    using belady_experiment_ok by auto
  obtain fs where f: "frames_experiment ord draw coin seeded = Inr fs" "length fs = 180" "\<forall>r \<in> set fs. row_ok 1000 r"
    using frames_experiment_ok [OF draws ord] by blast
  obtain ts where t: "thrash_experiment draw coin seeded = Inr ts" "length ts = 8" "\<And>i. i < 8 \<Longrightarrow> row_ok (200 * (i + 1)) (ts ! i)"
    "\<And>i. i < 2 \<Longrightarrow> unat (vr_faults (ts ! i)) \<le> 8 * (i + 1)"
    using thrash_experiment_ok [OF draws, of coin seeded] by auto
  let ?n = "\<lambda>r. unat (vr_total r)"
  have "map ?n bs = replicate 2 12" "map ?n fs = replicate 180 1000"
    using b(2,3) f(2,3) by (intro replicate_eqI; force simp: row_ok_def)+
  moreover have "map ?n ts = map (\<lambda>n. 200 * n) [1..<9]"
    using t(2,3) by (intro nth_equalityI) (simp_all add: row_ok_def del: upt_rec_numeral)
  ultimately have totals: "map ?n (bs @ fs @ ts) = replicate 2 12 @ replicate 180 1000 @ map (\<lambda>n. 200 * n) [1..<9]" by simp
  have each: "0 < unat (vr_faults r) \<and> unat (vr_faults r) \<le> ?n r \<and> vr_rate_pct r = real (unat (vr_faults r)) / real (?n r) * 100"
    if "r \<in> set (bs @ fs @ ts)" for r
  proof -
    have "\<exists>n. row_ok n r" if "r \<in> set ts" using that t(2,3) by (metis in_set_conv_nth)
    then have "\<exists>n. row_ok n r" using that b(3) f(3) by auto
    then show ?thesis by (auto simp: row_ok_def)
  qed
  have "(bs @ fs @ ts) ! 182 = ts ! 0" "(bs @ fs @ ts) ! 183 = ts ! 1" using b(2) f(2) by (simp_all add: nth_append)
  then have "unat (vr_faults ((bs @ fs @ ts) ! 182)) \<le> 8" "unat (vr_faults ((bs @ fs @ ts) ! 183)) \<le> 16"
    using t(4) [of 0] t(4) [of 1] by simp_all
  moreover have "vm_sim_rows ord draw coin seeded = Inr (bs @ fs @ ts)" unfolding vm_sim_rows_def b(1) f(1) t(1) by simp
  ultimately show ?thesis using totals each by blast
qed

theorem vm_sim_rows_sound_witness:
  "\<exists>rows. vm_sim_rows (\<lambda>n. rev) draw_hi (\<lambda>g. (0, g)) (\<lambda>seed. ()) = Inr rows \<and> unat (vr_faults (rows ! 183)) \<le> 16"
  using vm_sim_rows_sound [OF draw_hi_range, of "\<lambda>n. rev" "\<lambda>g. (0, g)" "\<lambda>seed. ()"] by (simp add: visits_set_def) blast

text \<open>A trace of fewer than four accesses makes the generator divide by zero.\<close>

lemma gen_locality_short:
  "0 < n \<Longrightarrow> n < 4 \<Longrightarrow> gen_locality draw coin seeded pages n ws seed = Inl Undefined"
  by (auto simp: gen_locality_def word_less_nat_alt unat_div unat_eq_0 [symmetric])

end
