(* ===== verification/DemoCore.thy ===== *)
theory DemoCore
  imports SchedSimProofs EventLog
begin

text \<open>
  The part that the two trace generators \<^verbatim>\<open>visualizer_demo.cpp\<close> and \<^verbatim>\<open>contiguous_demo.cpp\<close> have in
  common, in the same words: the processes, the round-robin queue, the running pointer, the list of
  processes waiting for IO and the trace.  What happens to the memory of a process that terminates is
  the argument \<open>finish\<close>; the locale \<open>terminates\<close> says what the rest of the loop relies on.  The phases
  are related to those of the simulator of \<open>SchedSim\<close> under the policy \<open>RR\<close> with free context
  switches, which gives the demos its invariants and its bound on the running time.
\<close>

record demo =
  dm_trace :: TraceWriter
  dm_sched :: RoundRobin
  dm_procs :: "Process list"
  dm_tick :: u32
  dm_running :: "nat option"
  dm_ran :: u32
  dm_io :: "(nat \<times> u32) list"

definition demo_log :: "u32 \<Rightarrow> string \<Rightarrow> nat \<Rightarrow> (string \<times> string) list \<Rightarrow> 'a demo_scheme \<Rightarrow> 'a demo_scheme" where
  "demo_log tick type i flds d =
     d\<lparr>dm_trace := trace_log (sint tick) type (p_pid (dm_procs d ! i)) flds (dm_trace d)\<rparr>"

definition demo_put :: "nat \<Rightarrow> Process \<Rightarrow> 'a demo_scheme \<Rightarrow> 'a demo_scheme" where
  "demo_put i p d = d\<lparr>dm_procs := (dm_procs d)[i := p]\<rparr>"

definition num32 :: "u32 \<Rightarrow> string" where
  "num32 n = trace_num (uint n)"

definition do_enqueue :: "nat \<Rightarrow> bool \<Rightarrow> 'a demo_scheme \<Rightarrow> 'a demo_scheme" where
  "do_enqueue i preempted d =
     (let d1 = demo_put i ((dm_procs d ! i)\<lparr>p_state := Ready\<rparr>) d;
          d2 = d1\<lparr>dm_sched := RR_add i (dm_sched d1)\<rparr>
      in if preempted then demo_log (dm_tick d2) ''process_ready'' i [(''reason'', trace_str ''preempted'')] d2
         else demo_log (dm_tick d2) ''process_ready'' i [] d2)"

text \<open>
  When \<open>advance_burst\<close> returns true there is a current burst, so the null case of \<open>current_burst\<close> is
  not reached.
\<close>

definition io_finished ::
  "(nat \<Rightarrow> u32 \<Rightarrow> 'a demo_scheme \<Rightarrow> 'a demo_scheme) \<Rightarrow> nat \<Rightarrow> 'a demo_scheme \<Rightarrow> 'a demo_scheme" where
  "io_finished finish i d =
     (let d1 = demo_log (dm_tick d) ''io_ack'' i [] d;
          (more, p) = advance_burst (dm_procs d1 ! i)
      in if more then
           do_enqueue i False
             (demo_put i (case current_burst p of Some b \<Rightarrow> p\<lparr>p_burst_remaining := b_ticks b\<rparr> | None \<Rightarrow> p) d1)
         else finish i (dm_tick d1) (demo_put i p d1))"

fun io_pass ::
  "(nat \<Rightarrow> u32 \<Rightarrow> 'a demo_scheme \<Rightarrow> 'a demo_scheme) \<Rightarrow> (nat \<times> u32) list \<Rightarrow> (nat \<times> u32) list \<Rightarrow>
     'a demo_scheme \<Rightarrow> 'a demo_scheme" where
  "io_pass finish kept [] d = d\<lparr>dm_io := kept\<rparr>"
| "io_pass finish kept ((i, n) # ws) d =
     (if n - 1 = 0 then io_pass finish kept ws (io_finished finish i d)
      else io_pass finish (kept @ [(i, n - 1)]) ws d)"

definition demo_preempt :: "'a demo_scheme \<Rightarrow> 'a demo_scheme" where
  "demo_preempt d =
     (case dm_running d of
        Some i \<Rightarrow>
          if RR_should_preempt (dm_ran d) (dm_sched d)
          then (do_enqueue i True d)\<lparr>dm_running := None, dm_ran := 0\<rparr> else d
      | None \<Rightarrow> d)"

definition demo_schedule :: "'a demo_scheme \<Rightarrow> 'a demo_scheme" where
  "demo_schedule d =
     (case dm_running d of
        Some i \<Rightarrow> d
      | None \<Rightarrow>
          (case RR_pick_next (dm_sched d) of
             (Some i, s) \<Rightarrow>
               demo_log (dm_tick d) ''process_scheduled'' i
                 [(''burstIndex'', trace_num (int (p_cur_burst (dm_procs d ! i))))]
                 (d\<lparr>dm_sched := s, dm_running := Some i, dm_ran := 0\<rparr>)
           | (None, s) \<Rightarrow> d\<lparr>dm_sched := s\<rparr>))"

definition burst_done ::
  "(nat \<Rightarrow> u32 \<Rightarrow> 'a demo_scheme \<Rightarrow> 'a demo_scheme) \<Rightarrow> nat \<Rightarrow> 'a demo_scheme \<Rightarrow> 'a demo_scheme" where
  "burst_done finish i d =
     (case advance_burst (dm_procs d ! i) of
        (True, p) \<Rightarrow>
          (case current_burst p of
             Some nb \<Rightarrow>
               let p1 = p\<lparr>p_burst_remaining := b_ticks nb\<rparr>; d1 = demo_put i p1 d in
               if b_type nb = IO then
                 let d2 = demo_put i (p1\<lparr>p_state := Waiting\<rparr>)
                            (demo_log (dm_tick d1 + 1) ''io_requested'' i [(''ioTicks'', num32 (b_ticks nb))] d1)
                 in d2\<lparr>dm_io := dm_io d2 @ [(i, b_ticks nb)], dm_running := None, dm_ran := 0\<rparr>
               else d1
           | None \<Rightarrow> demo_put i p d)
      | (False, p) \<Rightarrow>
          (finish i (dm_tick d + 1) (demo_put i p d))\<lparr>dm_running := None, dm_ran := 0\<rparr>)"

definition cpu_step ::
  "(nat \<Rightarrow> u32 \<Rightarrow> 'a demo_scheme \<Rightarrow> 'a demo_scheme) \<Rightarrow> nat \<Rightarrow> 'a demo_scheme \<Rightarrow> 'a demo_scheme" where
  "cpu_step finish i d =
     (let p = dm_procs d ! i;
          run_for = min (p_burst_remaining p) (rr_quantum (dm_sched d) - dm_ran d);
          d1 = demo_log (dm_tick d) ''cpu_run'' i
                 [(''ticks'', num32 run_for), (''remaining'', num32 (p_burst_remaining p - 1))] d;
          p1 = p\<lparr>p_burst_remaining := p_burst_remaining p - 1\<rparr>;
          d2 = (demo_put i p1 d1)\<lparr>dm_ran := dm_ran d1 + 1\<rparr>
      in if p_burst_remaining p1 = 0 then burst_done finish i d2 else d2)"

subsection \<open>The demos and the scheduler simulator\<close>

text \<open>
  In the demos the process on the CPU keeps the state \<open>Ready\<close>; the simulator says \<open>Running\<close> and
  keeps more statistics.
\<close>

definition proc_rel :: "Process \<Rightarrow> Process \<Rightarrow> bool" where
  "proc_rel p q \<longleftrightarrow> p_pid p = p_pid q \<and> p_name p = p_name q \<and> p_arrival p = p_arrival q \<and> p_mem_bytes p = p_mem_bytes q \<and>
     p_bursts p = p_bursts q \<and> p_cur_burst p = p_cur_burst q \<and> p_burst_remaining p = p_burst_remaining q \<and>
     p_state p = (if p_state q = Running then Ready else p_state q)"

definition demo_rel :: "'a demo_scheme \<Rightarrow> RoundRobin sim \<Rightarrow> bool" where
  "demo_rel d st \<longleftrightarrow> list_all2 proc_rel (dm_procs d) (sm_procs st) \<and> dm_sched d = sm_sched st \<and> dm_tick d = sm_tick st \<and>
     dm_running d = sm_running st \<and> dm_ran d = sm_ran_ticks st \<and> dm_io d = sm_waiting st"

locale terminates =
  fixes finish :: "nat \<Rightarrow> u32 \<Rightarrow> 'a demo_scheme \<Rightarrow> 'a demo_scheme"
  assumes finish_procs: "dm_procs (finish i t d) = (dm_procs d)[i := (dm_procs d ! i)\<lparr>p_state := Terminated\<rparr>]"
    and finish_frame: "dm_sched (finish i t d) = dm_sched d" "dm_tick (finish i t d) = dm_tick d"
      "dm_running (finish i t d) = dm_running d" "dm_ran (finish i t d) = dm_ran d" "dm_io (finish i t d) = dm_io d"

lemma demo_frame [simp]:
  "dm_procs (demo_log t s i f d) = dm_procs d" "dm_sched (demo_log t s i f d) = dm_sched d"
  "dm_tick (demo_log t s i f d) = dm_tick d" "dm_running (demo_log t s i f d) = dm_running d"
  "dm_ran (demo_log t s i f d) = dm_ran d" "dm_io (demo_log t s i f d) = dm_io d"
  "demo.more (demo_log t s i f d) = demo.more d"
  "dm_procs (demo_put i p d) = (dm_procs d)[i := p]" "dm_sched (demo_put i p d) = dm_sched d"
  "dm_tick (demo_put i p d) = dm_tick d" "dm_running (demo_put i p d) = dm_running d"
  "dm_ran (demo_put i p d) = dm_ran d" "dm_io (demo_put i p d) = dm_io d"
  "demo.more (demo_put i p d) = demo.more d"
  by (simp_all add: demo_log_def demo_put_def)

lemma do_enqueue_sel [simp]:
  "dm_procs (do_enqueue i b d) = (dm_procs d)[i := (dm_procs d ! i)\<lparr>p_state := Ready\<rparr>]"
  "dm_sched (do_enqueue i b d) = RR_add i (dm_sched d)" "dm_tick (do_enqueue i b d) = dm_tick d"
  "dm_running (do_enqueue i b d) = dm_running d" "dm_ran (do_enqueue i b d) = dm_ran d" "dm_io (do_enqueue i b d) = dm_io d"
  "demo.more (do_enqueue i b d) = demo.more d"
  by (simp_all add: do_enqueue_def Let_def)

lemma demo_rel_nth: "demo_rel d st \<Longrightarrow> i < length (sm_procs st) \<Longrightarrow> proc_rel (dm_procs d ! i) (sm_procs st ! i)"
  by (auto simp: demo_rel_def list_all2_conv_all_nth)

lemma demo_rel_length: "demo_rel d st \<Longrightarrow> length (dm_procs d) = length (sm_procs st)"
  by (auto simp: demo_rel_def dest: list_all2_lengthD)

lemma list_rel_update: "list_all2 R xs ys \<Longrightarrow> R x y \<Longrightarrow> list_all2 R (xs[i := x]) (ys[i := y])"
  by (simp add: list_all2_update_cong)

lemma RR_sel [simp]: "sc_add RR ps = RR_add" "sc_pick_next RR ps = RR_pick_next" "sc_should_preempt RR ps i = RR_should_preempt"
  by (simp_all add: RR_def)

lemma do_enqueue_rel:
  "demo_rel d st \<Longrightarrow> i < length (sm_procs st) \<Longrightarrow> demo_rel (do_enqueue i b d) (enqueue RR i st)"
  using demo_rel_nth [of d st i]
  by (auto simp: demo_rel_def enqueue_def Let_def proc_rel_def intro!: list_rel_update)

lemma preempt_rel:
  assumes "demo_rel d st" "\<forall>i. sm_running st = Some i \<longrightarrow> i < length (sm_procs st)"
  shows "demo_rel (demo_preempt d) (preempt_check RR st)"
proof (cases "sm_running st")
  case (Some i)
  then have "demo_rel (do_enqueue i True d) (enqueue RR i st)" using assms by (simp add: do_enqueue_rel)
  then show ?thesis using Some assms by (auto simp: demo_rel_def demo_preempt_def preempt_check_def)
qed (use assms in \<open>auto simp: demo_rel_def demo_preempt_def preempt_check_def\<close>)

lemma schedule_rel:
  assumes "demo_rel d st" "cost_ticks cs = 0" "\<forall>i \<in> set (rr_q (sm_sched st)). i < length (sm_procs st) \<and> p_state (sm_procs st ! i) = Ready"
  shows "demo_rel (demo_schedule d) (dispatch RR cs st)"
proof (cases "sm_running st")
  case None
  note none = None
  show ?thesis
  proof (cases "RR_pick_next (sm_sched st)")
    case (Pair x s)
    show ?thesis
    proof (cases x)
      case (Some i)
      then have i: "i < length (sm_procs st)" "p_state (sm_procs st ! i) = Ready"
        using Pair assms(3) by (auto simp: RR_pick_next_def split: if_splits)
      have "proc_rel (dm_procs d ! i) (on_cpu (sm_tick st) (sm_procs st ! i))"
        using demo_rel_nth [OF assms(1) i(1)] i(2) by (simp add: proc_rel_def on_cpu_def)
      then have "list_all2 proc_rel ((dm_procs d)[i := dm_procs d ! i]) ((sm_procs st)[i := on_cpu (sm_tick st) (sm_procs st ! i)])"
        using assms(1) by (intro list_rel_update) (auto simp: demo_rel_def)
      moreover have "sm_ran_ticks (switch_to cs i (st\<lparr>sm_sched := s\<rparr>)) = 0" by (simp add: switch_to_def Let_def)
      ultimately show ?thesis using assms(1,2) none Pair Some
        by (simp add: demo_rel_def demo_schedule_def dispatch_def)
    qed (use assms(1) none Pair in \<open>simp add: demo_rel_def demo_schedule_def dispatch_def\<close>)
  qed
qed (use assms(1) in \<open>simp add: demo_rel_def demo_schedule_def dispatch_def\<close>)

lemma advance_rel:
  assumes "proc_rel p q" "advance_burst p = (m, p')" "advance_burst q = (m', q')"
  shows "m = m'" "proc_rel p' q'"
  using assms by (auto simp: advance_burst_def proc_rel_def Let_def split: if_splits)

context terminates
begin

lemma io_finished_rel:
  assumes rel: "demo_rel d st" and i: "i < length (sm_procs st)" and w: "p_state (sm_procs st ! i) = Waiting"
  shows "demo_rel (io_finished finish i d) (io_done RR i st)"
proof -
  obtain m p where a: "advance_burst (dm_procs d ! i) = (m, p)" by fastforce
  obtain m' q where b: "advance_burst (sm_procs st ! i) = (m', q)" by fastforce
  note r = advance_rel [OF demo_rel_nth [OF rel i] a b]
  have len: "i < length (dm_procs d)" using i demo_rel_length [OF rel] by simp
  have qs: "p_state q = Waiting" using b w by (auto simp: advance_burst_def Let_def split: if_splits)
  show ?thesis
  proof (cases m)
    case True
    let ?p = "case current_burst p of Some b \<Rightarrow> p\<lparr>p_burst_remaining := b_ticks b\<rparr> | None \<Rightarrow> p"
    let ?q = "case current_burst q of Some b \<Rightarrow> q\<lparr>p_burst_remaining := b_ticks b\<rparr> | None \<Rightarrow> q"
    have "proc_rel ?p ?q" using r(2) by (auto simp: proc_rel_def current_burst_def)
    then have "demo_rel (demo_put i ?p (demo_log (dm_tick d) ''io_ack'' i [] d)) (set_proc i ?q st)"
      using rel by (auto simp: demo_rel_def intro!: list_rel_update)
    from do_enqueue_rel [OF this, of i False] i show ?thesis
      using True r(1) a b by (simp add: io_finished_def io_done_def Let_def)
  next
    case False
    have "proc_rel (p\<lparr>p_state := Terminated\<rparr>) (q\<lparr>p_state := Terminated, p_finish := sm_tick st\<rparr>)"
      using r(2) by (auto simp: proc_rel_def)
    then show ?thesis using False r(1) a b rel len
      by (auto simp: io_finished_def io_done_def Let_def demo_rel_def finish_procs finish_frame intro!: list_rel_update)
  qed
qed

lemma io_pass_rel:
  assumes "demo_rel d st" "\<forall>i \<in> fst ` set ws. i < length (sm_procs st) \<and> p_state (sm_procs st ! i) = Waiting" "distinct (map fst ws)"
  shows "demo_rel (io_pass finish kept ws d) (io_loop RR kept ws st)"
  using assms
proof (induction ws arbitrary: kept d st)
  case Nil
  then show ?case by (auto simp: demo_rel_def)
next
  case (Cons w ws)
  obtain i n where w: "w = (i, n)" by fastforce
  show ?case
  proof (cases "n - 1 = 0")
    case True
    have i: "i < length (sm_procs st)" "p_state (sm_procs st ! i) = Waiting" using Cons.prems(2) w by auto
    have "demo_rel (io_finished finish i d) (io_done RR i st)" by (rule io_finished_rel [OF Cons.prems(1) i])
    moreover have "length (sm_procs (io_done RR i st)) = length (sm_procs st)"
      "j \<noteq> i \<Longrightarrow> sm_procs (io_done RR i st) ! j = sm_procs st ! j" for j
      by (auto simp: io_done_def Let_def split: prod.split)
    ultimately show ?thesis
      using Cons.IH [of "io_finished finish i d" "io_done RR i st" kept] Cons.prems(2,3) True w by force
  next
    case False
    then show ?thesis using Cons.IH [OF Cons.prems(1)] Cons.prems(2,3) w by simp
  qed
qed

lemma burst_done_rel:
  assumes rel: "demo_rel d st" and i: "i < length (sm_procs st)"
    and b: "current_burst (sm_procs st ! i) = Some cb" "b_type cb = CPU"
  shows "demo_rel (burst_done finish i d) (burst_complete i st)"
proof -
  let ?p = "dm_procs d ! i" and ?q = "sm_procs st ! i"
  have len: "i < length (dm_procs d)" using i demo_rel_length [OF rel] by simp
  obtain m p2 where a: "advance_burst ?p = (m, p2)" by fastforce
  obtain m' q2 where a': "advance_burst ?q = (m', q2)" by fastforce
  note r = advance_rel [OF demo_rel_nth [OF rel i] a a']
  show ?thesis
  proof (cases m)
    case False
    have "proc_rel (p2\<lparr>p_state := Terminated\<rparr>) (q2\<lparr>p_state := Terminated, p_finish := sm_tick st + 1\<rparr>)"
      using r(2) by (auto simp: proc_rel_def)
    then show ?thesis using False a a' r(1) rel b len
      by (auto simp: burst_done_def burst_complete_def demo_rel_def finish_procs finish_frame intro!: list_rel_update)
  next
    case more: True
    have c: "current_burst p2 = current_burst q2" using r(2) by (auto simp: current_burst_def proc_rel_def)
    show ?thesis
    proof (cases "current_burst q2")
      case None
      then show ?thesis using more a a' r rel b c
        by (auto simp: burst_done_def burst_complete_def demo_rel_def intro!: list_rel_update)
    next
      case (Some nb)
      have "proc_rel (p2\<lparr>p_burst_remaining := b_ticks nb\<rparr>) (q2\<lparr>p_burst_remaining := b_ticks nb\<rparr>)"
        "proc_rel (p2\<lparr>p_burst_remaining := b_ticks nb, p_state := Waiting\<rparr>) (q2\<lparr>p_burst_remaining := b_ticks nb, p_state := Waiting\<rparr>)"
        using r(2) by (auto simp: proc_rel_def)
      then show ?thesis using more a a' r(1) rel b c Some
        by (auto simp: burst_done_def burst_complete_def demo_rel_def Let_def intro!: list_rel_update)
    qed
  qed
qed

lemma cpu_step_rel:
  assumes rel: "demo_rel d st" and run: "sm_running st = Some i" and i: "i < length (sm_procs st)"
    and b: "current_burst (sm_procs st ! i) = Some cb" "b_type cb = CPU"
  shows "demo_rel (cpu_step finish i d) (run_one_tick st)"
proof -
  define p where "p = (dm_procs d ! i)\<lparr>p_burst_remaining := p_burst_remaining (dm_procs d ! i) - 1\<rparr>"
  define q where "q = (sm_procs st ! i)\<lparr>p_burst_remaining := p_burst_remaining (sm_procs st ! i) - 1\<rparr>"
  have pq: "proc_rel p q" using demo_rel_nth [OF rel i] by (auto simp: proc_rel_def p_def q_def)
  define st1 where "st1 = (set_proc i q st)\<lparr>sm_useful_ticks := sm_useful_ticks st + 1, sm_ran_ticks := sm_ran_ticks st + 1\<rparr>"
  define d1 where "d1 = demo_log (dm_tick d) ''cpu_run'' i
      [(''ticks'', num32 (min (p_burst_remaining (dm_procs d ! i)) (rr_quantum (dm_sched d) - dm_ran d))),
       (''remaining'', num32 (p_burst_remaining (dm_procs d ! i) - 1))] d"
  define d2 where "d2 = (demo_put i p d1)\<lparr>dm_ran := dm_ran d1 + 1\<rparr>"
  have cs: "cpu_step finish i d = (if p_burst_remaining p = 0 then burst_done finish i d2 else d2)"
    unfolding cpu_step_def Let_def d2_def d1_def p_def ..
  have tick: "run_one_tick st = (if p_burst_remaining q = 0 then burst_complete i st1 else st1)"
    using run by (simp add: run_one_tick_def Let_def q_def st1_def)
  have rel2: "demo_rel d2 st1" using rel pq by (auto simp: demo_rel_def st1_def d2_def d1_def intro!: list_rel_update)
  have "p_burst_remaining p = p_burst_remaining q" using pq by (simp add: proc_rel_def)
  moreover have "demo_rel (burst_done finish i d2) (burst_complete i st1)"
    using i b by (intro burst_done_rel [OF rel2, of i cb]) (simp_all add: st1_def q_def current_burst_def split: if_splits)
  ultimately show ?thesis using cs tick rel2 by simp
qed

end

subsection \<open>The phases keep the invariants of the simulator\<close>

abbreviation rr_placed :: "RoundRobin sim \<Rightarrow> bool" where
  "rr_placed st \<equiv> in_places (\<lambda>ps s. True) (\<lambda>s. mset (rr_q s)) (sm_waiting st) st"

definition coupled :: "'a demo_scheme \<Rightarrow> RoundRobin sim \<Rightarrow> bool" where
  "coupled d st \<longleftrightarrow> demo_rel d st \<and> jobs_ok (sm_waiting st) st \<and> rr_placed st"

abbreviation free_cs :: CsModel where
  "free_cs \<equiv> \<lparr>cost_ticks = 0, warmup_ticks = 0, warmup_denom = 1\<rparr>"

lemma queue_ready:
  assumes "rr_placed st" "i \<in> set (rr_q (sm_sched st))"
  shows "i < length (sm_procs st)" "p_state (sm_procs st ! i) = Ready"
proof -
  have "mset (rr_q (sm_sched st)) = mset_set (procs_in Ready (sm_procs st))" using assms(1) by (simp add: in_places_def)
  then have "i \<in> procs_in Ready (sm_procs st)"
    using assms(2) by (metis finite_procs_in finite_set_mset_mset_set set_mset_mset)
  then show "i < length (sm_procs st)" "p_state (sm_procs st ! i) = Ready" by (simp_all add: procs_in_def)
qed

lemma waiting_once:
  assumes "rr_placed st"
  shows "distinct (map fst (sm_waiting st))"
    "\<forall>i \<in> fst ` set (sm_waiting st). i < length (sm_procs st) \<and> p_state (sm_procs st ! i) = Waiting"
proof -
  have m: "mset (map fst (sm_waiting st)) = mset_set (procs_in Waiting (sm_procs st))" using assms by (simp add: in_places_def)
  have s: "set (map fst (sm_waiting st)) = procs_in Waiting (sm_procs st)"
    by (metis m finite_procs_in finite_set_mset_mset_set set_mset_mset)
  then have "length (map fst (sm_waiting st)) = card (set (map fst (sm_waiting st)))"
    by (metis m size_mset size_mset_set)
  then show "distinct (map fst (sm_waiting st))" by (metis card_distinct)
  show "\<forall>i \<in> fst ` set (sm_waiting st). i < length (sm_procs st) \<and> p_state (sm_procs st ! i) = Waiting"
    using s by (auto simp: procs_in_def)
qed

lemma coupled_enqueue:
  assumes "coupled d st" "i < length (sm_procs st)" "p_state (sm_procs st ! i) = New"
  shows "coupled (do_enqueue i b d) (enqueue RR i st)"
    "remaining (sm_waiting (enqueue RR i st)) (enqueue RR i st) = remaining (sm_waiting st) st"
proof -
  have w: "sm_waiting (enqueue RR i st) = sm_waiting st" by simp
  have p: "rr_placed st" using assms(1) by (simp add: coupled_def)
  have "i \<notin> procs_in Waiting (sm_procs st)" "i \<notin> procs_in Running (sm_procs st)"
    using assms(3) by (auto simp: procs_in_def)
  then have "rr_placed (enqueue RR i st)"
    using rr.enqueue_places [of st i] assms(2,3) p by (auto simp: in_places_def procs_in_update)
  moreover have "jobs_ok (sm_waiting st) (enqueue RR i st)" "remaining (sm_waiting st) (enqueue RR i st) = remaining (sm_waiting st) st"
    using enqueue_work [of "sm_waiting st" st i RR] assms by (simp_all add: coupled_def)
  ultimately show "coupled (do_enqueue i b d) (enqueue RR i st)"
    "remaining (sm_waiting (enqueue RR i st)) (enqueue RR i st) = remaining (sm_waiting st) st"
    using do_enqueue_rel [of d st i b] assms by (simp_all add: coupled_def)
qed

lemma coupled_preempt:
  assumes "coupled d st"
  shows "coupled (demo_preempt d) (preempt_check RR st)"
    "remaining (sm_waiting (preempt_check RR st)) (preempt_check RR st) = remaining (sm_waiting st) st"
proof -
  have w: "sm_waiting (preempt_check RR st) = sm_waiting st" by (simp add: preempt_check_def split: option.split)
  have c: "rr_placed st" "jobs_ok (sm_waiting st) st" "demo_rel d st" using assms by (simp_all add: coupled_def)
  have "demo_rel (demo_preempt d) (preempt_check RR st)"
    by (rule preempt_rel [OF c(3)]) (use rr.running_lt [OF c(1)] in auto)
  then show "coupled (demo_preempt d) (preempt_check RR st)"
    "remaining (sm_waiting (preempt_check RR st)) (preempt_check RR st) = remaining (sm_waiting st) st"
    using rr.preempt_places [OF c(1)] rr.preempt_work [OF c(2,1)] w by (simp_all add: coupled_def)
qed

lemma coupled_schedule:
  assumes "coupled d st"
  shows "coupled (demo_schedule d) (dispatch RR free_cs st)"
    "remaining (sm_waiting (dispatch RR free_cs st)) (dispatch RR free_cs st) = remaining (sm_waiting st) st"
    "sm_running (dispatch RR free_cs st) = None \<longleftrightarrow> sm_running st = None \<and> procs_in Ready (sm_procs st) = {}"
    "sm_waiting (dispatch RR free_cs st) = sm_waiting st"
proof -
  show w: "sm_waiting (dispatch RR free_cs st) = sm_waiting st" by (auto simp: dispatch_def split: option.split prod.split)
  have c: "rr_placed st" "jobs_ok (sm_waiting st) st" "demo_rel d st" using assms by (simp_all add: coupled_def)
  have "demo_rel (demo_schedule d) (dispatch RR free_cs st)"
    by (rule schedule_rel [OF c(3)]) (use queue_ready [OF c(1)] in auto)
  then show "coupled (demo_schedule d) (dispatch RR free_cs st)"
    "remaining (sm_waiting (dispatch RR free_cs st)) (dispatch RR free_cs st) = remaining (sm_waiting st) st"
    "sm_running (dispatch RR free_cs st) = None \<longleftrightarrow> sm_running st = None \<and> procs_in Ready (sm_procs st) = {}"
    using rr.dispatch_places [OF c(1), of free_cs] rr.dispatch_work [OF c(2,1), of free_cs] w by (simp_all add: coupled_def)
qed

context terminates
begin

lemma coupled_io:
  assumes "coupled d st"
  shows "coupled (io_pass finish [] (dm_io d) d) (io_completions RR st)"
    "remaining (sm_waiting (io_completions RR st)) (io_completions RR st) + length (sm_waiting st) = remaining (sm_waiting st) st"
proof -
  have c: "rr_placed st" "jobs_ok (sm_waiting st) st" "demo_rel d st" using assms by (simp_all add: coupled_def)
  have "demo_rel (io_pass finish [] (dm_io d) d) (io_completions RR st)"
    using io_pass_rel [OF c(3) waiting_once(2) [OF c(1)] waiting_once(1) [OF c(1)], of "[]"] c(3)
    by (simp add: io_completions_def demo_rel_def)
  then show "coupled (io_pass finish [] (dm_io d) d) (io_completions RR st)"
    "remaining (sm_waiting (io_completions RR st)) (io_completions RR st) + length (sm_waiting st) = remaining (sm_waiting st) st"
    using rr.io_completions_places [OF c(1)] rr.io_completions_work [OF c(2,1)] by (simp_all add: coupled_def)
qed

lemma coupled_cpu:
  assumes "coupled d st" "dm_running d = Some i"
  shows "coupled (cpu_step finish i d) (run_one_tick st)" "i < length (sm_procs st)"
    "remaining (sm_waiting (run_one_tick st)) (run_one_tick st) + 1 = remaining (sm_waiting st) st"
proof -
  have c: "rr_placed st" "jobs_ok (sm_waiting st) st" "demo_rel d st" using assms by (simp_all add: coupled_def)
  have run: "sm_running st = Some i" using assms(2) c(3) by (simp add: demo_rel_def)
  note i = rr.running_lt [OF c(1) run]
  have p: "proc_ok (sm_procs st ! i)" using jobs_ok_nth [OF c(2) i(1)] .
  then have cur: "current_burst (sm_procs st ! i) = Some (p_bursts (sm_procs st ! i) ! p_cur_burst (sm_procs st ! i))"
    "b_type (p_bursts (sm_procs st ! i) ! p_cur_burst (sm_procs st ! i)) = CPU"
    using i(2) by (auto simp: proc_ok_def current_burst_def wf_bursts_def)
  show "coupled (cpu_step finish i d) (run_one_tick st)" "i < length (sm_procs st)"
    "remaining (sm_waiting (run_one_tick st)) (run_one_tick st) + 1 = remaining (sm_waiting st) st"
    using cpu_step_rel [OF c(3) run i(1) cur] rr.run_one_tick_places [OF c(1)] run_one_tick_work [OF c(2) run i(1,2)] i(1)
    by (simp_all add: coupled_def)
qed

end

subsection \<open>Memory along the phases\<close>

text \<open>
  What the memory of a demo may depend on: for each process its number, its memory request, its arrival and
  whether it is new, active or terminated.  An invariant of this kind that \<open>finish\<close> keeps is kept by
  every phase.
\<close>

datatype stage = Fresh | Active | Gone

definition stage :: "Process \<Rightarrow> stage" where
  "stage p = (case p_state p of New \<Rightarrow> Fresh | Terminated \<Rightarrow> Gone | _ \<Rightarrow> Active)"

abbreviation asks :: "Process \<Rightarrow> u32 \<times> u32" where
  "asks p \<equiv> (p_mem_bytes p, p_arrival p)"

definition life :: "Process \<Rightarrow> int \<times> (u32 \<times> u32) \<times> stage" where
  "life p = (p_pid p, asks p, stage p)"

definition lives :: "'a demo_scheme \<Rightarrow> (int \<times> (u32 \<times> u32) \<times> stage) list" where
  "lives d = map life (dm_procs d)"

lemma lives_put: "i < length (dm_procs d) \<Longrightarrow> life p = life (dm_procs d ! i) \<Longrightarrow> lives (demo_put i p d) = lives d"
  by (simp add: lives_def map_update list_update_same_conv)

lemma lives_frame [simp]:
  "lives (demo_log t s i f d) = lives d" "lives (d\<lparr>dm_running := x\<rparr>) = lives d" "lives (d\<lparr>dm_ran := r\<rparr>) = lives d"
  "lives (d\<lparr>dm_io := w\<rparr>) = lives d" "lives (d\<lparr>dm_sched := s'\<rparr>) = lives d" "lives (d\<lparr>dm_tick := t\<rparr>) = lives d"
  by (simp_all add: lives_def)

lemma lives_enqueue:
  "i < length (dm_procs d) \<Longrightarrow> stage (dm_procs d ! i) = Active \<Longrightarrow> lives (do_enqueue i b d) = lives d"
  by (simp add: lives_def map_update list_update_same_conv life_def stage_def)

lemma life_advance: "advance_burst p = (m, q) \<Longrightarrow> life q = life p \<and> p_state q = p_state p"
  by (auto simp: advance_burst_def life_def stage_def Let_def split: if_splits)

locale demo_memory = terminates +
  fixes minv :: "'a demo_scheme \<Rightarrow> bool"
  assumes minv_cong: "minv d \<Longrightarrow> lives d' = lives d \<Longrightarrow> demo.more d' = demo.more d \<Longrightarrow> minv d'"
    and minv_finish: "minv d \<Longrightarrow> i < length (dm_procs d) \<Longrightarrow> stage (dm_procs d ! i) = Active \<Longrightarrow> minv (finish i t d)"
begin

lemma minv_put: "minv d \<Longrightarrow> i < length (dm_procs d) \<Longrightarrow> life p = life (dm_procs d ! i) \<Longrightarrow> minv (demo_put i p d)"
  by (rule minv_cong [of d]) (simp_all add: lives_put)

lemma minv_frame:
  "minv d \<Longrightarrow> minv (demo_log t s i f d)" "minv d \<Longrightarrow> minv (d\<lparr>dm_running := x\<rparr>)" "minv d \<Longrightarrow> minv (d\<lparr>dm_ran := r\<rparr>)"
  "minv d \<Longrightarrow> minv (d\<lparr>dm_io := w\<rparr>)" "minv d \<Longrightarrow> minv (d\<lparr>dm_sched := s'\<rparr>)" "minv d \<Longrightarrow> minv (d\<lparr>dm_tick := t'\<rparr>)"
  by (rule minv_cong [of d]; simp)+

lemma minv_enqueue: "minv d \<Longrightarrow> i < length (dm_procs d) \<Longrightarrow> stage (dm_procs d ! i) = Active \<Longrightarrow> minv (do_enqueue i b d)"
  by (rule minv_cong [of d]) (simp_all add: lives_enqueue)

lemma minv_end:
  assumes "minv d" "i < length (dm_procs d)" "life p = life (dm_procs d ! i)" "stage (dm_procs d ! i) = Active"
  shows "minv (finish i t (demo_put i p d))"
  using minv_finish [OF minv_put [OF assms(1-3)], of i t] assms(2,3,4) by (simp add: life_def)

lemma minv_io_finished:
  assumes "minv d" "i < length (dm_procs d)" "p_state (dm_procs d ! i) = Waiting"
  shows "minv (io_finished finish i d)"
proof -
  obtain m p where a: "advance_burst (dm_procs d ! i) = (m, p)" by fastforce
  have l: "life p = life (dm_procs d ! i)" "p_state p = Waiting" using life_advance [OF a] assms(3) by simp_all
  have act: "stage (dm_procs d ! i) = Active" using assms(3) by (simp add: stage_def)
  let ?d = "demo_log (dm_tick d) ''io_ack'' i [] d"
  let ?p = "case current_burst p of Some b \<Rightarrow> p\<lparr>p_burst_remaining := b_ticks b\<rparr> | None \<Rightarrow> p"
  have lp: "life ?p = life (dm_procs ?d ! i)" using l(1) by (simp add: life_def stage_def split: option.split)
  have m0: "minv ?d" by (rule minv_frame(1) [OF assms(1)])
  have "minv (do_enqueue i False (demo_put i ?p ?d))"
    by (rule minv_enqueue [OF minv_put [OF m0 _ lp]]) (use assms(2) lp act in \<open>simp_all add: life_def\<close>)
  moreover have "minv (finish i (dm_tick d) (demo_put i p ?d))"
    by (rule minv_end [OF m0]) (use assms(2) l act in simp_all)
  ultimately show ?thesis using a by (simp add: io_finished_def Let_def)
qed

lemma io_finished_others:
  "length (dm_procs (io_finished finish i d)) = length (dm_procs d)"
  "j \<noteq> i \<Longrightarrow> dm_procs (io_finished finish i d) ! j = dm_procs d ! j"
  by (auto simp: io_finished_def Let_def finish_procs split: prod.split)

lemma minv_io_pass:
  assumes "minv d" "\<forall>i \<in> fst ` set ws. i < length (dm_procs d) \<and> p_state (dm_procs d ! i) = Waiting" "distinct (map fst ws)"
  shows "minv (io_pass finish kept ws d)"
  using assms
proof (induction ws arbitrary: kept d)
  case Nil
  then show ?case by (simp add: minv_frame)
next
  case (Cons w ws)
  obtain i n where w: "w = (i, n)" by fastforce
  show ?case
  proof (cases "n - 1 = 0")
    case True
    have "minv (io_finished finish i d)" using Cons.prems(1,2) w by (intro minv_io_finished) auto
    moreover have "\<forall>j \<in> fst ` set ws. j < length (dm_procs (io_finished finish i d)) \<and>
        p_state (dm_procs (io_finished finish i d) ! j) = Waiting"
      using Cons.prems(2,3) w io_finished_others by (metis (no_types, lifting) distinct.simps(2) fst_conv image_set
          insert_iff list.simps(15) list.simps(9))
    ultimately show ?thesis using Cons.IH [of "io_finished finish i d" kept] Cons.prems(3) True w by simp
  next
    case False
    then show ?thesis using Cons.IH [OF Cons.prems(1)] Cons.prems(2,3) w by simp
  qed
qed

lemma minv_io:
  assumes "minv d" "coupled d st"
  shows "minv (io_pass finish [] (dm_io d) d)"
proof (rule minv_io_pass [OF assms(1)])
  have c: "rr_placed st" "demo_rel d st" using assms(2) by (simp_all add: coupled_def)
  show "\<forall>i \<in> fst ` set (dm_io d). i < length (dm_procs d) \<and> p_state (dm_procs d ! i) = Waiting"
    using waiting_once(2) [OF c(1)] c(2) demo_rel_length [OF c(2)] demo_rel_nth [OF c(2)]
    by (auto simp: demo_rel_def proc_rel_def)
  show "distinct (map fst (dm_io d))" using waiting_once(1) [OF c(1)] c(2) by (simp add: demo_rel_def)
qed

lemma running_active:
  assumes "coupled d st" "dm_running d = Some i"
  shows "i < length (dm_procs d)" "stage (dm_procs d ! i) = Active" "p_state (dm_procs d ! i) = Ready"
proof -
  have c: "rr_placed st" "demo_rel d st" using assms(1) by (simp_all add: coupled_def)
  have "sm_running st = Some i" using assms(2) c(2) by (simp add: demo_rel_def)
  note i = rr.running_lt [OF c(1) this]
  then show "i < length (dm_procs d)" "p_state (dm_procs d ! i) = Ready"
    using demo_rel_length [OF c(2)] demo_rel_nth [OF c(2) i(1)] by (simp_all add: proc_rel_def)
  then show "stage (dm_procs d ! i) = Active" by (simp add: stage_def)
qed

lemma minv_preempt: "minv d \<Longrightarrow> coupled d st \<Longrightarrow> minv (demo_preempt d)"
  using running_active [of d st]
  by (auto simp: demo_preempt_def intro!: minv_frame(2,3) minv_enqueue split: option.split)

lemma minv_schedule: "minv d \<Longrightarrow> minv (demo_schedule d)"
  by (auto simp: demo_schedule_def intro!: minv_cong [of d] split: option.split prod.split)

lemma minv_burst_done:
  assumes "minv d" "i < length (dm_procs d)" "stage (dm_procs d ! i) = Active"
  shows "minv (burst_done finish i d)"
proof -
  obtain m p where a: "advance_burst (dm_procs d ! i) = (m, p)" by fastforce
  have l: "life p = life (dm_procs d ! i)" using life_advance [OF a] by simp
  then have act: "stage p = Active" using assms(3) by (simp add: life_def)
  have "minv (finish i (dm_tick d + 1) (demo_put i p d))" by (rule minv_end [OF assms(1,2) l assms(3)])
  then have "minv ((finish i (dm_tick d + 1) (demo_put i p d))\<lparr>dm_running := None, dm_ran := 0\<rparr>)"
    by (rule minv_frame(3) [OF minv_frame(2)])
  moreover have "minv (demo_put i p d)" by (rule minv_put [OF assms(1,2) l])
  moreover have "minv (demo_put i (p\<lparr>p_burst_remaining := n\<rparr>) d)" for n
    by (rule minv_put [OF assms(1,2)]) (use l in \<open>simp add: life_def stage_def\<close>)
  moreover have "minv ((demo_put i (p\<lparr>p_burst_remaining := n, p_state := Waiting\<rparr>)
      (demo_log t s i f (demo_put i (p\<lparr>p_burst_remaining := n\<rparr>) d)))\<lparr>dm_io := w, dm_running := None, dm_ran := 0\<rparr>)" for n t s f w
  proof (rule minv_cong [OF assms(1)])
    have "life (p\<lparr>p_burst_remaining := n\<rparr>) = life (dm_procs d ! i)" using l by (simp add: life_def stage_def)
    moreover have "life (p\<lparr>p_burst_remaining := n, p_state := Waiting\<rparr>) = life (dm_procs d ! i)"
      using l act by (simp add: life_def stage_def)
    ultimately show "lives ((demo_put i (p\<lparr>p_burst_remaining := n, p_state := Waiting\<rparr>)
      (demo_log t s i f (demo_put i (p\<lparr>p_burst_remaining := n\<rparr>) d)))\<lparr>dm_io := w, dm_running := None, dm_ran := 0\<rparr>) = lives d"
      using assms(2) by (simp add: lives_put)
  qed simp
  ultimately show ?thesis using a
    by (auto simp: burst_done_def Let_def split: bool.split option.split)
qed

lemma minv_cpu:
  assumes "minv d" "i < length (dm_procs d)" "stage (dm_procs d ! i) = Active"
  shows "minv (cpu_step finish i d)"
proof -
  let ?p = "(dm_procs d ! i)\<lparr>p_burst_remaining := p_burst_remaining (dm_procs d ! i) - 1\<rparr>"
  have "minv ((demo_put i ?p (demo_log t s i f d))\<lparr>dm_ran := r\<rparr>)" for t s f r
    by (rule minv_frame(3) [OF minv_put [OF minv_frame(1) [OF assms(1)]]]) (use assms(2) in \<open>simp_all add: life_def stage_def\<close>)
  note m = this
  have "minv (burst_done finish i ((demo_put i ?p (demo_log t s i f d))\<lparr>dm_ran := r\<rparr>))" for t s f r
    by (rule minv_burst_done [OF m]) (use assms(2,3) in \<open>simp_all add: stage_def\<close>)
  note b = this
  show ?thesis unfolding cpu_step_def Let_def by (split if_split) (intro conjI impI b m)
qed

end

subsection \<open>What the clients of the phases share\<close>

definition alive :: "'a demo_scheme \<Rightarrow> int set" where
  "alive d = {pid. \<exists>m s. (pid, m, s) \<in> set (lives d) \<and> s \<noteq> Gone}"

lemma alive_finish:
  assumes "distinct (map fst (lives d))" "i < length (dm_procs d)"
    "dm_procs e = (dm_procs d)[i := (dm_procs d ! i)\<lparr>p_state := Terminated\<rparr>]"
  shows "alive e = alive d - {p_pid (dm_procs d ! i)}" "map fst (lives e) = map fst (lives d)"
proof -
  let ?p = "dm_procs d ! i"
  have l: "lives e = (lives d)[i := (p_pid ?p, asks ?p, Gone)]"
    by (simp add: lives_def assms(3) map_update life_def stage_def)
  have i: "i < length (lives d)" "lives d ! i = life ?p" using assms(2) by (simp_all add: lives_def)
  then show m: "map fst (lives e) = map fst (lives d)"
    by (simp add: l map_update list_update_same_conv life_def)
  show "alive e = alive d - {p_pid ?p}"
  proof (intro set_eqI iffI)
    fix q assume "q \<in> alive e"
    then obtain m s k where k: "k < length (lives d)" "lives e ! k = (q, m, s)" "s \<noteq> Gone"
      by (auto simp: alive_def in_set_conv_nth l)
    then have "k \<noteq> i" using i l by auto
    moreover from this have "lives d ! k = (q, m, s)" using k l by simp
    moreover have "map fst (lives d) ! k \<noteq> map fst (lives d) ! i"
      using assms(1) k(1) i(1) \<open>k \<noteq> i\<close> nth_eq_iff_index_eq [of "map fst (lives d)" k i] by simp
    ultimately show "q \<in> alive d - {p_pid ?p}"
      using k(1,3) i nth_mem [OF k(1)] by (cases m) (auto simp: alive_def life_def)
  next
    fix q assume q: "q \<in> alive d - {p_pid ?p}"
    then obtain m s k where k: "k < length (lives d)" "lives d ! k = (q, m, s)" "s \<noteq> Gone"
      by (auto simp: alive_def in_set_conv_nth)
    then have "k \<noteq> i" using q i by (auto simp: life_def)
    then have "lives e ! k = (q, m, s)" using k l by simp
    then have "(q, m, s) \<in> set (lives e)" using k(1) nth_mem [of k "lives e"] by (simp add: l)
    then show "q \<in> alive e" using k(3) unfolding alive_def by blast
  qed
qed

lemma alive_pid:
  assumes "i < length (dm_procs d)" "stage (dm_procs d ! i) \<noteq> Gone"
  shows "p_pid (dm_procs d ! i) \<in> alive d"
proof -
  have "life (dm_procs d ! i) \<in> set (lives d)" using assms(1) by (simp add: lives_def)
  then show ?thesis using assms(2) by (auto simp: alive_def life_def)
qed

definition same_run :: "'a demo_scheme \<Rightarrow> 'a demo_scheme \<Rightarrow> bool" where
  "same_run d d' \<longleftrightarrow> dm_procs d' = dm_procs d \<and> dm_sched d' = dm_sched d \<and> dm_tick d' = dm_tick d \<and>
     dm_running d' = dm_running d \<and> dm_ran d' = dm_ran d \<and> dm_io d' = dm_io d"

lemma same_run_log [simp]: "same_run d (demo_log t s i f e) \<longleftrightarrow> same_run d e"
  by (simp add: same_run_def)

lemma same_run_refl [simp]: "same_run d d"
  by (simp add: same_run_def)

lemma coupled_log [simp]: "coupled (demo_log t s i f d) st \<longleftrightarrow> coupled d st"
  by (simp add: coupled_def demo_rel_def)

lemma coupled_same: "coupled d st \<Longrightarrow> same_run d d' \<Longrightarrow> coupled d' st"
  by (simp add: coupled_def demo_rel_def same_run_def)

lemma stage_enqueue_new: "stage p = Fresh \<Longrightarrow> stage (p\<lparr>p_state := Ready\<rparr>) = Active"
  by (simp add: stage_def)

lemma coupled_tick: "coupled d st \<Longrightarrow> coupled (d\<lparr>dm_tick := dm_tick d + 1\<rparr>) (st\<lparr>sm_tick := sm_tick st + 1\<rparr>)"
  by (simp add: coupled_def demo_rel_def)

lemma all_done_rel: "demo_rel d st \<Longrightarrow> all_done (dm_procs d) \<longleftrightarrow> all_done (sm_procs st)"
  using demo_rel_nth [of d st] demo_rel_length [of d st]
  by (fastforce simp: all_done_states proc_rel_def split: if_splits)

text \<open>The start of a demo is the start of the simulator on the same processes.\<close>

lemma start_coupled:
  assumes d: "dm_sched d = RoundRobin_new q" "dm_procs d = ps" "dm_tick d = 0" "dm_running d = None" "dm_ran d = 0" "dm_io d = []"
    and ps: "\<forall>p \<in> set ps. proc_rel p (reset_process p) \<and> wf_bursts (p_bursts p) \<and> later 0 (p_bursts p) \<le> W \<and> unat (p_arrival p) \<le> A"
    and st: "st = sim_init (RoundRobin_new q) ps"
  shows "coupled d st" "due_by A st" "sm_waiting st = []" "remaining [] st \<le> length ps * W"
proof -
  have wf: "\<forall>p \<in> set ps. wf_bursts (p_bursts p)" "\<forall>p \<in> set ps. unat (p_arrival p) \<le> A" "\<forall>p \<in> set ps. later 0 (p_bursts p) \<le> W"
    using ps by auto
  show w: "sm_waiting st = []" by (simp add: st sim_init_def)
  have "demo_rel d st" using d ps by (auto simp: demo_rel_def st sim_init_def list_all2_conv_all_nth)
  moreover have "rr_placed st" using rr.sim_init_placed [of "RoundRobin_new q" ps] by (simp add: st fresh_policies)
  moreover have work: "jobs_ok [] st" "remaining [] st = sum_list (map (\<lambda>p. later 0 (p_bursts p)) ps)"
    using sim_init_work [OF wf(1), of "RoundRobin_new q"] by (simp_all add: st)
  ultimately show "coupled d st" by (simp add: coupled_def w)
  show "due_by A st" unfolding st by (rule sim_init_due [OF wf(2)])
  have "sum_list (map (\<lambda>p. later 0 (p_bursts p)) ps) \<le> length ps * W" using wf(3) by (induction ps) auto
  then show "remaining [] st \<le> length ps * W" by (simp add: work)
qed

end
