(* ===== verification/VisualizerDemo.thy ===== *)
theory VisualizerDemo
  imports DemoCore
begin

text \<open>
  \<^verbatim>\<open>memlab/sim/visualizer_demo.cpp\<close>: round-robin scheduling of processes that touch one virtual
  page per tick, with a TLB, a page table, 32 frames and replacement in the order of allocation.
  The generator \<open>std::mt19937\<close> is a parameter: \<open>rng\<close> draws a number and \<open>draw\<close> a number of
  \<open>uniform_int_distribution<int>(lo, hi)\<close>, both returning the next state of the generator.
\<close>

subsection \<open>The virtual memory system\<close>

record SegmentInfo =
  sg_name :: string
  sg_base_vpn :: u32
  sg_num_pages :: u32

record TLBEntry =
  tl_pid :: int
  tl_vpn :: u32
  tl_pfn :: u32
  tl_segment :: string
  tl_valid :: bool

record PageTableEntry =
  pe_pfn :: u32
  pe_valid :: bool
  pe_segment :: string

abbreviation NUM_PHYSICAL_FRAMES :: nat where
  "NUM_PHYSICAL_FRAMES \<equiv> 32"

abbreviation TLB_SIZE :: nat where
  "TLB_SIZE \<equiv> 8"

text \<open>\<open>vs_tlb_idx\<close> is the static variable of \<open>update_tlb\<close>.\<close>

record VirtualMemorySystem =
  fr_owner :: "int list"
  fr_vpn :: "u32 list"
  fr_segment :: "string list"
  fr_fifo :: "u32 list"
  pg_table :: "int \<times> u32 \<rightharpoonup> PageTableEntry"
  tl_entries :: "TLBEntry list"
  tl_next :: nat

definition VirtualMemorySystem_new :: VirtualMemorySystem where
  "VirtualMemorySystem_new = \<lparr>fr_owner = replicate NUM_PHYSICAL_FRAMES (- 1), fr_vpn = replicate NUM_PHYSICAL_FRAMES 0,
     fr_segment = replicate NUM_PHYSICAL_FRAMES [], fr_fifo = [], pg_table = Map.empty,
     tl_entries = replicate TLB_SIZE \<lparr>tl_pid = - 1, tl_vpn = 0, tl_pfn = 0, tl_segment = [], tl_valid = False\<rparr>, tl_next = 0\<rparr>"

definition find_free_frame :: "VirtualMemorySystem \<Rightarrow> nat option" where
  "find_free_frame v = List.find (\<lambda>i. fr_owner v ! i = - 1) [0..<NUM_PHYSICAL_FRAMES]"

definition lookup_tlb :: "int \<Rightarrow> u32 \<Rightarrow> VirtualMemorySystem \<Rightarrow> u32 option" where
  "lookup_tlb pid vpn v =
     map_option tl_pfn (List.find (\<lambda>e. tl_valid e \<and> tl_pid e = pid \<and> tl_vpn e = vpn) (tl_entries v))"

definition update_tlb :: "int \<Rightarrow> u32 \<Rightarrow> u32 \<Rightarrow> string \<Rightarrow> VirtualMemorySystem \<Rightarrow> VirtualMemorySystem" where
  "update_tlb pid vpn pfn seg v =
     v\<lparr>tl_entries := (tl_entries v)[tl_next v :=
          \<lparr>tl_pid = pid, tl_vpn = vpn, tl_pfn = pfn, tl_segment = seg, tl_valid = True\<rparr>],
       tl_next := (tl_next v + 1) mod TLB_SIZE\<rparr>"

definition invalidate_tlb_for_pid :: "int \<Rightarrow> VirtualMemorySystem \<Rightarrow> VirtualMemorySystem" where
  "invalidate_tlb_for_pid pid v =
     v\<lparr>tl_entries := map (\<lambda>e. if tl_pid e = pid then e\<lparr>tl_valid := False\<rparr> else e) (tl_entries v)\<rparr>"

definition invalidate_tlb_for_pfn :: "u32 \<Rightarrow> VirtualMemorySystem \<Rightarrow> VirtualMemorySystem" where
  "invalidate_tlb_for_pfn pfn v =
     v\<lparr>tl_entries := map (\<lambda>e. if tl_pfn e = pfn then e\<lparr>tl_valid := False\<rparr> else e) (tl_entries v)\<rparr>"

text \<open>Replacement: what is recorded about the evicted frame is dropped (\<open>operator[]\<close> of a map creates a missing entry).\<close>

definition evict_frame :: "u32 \<Rightarrow> u32 list \<Rightarrow> VirtualMemorySystem \<Rightarrow> VirtualMemorySystem" where
  "evict_frame f rest v =
     (let key = (fr_owner v ! unat f, fr_vpn v ! unat f);
          e = (case pg_table v key of Some e \<Rightarrow> e | None \<Rightarrow> \<lparr>pe_pfn = 0, pe_valid = False, pe_segment = []\<rparr>)
      in invalidate_tlb_for_pfn f (v\<lparr>fr_fifo := rest, pg_table := (pg_table v)(key \<mapsto> e\<lparr>pe_valid := False\<rparr>)\<rparr>))"

definition load_frame :: "int \<Rightarrow> u32 \<Rightarrow> string \<Rightarrow> u32 \<Rightarrow> VirtualMemorySystem \<Rightarrow> VirtualMemorySystem" where
  "load_frame pid vpn seg f v =
     update_tlb pid vpn f seg
       (v\<lparr>fr_owner := (fr_owner v)[unat f := pid], fr_vpn := (fr_vpn v)[unat f := vpn],
          fr_segment := (fr_segment v)[unat f := seg], fr_fifo := fr_fifo v @ [f],
          pg_table := (pg_table v)((pid, vpn) \<mapsto> \<lparr>pe_pfn = f, pe_valid = True, pe_segment = seg\<rparr>)\<rparr>)"

subsection \<open>The phases of a tick\<close>

record 'g viz = demo +
  vz_vm :: VirtualMemorySystem
  vz_segments :: "int \<Rightarrow> SegmentInfo list"
  vz_rng :: 'g

definition free_frame :: "nat \<Rightarrow> u32 \<Rightarrow> nat \<Rightarrow> 'g viz \<Rightarrow> 'g viz" where
  "free_frame i t pfn d =
     (if fr_owner (vz_vm d) ! pfn = p_pid (dm_procs d ! i)
      then demo_log t ''page_freed'' i [(''pfn'', trace_num (int pfn))]
             (d\<lparr>vz_vm := (vz_vm d)\<lparr>fr_owner := (fr_owner (vz_vm d))[pfn := - 1]\<rparr>\<rparr>)
      else d)"

definition viz_finish :: "nat \<Rightarrow> u32 \<Rightarrow> 'g viz \<Rightarrow> 'g viz" where
  "viz_finish i t d =
     (let d1 = fold (free_frame i t) [0..<NUM_PHYSICAL_FRAMES] d;
          d2 = d1\<lparr>vz_vm := invalidate_tlb_for_pid (p_pid (dm_procs d1 ! i)) (vz_vm d1)\<rparr>;
          d3 = demo_log t ''process_terminated'' i [] d2
      in demo_put i ((dm_procs d3 ! i)\<lparr>p_state := Terminated\<rparr>) d3)"

definition viz_created :: "nat \<Rightarrow> 'g viz \<Rightarrow> 'g viz" where
  "viz_created i d =
     (let p = dm_procs d ! i;
          d1 = demo_log (dm_tick d) ''process_created'' i
                 [(''name'', trace_str (p_name p)), (''memoryRequest'', num32 (p_mem_bytes p)), (''numPages'', trace_num 10)] d
      in fold (\<lambda>seg. demo_log (dm_tick d) ''segment_created'' i
           [(''segment'', trace_str (sg_name seg)), (''base_vpn'', num32 (sg_base_vpn seg)),
            (''num_pages'', num32 (sg_num_pages seg))]) (vz_segments d (p_pid p)) d1)"

definition viz_arrive :: "nat \<Rightarrow> 'g viz \<Rightarrow> 'g viz" where
  "viz_arrive i d =
     (if p_state (dm_procs d ! i) = New \<and> p_arrival (dm_procs d ! i) = dm_tick d
      then do_enqueue i False (viz_created i d) else d)"

definition viz_arrivals :: "'g viz \<Rightarrow> 'g viz" where
  "viz_arrivals d = fold viz_arrive [0..<length (dm_procs d)] d"

definition viz_io :: "'g viz \<Rightarrow> 'g viz" where
  "viz_io d = io_pass viz_finish [] (dm_io d) d"

definition viz_load :: "nat \<Rightarrow> u32 \<Rightarrow> string \<Rightarrow> u32 \<Rightarrow> 'g viz \<Rightarrow> 'g viz" where
  "viz_load i vpn seg f d =
     demo_log (dm_tick d) ''page_allocated'' i
       [(''vpn'', num32 vpn), (''pfn'', num32 f), (''segment'', trace_str seg)]
       (d\<lparr>vz_vm := load_frame (p_pid (dm_procs d ! i)) vpn seg f (vz_vm d)\<rparr>)"

text \<open>\<open>front()\<close> of an empty queue, and an index outside the frame vectors, are undefined.\<close>

definition page_fault :: "nat \<Rightarrow> u32 \<Rightarrow> u32 \<Rightarrow> string \<Rightarrow> 'g viz \<Rightarrow> 'g viz result" where
  "page_fault i vpn vaddr seg d =
     (let d1 = demo_log (dm_tick d) ''page_fault'' i
                 [(''vpn'', num32 vpn), (''segment'', trace_str seg), (''vaddr'', num32 vaddr)] d
      in case find_free_frame (vz_vm d1) of
           Some f \<Rightarrow> Inr (viz_load i vpn seg (of_nat f) d1)
         | None \<Rightarrow>
             (case fr_fifo (vz_vm d1) of
                [] \<Rightarrow> Inl Undefined
              | f # rest \<Rightarrow>
                  if unat f < length (fr_owner (vz_vm d1)) then
                    let evicted_pid = fr_owner (vz_vm d1) ! unat f; evicted_vpn = fr_vpn (vz_vm d1) ! unat f;
                        d2 = d1\<lparr>vz_vm := evict_frame f rest (vz_vm d1)\<rparr>;
                        d3 = demo_log (dm_tick d) ''page_evicted'' i
                               [(''evicted_pid'', trace_num evicted_pid), (''evicted_vpn'', num32 evicted_vpn), (''pfn'', num32 f)] d2
                    in Inr (viz_load i vpn seg f d3)
                  else Inl Undefined))"

definition access_page :: "nat \<Rightarrow> u32 \<Rightarrow> u32 \<Rightarrow> string \<Rightarrow> 'g viz \<Rightarrow> 'g viz result" where
  "access_page i vpn vaddr seg d =
     (let pid = p_pid (dm_procs d ! i) in
      case lookup_tlb pid vpn (vz_vm d) of
        Some pfn \<Rightarrow>
          Inr (demo_log (dm_tick d) ''tlb_hit'' i
            [(''vpn'', num32 vpn), (''pfn'', num32 pfn), (''segment'', trace_str seg), (''vaddr'', num32 vaddr)] d)
      | None \<Rightarrow>
          (let d1 = demo_log (dm_tick d) ''tlb_miss'' i [(''vpn'', num32 vpn), (''segment'', trace_str seg)] d in
           case pg_table (vz_vm d1) (pid, vpn) of
             Some e \<Rightarrow>
               if pe_valid e then
                 Inr (demo_log (dm_tick d) ''page_table_hit'' i [(''vpn'', num32 vpn), (''pfn'', num32 (pe_pfn e))]
                   (d1\<lparr>vz_vm := update_tlb pid vpn (pe_pfn e) seg (vz_vm d1)\<rparr>))
               else page_fault i vpn vaddr seg d1
           | None \<Rightarrow> page_fault i vpn vaddr seg d1))"

text \<open>A remainder by zero is undefined: no segment, or a segment without pages.\<close>

definition viz_access :: "('g \<Rightarrow> u32 \<times> 'g) \<Rightarrow> nat \<Rightarrow> 'g viz \<Rightarrow> 'g viz result" where
  "viz_access rng i d =
     (let segs = vz_segments d (p_pid (dm_procs d ! i)) in
      if segs = [] then Inl Undefined
      else let target_seg = segs ! (unat (dm_tick d + of_int (p_pid (dm_procs d ! i))) mod length segs) in
           if sg_num_pages target_seg = 0 then Inl Undefined
           else let (r1, g1) = rng (vz_rng d);
                    target_vpn = sg_base_vpn target_seg + r1 mod sg_num_pages target_seg;
                    (r2, g2) = rng g1;
                    target_vaddr = target_vpn * 4096 + r2 mod 1024
                in access_page i target_vpn target_vaddr (sg_name target_seg) (d\<lparr>vz_rng := g2\<rparr>))"

definition viz_step :: "('g \<Rightarrow> u32 \<times> 'g) \<Rightarrow> 'g viz \<Rightarrow> 'g viz result" where
  "viz_step rng d =
     (let d1 = demo_schedule (demo_preempt (viz_io (viz_arrivals d)));
          r = (case dm_running d1 of
                 None \<Rightarrow> Inr d1
               | Some i \<Rightarrow> map_sum id (cpu_step viz_finish i) (viz_access rng i d1))
      in map_sum id (\<lambda>d2. d2\<lparr>dm_tick := dm_tick d2 + 1\<rparr>) r)"

partial_function (option) viz_loop :: "('g \<Rightarrow> u32 \<times> 'g) \<Rightarrow> 'g viz \<Rightarrow> 'g viz result option" where
  "viz_loop rng d =
     (if \<not> all_done (dm_procs d) \<and> dm_tick d < 1000
      then (case viz_step rng d of Inl e \<Rightarrow> Some (Inl e) | Inr d' \<Rightarrow> viz_loop rng d')
      else Some (Inr d))"

subsection \<open>The workload of main\<close>

type_synonym 'g int_dist = "'g \<Rightarrow> int \<Rightarrow> int \<Rightarrow> int \<times> 'g"

definition viz_names :: "string list" where
  "viz_names = [''init'', ''shell'', ''compiler'', ''browser'', ''logger'', ''db_worker'', ''net_daemon'', ''renderer'']"

definition viz_segment_table :: "SegmentInfo list" where
  "viz_segment_table =
     [\<lparr>sg_name = ''Code'', sg_base_vpn = 0, sg_num_pages = 2\<rparr>, \<lparr>sg_name = ''Data'', sg_base_vpn = 2, sg_num_pages = 2\<rparr>,
      \<lparr>sg_name = ''Heap'', sg_base_vpn = 4, sg_num_pages = 4\<rparr>, \<lparr>sg_name = ''Stack'', sg_base_vpn = 8, sg_num_pages = 2\<rparr>]"

text \<open>CPU bursts of \<open>clo\<close> to \<open>chi\<close> ticks with IO bursts of \<open>ilo\<close> to \<open>ihi\<close> ticks between them, drawn in the order of the list.\<close>

fun drawn_bursts :: "'g int_dist \<Rightarrow> int \<Rightarrow> int \<Rightarrow> int \<Rightarrow> int \<Rightarrow> nat \<Rightarrow> 'g \<Rightarrow> Burst list \<times> 'g" where
  "drawn_bursts draw clo chi ilo ihi 0 g = ([], g)"
| "drawn_bursts draw clo chi ilo ihi (Suc left) g =
     (let (cpu, g1) = draw g clo chi; b = \<lparr>b_type = CPU, b_ticks = of_int cpu\<rparr> in
      if left = 0 then ([b], g1)
      else let (io, g2) = draw g1 ilo ihi; (bs, g3) = drawn_bursts draw clo chi ilo ihi left g2
           in (b # \<lparr>b_type = IO, b_ticks = of_int io\<rparr> # bs, g3))"

definition viz_bursts :: "'g int_dist \<Rightarrow> nat \<Rightarrow> 'g \<Rightarrow> Burst list \<times> 'g" where
  "viz_bursts draw numBursts g = drawn_bursts draw 3 7 2 5 numBursts g"

definition viz_process :: "'g int_dist \<Rightarrow> ('g \<Rightarrow> u32 \<times> 'g) \<Rightarrow> nat \<Rightarrow> 'g \<Rightarrow> Process \<times> 'g" where
  "viz_process draw rng i g =
     (let (arr, g1) = draw g 0 8;
          (r, g2) = rng g1;
          (bs, g3) = viz_bursts draw (unat (r mod 3) + 2) g2
      in (Process_default\<lparr>p_pid := int i + 1, p_name := viz_names ! i, p_arrival := of_int arr, p_mem_bytes := 10 * 4096,
            p_bursts := bs, p_cur_burst := 0, p_burst_remaining := (if bs = [] then 0 else b_ticks (bs ! 0))\<rparr>, g3))"

fun viz_processes :: "'g int_dist \<Rightarrow> ('g \<Rightarrow> u32 \<times> 'g) \<Rightarrow> nat list \<Rightarrow> 'g \<Rightarrow> Process list \<times> 'g" where
  "viz_processes draw rng [] g = ([], g)"
| "viz_processes draw rng (i # js) g =
     (let (p, g1) = viz_process draw rng i g; (ps, g2) = viz_processes draw rng js g1 in (p # ps, g2))"

definition viz_init :: "'g int_dist \<Rightarrow> ('g \<Rightarrow> u32 \<times> 'g) \<Rightarrow> 'g \<Rightarrow> 'g viz" where
  "viz_init draw rng seed =
     (let (ps, g) = viz_processes draw rng [0..<8] seed
      in \<lparr>dm_trace = TraceWriter_new, dm_sched = RoundRobin_new 4, dm_procs = ps, dm_tick = 0, dm_running = None,
          dm_ran = 0, dm_io = [], vz_vm = VirtualMemorySystem_new,
          vz_segments = (\<lambda>pid. if pid \<in> p_pid ` set ps then viz_segment_table else []), vz_rng = g\<rparr>)"

definition visualizer_demo :: "'g int_dist \<Rightarrow> ('g \<Rightarrow> u32 \<times> 'g) \<Rightarrow> 'g \<Rightarrow> 'g viz result option" where
  "visualizer_demo draw rng seed = viz_loop rng (viz_init draw rng seed)"

subsection \<open>Frames, page table and TLB agree\<close>

text \<open>
  \<open>A\<close> is the set of the processes that have not terminated.  An owned frame is queued for
  replacement and mapped by the page-table entry of the page it frame_holds; a valid entry of the page
  table or of the TLB of a process of \<open>A\<close> names a frame that the process owns and that frame_holds the page.
  (Entries of terminated processes are left in the page table by the code, and may name frames of others.)
\<close>

definition frame_holds :: "VirtualMemorySystem \<Rightarrow> u32 \<Rightarrow> int \<Rightarrow> u32 \<Rightarrow> bool" where
  "frame_holds v f pid vpn \<longleftrightarrow> unat f < NUM_PHYSICAL_FRAMES \<and> fr_owner v ! unat f = pid \<and> fr_vpn v ! unat f = vpn"

definition vm_shape :: "VirtualMemorySystem \<Rightarrow> bool" where
  "vm_shape v \<longleftrightarrow> length (fr_owner v) = NUM_PHYSICAL_FRAMES \<and> length (fr_vpn v) = NUM_PHYSICAL_FRAMES \<and>
     length (fr_segment v) = NUM_PHYSICAL_FRAMES \<and> length (tl_entries v) = TLB_SIZE \<and> tl_next v < TLB_SIZE"

definition trans_ok :: "int set \<Rightarrow> VirtualMemorySystem \<Rightarrow> bool" where
  "trans_ok A v \<longleftrightarrow> vm_shape v \<and> - 1 \<notin> A \<and>
     (\<forall>f \<in> set (fr_fifo v). unat f < NUM_PHYSICAL_FRAMES) \<and>
     (\<forall>f < NUM_PHYSICAL_FRAMES. fr_owner v ! f \<noteq> - 1 \<longrightarrow> fr_owner v ! f \<in> A \<and> of_nat f \<in> set (fr_fifo v)) \<and>
     (\<forall>f < NUM_PHYSICAL_FRAMES. fr_owner v ! f \<noteq> - 1 \<longrightarrow>
        (\<exists>e. pg_table v (fr_owner v ! f, fr_vpn v ! f) = Some e \<and> pe_valid e \<and> pe_pfn e = of_nat f)) \<and>
     (\<forall>pid vpn e. pid \<in> A \<longrightarrow> pg_table v (pid, vpn) = Some e \<longrightarrow> pe_valid e \<longrightarrow> frame_holds v (pe_pfn e) pid vpn) \<and>
     (\<forall>e \<in> set (tl_entries v). tl_valid e \<longrightarrow> tl_pid e \<in> A \<longrightarrow> frame_holds v (tl_pfn e) (tl_pid e) (tl_vpn e))"

lemma trans_okD:
  assumes "trans_ok A v"
  shows "vm_shape v" "- 1 \<notin> A" "f \<in> set (fr_fifo v) \<Longrightarrow> unat f < NUM_PHYSICAL_FRAMES"
    "g < NUM_PHYSICAL_FRAMES \<Longrightarrow> fr_owner v ! g \<noteq> - 1 \<Longrightarrow> fr_owner v ! g \<in> A \<and> of_nat g \<in> set (fr_fifo v)"
    "g < NUM_PHYSICAL_FRAMES \<Longrightarrow> fr_owner v ! g \<noteq> - 1 \<Longrightarrow>
       \<exists>e. pg_table v (fr_owner v ! g, fr_vpn v ! g) = Some e \<and> pe_valid e \<and> pe_pfn e = of_nat g"
    "pid \<in> A \<Longrightarrow> pg_table v (pid, vpn) = Some e \<Longrightarrow> pe_valid e \<Longrightarrow> frame_holds v (pe_pfn e) pid vpn"
    "t \<in> set (tl_entries v) \<Longrightarrow> tl_valid t \<Longrightarrow> tl_pid t \<in> A \<Longrightarrow> frame_holds v (tl_pfn t) (tl_pid t) (tl_vpn t)"
  using assms unfolding trans_ok_def by blast+

lemma trans_okI:
  assumes "vm_shape v" "- 1 \<notin> A" "\<And>f. f \<in> set (fr_fifo v) \<Longrightarrow> unat f < NUM_PHYSICAL_FRAMES"
    "\<And>g. g < NUM_PHYSICAL_FRAMES \<Longrightarrow> fr_owner v ! g \<noteq> - 1 \<Longrightarrow> fr_owner v ! g \<in> A \<and> of_nat g \<in> set (fr_fifo v)"
    "\<And>g. g < NUM_PHYSICAL_FRAMES \<Longrightarrow> fr_owner v ! g \<noteq> - 1 \<Longrightarrow>
       \<exists>e. pg_table v (fr_owner v ! g, fr_vpn v ! g) = Some e \<and> pe_valid e \<and> pe_pfn e = of_nat g"
    "\<And>pid vpn e. pid \<in> A \<Longrightarrow> pg_table v (pid, vpn) = Some e \<Longrightarrow> pe_valid e \<Longrightarrow> frame_holds v (pe_pfn e) pid vpn"
    "\<And>t. t \<in> set (tl_entries v) \<Longrightarrow> tl_valid t \<Longrightarrow> tl_pid t \<in> A \<Longrightarrow> frame_holds v (tl_pfn t) (tl_pid t) (tl_vpn t)"
  shows "trans_ok A v"
  using assms unfolding trans_ok_def by blast

lemma trans_ok_new: "- 1 \<notin> A \<Longrightarrow> trans_ok A VirtualMemorySystem_new"
  by (rule trans_okI) (auto simp: vm_shape_def VirtualMemorySystem_new_def split: if_splits)

lemma small_frame: "f < NUM_PHYSICAL_FRAMES \<Longrightarrow> unat (of_nat f :: u32) = f"
  by (simp add: unat_of_nat)

lemma update_tlb_ok:
  assumes "trans_ok A v" "frame_holds v f pid vpn"
  shows "trans_ok A (update_tlb pid vpn f seg v)"
proof (rule trans_okI)
  let ?v = "update_tlb pid vpn f seg v"
  have frame: "fr_owner ?v = fr_owner v" "fr_vpn ?v = fr_vpn v" "fr_fifo ?v = fr_fifo v" "pg_table ?v = pg_table v"
    by (simp_all add: update_tlb_def)
  show "vm_shape ?v" using trans_okD(1) [OF assms(1)] by (simp add: vm_shape_def update_tlb_def)
  have h: "frame_holds ?v = frame_holds v" by (intro ext) (simp add: frame_holds_def frame)
  show "frame_holds ?v (tl_pfn t) (tl_pid t) (tl_vpn t)" if "t \<in> set (tl_entries ?v)" "tl_valid t" "tl_pid t \<in> A" for t
    using that trans_okD(7) [OF assms(1), of t] assms(2) unfolding h
    by (auto simp: update_tlb_def dest!: subsetD [OF set_update_subset_insert])
qed (use trans_okD(2-6) [OF assms(1)] in \<open>auto simp: update_tlb_def frame_holds_def\<close>)

text \<open>Loading a page into a frame that no entry of a live process names.\<close>

definition frame_unused :: "int set \<Rightarrow> VirtualMemorySystem \<Rightarrow> u32 \<Rightarrow> bool" where
  "frame_unused A v f \<longleftrightarrow> unat f < NUM_PHYSICAL_FRAMES \<and>
     (\<forall>pid vpn e. pid \<in> A \<longrightarrow> pg_table v (pid, vpn) = Some e \<longrightarrow> pe_valid e \<longrightarrow> pe_pfn e \<noteq> f) \<and>
     (\<forall>e \<in> set (tl_entries v). tl_valid e \<longrightarrow> tl_pid e \<in> A \<longrightarrow> tl_pfn e \<noteq> f)"

lemma load_frame_ok:
  assumes ok: "trans_ok A v" and un: "frame_unused A v f" and pid: "pid \<in> A"
    and nopage: "\<And>g. g < NUM_PHYSICAL_FRAMES \<Longrightarrow> g \<noteq> unat f \<Longrightarrow> (fr_owner v ! g, fr_vpn v ! g) \<noteq> (pid, vpn)"
  shows "trans_ok A (load_frame pid vpn seg f v)"
proof -
  define w where "w = v\<lparr>fr_owner := (fr_owner v)[unat f := pid], fr_vpn := (fr_vpn v)[unat f := vpn],
          fr_segment := (fr_segment v)[unat f := seg], fr_fifo := fr_fifo v @ [f],
          pg_table := (pg_table v)((pid, vpn) \<mapsto> \<lparr>pe_pfn = f, pe_valid = True, pe_segment = seg\<rparr>)\<rparr>"
  have f: "unat f < NUM_PHYSICAL_FRAMES" using un by (simp add: frame_unused_def)
  have shape: "vm_shape v" using trans_okD(1) [OF ok] .
  then have own: "fr_owner w ! g = (if g = unat f then pid else fr_owner v ! g)"
    "fr_vpn w ! g = (if g = unat f then vpn else fr_vpn v ! g)" if "g < NUM_PHYSICAL_FRAMES" for g
    using that by (simp_all add: w_def vm_shape_def)
  have new: "frame_holds w f pid vpn" using f own by (simp add: frame_holds_def)
  have keep: "frame_holds w g q u" if "frame_holds v g q u" "g \<noteq> f" for g q u
  proof -
    have "unat g \<noteq> unat f" using that(2) by (auto dest: unsigned_word_eqI)
    then show ?thesis using that(1) own [of "unat g"] by (simp add: frame_holds_def)
  qed
  have "trans_ok A w"
  proof (rule trans_okI)
    show "vm_shape w" using shape by (simp add: vm_shape_def w_def)
    show "- 1 \<notin> A" using trans_okD(2) [OF ok] .
    show "unat g < NUM_PHYSICAL_FRAMES" if "g \<in> set (fr_fifo w)" for g
      using that f trans_okD(3) [OF ok, of g] by (auto simp: w_def)
    show "fr_owner w ! g \<in> A \<and> of_nat g \<in> set (fr_fifo w)" if "g < NUM_PHYSICAL_FRAMES" "fr_owner w ! g \<noteq> - 1" for g
      using that own pid trans_okD(4) [OF ok that(1)] by (auto simp: w_def split: if_splits)
    show "\<exists>e. pg_table w (fr_owner w ! g, fr_vpn w ! g) = Some e \<and> pe_valid e \<and> pe_pfn e = of_nat g"
      if "g < NUM_PHYSICAL_FRAMES" "fr_owner w ! g \<noteq> - 1" for g
    proof (cases "g = unat f")
      case True
      then show ?thesis using own [OF that(1)] by (simp add: w_def)
    next
      case False
      then show ?thesis using own [OF that(1)] nopage [OF that(1) False] trans_okD(5) [OF ok that(1)] that(2) by (auto simp: w_def)
    qed
    show "frame_holds w (pe_pfn e) q u" if "q \<in> A" "pg_table w (q, u) = Some e" "pe_valid e" for q u e
    proof (cases "(q, u) = (pid, vpn)")
      case True
      then show ?thesis using that(2) new by (auto simp: w_def)
    next
      case False
      then have old: "pg_table v (q, u) = Some e" using that(2) by (auto simp: w_def)
      then have "pe_pfn e \<noteq> f" using un that(1,3) by (auto simp: frame_unused_def)
      then show ?thesis using keep trans_okD(6) [OF ok that(1) old that(3)] by blast
    qed
    show "frame_holds w (tl_pfn t) (tl_pid t) (tl_vpn t)" if "t \<in> set (tl_entries w)" "tl_valid t" "tl_pid t \<in> A" for t
    proof -
      have t: "t \<in> set (tl_entries v)" using that(1) by (simp add: w_def)
      then have "tl_pfn t \<noteq> f" using un that(2,3) by (auto simp: frame_unused_def)
      then show ?thesis using keep trans_okD(7) [OF ok t that(2,3)] by blast
    qed
  qed
  from update_tlb_ok [OF this new] show ?thesis by (simp add: load_frame_def w_def)
qed

text \<open>A free frame is unused, and an evicted frame becomes unused; the evicted page loses its entries.\<close>

lemma free_frame_unused:
  assumes "trans_ok A v" "unat f < NUM_PHYSICAL_FRAMES" "fr_owner v ! unat f = - 1"
  shows "frame_unused A v f"
  using assms(2,3) trans_okD(2,6,7) [OF assms(1)] by (fastforce simp: frame_unused_def frame_holds_def)

text \<open>The state after an eviction differs by the owner of the frame from a state in which the frame is free.\<close>

definition evicted :: "u32 \<Rightarrow> u32 list \<Rightarrow> VirtualMemorySystem \<Rightarrow> VirtualMemorySystem" where
  "evicted f rest v = (evict_frame f rest v)\<lparr>fr_owner := (fr_owner v)[unat f := - 1]\<rparr>"

lemma load_after_evict: "load_frame pid vpn seg f (evict_frame f rest v) = load_frame pid vpn seg f (evicted f rest v)"
  by (simp add: evicted_def load_frame_def evict_frame_def invalidate_tlb_for_pfn_def update_tlb_def Let_def)

lemma evicted_ok:
  assumes ok: "trans_ok A v" and q: "fr_fifo v = f # rest" and o: "fr_owner v ! unat f \<noteq> - 1"
  shows "trans_ok A (evicted f rest v)"
proof -
  define w where "w = evicted f rest v"
  have f: "unat f < NUM_PHYSICAL_FRAMES" using trans_okD(3) [OF ok, of f] q by simp
  have shape: "vm_shape v" using trans_okD(1) [OF ok] .
  then have own: "fr_owner w ! g = (if g = unat f then - 1 else fr_owner v ! g)" "fr_vpn w = fr_vpn v"
    if "g < NUM_PHYSICAL_FRAMES" for g
    using that by (simp_all add: w_def evicted_def evict_frame_def invalidate_tlb_for_pfn_def Let_def vm_shape_def)
  obtain e0 where e0: "pg_table v (fr_owner v ! unat f, fr_vpn v ! unat f) = Some e0" "pe_pfn e0 = f"
    using trans_okD(5) [OF ok f o] by auto
  have tab: "pg_table w = (pg_table v)((fr_owner v ! unat f, fr_vpn v ! unat f) \<mapsto> e0\<lparr>pe_valid := False\<rparr>)"
    "fr_fifo w = rest" "tl_entries w = map (\<lambda>e. if tl_pfn e = f then e\<lparr>tl_valid := False\<rparr> else e) (tl_entries v)"
    by (simp_all add: w_def evicted_def evict_frame_def invalidate_tlb_for_pfn_def Let_def e0)
  have keep: "frame_holds w g p u" if h: "frame_holds v g p u" and ne: "(p, u) \<noteq> (fr_owner v ! unat f, fr_vpn v ! unat f) \<or> g \<noteq> f" for g p u
  proof -
    have "unat g \<noteq> unat f" using h ne by (auto simp: frame_holds_def dest: unsigned_word_eqI)
    then show ?thesis using h own [of "unat g"] by (simp add: frame_holds_def)
  qed
  have "trans_ok A w"
  proof (rule trans_okI)
    show "vm_shape w" using shape
      by (simp add: vm_shape_def w_def evicted_def evict_frame_def invalidate_tlb_for_pfn_def Let_def)
    show "- 1 \<notin> A" using trans_okD(2) [OF ok] .
    show "unat g < NUM_PHYSICAL_FRAMES" if "g \<in> set (fr_fifo w)" for g
      using that trans_okD(3) [OF ok, of g] q tab by simp
    show "fr_owner w ! g \<in> A \<and> of_nat g \<in> set (fr_fifo w)" if "g < NUM_PHYSICAL_FRAMES" "fr_owner w ! g \<noteq> - 1" for g
      using that own [OF that(1)] trans_okD(4) [OF ok that(1)] q tab small_frame [OF that(1)] by (auto split: if_splits)
    show "\<exists>e. pg_table w (fr_owner w ! g, fr_vpn w ! g) = Some e \<and> pe_valid e \<and> pe_pfn e = of_nat g"
      if lt: "g < NUM_PHYSICAL_FRAMES" and used: "fr_owner w ! g \<noteq> - 1" for g
    proof -
      have g: "g \<noteq> unat f" "fr_owner v ! g \<noteq> - 1" using used own [OF lt] by (auto split: if_splits)
      obtain e where e: "pg_table v (fr_owner v ! g, fr_vpn v ! g) = Some e" "pe_valid e" "pe_pfn e = of_nat g"
        using trans_okD(5) [OF ok lt g(2)] by auto
      have "(fr_owner v ! g, fr_vpn v ! g) \<noteq> (fr_owner v ! unat f, fr_vpn v ! unat f)"
      proof
        assume "(fr_owner v ! g, fr_vpn v ! g) = (fr_owner v ! unat f, fr_vpn v ! unat f)"
        then have "f = of_nat g" using e(1,3) e0 by simp
        then show False using g(1) small_frame [OF lt] by simp
      qed
      then show ?thesis using e own [OF lt] g(1) tab(1) by auto
    qed
    show "frame_holds w (pe_pfn e) p u" if "p \<in> A" "pg_table w (p, u) = Some e" "pe_valid e" for p u e
    proof -
      have ne: "(p, u) \<noteq> (fr_owner v ! unat f, fr_vpn v ! unat f)" using that(2,3) tab(1) by (auto split: if_splits)
      then have "pg_table v (p, u) = Some e" using that(2) tab(1) by auto
      then show ?thesis using keep ne trans_okD(6) [OF ok that(1) _ that(3)] by blast
    qed
    show "frame_holds w (tl_pfn t) (tl_pid t) (tl_vpn t)" if "t \<in> set (tl_entries w)" "tl_valid t" "tl_pid t \<in> A" for t
      using that tab(3) keep trans_okD(7) [OF ok, of t] by (auto split: if_splits)
  qed
  then show ?thesis by (simp add: w_def)
qed

lemma page_absent:
  assumes "trans_ok A v" "pid \<in> A" "\<And>e. pg_table v (pid, vpn) = Some e \<Longrightarrow> \<not> pe_valid e" "g < NUM_PHYSICAL_FRAMES"
  shows "(fr_owner v ! g, fr_vpn v ! g) \<noteq> (pid, vpn)"
  using trans_okD(2,5) [OF assms(1)] assms(2-4) by (metis prod.inject)

lemma load_free_ok:
  assumes "trans_ok A v" "pid \<in> A" "\<And>e. pg_table v (pid, vpn) = Some e \<Longrightarrow> \<not> pe_valid e"
    "f < NUM_PHYSICAL_FRAMES" "fr_owner v ! f = - 1"
  shows "trans_ok A (load_frame pid vpn seg (of_nat f) v)"
  using assms page_absent [OF assms(1-3)] small_frame [OF assms(4)]
  by (intro load_frame_ok [OF assms(1) free_frame_unused [OF assms(1)] assms(2)]) auto

lemma load_evicted_ok:
  assumes "trans_ok A v" "pid \<in> A" "\<And>e. pg_table v (pid, vpn) = Some e \<Longrightarrow> \<not> pe_valid e"
    "fr_fifo v = f # rest" "fr_owner v ! unat f \<noteq> - 1"
  shows "trans_ok A (load_frame pid vpn seg f (evict_frame f rest v))"
proof -
  have f: "unat f < NUM_PHYSICAL_FRAMES" using trans_okD(3) [OF assms(1), of f] assms(4) by simp
  have len: "length (fr_owner v) = NUM_PHYSICAL_FRAMES" using trans_okD(1) [OF assms(1)] by (simp add: vm_shape_def)
  note ok = evicted_ok [OF assms(1,4,5)]
  have inv: "\<not> pe_valid e" if "pg_table (evicted f rest v) (pid, vpn) = Some e" for e
    using that assms(3) by (auto simp: evicted_def evict_frame_def invalidate_tlb_for_pfn_def Let_def split: if_splits)
  have "fr_owner (evicted f rest v) ! unat f = - 1" using f len by (simp add: evicted_def)
  from load_free_ok [OF ok assms(2) inv f this, where seg = seg] show ?thesis by (simp add: load_after_evict)
qed

lemma all_frames_owned:
  assumes "trans_ok A v" "find_free_frame v = None"
  shows "fr_fifo v \<noteq> []" "f < NUM_PHYSICAL_FRAMES \<Longrightarrow> fr_owner v ! f \<noteq> - 1"
proof -
  have n: "fr_owner v ! f \<noteq> - 1" if "f < NUM_PHYSICAL_FRAMES" for f
    using assms(2) that by (simp add: find_free_frame_def find_None_iff)
  then show "f < NUM_PHYSICAL_FRAMES \<Longrightarrow> fr_owner v ! f \<noteq> - 1" .
  show "fr_fifo v \<noteq> []" using trans_okD(4) [OF assms(1), of 0] n [of 0] by auto
qed

lemma free_pid_ok:
  assumes ok: "trans_ok A v" and pid: "pid \<noteq> - 1"
  shows "trans_ok (A - {pid}) (invalidate_tlb_for_pid pid (v\<lparr>fr_owner := map (\<lambda>x. if x = pid then - 1 else x) (fr_owner v)\<rparr>))"
proof -
  define w where "w = invalidate_tlb_for_pid pid (v\<lparr>fr_owner := map (\<lambda>x. if x = pid then - 1 else x) (fr_owner v)\<rparr>)"
  have shape: "vm_shape v" using trans_okD(1) [OF ok] .
  have own: "fr_owner w ! g = (if fr_owner v ! g = pid then - 1 else fr_owner v ! g)" if "g < NUM_PHYSICAL_FRAMES" for g
    using that shape by (simp add: w_def invalidate_tlb_for_pid_def vm_shape_def)
  have frame: "fr_vpn w = fr_vpn v" "fr_fifo w = fr_fifo v" "pg_table w = pg_table v"
    "tl_entries w = map (\<lambda>e. if tl_pid e = pid then e\<lparr>tl_valid := False\<rparr> else e) (tl_entries v)"
    by (simp_all add: w_def invalidate_tlb_for_pid_def)
  have keep: "p \<noteq> pid \<Longrightarrow> frame_holds v g p u \<Longrightarrow> frame_holds w g p u" for g p u
    using own [of "unat g"] by (simp add: frame_holds_def frame)
  have "trans_ok (A - {pid}) w"
  proof (rule trans_okI)
    show "vm_shape w" using shape by (simp add: vm_shape_def w_def invalidate_tlb_for_pid_def)
    show "frame_holds w (tl_pfn t) (tl_pid t) (tl_vpn t)" if "t \<in> set (tl_entries w)" "tl_valid t" "tl_pid t \<in> A - {pid}" for t
      using that keep trans_okD(7) [OF ok, of t] by (auto simp: frame split: if_splits)
  qed (use own keep trans_okD(2-6) [OF ok] in \<open>auto simp: frame split: if_splits\<close>)
  then show ?thesis by (simp add: w_def)
qed

subsection \<open>The memory along the phases\<close>

definition viz_inv :: "'g viz \<Rightarrow> bool" where
  "viz_inv d \<longleftrightarrow> trans_ok (alive d) (vz_vm d) \<and> distinct (map fst (lives d)) \<and>
     (\<forall>pid \<in> alive d. vz_segments d pid = viz_segment_table)"

lemma viz_more:
  "demo.more d' = demo.more d \<Longrightarrow> vz_vm d' = vz_vm d \<and> vz_segments d' = vz_segments d \<and> vz_rng d' = vz_rng d" for d :: "'g viz"
  by (cases d, cases d') simp

lemma viz_logged [simp]:
  "vz_vm (demo_log t s i f d) = vz_vm d" "vz_segments (demo_log t s i f d) = vz_segments d" "vz_rng (demo_log t s i f d) = vz_rng d"
  "vz_vm (demo_put i p d) = vz_vm d" "vz_segments (demo_put i p d) = vz_segments d" "vz_rng (demo_put i p d) = vz_rng d"
  by (simp_all add: demo_log_def demo_put_def)

lemma free_frames:
  assumes "e = fold (free_frame i t) [0..<n] d" "n \<le> length (fr_owner (vz_vm d))"
  shows "dm_procs e = dm_procs d" "dm_sched e = dm_sched d" "dm_tick e = dm_tick d" "dm_running e = dm_running d"
    "dm_ran e = dm_ran d" "dm_io e = dm_io d" "vz_segments e = vz_segments d" "vz_rng e = vz_rng d"
    "vz_vm e = (vz_vm d)\<lparr>fr_owner := map (\<lambda>x. if x = p_pid (dm_procs d ! i) then - 1 else x) (take n (fr_owner (vz_vm d))) @
       drop n (fr_owner (vz_vm d))\<rparr>"
proof -
  let ?o = "fr_owner (vz_vm d)" and ?p = "p_pid (dm_procs d ! i)"
  have "dm_procs e = dm_procs d \<and> dm_sched e = dm_sched d \<and> dm_tick e = dm_tick d \<and> dm_running e = dm_running d \<and>
    dm_ran e = dm_ran d \<and> dm_io e = dm_io d \<and> vz_segments e = vz_segments d \<and> vz_rng e = vz_rng d \<and>
    vz_vm e = (vz_vm d)\<lparr>fr_owner := map (\<lambda>x. if x = ?p then - 1 else x) (take n ?o) @ drop n ?o\<rparr>"
    using assms
  proof (induction n arbitrary: e)
    case (Suc n)
    define e1 where "e1 = fold (free_frame i t) [0..<n] d"
    have n: "n < length ?o" using Suc.prems(2) by simp
    note ih = Suc.IH [OF e1_def]
    have e: "e = free_frame i t n e1" using Suc.prems(1) by (simp add: e1_def)
    have "drop n ?o = ?o ! n # drop (Suc n) ?o" using n by (simp add: Cons_nth_drop_Suc)
    moreover have "take (Suc n) ?o = take n ?o @ [?o ! n]" using n by (simp add: take_Suc_conv_app_nth)
    moreover have "length (take n ?o) = n" using n by simp
    ultimately show ?case using ih n by (auto simp: e free_frame_def nth_append list_update_append)
  qed simp
  then show "dm_procs e = dm_procs d" "dm_sched e = dm_sched d" "dm_tick e = dm_tick d" "dm_running e = dm_running d"
    "dm_ran e = dm_ran d" "dm_io e = dm_io d" "vz_segments e = vz_segments d" "vz_rng e = vz_rng d"
    "vz_vm e = (vz_vm d)\<lparr>fr_owner := map (\<lambda>x. if x = ?p then - 1 else x) (take n ?o) @ drop n ?o\<rparr>" by auto
qed

lemma free_frame_frame [simp]:
  "dm_procs (free_frame i t f d) = dm_procs d" "dm_sched (free_frame i t f d) = dm_sched d" "dm_tick (free_frame i t f d) = dm_tick d"
  "dm_running (free_frame i t f d) = dm_running d" "dm_ran (free_frame i t f d) = dm_ran d" "dm_io (free_frame i t f d) = dm_io d"
  by (simp_all add: free_frame_def)

lemma free_fold_frame [simp]:
  "dm_procs (fold (free_frame i t) fs d) = dm_procs d" "dm_sched (fold (free_frame i t) fs d) = dm_sched d"
  "dm_tick (fold (free_frame i t) fs d) = dm_tick d" "dm_running (fold (free_frame i t) fs d) = dm_running d"
  "dm_ran (fold (free_frame i t) fs d) = dm_ran d" "dm_io (fold (free_frame i t) fs d) = dm_io d"
  by (induction fs arbitrary: d; simp)+

lemma viz_finish_frame:
  "dm_procs (viz_finish i t d) = (dm_procs d)[i := (dm_procs d ! i)\<lparr>p_state := Terminated\<rparr>]"
  "dm_sched (viz_finish i t d) = dm_sched d" "dm_tick (viz_finish i t d) = dm_tick d"
  "dm_running (viz_finish i t d) = dm_running d" "dm_ran (viz_finish i t d) = dm_ran d" "dm_io (viz_finish i t d) = dm_io d"
  by (simp_all add: viz_finish_def Let_def)

interpretation viz: demo_memory viz_finish viz_inv
proof unfold_locales
  fix d d' :: "'g viz" and i t
  show "dm_procs (viz_finish i t d) = (dm_procs d)[i := (dm_procs d ! i)\<lparr>p_state := Terminated\<rparr>]"
    "dm_sched (viz_finish i t d) = dm_sched d" "dm_tick (viz_finish i t d) = dm_tick d"
    "dm_running (viz_finish i t d) = dm_running d" "dm_ran (viz_finish i t d) = dm_ran d" "dm_io (viz_finish i t d) = dm_io d"
    by (rule viz_finish_frame)+
  show "viz_inv d'" if "viz_inv d" "lives d' = lives d" "demo.more d' = demo.more d"
    using that viz_more [OF that(3)] by (simp add: viz_inv_def alive_def)
  show "viz_inv (viz_finish i t d)"
    if inv: "viz_inv d" and i: "i < length (dm_procs d)" and act: "stage (dm_procs d ! i) = Active"
  proof -
    let ?pid = "p_pid (dm_procs d ! i)" and ?e = "fold (free_frame i t) [0..<NUM_PHYSICAL_FRAMES] d"
    have ok: "trans_ok (alive d) (vz_vm d)" and dis: "distinct (map fst (lives d))" using inv by (simp_all add: viz_inv_def)
    have len: "length (fr_owner (vz_vm d)) = NUM_PHYSICAL_FRAMES" using trans_okD(1) [OF ok] by (simp add: vm_shape_def)
    have "?pid \<in> alive d" using alive_pid [OF i] act by simp
    then have pid: "?pid \<noteq> - 1" using trans_okD(2) [OF ok] by metis
    note al = alive_finish [OF dis i viz_finish_frame(1)]
    have "vz_vm ?e = (vz_vm d)\<lparr>fr_owner := map (\<lambda>x. if x = ?pid then - 1 else x) (fr_owner (vz_vm d))\<rparr>"
      "vz_segments ?e = vz_segments d"
      using free_frames(9) [OF refl, of NUM_PHYSICAL_FRAMES d i t] free_frames(7) [OF refl, of NUM_PHYSICAL_FRAMES d i t] len by simp_all
    then have vm: "vz_vm (viz_finish i t d) =
        invalidate_tlb_for_pid ?pid ((vz_vm d)\<lparr>fr_owner := map (\<lambda>x. if x = ?pid then - 1 else x) (fr_owner (vz_vm d))\<rparr>)"
      "vz_segments (viz_finish i t d) = vz_segments d"
      by (simp_all add: viz_finish_def Let_def)
    show ?thesis using free_pid_ok [OF ok pid] al dis inv by (simp add: viz_inv_def vm)
  qed
qed

text \<open>A memory access never leaves defined behaviour and touches nothing but the memory, the trace and the generator.\<close>

lemma same_run_vm [simp]: "same_run d (e\<lparr>vz_vm := v\<rparr>) \<longleftrightarrow> same_run d e" "same_run d (e\<lparr>vz_rng := g\<rparr>) \<longleftrightarrow> same_run d e"
  by (simp_all add: same_run_def)

lemma alive_same [simp]: "alive (demo_log t s i f d) = alive d" "alive (d\<lparr>vz_vm := v\<rparr>) = alive d" "alive (d\<lparr>vz_rng := g\<rparr>) = alive d"
  by (simp_all add: alive_def lives_def)

lemma lives_vm [simp]: "lives (d\<lparr>vz_vm := v\<rparr>) = lives d" "lives (d\<lparr>vz_rng := g\<rparr>) = lives d"
  by (simp_all add: lives_def)

lemma viz_inv_frame [simp]: "viz_inv (demo_log t s i f d) \<longleftrightarrow> viz_inv d" "viz_inv (d\<lparr>vz_rng := g\<rparr>) \<longleftrightarrow> viz_inv d"
  by (simp_all add: viz_inv_def)

lemma viz_inv_vm: "viz_inv d \<Longrightarrow> trans_ok (alive d) v \<Longrightarrow> viz_inv (d\<lparr>vz_vm := v\<rparr>)"
  by (simp add: viz_inv_def)

lemma page_fault_ok:
  assumes inv: "viz_inv d" and pid: "p_pid (dm_procs d ! i) \<in> alive d"
    and absent: "\<And>e. pg_table (vz_vm d) (p_pid (dm_procs d ! i), vpn) = Some e \<Longrightarrow> \<not> pe_valid e"
  shows "\<exists>d'. page_fault i vpn vaddr seg d = Inr d' \<and> viz_inv d' \<and> same_run d d'"
proof -
  have ok: "trans_ok (alive d) (vz_vm d)" using inv by (simp add: viz_inv_def)
  show ?thesis
  proof (cases "find_free_frame (vz_vm d)")
    case (Some f)
    then have "f < NUM_PHYSICAL_FRAMES" "fr_owner (vz_vm d) ! f = - 1"
      by (auto simp: find_free_frame_def find_Some_iff)
    from load_free_ok [OF ok pid absent this, where seg = seg] show ?thesis
      using Some inv by (simp add: page_fault_def viz_load_def viz_inv_def)
  next
    case None
    note own = all_frames_owned [OF ok None]
    obtain f rest where q: "fr_fifo (vz_vm d) = f # rest" using own(1) by (auto simp: neq_Nil_conv)
    have f: "unat f < NUM_PHYSICAL_FRAMES" "unat f < length (fr_owner (vz_vm d))"
      using trans_okD(1) [OF ok] trans_okD(3) [OF ok, of f] q by (simp_all add: vm_shape_def)
    from load_evicted_ok [OF ok pid absent q own(2) [OF f(1)], where seg = seg] show ?thesis
      using None q f inv by (simp add: page_fault_def viz_load_def viz_inv_def Let_def)
  qed
qed

lemma access_page_ok:
  assumes inv: "viz_inv d" and pid: "p_pid (dm_procs d ! i) \<in> alive d"
  shows "\<exists>d'. access_page i vpn vaddr seg d = Inr d' \<and> viz_inv d' \<and> same_run d d'"
proof (cases "lookup_tlb (p_pid (dm_procs d ! i)) vpn (vz_vm d)")
  case None
  let ?p = "p_pid (dm_procs d ! i)"
  define d1 where "d1 = demo_log (dm_tick d) ''tlb_miss'' i [(''vpn'', num32 vpn), (''segment'', trace_str seg)] d"
  have d1: "viz_inv d1" "vz_vm d1 = vz_vm d" "alive d1 = alive d" "dm_procs d1 = dm_procs d" "dm_tick d1 = dm_tick d" "same_run d1 = same_run d" "same_run d d1"
    using inv by (auto simp: d1_def same_run_def fun_eq_iff)
  have ok: "trans_ok (alive d) (vz_vm d)" using inv by (simp add: viz_inv_def)
  show ?thesis
  proof (cases "\<exists>e. pg_table (vz_vm d) (?p, vpn) = Some e \<and> pe_valid e")
    case True
    then obtain e where e: "pg_table (vz_vm d) (?p, vpn) = Some e" "pe_valid e" by blast
    from viz_inv_vm [OF d1(1), of "update_tlb ?p vpn (pe_pfn e) seg (vz_vm d)"]
      update_tlb_ok [OF ok trans_okD(6) [OF ok pid e]] d1 None e show ?thesis
      by (simp add: access_page_def d1_def [symmetric])
  next
    case False
    have pid1: "p_pid (dm_procs d1 ! i) \<in> alive d1" using pid d1 by simp
    have "\<not> pe_valid e" if "pg_table (vz_vm d1) (p_pid (dm_procs d1 ! i), vpn) = Some e" for e using that d1 False by auto
    then have "\<exists>d'. page_fault i vpn vaddr seg d1 = Inr d' \<and> viz_inv d' \<and> same_run d1 d'"
      by (rule page_fault_ok [OF d1(1) pid1])
    then show ?thesis
      using None False d1 by (cases "pg_table (vz_vm d) (?p, vpn)") (auto simp: access_page_def d1_def [symmetric])
  qed
qed (use inv in \<open>simp add: access_page_def\<close>)

lemma viz_access_ok:
  assumes inv: "viz_inv d" and pid: "p_pid (dm_procs d ! i) \<in> alive d"
  shows "\<exists>d'. viz_access rng i d = Inr d' \<and> viz_inv d' \<and> same_run d d'"
proof -
  let ?segs = "vz_segments d (p_pid (dm_procs d ! i))"
  have segs: "?segs = viz_segment_table" using assms by (simp add: viz_inv_def)
  then have "?segs \<noteq> []" by (simp add: viz_segment_table_def)
  then have "?segs ! (unat (dm_tick d + of_int (p_pid (dm_procs d ! i))) mod length ?segs) \<in> set ?segs" by simp
  then have seg: "sg_num_pages (?segs ! (unat (dm_tick d + of_int (p_pid (dm_procs d ! i))) mod length ?segs)) \<noteq> 0"
    unfolding segs by (auto simp: viz_segment_table_def)
  have "viz_inv (d\<lparr>vz_rng := g\<rparr>)" "p_pid (dm_procs (d\<lparr>vz_rng := g\<rparr>) ! i) \<in> alive (d\<lparr>vz_rng := g\<rparr>)" for g
    using assms by simp_all
  from access_page_ok [OF this] have "\<exists>d'. access_page i vpn vaddr s (d\<lparr>vz_rng := g\<rparr>) = Inr d' \<and> viz_inv d' \<and> same_run d d'" for vpn vaddr s g
    by (fastforce simp: same_run_def)
  then show ?thesis using \<open>?segs \<noteq> []\<close> seg by (simp add: viz_access_def Let_def split: prod.split)
qed

text \<open>The arrivals are those of the simulator.\<close>

lemma viz_inv_enqueue_new:
  assumes "viz_inv d" "i < length (dm_procs d)" "p_state (dm_procs d ! i) = New"
  shows "viz_inv (do_enqueue i b d)"
proof -
  let ?p = "dm_procs d ! i"
  have l: "lives (do_enqueue i b d) = (lives d)[i := (p_pid ?p, asks ?p, Active)]"
    by (simp add: lives_def map_update life_def stage_def)
  have i: "i < length (lives d)" "lives d ! i = (p_pid ?p, asks ?p, Fresh)"
    using assms(2,3) by (simp_all add: lives_def life_def stage_def)
  have "map fst (lives (do_enqueue i b d)) = map fst (lives d)" using i by (simp add: l map_update list_update_same_conv)
  moreover have "alive (do_enqueue i b d) = alive d"
  proof -
    have "(pid, s) \<in> (\<lambda>(q, m, s). (q, s \<noteq> Gone)) ` set ((lives d)[i := (p_pid ?p, asks ?p, Active)]) \<longleftrightarrow>
        (pid, s) \<in> (\<lambda>(q, m, s). (q, s \<noteq> Gone)) ` set (lives d)" for pid s
    proof -
      have "map (\<lambda>(q, m, s). (q, s \<noteq> Gone)) ((lives d)[i := (p_pid ?p, asks ?p, Active)]) = map (\<lambda>(q, m, s). (q, s \<noteq> Gone)) (lives d)"
        using i by (simp add: map_update list_update_same_conv)
      then show ?thesis by (metis image_set)
    qed
    from this [of _ True] show ?thesis unfolding alive_def l by (auto simp: image_iff Bex_def)
  qed
  moreover have "vz_vm (do_enqueue i b d) = vz_vm d \<and> vz_segments (do_enqueue i b d) = vz_segments d"
    using viz_more [of "do_enqueue i b d" d] by simp
  ultimately show ?thesis using assms(1) by (simp add: viz_inv_def)
qed

lemma segment_logs:
  "same_run d (fold (\<lambda>seg. demo_log t s i (g seg)) segs e) \<longleftrightarrow> same_run d e"
  "viz_inv (fold (\<lambda>seg. demo_log t s i (g seg)) segs v) \<longleftrightarrow> viz_inv v"
  by (induction segs arbitrary: e v; simp)+

lemma viz_created_frame: "same_run d (viz_created i d)" "viz_inv (viz_created i d) \<longleftrightarrow> viz_inv d"
  by (simp_all add: viz_created_def Let_def segment_logs)

lemma viz_arrive_ok:
  assumes c: "coupled d st" and inv: "viz_inv d" and i: "i < length (sm_procs st)"
  shows "coupled (viz_arrive i d) (arrive_one RR i st)" "viz_inv (viz_arrive i d)"
proof -
  have rel: "demo_rel d st" using c by (simp add: coupled_def)
  note p = demo_rel_nth [OF rel i]
  have len: "i < length (dm_procs d)" using i demo_rel_length [OF rel] by simp
  have new: "p_state (dm_procs d ! i) = New \<longleftrightarrow> p_state (sm_procs st ! i) = New"
    "p_arrival (dm_procs d ! i) = p_arrival (sm_procs st ! i)" "dm_tick d = sm_tick st"
    using p rel by (auto simp: proc_rel_def demo_rel_def)
  show "coupled (viz_arrive i d) (arrive_one RR i st)"
    using coupled_enqueue(1) [OF coupled_same [OF c viz_created_frame(1)] i] c new
    by (simp add: viz_arrive_def arrive_one_def)
  have "viz_inv (do_enqueue i False (viz_created i d))" if "p_state (dm_procs d ! i) = New"
    using viz_inv_enqueue_new [of "viz_created i d" i False] viz_created_frame [where d = d and i = i] that len inv
    by (simp add: same_run_def)
  then show "viz_inv (viz_arrive i d)" using inv by (simp add: viz_arrive_def)
qed

lemma viz_arrivals_ok:
  assumes "coupled d st" "viz_inv d"
  shows "coupled (viz_arrivals d) (arrivals RR st)" "viz_inv (viz_arrivals d)"
proof -
  have "coupled (fold viz_arrive js d) (fold (arrive_one RR) js st) \<and> viz_inv (fold viz_arrive js d)"
    if "\<forall>i \<in> set js. i < length (sm_procs st)" for js
    using that assms
  proof (induction js arbitrary: d st)
    case (Cons i js)
    have "coupled (viz_arrive i d) (arrive_one RR i st)" "viz_inv (viz_arrive i d)"
      using viz_arrive_ok [OF Cons.prems(2,3)] Cons.prems(1) by simp_all
    then show ?case using Cons.IH [of "arrive_one RR i st" "viz_arrive i d"] Cons.prems(1) by simp
  qed simp
  moreover have "length (dm_procs d) = length (sm_procs st)" using assms(1) demo_rel_length by (auto simp: coupled_def)
  ultimately show "coupled (viz_arrivals d) (arrivals RR st)" "viz_inv (viz_arrivals d)"
    by (simp_all add: viz_arrivals_def arrivals_def)
qed

text \<open>One iteration is one iteration of the simulator, and it keeps the memory consistent.\<close>

lemma viz_step_ok:
  assumes "coupled d st" "viz_inv d"
  shows "\<exists>d'. viz_step rng d = Inr d' \<and> coupled d' (sim_step RR free_cs st) \<and> viz_inv d'"
proof -
  define d1 where "d1 = viz_arrivals d" define s1 where "s1 = arrivals RR st"
  define d2 where "d2 = viz_io d1" define s2 where "s2 = io_completions RR s1"
  define d3 where "d3 = demo_preempt d2" define s3 where "s3 = preempt_check RR s2"
  define d4 where "d4 = demo_schedule d3" define s4 where "s4 = dispatch RR free_cs s3"
  have 1: "coupled d1 s1" "viz_inv d1" unfolding d1_def s1_def by (rule viz_arrivals_ok [OF assms])+
  have 2: "coupled d2 s2" "viz_inv d2" unfolding d2_def s2_def viz_io_def
    by (rule viz.coupled_io(1) [OF 1(1)], rule viz.minv_io [OF 1(2,1)])
  have 3: "coupled d3 s3" "viz_inv d3" unfolding d3_def s3_def
    by (rule coupled_preempt(1) [OF 2(1)], rule viz.minv_preempt [OF 2(2,1)])
  have 4: "coupled d4 s4" "viz_inv d4" unfolding d4_def s4_def
    by (rule coupled_schedule(1) [OF 3(1)], rule viz.minv_schedule [OF 3(2)])
  have step: "viz_step rng d = map_sum id (\<lambda>d2. d2\<lparr>dm_tick := dm_tick d2 + 1\<rparr>)
      (case dm_running d4 of None \<Rightarrow> Inr d4 | Some i \<Rightarrow> map_sum id (cpu_step viz_finish i) (viz_access rng i d4))"
    "sim_step RR free_cs st = (run_one_tick s4)\<lparr>sm_tick := sm_tick (run_one_tick s4) + 1\<rparr>"
    by (simp_all add: viz_step_def sim_step_def Let_def d4_def d3_def d2_def d1_def s4_def s3_def s2_def s1_def cong: option.case_cong)
  show ?thesis
  proof (cases "dm_running d4")
    case None
    then have "run_one_tick s4 = s4" using 4(1) by (simp add: run_one_tick_def coupled_def demo_rel_def)
    then show ?thesis using None step coupled_tick [OF 4(1)] viz.minv_frame(6) [OF 4(2)] by simp
  next
    case (Some i)
    note act = viz.running_active [OF 4(1) Some]
    have "p_pid (dm_procs d4 ! i) \<in> alive d4" using alive_pid [OF act(1)] act(2) by simp
    from viz_access_ok [OF 4(2) this, of rng] obtain d5
      where d5: "viz_access rng i d4 = Inr d5" "viz_inv d5" "same_run d4 d5" by blast
    have c5: "coupled d5 s4" "dm_running d5 = Some i" using coupled_same [OF 4(1) d5(3)] d5(3) Some by (simp_all add: same_run_def)
    note act5 = viz.running_active [OF c5]
    show ?thesis
      using step Some d5(1) coupled_tick [OF viz.coupled_cpu(1) [OF c5]]
        viz.minv_frame(6) [OF viz.minv_cpu [OF d5(2) act5(1,2)]] by simp
  qed
qed

subsection \<open>The run of the demo\<close>

text \<open>After the last arrival every iteration reduces the remaining work, so the loop ends by itself.\<close>

lemma viz_loop_completes:
  assumes "coupled d st" "viz_inv d" "due_by A st"
    "remaining (sm_waiting st) st + (unat (dm_tick d) - A) \<le> R" "A + R < 1000"
  shows "\<exists>d'. viz_loop rng d = Some (Inr d') \<and> viz_inv d' \<and> all_done (dm_procs d') \<and> unat (dm_tick d') \<le> A + R"
  using assms(1-4)
proof (induction "1000 - unat (dm_tick d)" arbitrary: d st rule: less_induct)
  case less
  have c: "demo_rel d st" "jobs_ok (sm_waiting st) st" "rr_placed st" using less.prems(1) by (simp_all add: coupled_def)
  have t: "dm_tick d = sm_tick st" using c(1) by (simp add: demo_rel_def)
  have lt: "unat (dm_tick d) < 1000" using less.prems(4) assms(5) by linarith
  show ?case
  proof (cases "all_done (dm_procs d)")
    case True
    then show ?thesis using less.prems lt by (subst viz_loop.simps) auto
  next
    case False
    define st' where "st' = sim_step RR free_cs st"
    obtain d' where d': "viz_step rng d = Inr d'" "coupled d' st'" "viz_inv d'"
      using viz_step_ok [OF less.prems(1,2), of rng] st'_def by blast
    have t': "dm_tick d' = sm_tick st'" using d'(2) by (simp add: coupled_def demo_rel_def)
    have small: "sm_tick st < max_ticks" using lt t by (simp add: max_ticks_unat)
    have nd: "\<not> all_done (sm_procs st)" using False all_done_rel [OF c(1)] by simp
    note w = rr.sim_step_work [OF c(2,3), of st' free_cs, OF st'_def]
    note due = rr.sim_step_due [OF c(2,3) less.prems(3) _ small, of free_cs, folded st'_def]
    have tick: "unat (sm_tick st') = unat (sm_tick st) + 1" using due(2) by simp
    have "remaining (sm_waiting st') st' + (unat (dm_tick d') - A) \<le> R"
      using w(2) w(4) [OF _ nd] due(3) tick less.prems(4) t t' by (cases "A \<le> unat (sm_tick st)") auto
    moreover have "due_by A st'" using due(1) by simp
    moreover have "1000 - unat (dm_tick d') < 1000 - unat (dm_tick d)" using lt by (simp add: t t' tick)
    ultimately obtain e where "viz_loop rng d' = Some (Inr e)" "viz_inv e" "all_done (dm_procs e)" "unat (dm_tick e) \<le> A + R"
      using less.hyps [of d' st'] d'(2,3) by blast
    moreover have "dm_tick d < 1000" using lt by (simp add: word_less_nat_alt)
    ultimately show ?thesis using False d'(1) by (subst viz_loop.simps) simp
  qed
qed

text \<open>The workload: what the numbers drawn are known to satisfy is that they lie between the bounds asked for.\<close>

definition ints_in_range :: "'g int_dist \<Rightarrow> bool" where
  "ints_in_range draw \<longleftrightarrow> (\<forall>g lo hi. lo \<le> hi \<longrightarrow> fst (draw g lo hi) \<in> {lo..hi})"

lemma drawn_ticks:
  assumes "ints_in_range draw" "0 \<le> lo" "lo \<le> hi" "hi < 2 ^ 31"
  shows "unat (of_int (fst (draw g lo hi)) :: u32) \<in> {nat lo..nat hi}"
proof -
  let ?k = "fst (draw g lo hi)"
  have k: "lo \<le> ?k" "?k \<le> hi" using assms(1,3) by (auto simp: ints_in_range_def)
  then have "uint (of_int ?k :: u32) = ?k" using assms(2,4) by (simp add: uint_word_of_int_eq take_bit_int_eq_self)
  then show ?thesis using k assms(2) unfolding unat_eq_nat_uint by auto
qed

lemma drawn_bursts_ok:
  assumes "ints_in_range draw" "1 \<le> clo" "clo \<le> chi" "chi < 2 ^ 31" "1 \<le> ilo" "ilo \<le> ihi" "ihi < 2 ^ 31"
    and bs_def: "bs = fst (drawn_bursts draw clo chi ilo ihi n g)"
  shows "length bs = 2 * n - 1" "k < length bs \<Longrightarrow> b_ticks (bs ! k) \<noteq> 0 \<and> b_type (bs ! k) = (if even k then CPU else IO)"
    "later 0 bs \<le> n * nat chi + (n - 1) * nat ihi"
proof -
  let ?bursts = "\<lambda>n g. fst (drawn_bursts draw clo chi ilo ihi n g)"
  have cpu: "1 \<le> unat (of_int (fst (draw g clo chi)) :: u32) \<and> unat (of_int (fst (draw g clo chi)) :: u32) \<le> nat chi" for g
    using drawn_ticks [OF assms(1), of clo chi g] assms(2-4) by auto
  have io: "1 \<le> unat (of_int (fst (draw g ilo ihi)) :: u32) \<and> unat (of_int (fst (draw g ilo ihi)) :: u32) \<le> nat ihi" for g
    using drawn_ticks [OF assms(1), of ilo ihi g] assms(5-7) by auto
  have cpu0: "(of_int (fst (draw g clo chi)) :: u32) \<noteq> 0" for g using cpu [of g] by (metis not_one_le_zero unat_0)
  have io0: "(of_int (fst (draw g ilo ihi)) :: u32) \<noteq> 0" for g using io [of g] by (metis not_one_le_zero unat_0)
  have tail: "later 0 (x # xs) = unat (b_ticks x) + later 0 xs" for x xs by (simp add: later_def)
  let ?P = "\<lambda>k b. b_ticks b \<noteq> 0 \<and> b_type b = (if even k then CPU else IO)"
  have "length (?bursts n g) = 2 * n - 1 \<and> later 0 (?bursts n g) \<le> n * nat chi + (n - 1) * nat ihi \<and>
    (\<forall>k < length (?bursts n g). ?P k (?bursts n g ! k))"
  proof (induction n arbitrary: g)
    case (Suc n)
    let ?g1 = "snd (draw g clo chi)"
    let ?g2 = "snd (draw ?g1 ilo ihi)"
    let ?c = "\<lparr>b_type = CPU, b_ticks = of_int (fst (draw g clo chi))\<rparr>" and ?i = "\<lparr>b_type = IO, b_ticks = of_int (fst (draw ?g1 ilo ihi))\<rparr>"
    show ?case
    proof (cases "n = 0")
      case True
      then have "?bursts (Suc n) g = [?c]" by (simp add: split_beta Let_def)
      then show ?thesis using True cpu [of g] cpu0 [of g] by (simp add: tail later_def)
    next
      case False
      have b: "?bursts (Suc n) g = ?c # ?i # ?bursts n ?g2" using False by (simp add: split_beta Let_def)
      have k: "(\<forall>k < length (x # y # zs). P k ((x # y # zs) ! k)) \<longleftrightarrow> P 0 x \<and> P 1 y \<and> (\<forall>k < length zs. P (k + 2) (zs ! k))" for x y zs P
        by (simp add: All_less_Suc2)
      note ih = Suc.IH [of ?g2]
      have "\<forall>k < length (?c # ?i # ?bursts n ?g2). ?P k ((?c # ?i # ?bursts n ?g2) ! k)"
        unfolding k [of ?c ?i _ ?P] using ih cpu0 io0 by simp
      moreover have "later 0 (?c # ?i # ?bursts n ?g2) \<le> Suc n * nat chi + n * nat ihi"
      proof -
        have "n * nat ihi = nat ihi + (n - 1) * nat ihi" using False by (cases n) simp_all
        then show ?thesis using conjunct1 [OF conjunct2 [OF ih]] cpu [of g] io [of ?g1] unfolding tail by simp
      qed
      ultimately show ?thesis using ih False unfolding b by simp
    qed
  qed (simp add: later_def)
  then show "length bs = 2 * n - 1" "later 0 bs \<le> n * nat chi + (n - 1) * nat ihi"
    "k < length bs \<Longrightarrow> b_ticks (bs ! k) \<noteq> 0 \<and> b_type (bs ! k) = (if even k then CPU else IO)"
    unfolding bs_def by blast+
qed

lemma drawn_bursts_wf:
  assumes "ints_in_range draw" "1 \<le> clo" "clo \<le> chi" "chi < 2 ^ 31" "1 \<le> ilo" "ilo \<le> ihi" "ihi < 2 ^ 31" "1 \<le> n" "n \<le> m"
  shows "wf_bursts (fst (drawn_bursts draw clo chi ilo ihi n g))"
    "later 0 (fst (drawn_bursts draw clo chi ilo ihi n g)) \<le> m * nat chi + (m - 1) * nat ihi"
proof -
  define bs where "bs = fst (drawn_bursts draw clo chi ilo ihi n g)"
  note b = drawn_bursts_ok [OF assms(1-7) bs_def]
  have "bs \<noteq> []" using b(1) assms(8) by auto
  then show "wf_bursts bs" using b(2) by (simp add: wf_bursts_def)
  have "n * nat chi + (n - 1) * nat ihi \<le> m * nat chi + (m - 1) * nat ihi" using assms(9) by (intro add_mono mult_le_mono) auto
  then show "later 0 bs \<le> m * nat chi + (m - 1) * nat ihi" using b(3) by (rule order_trans [rotated])
qed

definition viz_job :: "nat \<Rightarrow> Process \<Rightarrow> bool" where
  "viz_job i p \<longleftrightarrow> p_pid p = int i + 1 \<and> proc_rel p (reset_process p) \<and> wf_bursts (p_bursts p) \<and> later 0 (p_bursts p) \<le> 43 \<and>
     unat (p_arrival p) \<le> 8 \<and> p_state p = New"

lemma viz_process_job:
  assumes "ints_in_range draw"
  shows "viz_job i (fst (viz_process draw rng i g))"
proof -
  define r where "r = fst (rng (snd (draw g 0 8)))"
  define bs where "bs = fst (drawn_bursts draw 3 7 2 5 (unat (r mod 3) + 2) (snd (rng (snd (draw g 0 8)))))"
  have p: "fst (viz_process draw rng i g) = Process_default\<lparr>p_pid := int i + 1, p_name := viz_names ! i,
      p_arrival := of_int (fst (draw g 0 8)), p_mem_bytes := 10 * 4096, p_bursts := bs, p_cur_burst := 0,
      p_burst_remaining := (if bs = [] then 0 else b_ticks (bs ! 0))\<rparr>"
    by (simp add: viz_process_def viz_bursts_def split_beta Let_def r_def bs_def)
  have "unat (r mod 3) < 3" by (simp add: unat_mod)
  then have "wf_bursts bs" "later 0 bs \<le> 43"
    using drawn_bursts_wf [OF assms, of 3 7 2 5 "unat (r mod 3) + 2" 4] by (simp_all add: bs_def)
  moreover have "unat (of_int (fst (draw g 0 8)) :: u32) \<le> 8" using drawn_ticks [OF assms, of 0 8 g] by simp
  ultimately show ?thesis unfolding p viz_job_def by (simp add: proc_rel_def reset_process_def Process_default_def)
qed

lemma viz_processes_jobs:
  "ints_in_range draw \<Longrightarrow> list_all2 viz_job js (fst (viz_processes draw rng js g))"
  by (induction js arbitrary: g) (simp_all add: split_beta Let_def viz_process_job)

lemma viz_init_ok:
  assumes "ints_in_range draw"
  shows "\<exists>st. coupled (viz_init draw rng seed) st \<and> due_by 8 st \<and> sm_waiting st = [] \<and> remaining [] st \<le> 344"
    "viz_inv (viz_init draw rng seed)"
proof -
  define ps where "ps = fst (viz_processes draw rng [0..<8] seed)"
  define d where "d = viz_init draw rng seed"
  define st where "st = sim_init (RoundRobin_new 4) ps"
  have d: "dm_sched d = RoundRobin_new 4" "dm_procs d = ps" "dm_tick d = 0" "dm_running d = None" "dm_ran d = 0" "dm_io d = []"
    "vz_vm d = VirtualMemorySystem_new" "vz_segments d = (\<lambda>pid. if pid \<in> p_pid ` set ps then viz_segment_table else [])"
    by (simp_all add: d_def viz_init_def ps_def split_beta Let_def)
  have jobs: "list_all2 viz_job [0..<8] ps" unfolding ps_def by (rule viz_processes_jobs [OF assms])
  have len: "length ps = 8" using list_all2_lengthD [OF jobs] by (metis diff_zero length_upt)
  have job: "viz_job i (ps ! i)" if "i < 8" for i
    using list_all2_nthD [OF jobs, of i] that by (metis add_0 diff_zero length_upt nth_upt)
  have all: "\<exists>i < 8. viz_job i p" if "p \<in> set ps" for p using that job len by (metis in_set_conv_nth)
  then have ps: "\<forall>p \<in> set ps. proc_rel p (reset_process p) \<and> wf_bursts (p_bursts p) \<and> later 0 (p_bursts p) \<le> 43 \<and> unat (p_arrival p) \<le> 8"
    by (auto simp: viz_job_def)
  from start_coupled [OF d(1-6) ps st_def] len
  show "\<exists>st. coupled (viz_init draw rng seed) st \<and> due_by 8 st \<and> sm_waiting st = [] \<and> remaining [] st \<le> 344"
    unfolding d_def [symmetric] by auto
  have pids: "map fst (lives d) = map (\<lambda>i. int i + 1) [0..<8]"
    using job len by (intro nth_equalityI) (auto simp: lives_def d life_def viz_job_def)
  have "distinct (map fst (lives d))" unfolding pids by (simp add: distinct_map inj_on_def)
  moreover have sub: "alive d \<subseteq> p_pid ` set ps" by (force simp: alive_def lives_def d life_def)
  then have "- 1 \<notin> alive d" using all by (force simp: viz_job_def)
  moreover have "\<forall>pid \<in> alive d. vz_segments d pid = viz_segment_table" using sub by (auto simp: d)
  ultimately show "viz_inv (viz_init draw rng seed)" unfolding d_def [symmetric] viz_inv_def d by (simp add: trans_ok_new)
qed

inductive viz_reach :: "('g \<Rightarrow> u32 \<times> 'g) \<Rightarrow> 'g viz \<Rightarrow> 'g viz \<Rightarrow> bool" for rng d0 where
  viz_start: "viz_reach rng d0 d0"
| viz_next: "viz_reach rng d0 d \<Longrightarrow> viz_step rng d = Inr d' \<Longrightarrow> viz_reach rng d0 d'"

lemma viz_reach_inv:
  assumes "viz_reach rng d0 d" "coupled d0 st0" "viz_inv d0"
  shows "\<exists>st. coupled d st \<and> viz_inv d"
  using assms(1)
proof induction
  case viz_start
  then show ?case using assms by blast
next
  case (viz_next d d')
  then obtain st where "coupled d st" "viz_inv d" by blast
  from viz_step_ok [OF this, of rng] viz_next.hyps(2) show ?case by auto
qed

text \<open>
  C28. Translation.  Whatever the generator draws, in every state that the demo reaches the next tick has
  defined behaviour (the replacement queue is not empty when it is needed, every index is in range); a
  frame is free or belongs to a process that has not terminated; and what the TLB or a valid page-table
  entry says for a page of such a process is right: the frame belongs to the process and frame_holds the page.
\<close>

theorem visualizer_translation_safe:
  assumes "ints_in_range draw" "viz_reach rng (viz_init draw rng seed) d"
  shows "(\<exists>d'. viz_step rng d = Inr d') \<and>
    (\<forall>f < NUM_PHYSICAL_FRAMES. fr_owner (vz_vm d) ! f = - 1 \<or> fr_owner (vz_vm d) ! f \<in> alive d) \<and>
    (\<forall>pid \<in> alive d. \<forall>vpn f. lookup_tlb pid vpn (vz_vm d) = Some f \<longrightarrow> frame_holds (vz_vm d) f pid vpn) \<and>
    (\<forall>pid \<in> alive d. \<forall>vpn e. pg_table (vz_vm d) (pid, vpn) = Some e \<and> pe_valid e \<longrightarrow> frame_holds (vz_vm d) (pe_pfn e) pid vpn)"
proof -
  obtain st0 where "coupled (viz_init draw rng seed) st0" using viz_init_ok(1) [OF assms(1)] by blast
  from viz_reach_inv [OF assms(2) this viz_init_ok(2) [OF assms(1)]] obtain st where c: "coupled d st" "viz_inv d" by blast
  have ok: "trans_ok (alive d) (vz_vm d)" using c(2) by (simp add: viz_inv_def)
  have "frame_holds (vz_vm d) f pid vpn" if pid: "pid \<in> alive d" and hit: "lookup_tlb pid vpn (vz_vm d) = Some f" for pid vpn f
  proof -
    obtain t where "List.find (\<lambda>e. tl_valid e \<and> tl_pid e = pid \<and> tl_vpn e = vpn) (tl_entries (vz_vm d)) = Some t" "tl_pfn t = f"
      using hit by (auto simp: lookup_tlb_def)
    then have "t \<in> set (tl_entries (vz_vm d))" "tl_valid t" "tl_pid t = pid" "tl_vpn t = vpn" "tl_pfn t = f"
      by (auto simp: find_Some_iff)
    then show ?thesis using trans_okD(7) [OF ok, of t] pid by simp
  qed
  then show ?thesis using viz_step_ok [OF c, of rng] trans_okD(4,6) [OF ok] by blast
qed

text \<open>
  C29. The demo ends.  Whatever the generator draws within the bounds it is asked for, the loop ends
  because all eight processes have terminated, at the latest at tick 352 (so its cap of 1000 ticks is never
  what stops it), without undefined behaviour, and all frames have been given back.
\<close>

theorem visualizer_demo_completes:
  assumes "ints_in_range draw"
  shows "\<exists>d. visualizer_demo draw rng seed = Some (Inr d) \<and> all_done (dm_procs d) \<and> unat (dm_tick d) \<le> 352 \<and>
    fr_owner (vz_vm d) = replicate NUM_PHYSICAL_FRAMES (- 1)"
proof -
  obtain st where st: "coupled (viz_init draw rng seed) st" "due_by 8 st" "sm_waiting st = []" "remaining [] st \<le> 344"
    using viz_init_ok(1) [OF assms] by blast
  have "dm_tick (viz_init draw rng seed) = 0" by (simp add: viz_init_def split_beta Let_def)
  with viz_loop_completes [OF st(1) viz_init_ok(2) [OF assms] st(2), of 344 rng] st(3,4)
  obtain d where d: "viz_loop rng (viz_init draw rng seed) = Some (Inr d)" "viz_inv d" "all_done (dm_procs d)" "unat (dm_tick d) \<le> 352"
    by auto
  have "alive d = {}" using d(3) by (auto simp: alive_def lives_def life_def stage_def all_done_def list_all_iff)
  then have ok: "trans_ok {} (vz_vm d)" using d(2) by (simp add: viz_inv_def)
  have "fr_owner (vz_vm d) = replicate NUM_PHYSICAL_FRAMES (- 1)"
    using trans_okD(1) [OF ok] trans_okD(4) [OF ok] by (intro nth_equalityI) (auto simp: vm_shape_def)
  then show ?thesis using d by (simp add: visualizer_demo_def)
qed

text \<open>A generator that counts and draws the lower bounds.\<close>

definition draw_low :: "u32 int_dist" where
  "draw_low g lo hi = (lo, g + 1)"

definition rng_count :: "u32 \<Rightarrow> u32 \<times> u32" where
  "rng_count g = (g, g + 1)"

lemma draw_low_range: "ints_in_range draw_low"
  by (simp add: ints_in_range_def draw_low_def)

theorem visualizer_demo_completes_witness:
  "\<exists>d. visualizer_demo draw_low rng_count 1337 = Some (Inr d) \<and> all_done (dm_procs d) \<and>
    fr_owner (vz_vm d) = replicate NUM_PHYSICAL_FRAMES (- 1)"
  using visualizer_demo_completes [OF draw_low_range, of rng_count 1337] by auto

text \<open>The state after the first tick.\<close>

theorem visualizer_translation_safe_witness:
  "\<exists>d. viz_step rng_count (viz_init draw_low rng_count 0) = Inr d \<and> (\<exists>d'. viz_step rng_count d = Inr d') \<and>
    (\<forall>pid \<in> alive d. \<forall>vpn f. lookup_tlb pid vpn (vz_vm d) = Some f \<longrightarrow> frame_holds (vz_vm d) f pid vpn)"
proof -
  let ?d0 = "viz_init draw_low rng_count 0"
  note safe = visualizer_translation_safe [OF draw_low_range]
  obtain d where d: "viz_step rng_count ?d0 = Inr d" using safe [OF viz_start] by blast
  have "viz_reach rng_count ?d0 d" by (rule viz_next [OF viz_start d])
  from safe [OF this] d show ?thesis by auto
qed

end
