(* ===== verification/FirstFit.thy ===== *)
theory FirstFit
  imports RegionAllocator
begin

text \<open>
  The first-fit allocator of \<^verbatim>\<open>memlab/sim/contiguous_demo.cpp\<close>: a vector of blocks in address
  order.  An allocation is returned as its offset plus one, so that offset 0 is not the null
  pointer.  The blocks always tile the arena, and no two neighbours are both free.
\<close>

record Block =
  blk_offset :: size_t
  blk_size :: size_t
  blk_free :: bool

type_synonym FirstFitAllocator = "Block list"

definition FirstFit_new :: "size_t \<Rightarrow> FirstFitAllocator" where
  "FirstFit_new TOTAL = [\<lparr>blk_offset = 0, blk_size = TOTAL, blk_free = True\<rparr>]"

fun FirstFit_Allocate :: "FirstFitAllocator \<Rightarrow> size_t \<Rightarrow> ptr \<times> FirstFitAllocator" where
  "FirstFit_Allocate [] sz = (nullptr, [])"
| "FirstFit_Allocate (b # bs) sz =
     (if blk_free b \<and> blk_size b \<ge> sz then
        (blk_offset b + 1,
         if blk_size b > sz then
           b\<lparr>blk_size := sz, blk_free := False\<rparr> #
           \<lparr>blk_offset = blk_offset b + sz, blk_size = blk_size b - sz, blk_free = True\<rparr> # bs
         else b\<lparr>blk_free := False\<rparr> # bs)
      else let (p, bs') = FirstFit_Allocate bs sz in (p, b # bs'))"

fun mark_free :: "size_t \<Rightarrow> Block list \<Rightarrow> Block list" where
  "mark_free offset [] = []"
| "mark_free offset (b # bs) =
     (if blk_offset b = offset then b\<lparr>blk_free := True\<rparr> # bs else b # mark_free offset bs)"

fun coalesce :: "Block list \<Rightarrow> Block list" where
  "coalesce (b # c # bs) =
     (if blk_free b \<and> blk_free c then coalesce (b\<lparr>blk_size := blk_size b + blk_size c\<rparr> # bs)
      else b # coalesce (c # bs))"
| "coalesce bs = bs"

definition FirstFit_Free :: "FirstFitAllocator \<Rightarrow> ptr \<Rightarrow> FirstFitAllocator" where
  "FirstFit_Free bs p = (if p = nullptr then bs else coalesce (mark_free (p - 1) bs))"

subsection \<open>The blocks tile the arena\<close>

fun tiles :: "nat \<Rightarrow> Block list \<Rightarrow> nat \<Rightarrow> bool" where
  "tiles a [] e \<longleftrightarrow> a = e"
| "tiles a (b # bs) e \<longleftrightarrow> unat (blk_offset b) = a \<and> 0 < unat (blk_size b) \<and> tiles (a + unat (blk_size b)) bs e"

fun coalesced :: "Block list \<Rightarrow> bool" where
  "coalesced (b # c # bs) \<longleftrightarrow> \<not> (blk_free b \<and> blk_free c) \<and> coalesced (c # bs)"
| "coalesced bs \<longleftrightarrow> True"

definition used :: "Block list \<Rightarrow> (ptr \<times> size_t) set" where
  "used bs = (\<lambda>b. (blk_offset b + 1, blk_size b)) ` {b \<in> set bs. \<not> blk_free b}"

definition ff_end :: "Block list \<Rightarrow> nat" where
  "ff_end bs = (\<Sum>b\<leftarrow>bs. unat (blk_size b))"

definition ff_inv :: "FirstFitAllocator \<Rightarrow> (ptr \<times> size_t) set \<Rightarrow> bool" where
  "ff_inv bs L \<longleftrightarrow> tiles 0 bs (ff_end bs) \<and> ff_end bs < 2 ^ 64 \<and> coalesced bs \<and> L = used bs"

lemma used_simps [simp]:
  "used [] = {}"
  "used (b # bs) = (if blk_free b then used bs else insert (blk_offset b + 1, blk_size b) (used bs))"
  by (auto simp: used_def)

lemma tiles_end: "tiles a bs e \<Longrightarrow> e = a + ff_end bs"
  by (induction bs arbitrary: a) (fastforce simp: ff_end_def)+

lemma tiles_inside:
  "tiles a bs e \<Longrightarrow> b \<in> set bs \<Longrightarrow> a \<le> unat (blk_offset b) \<and> unat (blk_offset b) + unat (blk_size b) \<le> e \<and> 0 < unat (blk_size b)"
proof (induction bs arbitrary: a)
  case (Cons c bs)
  have "a + unat (blk_size c) \<le> e" using Cons.prems(1) tiles_end [of "a + unat (blk_size c)" bs e] by simp
  with Cons show ?case by fastforce
qed simp

lemma unat_next: "unat x < e \<Longrightarrow> e < 2 ^ 64 \<Longrightarrow> unat (x + 1 :: 64 word) = unat x + 1"
  by (simp add: unat_plus_less)

lemma used_inside:
  assumes "tiles a bs e" "e < 2 ^ 64" "(p, n) \<in> used bs"
  shows "a + 1 \<le> unat p \<and> unat p + unat n \<le> e + 1 \<and> 0 < unat n"
proof -
  obtain b where b: "b \<in> set bs" "p = blk_offset b + 1" "n = blk_size b" using assms(3) by (auto simp: used_def)
  note t = tiles_inside [OF assms(1) b(1)]
  then have "unat (blk_offset b + 1) = unat (blk_offset b) + 1" using assms(2) by (intro unat_next [of _ e]) auto
  with t b show ?thesis by auto
qed

lemma used_apart:
  assumes "tiles a bs e" "e < 2 ^ 64" "(p, n) \<in> used bs" "(q, m) \<in> used bs" "(p, n) \<noteq> (q, m)"
  shows "disjoint_regions (unat p) (unat n) (unat q) (unat m)"
  using assms
proof (induction bs arbitrary: a)
  case (Cons b bs)
  have rest: "tiles (a + unat (blk_size b)) bs e" using Cons.prems(1) by simp
  have "unat (blk_offset b) < e" using tiles_inside [OF Cons.prems(1), of b] by simp
  then have u: "unat (blk_offset b + 1) = a + 1" using unat_next [of "blk_offset b" e] Cons.prems(1,2) by simp
  have later: "a + unat (blk_size b) + 1 \<le> unat r" if "(r, k) \<in> used bs" for r k
    using used_inside [OF rest Cons.prems(2) that] by simp
  show ?case
    using Cons.IH [OF rest Cons.prems(2)] Cons.prems(3-5) later u
    by (fastforce simp: disjoint_regions_def split: if_splits)
qed simp

subsection \<open>Allocation\<close>

lemma FirstFit_first:
  "fst (FirstFit_Allocate bs n) =
     (case List.find (\<lambda>b. blk_free b \<and> n \<le> blk_size b) bs of None \<Rightarrow> nullptr | Some b \<Rightarrow> blk_offset b + 1)"
  by (induction bs) (auto split: prod.splits)

lemma FirstFit_Allocate_inv:
  assumes "tiles a bs e" "e < 2 ^ 64" "coalesced bs" "0 < n" "FirstFit_Allocate bs n = (p, bs')"
  shows "(p = nullptr \<and> bs' = bs) \<or>
    (p \<noteq> nullptr \<and> tiles a bs' e \<and> coalesced bs' \<and> used bs' = insert (p, n) (used bs) \<and> (\<forall>m. (p, m) \<notin> used bs))"
  using assms
proof (induction bs arbitrary: a p bs')
  case (Cons b bs)
  have rest: "tiles (a + unat (blk_size b)) bs e" and b: "unat (blk_offset b) = a" "0 < unat (blk_size b)"
    using Cons.prems(1) by simp_all
  have co: "coalesced bs" using Cons.prems(3) by (cases bs) auto
  have le: "a + unat (blk_size b) \<le> e" using tiles_end [OF rest] by simp
  have u: "unat (blk_offset b + 1) = a + 1" using unat_next [of "blk_offset b" e] b le Cons.prems(2) by simp
  have off: "(blk_offset b + 1, m) \<notin> used bs" for m
    using used_inside [OF rest Cons.prems(2), of "blk_offset b + 1" m] u b(2) by auto
  show ?case
  proof (cases "blk_free b \<and> blk_size b \<ge> n")
    case True
    have hd: "\<not> blk_free c" if "bs = c # cs" for c cs using Cons.prems(3) True that by simp
    have p: "p = blk_offset b + 1" "p \<noteq> 0" using Cons.prems(5) True u by (auto simp: unat_eq_0 [symmetric])
    show ?thesis
    proof (cases "blk_size b > n")
      case True
      note split = this
      have n: "unat n < unat (blk_size b)" "0 < unat n" using split Cons.prems(4) by (simp_all add: word_less_nat_alt)
      have m: "unat (blk_size b - n) = unat (blk_size b) - unat n" using n by (simp add: unat_sub word_le_nat_alt)
      have o': "unat (blk_offset b + n) = a + unat n" using n le b Cons.prems(2) by (simp add: unat_plus_less)
      have "bs' = b\<lparr>blk_size := n, blk_free := False\<rparr> #
          \<lparr>blk_offset = blk_offset b + n, blk_size = blk_size b - n, blk_free = True\<rparr> # bs"
        using Cons.prems(5) \<open>blk_free b \<and> blk_size b \<ge> n\<close> split by simp
      moreover have "coalesced (\<lparr>blk_offset = blk_offset b + n, blk_size = blk_size b - n, blk_free = True\<rparr> # bs)"
        using co hd by (cases bs) auto
      ultimately show ?thesis using p n m o' rest b off \<open>blk_free b \<and> blk_size b \<ge> n\<close> by auto
    next
      case False
      then have "blk_size b = n" using True by simp
      moreover have "bs' = b\<lparr>blk_free := False\<rparr> # bs" using Cons.prems(5) True False by auto
      moreover have "coalesced (b\<lparr>blk_free := False\<rparr> # bs)" using co by (cases bs) auto
      ultimately show ?thesis using p rest b off True by auto
    qed
  next
    case False
    obtain q cs where r: "FirstFit_Allocate bs n = (q, cs)" by fastforce
    then have eq: "p = q" "bs' = b # cs" using Cons.prems(5) False by (auto split: if_splits)
    note ih = Cons.IH [OF rest Cons.prems(2) co Cons.prems(4) r]
    have "coalesced (b # cs)" if "coalesced cs" using Cons.prems(3) r that
      by (cases bs; cases cs) (auto split: if_splits prod.splits)
    moreover have "(q, m) \<noteq> (blk_offset b + 1, blk_size b)" if "q \<noteq> 0" "used cs = insert (q, n) (used bs)" "tiles (a + unat (blk_size b)) cs e" for m
      using used_inside [OF that(3) Cons.prems(2), of q n] that(2) u b(2) by auto
    ultimately show ?thesis using ih b eq by auto
  qed
qed simp

lemma FirstFit_refuses:
  "fst (FirstFit_Allocate bs n) = nullptr \<longleftrightarrow> (\<forall>b \<in> set bs. blk_free b \<longrightarrow> blk_size b < n)"
  if "tiles a bs e" "e < 2 ^ 64"
proof -
  have "blk_offset b + 1 \<noteq> 0" if "b \<in> set bs" for b
    using tiles_inside [OF \<open>tiles a bs e\<close> that] unat_next [of "blk_offset b" e] \<open>e < 2 ^ 64\<close>
    by (auto simp: unat_eq_0 [symmetric])
  then show ?thesis
    by (auto simp: FirstFit_first find_None_iff find_Some_iff split: option.splits)
qed

subsection \<open>Freeing\<close>

lemma mark_free_inv:
  assumes "tiles a bs e" "e < 2 ^ 64" "(p, n) \<in> used bs"
  shows "tiles a (mark_free (p - 1) bs) e \<and> used (mark_free (p - 1) bs) = used bs - {(p, n)}"
  using assms
proof (induction bs arbitrary: a)
  case (Cons b bs)
  have rest: "tiles (a + unat (blk_size b)) bs e" and b: "unat (blk_offset b) = a" "0 < unat (blk_size b)"
    using Cons.prems(1) by simp_all
  have "unat (blk_offset b) < e" using tiles_inside [OF Cons.prems(1), of b] by simp
  then have u: "unat (blk_offset b + 1) = a + 1" using unat_next [of "blk_offset b" e] b Cons.prems(2) by simp
  have later: "a + unat (blk_size b) + 1 \<le> unat r" if "(r, k) \<in> used bs" for r k
    using used_inside [OF rest Cons.prems(2) that] by simp
  show ?case
  proof (cases "blk_offset b = p - 1")
    case True
    then have p: "p = blk_offset b + 1" by simp
    have "(p, m) \<notin> used bs" for m using later [of p m] u b(2) p by auto
    then show ?thesis using Cons.prems(3) rest b p by (auto split: if_splits)
  next
    case False
    then have "p \<noteq> blk_offset b + 1" by auto
    then show ?thesis using Cons.IH [OF rest Cons.prems(2)] Cons.prems(3) b False by (auto split: if_splits)
  qed
qed simp

lemma coalesce_head: "\<exists>c cs. coalesce (b # bs) = c # cs \<and> blk_free c = blk_free b"
  by (induction "b # bs" arbitrary: b bs rule: coalesce.induct) auto

lemma coalesced_coalesce: "coalesced (coalesce bs)"
proof (induction bs rule: coalesce.induct)
  case (1 b c bs)
  obtain d ds where d: "coalesce (c # bs) = d # ds" "blk_free d = blk_free c" using coalesce_head by blast
  with 1 show ?case by auto
qed simp_all

lemma coalesce_inv:
  "tiles a bs e \<Longrightarrow> e < 2 ^ 64 \<Longrightarrow> tiles a (coalesce bs) e \<and> used (coalesce bs) = used bs"
proof (induction bs arbitrary: a rule: coalesce.induct)
  case (1 b c bs)
  show ?case
  proof (cases "blk_free b \<and> blk_free c")
    case True
    have "a + unat (blk_size b) + unat (blk_size c) \<le> e"
      using 1(3) tiles_end [of "a + unat (blk_size b) + unat (blk_size c)" bs e] by simp
    then have "unat (blk_size b + blk_size c) = unat (blk_size b) + unat (blk_size c)"
      using 1(4) by (simp add: unat_plus_less)
    then have "tiles a (b\<lparr>blk_size := blk_size b + blk_size c\<rparr> # bs) e" using 1(3) by (simp add: add.assoc)
    from 1(1) [OF True this 1(4)] True show ?thesis by simp
  next
    case False
    have "tiles (a + unat (blk_size b)) (c # bs) e" using 1(3) by simp
    from 1(2) [OF False this 1(4)] False 1(3) show ?thesis by auto
  qed
qed simp_all

lemma FirstFit_Free_inv:
  assumes "ff_inv bs L" "(p, n) \<in> L"
  shows "ff_inv (FirstFit_Free bs p) (L - {(p, n)}) \<and> ff_end (FirstFit_Free bs p) = ff_end bs"
proof -
  have t: "tiles 0 bs (ff_end bs)" "ff_end bs < 2 ^ 64" "(p, n) \<in> used bs" using assms by (auto simp: ff_inv_def)
  note m = mark_free_inv [OF t]
  have c: "tiles 0 (coalesce (mark_free (p - 1) bs)) (ff_end bs)"
    "used (coalesce (mark_free (p - 1) bs)) = used bs - {(p, n)}"
    using coalesce_inv [of 0 "mark_free (p - 1) bs" "ff_end bs"] m t(2) by auto
  have "p \<noteq> 0" using used_inside [OF t] by auto
  then show ?thesis using c tiles_end [OF c(1)] t(2) assms(1) coalesced_coalesce
    by (auto simp: FirstFit_Free_def ff_inv_def)
qed

text \<open>With nothing allocated the arena is one free block.\<close>

lemma all_free_single:
  "coalesced bs \<Longrightarrow> used bs = {} \<Longrightarrow> tiles a bs e \<Longrightarrow> a < e \<Longrightarrow> \<exists>b. bs = [b] \<and> blk_free b \<and> unat (blk_size b) = e - a"
  by (cases bs rule: coalesced.cases) (auto split: if_splits)

subsection \<open>First fit as a region allocator\<close>

text \<open>
  The callers never ask for 0 bytes; the contract is stated for requests of at least one byte (a
  request for 0 bytes would get the address of the next block).
\<close>

definition FirstFit_request :: "FirstFitAllocator \<Rightarrow> size_t \<Rightarrow> ptr \<times> FirstFitAllocator" where
  "FirstFit_request s n = (if n = 0 then (nullptr, s) else FirstFit_Allocate s n)"

lemma FirstFit_request_inv:
  assumes "ff_inv s L" "FirstFit_request s n = (p, s')"
  shows "(p = nullptr \<and> s' = s) \<or> (p \<noteq> nullptr \<and> ff_inv s' (insert (p, n) L) \<and> (\<forall>m. (p, m) \<notin> L) \<and> ff_end s' = ff_end s)"
proof (cases "n = 0")
  case False
  then have "(p = nullptr \<and> s' = s) \<or> (p \<noteq> nullptr \<and> tiles 0 s' (ff_end s) \<and> coalesced s' \<and>
      used s' = insert (p, n) (used s) \<and> (\<forall>m. (p, m) \<notin> used s))"
    using assms FirstFit_Allocate_inv [of 0 s "ff_end s" n p s']
    by (auto simp: ff_inv_def FirstFit_request_def word_gt_0)
  then show ?thesis using assms(1) tiles_end [of 0 s' "ff_end s"] by (auto simp: ff_inv_def)
qed (use assms in \<open>simp add: FirstFit_request_def\<close>)

interpretation first_fit: region_allocator FirstFit_request "\<lambda>s p n. Some (FirstFit_Free s p)" ff_inv
  "\<lambda>s n. unat n" "\<lambda>s. 1" "\<lambda>s. ff_end s + 1"
proof (unfold_locales, goal_cases)
  case (1 s L n s')
  then show ?case using FirstFit_request_inv [OF 1] by auto
next
  case (2 s L n p s')
  then show ?case using FirstFit_request_inv [OF 2(1,2)] by auto
next
  case (3 s L p n)
  then show ?case using FirstFit_Free_inv [OF 3] by auto
next
  case (4 s L p n)
  then show ?case using used_inside [of 0 s "ff_end s" p n] by (auto simp: ff_inv_def)
next
  case (5 s L p n q m)
  then show ?case using used_apart [of 0 s "ff_end s" p n q m] by (auto simp: ff_inv_def)
qed

lemma FirstFit_new_inv: "0 < T \<Longrightarrow> T < 2 ^ 64 \<Longrightarrow> unat w = T \<Longrightarrow> ff_inv (FirstFit_new w) {} \<and> ff_end (FirstFit_new w) = T"
  by (auto simp: ff_inv_def FirstFit_new_def ff_end_def)

subsection \<open>Properties\<close>

text \<open>
  C26. After any legal history of requests (of at least one byte) and frees on a first-fit allocator,
  the regions held lie inside the arena and do not overlap; a request is then served at the lowest
  offset whose free block is large enough, and refused exactly when no maximal free stretch is
  large enough; and when nothing is held the arena is one free block again.
\<close>

theorem FirstFit_history_safe:
  assumes run: "run_mem FirstFit_request (\<lambda>s p n. Some (FirstFit_Free s p)) ops (FirstFit_new TOTAL) {} = Ran s L"
    and pos: "0 < TOTAL"
  shows "(\<forall>r \<in> L. 1 \<le> unat (fst r) \<and> unat (fst r) + unat (snd r) \<le> unat TOTAL + 1 \<and>
      (\<forall>q \<in> L. r \<noteq> q \<longrightarrow> disjoint_regions (unat (fst r)) (unat (snd r)) (unat (fst q)) (unat (snd q)))) \<and>
    (\<forall>n. fst (FirstFit_Allocate s n) =
       (case List.find (\<lambda>b. blk_free b \<and> n \<le> blk_size b) s of None \<Rightarrow> nullptr | Some b \<Rightarrow> blk_offset b + 1) \<and>
       (fst (FirstFit_Allocate s n) = nullptr \<longleftrightarrow> (\<forall>b \<in> set s. blk_free b \<longrightarrow> blk_size b < n))) \<and>
    coalesced s \<and> (L = {} \<longrightarrow> s = FirstFit_new TOTAL)"
proof -
  have lt: "unat TOTAL < 2 ^ 64" by (rule order_less_le_trans [OF unsigned_less]) simp
  have new: "ff_inv (FirstFit_new TOTAL) {}" "ff_end (FirstFit_new TOTAL) = unat TOTAL"
    using FirstFit_new_inv [OF _ lt refl] pos by (simp_all add: word_less_nat_alt)
  have inv: "ff_inv s L" and e: "ff_end s = unat TOTAL"
    using first_fit.run_mem_inv [OF new(1) run] new(2) by auto
  have t: "tiles 0 s (unat TOTAL)" using inv e by (simp add: ff_inv_def)
  note safe = first_fit.run_mem_safe [OF new(1) run, unfolded new(2)]
  have "s = FirstFit_new TOTAL" if none: "L = {}"
  proof -
    obtain b where b: "s = [b]" "blk_free b" "unat (blk_size b) = unat TOTAL"
      using all_free_single [of s 0 "unat TOTAL"] inv t none pos unfolding ff_inv_def word_less_nat_alt by auto
    then have "blk_offset b = 0" "blk_size b = TOTAL" using t by (simp_all add: unat_eq_0 unsigned_word_eqI)
    then show ?thesis using b by (cases b) (simp add: FirstFit_new_def)
  qed
  moreover have "1 \<le> unat (fst r) \<and> unat (fst r) + unat (snd r) \<le> unat TOTAL + 1 \<and>
      (\<forall>q \<in> L. r \<noteq> q \<longrightarrow> disjoint_regions (unat (fst r)) (unat (snd r)) (unat (fst q)) (unat (snd q)))" if "r \<in> L" for r
    using safe that by (cases r) fastforce
  moreover have "coalesced s" using inv by (simp add: ff_inv_def)
  ultimately show ?thesis using FirstFit_refuses [OF t lt] FirstFit_first by simp
qed

theorem FirstFit_history_safe_witness:
  "\<exists>s. run_mem FirstFit_request (\<lambda>s p n. Some (FirstFit_Free s p)) [Request 100, Request 200, Release 1 100]
       (FirstFit_new 8192) {} = Ran s {(101, 200)} \<and> coalesced s \<and> fst (FirstFit_Allocate s 50) = 1"
proof -
  have r: "run_mem FirstFit_request (\<lambda>s p n. Some (FirstFit_Free s p)) [Request 100, Request 200, Release 1 100]
      (FirstFit_new 8192) {} = Ran
        [\<lparr>blk_offset = 0, blk_size = 100, blk_free = True\<rparr>, \<lparr>blk_offset = 100, blk_size = 200, blk_free = False\<rparr>,
         \<lparr>blk_offset = 300, blk_size = 7892, blk_free = True\<rparr>] {(101, 200)}"
    by (simp add: FirstFit_request_def FirstFit_new_def FirstFit_Free_def insert_Diff_if)
  from FirstFit_history_safe [OF r] show ?thesis using r by simp
qed

end
