(* ===== verification/ContiguousDemo.thy ===== *)
theory ContiguousDemo
  imports VisualizerDemo FirstFit
begin

text \<open>
  \<^verbatim>\<open>memlab/sim/contiguous_demo.cpp\<close>: round-robin scheduling of processes that hold one contiguous region
  of memory from admission to termination.  A process whose request does not fit waits, in state
  \<open>New\<close>, in the list \<open>mem_wait\<close>, which is tried again in every tick.  Nothing in the loop can leave
  defined behaviour, so a tick is a total function.
\<close>

record contig = demo +
  ct_alloc :: FirstFitAllocator
  ct_mem_wait :: "nat list"
  ct_allocs :: "int \<Rightarrow> ptr"

definition num64 :: "size_t \<Rightarrow> string" where
  "num64 n = trace_num (sint n)"

definition contig_finish :: "nat \<Rightarrow> u32 \<Rightarrow> contig \<Rightarrow> contig" where
  "contig_finish i t d =
     (let p = dm_procs d ! i;
          d1 = d\<lparr>ct_alloc := FirstFit_Free (ct_alloc d) (ct_allocs d (p_pid p))\<rparr>;
          d2 = demo_log t ''memory_freed'' i
                 [(''offset'', num64 (ct_allocs d1 (p_pid p) - 1)), (''size'', num32 (p_mem_bytes p))] d1;
          d3 = demo_log t ''process_terminated'' i [] d2
      in demo_put i ((dm_procs d3 ! i)\<lparr>p_state := Terminated\<rparr>) d3)"

definition try_admit :: "nat \<Rightarrow> contig \<Rightarrow> bool \<times> contig" where
  "try_admit i d =
     (let p = dm_procs d ! i;
          (q, bs) = FirstFit_Allocate (ct_alloc d) (ucast (p_mem_bytes p));
          d1 = d\<lparr>ct_alloc := bs\<rparr>
      in if q = nullptr then (False, d1)
         else let d2 = d1\<lparr>ct_allocs := (ct_allocs d1)(p_pid p := q)\<rparr>;
                  d3 = demo_log (dm_tick d2) ''memory_allocated'' i
                         [(''offset'', num64 (q - 1)), (''size'', num32 (p_mem_bytes p))] d2
              in (True, do_enqueue i False d3))"

definition contig_arrive :: "nat \<Rightarrow> contig \<Rightarrow> contig" where
  "contig_arrive i d =
     (let p = dm_procs d ! i in
      if p_state p = New \<and> p_arrival p = dm_tick d then
        let d1 = demo_log (dm_tick d) ''process_created'' i
                   [(''name'', trace_str (p_name p)), (''memoryRequest'', num32 (p_mem_bytes p))] d;
            (admitted, d2) = try_admit i d1
        in if admitted then d2 else d2\<lparr>ct_mem_wait := ct_mem_wait d2 @ [i]\<rparr>
      else d)"

definition contig_arrivals :: "contig \<Rightarrow> contig" where
  "contig_arrivals d = fold contig_arrive [0..<length (dm_procs d)] d"

definition contig_io :: "contig \<Rightarrow> contig" where
  "contig_io d = io_pass contig_finish [] (dm_io d) d"

fun mem_pass :: "nat list \<Rightarrow> nat list \<Rightarrow> contig \<Rightarrow> contig" where
  "mem_pass kept [] d = d\<lparr>ct_mem_wait := kept\<rparr>"
| "mem_pass kept (i # ws) d =
     (let (admitted, d1) = try_admit i d in mem_pass (if admitted then kept else kept @ [i]) ws d1)"

definition contig_admissions :: "contig \<Rightarrow> contig" where
  "contig_admissions d = mem_pass [] (ct_mem_wait d) d"

definition contig_step :: "contig \<Rightarrow> contig" where
  "contig_step d =
     (let d1 = demo_schedule (demo_preempt (contig_admissions (contig_io (contig_arrivals d))));
          d2 = (case dm_running d1 of None \<Rightarrow> d1 | Some i \<Rightarrow> cpu_step contig_finish i d1)
      in d2\<lparr>dm_tick := dm_tick d2 + 1\<rparr>)"

partial_function (option) contig_loop :: "contig \<Rightarrow> contig option" where
  "contig_loop d =
     (if \<not> all_done (dm_procs d) \<and> dm_tick d < 1000 then contig_loop (contig_step d) else Some d)"

subsection \<open>The workload of main\<close>

definition mem_sizes :: "u32 list" where
  "mem_sizes = [128, 256, 512, 1024, 2048]"

definition contig_bursts :: "'g int_dist \<Rightarrow> nat \<Rightarrow> 'g \<Rightarrow> Burst list \<times> 'g" where
  "contig_bursts draw nb g = drawn_bursts draw 2 6 1 4 nb g"

definition contig_process :: "'g int_dist \<Rightarrow> ('g \<Rightarrow> u32 \<times> 'g) \<Rightarrow> nat \<Rightarrow> 'g \<Rightarrow> Process \<times> 'g" where
  "contig_process draw rng i g =
     (let (arr, g1) = draw g 0 5;
          (r1, g2) = rng g1;
          (r2, g3) = rng g2;
          (bs, g4) = contig_bursts draw (unat (r2 mod 3) + 1) g3
      in (Process_default\<lparr>p_pid := int i + 1, p_name := viz_names ! i, p_arrival := of_int arr,
            p_mem_bytes := mem_sizes ! unat (r1 mod 5),
            p_bursts := bs, p_cur_burst := 0, p_burst_remaining := (if bs = [] then 0 else b_ticks (bs ! 0))\<rparr>, g4))"

fun contig_processes :: "'g int_dist \<Rightarrow> ('g \<Rightarrow> u32 \<times> 'g) \<Rightarrow> nat list \<Rightarrow> 'g \<Rightarrow> Process list \<times> 'g" where
  "contig_processes draw rng [] g = ([], g)"
| "contig_processes draw rng (i # js) g =
     (let (p, g1) = contig_process draw rng i g; (ps, g2) = contig_processes draw rng js g1 in (p # ps, g2))"

definition contig_init :: "'g int_dist \<Rightarrow> ('g \<Rightarrow> u32 \<times> 'g) \<Rightarrow> 'g \<Rightarrow> contig" where
  "contig_init draw rng seed =
     \<lparr>dm_trace = TraceWriter_new, dm_sched = RoundRobin_new 4, dm_procs = fst (contig_processes draw rng [0..<8] seed),
      dm_tick = 0, dm_running = None, dm_ran = 0, dm_io = [],
      ct_alloc = FirstFit_new 8192, ct_mem_wait = [], ct_allocs = (\<lambda>pid. nullptr)\<rparr>"

definition contiguous_demo :: "'g int_dist \<Rightarrow> ('g \<Rightarrow> u32 \<times> 'g) \<Rightarrow> 'g \<Rightarrow> contig option" where
  "contiguous_demo draw rng seed = contig_loop (contig_init draw rng seed)"

subsection \<open>Processes and their regions\<close>

text \<open>
  The processes that have been admitted and have not terminated hold exactly the regions in use, each its
  own.  \<open>mem_ok N ws d\<close>: the list \<open>ws\<close> has the processes that have arrived (\<open>N\<close>, by index and arrival time) and
  have not been admitted, once each.
\<close>

abbreviation pid_at :: "'a demo_scheme \<Rightarrow> nat \<Rightarrow> int" where "pid_at d i \<equiv> fst (lives d ! i)"
abbreviation size_at :: "'a demo_scheme \<Rightarrow> nat \<Rightarrow> u32" where "size_at d i \<equiv> fst (fst (snd (lives d ! i)))"
abbreviation arrival_at :: "'a demo_scheme \<Rightarrow> nat \<Rightarrow> u32" where "arrival_at d i \<equiv> snd (fst (snd (lives d ! i)))"
abbreviation stage_at :: "'a demo_scheme \<Rightarrow> nat \<Rightarrow> stage" where "stage_at d i \<equiv> snd (snd (lives d ! i))"

definition in_stage :: "stage \<Rightarrow> 'a demo_scheme \<Rightarrow> nat set" where
  "in_stage s d = {i. i < length (lives d) \<and> stage_at d i = s}"

definition held_region :: "contig \<Rightarrow> nat \<Rightarrow> ptr \<times> size_t" where
  "held_region d i = (ct_allocs d (pid_at d i), ucast (size_at d i))"

definition ct_ok :: "contig \<Rightarrow> bool" where
  "ct_ok d \<longleftrightarrow> distinct (map fst (lives d)) \<and> (\<forall>i < length (lives d). 0 < size_at d i \<and> size_at d i \<le> 2048 \<and> arrival_at d i \<le> 5) \<and>
     inj_on (\<lambda>i. ct_allocs d (pid_at d i)) (in_stage Active d) \<and>
     ff_inv (ct_alloc d) (held_region d ` in_stage Active d) \<and> ff_end (ct_alloc d) = 8192"

definition mem_ok :: "(nat \<Rightarrow> u32 \<Rightarrow> bool) \<Rightarrow> nat list \<Rightarrow> 'a demo_scheme \<Rightarrow> bool" where
  "mem_ok N ws d \<longleftrightarrow> distinct ws \<and> set ws = {i \<in> in_stage Fresh d. N i (arrival_at d i)}"

definition contig_inv :: "(nat \<Rightarrow> u32 \<Rightarrow> bool) \<Rightarrow> contig \<Rightarrow> bool" where
  "contig_inv N d \<longleftrightarrow> ct_ok d \<and> mem_ok N (ct_mem_wait d) d"

lemma lives_nth: "i < length (dm_procs d) \<Longrightarrow> lives d ! i = life (dm_procs d ! i)" "length (lives d) = length (dm_procs d)"
  by (simp_all add: lives_def)

lemma contig_more:
  "demo.more d' = demo.more d \<Longrightarrow> ct_alloc d' = ct_alloc d \<and> ct_mem_wait d' = ct_mem_wait d \<and> ct_allocs d' = ct_allocs d" for d :: contig
  by (cases d, cases d') simp

text \<open>Moving one process to another stage.\<close>

lemma stage_change:
  assumes l: "lives d' = (lives d)[i := (pid_at d i, fst (snd (lives d ! i)), s)]" and i: "i < length (lives d)"
  shows "length (lives d') = length (lives d)" "pid_at d' j = pid_at d j" "size_at d' j = size_at d j"
    "arrival_at d' j = arrival_at d j" "stage_at d' j = (if j = i then s else stage_at d j)"
    "in_stage u d' = (if u = s then insert i (in_stage u d) else in_stage u d - {i})" "map fst (lives d') = map fst (lives d)"
proof -
  show "length (lives d') = length (lives d)" by (simp add: l)
  have n: "lives d' ! j = (if j = i then (pid_at d i, fst (snd (lives d ! i)), s) else lives d ! j)" for j
    using i by (simp add: l)
  then show "pid_at d' j = pid_at d j" "size_at d' j = size_at d j" "arrival_at d' j = arrival_at d j"
    "stage_at d' j = (if j = i then s else stage_at d j)" by simp_all
  show "in_stage u d' = (if u = s then insert i (in_stage u d) else in_stage u d - {i})"
    using n i by (auto simp: in_stage_def l)
  show "map fst (lives d') = map fst (lives d)" using i by (simp add: l map_update list_update_same_conv)
qed

lemma held_region_inj: "ct_ok d \<Longrightarrow> inj_on (held_region d) (in_stage Active d)"
  by (auto simp: ct_ok_def held_region_def inj_on_def)

lemma ct_ok_release:
  assumes ok: "ct_ok d" and i: "i \<in> in_stage Active d"
    and l: "lives d' = (lives d)[i := (pid_at d i, fst (snd (lives d ! i)), Gone)]"
    and a: "ct_alloc d' = FirstFit_Free (ct_alloc d) (ct_allocs d (pid_at d i))" "ct_allocs d' = ct_allocs d"
  shows "ct_ok d'"
proof -
  have lt: "i < length (lives d)" using i by (simp add: in_stage_def)
  note ch = stage_change [OF l lt]
  have r: "held_region d' = held_region d" by (intro ext) (simp add: held_region_def ch(2,3) a(2))
  have "ff_inv (ct_alloc d) (held_region d ` in_stage Active d)" using ok by (simp add: ct_ok_def)
  moreover have "held_region d i \<in> held_region d ` in_stage Active d" using i by blast
  then have "(ct_allocs d (pid_at d i), ucast (size_at d i)) \<in> held_region d ` in_stage Active d" by (simp add: held_region_def)
  ultimately have f: "ff_inv (ct_alloc d') (held_region d ` in_stage Active d - {held_region d i})" "ff_end (ct_alloc d') = ff_end (ct_alloc d)"
    using FirstFit_Free_inv [of "ct_alloc d" "held_region d ` in_stage Active d"] by (simp_all add: held_region_def a)
  have "held_region d ` (in_stage Active d - {i}) = held_region d ` in_stage Active d - {held_region d i}"
    using inj_on_image_set_diff [OF held_region_inj [OF ok], of "in_stage Active d" "{i}"] i by auto
  then show ?thesis using ok f ch r a(2)
    by (auto simp: ct_ok_def inj_on_def)
qed

lemma unat_size: "unat (ucast x :: size_t) = unat x" for x :: u32
proof -
  have "unat x < 2 ^ 64" by (rule order_less_le_trans [OF unsigned_less]) simp
  then show ?thesis by (simp add: unsigned_ucast_eq take_bit_nat_eq_self_iff)
qed

lemma ct_ok_grant:
  assumes ok: "ct_ok d" and i: "i \<in> in_stage Fresh d" and q: "q \<noteq> nullptr"
    and al: "FirstFit_Allocate (ct_alloc d) (ucast (size_at d i)) = (q, bs)"
    and l: "lives d' = (lives d)[i := (pid_at d i, fst (snd (lives d ! i)), Active)]"
    and a: "ct_alloc d' = bs" "ct_allocs d' = (ct_allocs d)(pid_at d i := q)"
  shows "ct_ok d'"
proof -
  have lt: "i < length (lives d)" using i by (simp add: in_stage_def)
  note ch = stage_change [OF l lt]
  let ?A = "in_stage Active d" and ?n = "ucast (size_at d i) :: size_t"
  have "0 < size_at d i" using ok lt by (simp add: ct_ok_def)
  then have n: "?n \<noteq> 0" using unat_size [of "size_at d i"] by (metis less_irrefl unat_0 unat_eq_0)
  have new: "ff_inv bs (insert (q, ?n) (held_region d ` ?A))" "\<forall>m. (q, m) \<notin> held_region d ` ?A" "ff_end bs = ff_end (ct_alloc d)"
    using FirstFit_request_inv [of "ct_alloc d" "held_region d ` ?A" ?n q bs] ok q al n by (auto simp: FirstFit_request_def ct_ok_def)
  have other: "pid_at d j \<noteq> pid_at d i" if "j \<in> ?A" for j
  proof -
    have "j < length (lives d)" "j \<noteq> i" using that i by (auto simp: in_stage_def)
    then show ?thesis using ok lt nth_eq_iff_index_eq [of "map fst (lives d)" j i] by (simp add: ct_ok_def)
  qed
  then have same: "ct_allocs d' (pid_at d' j) = ct_allocs d (pid_at d j)" "held_region d' j = held_region d j" if "j \<in> ?A" for j
    using that by (simp_all add: a ch(2,3) held_region_def)
  have i': "ct_allocs d' (pid_at d' i) = q" "held_region d' i = (q, ?n)" by (simp_all add: a ch(2,3) held_region_def)
  have act: "in_stage Active d' = insert i ?A" by (simp add: ch(6))
  have "held_region d' ` in_stage Active d' = insert (q, ?n) (held_region d ` ?A)"
    unfolding act image_insert i'(2) using image_cong [OF refl same(2), of ?A] by simp
  moreover have fresh: "q \<noteq> ct_allocs d (pid_at d j)" if "j \<in> ?A" for j using new(2) that by (auto simp: held_region_def)
  have "inj_on (\<lambda>j. ct_allocs d' (pid_at d' j)) ?A" using ok by (simp add: ct_ok_def inj_on_def same(1))
  moreover have "q \<notin> (\<lambda>j. ct_allocs d' (pid_at d' j)) ` ?A" using fresh same(1) by auto
  ultimately have "held_region d' ` in_stage Active d' = insert (q, ?n) (held_region d ` ?A)"
    "inj_on (\<lambda>j. ct_allocs d' (pid_at d' j)) (in_stage Active d')"
    unfolding act inj_on_insert i'(1) by auto
  then show ?thesis using ok new ch(1,3,4,7) a(1) by (simp add: ct_ok_def)
qed

text \<open>The lists of waiting processes.\<close>

lemma mem_ok_cong: "mem_ok N ws d \<Longrightarrow> lives d' = lives d \<Longrightarrow> mem_ok N ws d'"
  by (simp add: mem_ok_def in_stage_def)

lemma mem_ok_stage:
  assumes "mem_ok N (kept @ i # ws) d" "lives d' = (lives d)[i := (pid_at d i, fst (snd (lives d ! i)), Active)]"
  shows "mem_ok N (kept @ ws) d'"
proof -
  have "i \<in> set (kept @ i # ws)" by simp
  then have lt: "i < length (lives d)" using assms(1) unfolding mem_ok_def by (auto simp: in_stage_def)
  note ch = stage_change [OF assms(2) lt]
  have "in_stage Fresh d' = in_stage Fresh d - {i}" by (simp add: ch(6))
  then show ?thesis using assms(1) unfolding mem_ok_def ch(4) by auto
qed

lemma mem_ok_finish:
  assumes "mem_ok N ws d" "i \<in> in_stage Active d" "lives d' = (lives d)[i := (pid_at d i, fst (snd (lives d ! i)), Gone)]"
  shows "mem_ok N ws d'"
proof -
  have lt: "i < length (lives d)" using assms(2) by (simp add: in_stage_def)
  note ch = stage_change [OF assms(3) lt]
  have "i \<notin> in_stage Fresh d" using assms(2) by (simp add: in_stage_def)
  then have "in_stage Fresh d' = in_stage Fresh d" by (simp add: ch(6))
  then show ?thesis using assms(1) unfolding mem_ok_def ch(4) by simp
qed

lemma active_at: "i < length (dm_procs d) \<Longrightarrow> i \<in> in_stage s d \<longleftrightarrow> stage (dm_procs d ! i) = s"
  by (simp add: in_stage_def lives_nth life_def)

lemma lives_restage:
  assumes "i < length (dm_procs d)" "dm_procs d' = (dm_procs d)[i := (dm_procs d ! i)\<lparr>p_state := x\<rparr>]"
  shows "lives d' = (lives d)[i := (pid_at d i, fst (snd (lives d ! i)), stage ((dm_procs d ! i)\<lparr>p_state := x\<rparr>))]"
proof -
  have "lives d' = (lives d)[i := life ((dm_procs d ! i)\<lparr>p_state := x\<rparr>)]" by (simp add: lives_def assms(2) map_update)
  then show ?thesis using assms(1) by (simp add: lives_nth life_def)
qed

lemma contig_finish_frame:
  "dm_procs (contig_finish i t d) = (dm_procs d)[i := (dm_procs d ! i)\<lparr>p_state := Terminated\<rparr>]"
  "dm_sched (contig_finish i t d) = dm_sched d" "dm_tick (contig_finish i t d) = dm_tick d"
  "dm_running (contig_finish i t d) = dm_running d" "dm_ran (contig_finish i t d) = dm_ran d" "dm_io (contig_finish i t d) = dm_io d"
  "ct_alloc (contig_finish i t d) = FirstFit_Free (ct_alloc d) (ct_allocs d (p_pid (dm_procs d ! i)))"
  "ct_allocs (contig_finish i t d) = ct_allocs d" "ct_mem_wait (contig_finish i t d) = ct_mem_wait d"
  by (simp_all add: contig_finish_def Let_def demo_log_def demo_put_def)

interpretation ct: demo_memory contig_finish "contig_inv N" for N
proof unfold_locales
  fix d d' :: contig and i t
  show "dm_procs (contig_finish i t d) = (dm_procs d)[i := (dm_procs d ! i)\<lparr>p_state := Terminated\<rparr>]"
    "dm_sched (contig_finish i t d) = dm_sched d" "dm_tick (contig_finish i t d) = dm_tick d"
    "dm_running (contig_finish i t d) = dm_running d" "dm_ran (contig_finish i t d) = dm_ran d" "dm_io (contig_finish i t d) = dm_io d"
    by (rule contig_finish_frame)+
  show "contig_inv N d'" if "contig_inv N d" "lives d' = lives d" "demo.more d' = demo.more d"
  proof -
    have "in_stage s d' = in_stage s d" "held_region d' = held_region d" for s
      using that(2) contig_more [OF that(3)] by (auto simp: in_stage_def held_region_def)
    then show ?thesis using that(1,2) contig_more [OF that(3)] by (simp add: contig_inv_def ct_ok_def mem_ok_def)
  qed
  show "contig_inv N (contig_finish i t d)"
    if inv: "contig_inv N d" and lt: "i < length (dm_procs d)" and act: "stage (dm_procs d ! i) = Active"
  proof -
    have i: "i \<in> in_stage Active d" using lt act by (simp add: active_at)
    have pid: "p_pid (dm_procs d ! i) = pid_at d i" using lt by (simp add: lives_nth life_def)
    have "stage ((dm_procs d ! i)\<lparr>p_state := Terminated\<rparr>) = Gone" by (simp add: stage_def)
    then have l: "lives (contig_finish i t d) = (lives d)[i := (pid_at d i, fst (snd (lives d ! i)), Gone)]"
      using lives_restage [OF lt contig_finish_frame(1)] by simp
    show ?thesis
      using ct_ok_release [OF _ i l] mem_ok_finish [OF _ i l] inv by (simp add: contig_inv_def contig_finish_frame pid)
  qed
qed

subsection \<open>The phases of a tick\<close>

abbreviation todo :: "RoundRobin sim \<Rightarrow> nat" where
  "todo st \<equiv> remaining (sm_waiting st) st"

lemma empty_admits:
  assumes "ct_ok d" "in_stage Active d = {}" "i < length (lives d)"
  shows "fst (FirstFit_Allocate (ct_alloc d) (ucast (size_at d i))) \<noteq> nullptr"
proof -
  have "ff_inv (ct_alloc d) {}" "ff_end (ct_alloc d) = 8192" using assms(1,2) by (auto simp: ct_ok_def)
  then have "coalesced (ct_alloc d)" "used (ct_alloc d) = {}" "tiles 0 (ct_alloc d) 8192" by (simp_all add: ff_inv_def)
  from all_free_single [OF this] obtain b where b: "ct_alloc d = [b]" "blk_free b" "unat (blk_size b) = 8192" "unat (blk_offset b) = 0"
    using \<open>tiles 0 (ct_alloc d) 8192\<close> by auto
  have "unat (size_at d i) \<le> 2048" using assms(1,3) by (simp add: ct_ok_def word_le_nat_alt)
  then have "(ucast (size_at d i) :: size_t) \<le> blk_size b" using b(3) by (simp add: word_le_nat_alt unat_size)
  moreover have "blk_offset b = 0" using b(4) by (simp add: unat_eq_0)
  ultimately show ?thesis using b by simp
qed

lemma try_admit_ok:
  assumes c: "coupled d st" and ok: "ct_ok d" and i: "i \<in> in_stage Fresh d" and t: "try_admit i d = (b, d')"
  obtains st' where "coupled d' st'" "todo st' = todo st" "sm_waiting st' = sm_waiting st" "ct_ok d'"
    "ct_mem_wait d' = ct_mem_wait d" "dm_tick d' = dm_tick d" "in_stage Active d = {} \<longrightarrow> b"
    "lives d' = (if b then (lives d)[i := (pid_at d i, fst (snd (lives d ! i)), Active)] else lives d)"
proof -
  have rel: "demo_rel d st" using c by (simp add: coupled_def)
  have lt: "i < length (dm_procs d)" "i < length (lives d)" "i < length (sm_procs st)"
    using i demo_rel_length [OF rel] by (simp_all add: in_stage_def lives_nth)
  have "p_state (dm_procs d ! i) = New"
    using i lt(1) by (cases "p_state (dm_procs d ! i)") (simp_all add: active_at stage_def)
  then have new: "p_state (sm_procs st ! i) = New"
    using demo_rel_nth [OF rel lt(3)] by (auto simp: proc_rel_def split: if_splits)
  have p: "p_pid (dm_procs d ! i) = pid_at d i" "p_mem_bytes (dm_procs d ! i) = size_at d i"
    using lt(1) by (simp_all add: lives_nth life_def)
  obtain q bs where al: "FirstFit_Allocate (ct_alloc d) (ucast (size_at d i)) = (q, bs)" by fastforce
  show thesis
  proof (cases "q = nullptr")
    case True
    have r: "b = False" "d' = d\<lparr>ct_alloc := bs\<rparr>" using t al True p by (simp_all add: try_admit_def Let_def)
    have "0 < size_at d i" using ok lt(2) by (simp add: ct_ok_def)
    then have "(ucast (size_at d i) :: size_t) \<noteq> 0" using unat_size [of "size_at d i"] by (metis less_irrefl unat_0 unat_eq_0)
    then have "bs = ct_alloc d"
      using FirstFit_request_inv [of "ct_alloc d" _ "ucast (size_at d i)" q bs] ok al True by (auto simp: ct_ok_def FirstFit_request_def)
    then have d': "d' = d" using r by simp
    have "in_stage Active d \<noteq> {}" using empty_admits [OF ok _ lt(2)] al True by auto
    then show thesis using that [of st] c ok r(1) by (simp add: d')
  next
    case False
    define e where "e = demo_log (dm_tick d) ''memory_allocated'' i [(''offset'', num64 (q - 1)), (''size'', num32 (size_at d i))]
        (d\<lparr>ct_alloc := bs, ct_allocs := (ct_allocs d)(pid_at d i := q)\<rparr>)"
    have r: "b = True" "d' = do_enqueue i False e" using t al False p by (simp_all add: try_admit_def Let_def e_def)
    have "coupled e st" using c by (simp add: e_def coupled_def demo_rel_def)
    note en = coupled_enqueue(1) [OF this lt(3) new, of False] coupled_enqueue(2) [OF this lt(3) new]
    have "dm_procs e = dm_procs d" "ct_alloc e = bs" "ct_allocs e = (ct_allocs d)(pid_at d i := q)" "ct_mem_wait e = ct_mem_wait d"
      by (simp_all add: e_def demo_log_def)
    then have d': "dm_procs d' = (dm_procs d)[i := (dm_procs d ! i)\<lparr>p_state := Ready\<rparr>]" "ct_alloc d' = bs"
      "ct_allocs d' = (ct_allocs d)(pid_at d i := q)" "ct_mem_wait d' = ct_mem_wait d"
      using contig_more [of d' e] by (simp_all add: r(2))
    have l: "lives d' = (lives d)[i := (pid_at d i, fst (snd (lives d ! i)), Active)]"
      using lives_restage [OF lt(1) d'(1)] by (simp add: stage_def)
    have "ct_ok d'" by (rule ct_ok_grant [OF ok i False al l d'(2,3)])
    then show thesis using that [OF en(1) [folded r(2)] en(2)] r(1) d'(4) l by (simp add: r(2) e_def)
  qed
qed

lemma contig_arrive_ok:
  assumes c: "coupled d st" and inv: "contig_inv N d" and i: "i < length (sm_procs st)" and N: "\<not> N i (dm_tick d)"
  obtains st' where "coupled (contig_arrive i d) st'" "todo st' = todo st" "sm_waiting st' = sm_waiting st"
    "contig_inv (\<lambda>j a. N j a \<or> j = i \<and> a = dm_tick d) (contig_arrive i d)" "dm_tick (contig_arrive i d) = dm_tick d"
    "length (sm_procs st') = length (sm_procs st)"
proof -
  have lt: "i < length (dm_procs d)" using i c demo_rel_length [of d st] by (simp add: coupled_def)
  let ?N = "\<lambda>j a. N j a \<or> j = i \<and> a = dm_tick d"
  have len: "length (sm_procs st') = length (sm_procs st)" if "coupled (contig_arrive i d) st'" "length (lives (contig_arrive i d)) = length (lives d)" for st'
    using that c demo_rel_length by (metis coupled_def lives_nth(2))
  show thesis
  proof (cases "p_state (dm_procs d ! i) = New \<and> p_arrival (dm_procs d ! i) = dm_tick d")
    case True
    let ?p = "dm_procs d ! i"
    define e where "e = demo_log (dm_tick d) ''process_created'' i [(''name'', trace_str (p_name ?p)), (''memoryRequest'', num32 (p_mem_bytes ?p))] d"
    have e: "coupled e st" "contig_inv N e" "lives e = lives d" "dm_tick e = dm_tick d"
      using c ct.minv_frame(1) [OF inv] by (simp_all add: e_def)
    have fr: "i \<in> in_stage Fresh e" "arrival_at e i = dm_tick d"
      using True lt by (simp_all add: active_at e_def stage_def lives_nth life_def)
    obtain b d2 where t: "try_admit i e = (b, d2)" by fastforce
    have m: "mem_ok N (ct_mem_wait e) e" "ct_ok e" using e(2) by (simp_all add: contig_inv_def)
    obtain st' where st': "coupled d2 st'" "todo st' = todo st" "sm_waiting st' = sm_waiting st" "ct_ok d2"
      "ct_mem_wait d2 = ct_mem_wait e" "dm_tick d2 = dm_tick e"
      "lives d2 = (if b then (lives e)[i := (pid_at e i, fst (snd (lives e ! i)), Active)] else lives e)"
      by (rule try_admit_ok [OF e(1) m(2) fr(1) t])
    define d3 where "d3 = (if b then d2 else d2\<lparr>ct_mem_wait := ct_mem_wait d2 @ [i]\<rparr>)"
    have a: "contig_arrive i d = d3" using True t by (simp add: contig_arrive_def e_def [symmetric] d3_def Let_def)
    have l3: "lives d3 = lives d2" "ct_ok d3" "coupled d3 st'"
      using st'(1,4) by (simp_all add: d3_def lives_def ct_ok_def in_stage_def held_region_def [abs_def] coupled_def demo_rel_def)
    have notin: "i \<notin> set (ct_mem_wait e)" using m(1) N fr(2) by (auto simp: mem_ok_def)
    have with_i: "mem_ok ?N (ct_mem_wait e @ [i]) e"
      using m(1) notin fr unfolding mem_ok_def by (auto simp: in_stage_def)
    have "mem_ok ?N (ct_mem_wait d3) d3"
    proof (cases b)
      case True
      then have "lives d3 = (lives e)[i := (pid_at e i, fst (snd (lives e ! i)), Active)]" using st'(7) l3(1) by simp
      from mem_ok_stage [OF _ this, of ?N "ct_mem_wait e" "[]"] with_i True st'(5) show ?thesis by (simp add: d3_def)
    next
      case False
      then show ?thesis using mem_ok_cong [OF with_i, of d3] st'(5,7) l3(1) by (simp add: d3_def)
    qed
    then have "contig_inv ?N d3" using l3(2) by (simp add: contig_inv_def)
    moreover have "length (lives d3) = length (lives d)" using l3(1) st'(7) e(3) by (simp split: if_splits)
    moreover have "dm_tick d3 = dm_tick d" using st'(6) e(4) by (simp add: d3_def)
    ultimately show thesis using that [of st'] l3(3) st'(2,3) len [of st'] by (simp add: a)
  next
    case False
    then have a: "contig_arrive i d = d" by (auto simp: contig_arrive_def Let_def)
    have "j \<in> in_stage Fresh d \<Longrightarrow> ?N j (arrival_at d j) \<longleftrightarrow> N j (arrival_at d j)" for j
      using False lt by (cases "p_state (dm_procs d ! i)") (auto simp: in_stage_def lives_nth life_def stage_def)
    then have "contig_inv ?N d" using inv unfolding contig_inv_def mem_ok_def by blast
    then show thesis using that [of st] c by (simp add: a)
  qed
qed

lemma contig_inv_N: "contig_inv N d \<Longrightarrow> (\<And>i a. i < length (lives d) \<Longrightarrow> N i a \<longleftrightarrow> N' i a) \<Longrightarrow> contig_inv N' d"
  unfolding contig_inv_def mem_ok_def by (auto simp: in_stage_def)

lemma contig_arrivals_ok:
  assumes c: "coupled d st" and inv: "contig_inv (\<lambda>j a. a < dm_tick d) d"
  obtains st' where "coupled (contig_arrivals d) st'" "todo st' = todo st" "sm_waiting st' = sm_waiting st"
    "contig_inv (\<lambda>j a. a \<le> dm_tick d) (contig_arrivals d)" "dm_tick (contig_arrivals d) = dm_tick d"
proof -
  define t where "t = dm_tick d"
  have len: "length (dm_procs d) = length (sm_procs st)" using c demo_rel_length by (auto simp: coupled_def)
  have "\<exists>st'. coupled (fold contig_arrive [0..<k] d) st' \<and> todo st' = todo st \<and> sm_waiting st' = sm_waiting st \<and>
      contig_inv (\<lambda>j a. a < t \<or> a = t \<and> j < k) (fold contig_arrive [0..<k] d) \<and> dm_tick (fold contig_arrive [0..<k] d) = t \<and>
      length (sm_procs st') = length (sm_procs st)" if "k \<le> length (sm_procs st)" for k
    using that
  proof (induction k)
    case 0
    then show ?case using c inv by (auto simp: t_def)
  next
    case (Suc k)
    let ?N = "\<lambda>j a. a < t \<or> a = t \<and> j < k"
    define e where "e = fold contig_arrive [0..<k] d"
    obtain s1 where s1: "coupled e s1" "todo s1 = todo st" "sm_waiting s1 = sm_waiting st" "contig_inv ?N e" "dm_tick e = t"
      "length (sm_procs s1) = length (sm_procs st)" using Suc e_def by auto
    have k: "k < length (sm_procs s1)" using Suc.prems s1(6) by simp
    have N: "\<not> ?N k (dm_tick e)" using s1(5) by simp
    obtain s2 where s2: "coupled (contig_arrive k e) s2" "todo s2 = todo s1" "sm_waiting s2 = sm_waiting s1"
      "contig_inv (\<lambda>j a. ?N j a \<or> j = k \<and> a = dm_tick e) (contig_arrive k e)" "dm_tick (contig_arrive k e) = dm_tick e"
      "length (sm_procs s2) = length (sm_procs s1)"
      by (rule contig_arrive_ok [OF s1(1,4) k N])
    have "contig_inv (\<lambda>j a. a < t \<or> a = t \<and> j < Suc k) (contig_arrive k e)"
      by (rule contig_inv_N [OF s2(4)]) (use s1(5) in \<open>auto simp: less_Suc_eq\<close>)
    then show ?case using s1 s2 by (auto simp: e_def)
  qed
  from this [OF order_refl] obtain st' where st': "coupled (contig_arrivals d) st'" "todo st' = todo st" "sm_waiting st' = sm_waiting st"
    "contig_inv (\<lambda>j a. a < t \<or> a = t \<and> j < length (sm_procs st)) (contig_arrivals d)" "dm_tick (contig_arrivals d) = t"
    "length (sm_procs st') = length (sm_procs st)" using len by (auto simp: contig_arrivals_def)
  have "length (lives (contig_arrivals d)) = length (sm_procs st)"
    using st'(1,6) demo_rel_length [of "contig_arrivals d" st'] by (simp add: coupled_def lives_nth)
  then have "contig_inv (\<lambda>j a. a \<le> t) (contig_arrivals d)" by (intro contig_inv_N [OF st'(4)]) auto
  then show thesis using that [OF st'(1-3)] st'(5) by (simp add: t_def)
qed

text \<open>When no process is active after the waiting list has been tried, the list was empty.\<close>

lemma mem_pass_ok:
  assumes "coupled d st" "ct_ok d" "mem_ok N (kept @ ws) d"
  shows "\<exists>st'. coupled (mem_pass kept ws d) st' \<and> todo st' = todo st \<and> sm_waiting st' = sm_waiting st \<and>
    contig_inv N (mem_pass kept ws d) \<and> dm_tick (mem_pass kept ws d) = dm_tick d \<and>
    (in_stage Active (mem_pass kept ws d) = {} \<longrightarrow> ws = [] \<and> in_stage Active d = {})"
  using assms
proof (induction ws arbitrary: kept d st)
  case Nil
  let ?d = "d\<lparr>ct_mem_wait := kept\<rparr>"
  have "lives ?d = lives d" by (simp add: lives_def)
  then have "contig_inv N ?d" "in_stage Active ?d = in_stage Active d"
    using Nil.prems(2,3) by (simp_all add: contig_inv_def ct_ok_def mem_ok_def in_stage_def held_region_def [abs_def])
  moreover have "coupled ?d st" using Nil.prems(1) by (simp add: coupled_def demo_rel_def)
  ultimately show ?case by (intro exI [of _ st]) simp
next
  case (Cons i ws)
  obtain b d1 where t: "try_admit i d = (b, d1)" by fastforce
  have "i \<in> set (kept @ i # ws)" by simp
  then have i: "i \<in> in_stage Fresh d" using Cons.prems(3) by (auto simp: mem_ok_def)
  obtain s1 where s1: "coupled d1 s1" "todo s1 = todo st" "sm_waiting s1 = sm_waiting st" "ct_ok d1"
    "ct_mem_wait d1 = ct_mem_wait d" "dm_tick d1 = dm_tick d" "in_stage Active d = {} \<longrightarrow> b"
    "lives d1 = (if b then (lives d)[i := (pid_at d i, fst (snd (lives d ! i)), Active)] else lives d)"
    by (rule try_admit_ok [OF Cons.prems(1,2) i t])
  have lt: "i < length (lives d)" using i by (simp add: in_stage_def)
  have "mem_ok N ((if b then kept else kept @ [i]) @ ws) d1"
    using mem_ok_stage [OF Cons.prems(3), of d1] mem_ok_cong [OF Cons.prems(3), of d1] s1(8) by simp
  note ih = Cons.IH [OF s1(1,4) this]
  have e: "mem_pass kept (i # ws) d = mem_pass (if b then kept else kept @ [i]) ws d1" using t by simp
  obtain st' where st': "coupled (mem_pass kept (i # ws) d) st'" "todo st' = todo st"
    "sm_waiting st' = sm_waiting st" "contig_inv N (mem_pass kept (i # ws) d)" "dm_tick (mem_pass kept (i # ws) d) = dm_tick d"
    "in_stage Active (mem_pass kept (i # ws) d) = {} \<longrightarrow> in_stage Active d1 = {}"
    using ih s1(2,3,6) unfolding e by metis
  have "in_stage Active d1 \<noteq> {}"
  proof (cases b)
    case True
    then show ?thesis using stage_change(6) [of d1 d i Active Active] s1(8) lt by auto
  next
    case False
    then have "in_stage Active d1 = in_stage Active d" using s1(8) by (simp add: in_stage_def)
    then show ?thesis using False s1(7) by auto
  qed
  then show ?case using st' by blast
qed

lemma lives_preempt: "coupled d st \<Longrightarrow> lives (demo_preempt d) = lives d" for d :: contig
  using ct.running_active [of d st]
  by (auto simp: demo_preempt_def lives_enqueue split: option.split)

text \<open>A state in which nobody is queued, running or waiting for IO has no active process.\<close>

lemma nobody_active:
  assumes "demo_rel d st" "procs_in Ready (sm_procs st) = {}" "procs_in Running (sm_procs st) = {}" "procs_in Waiting (sm_procs st) = {}"
  shows "in_stage Active d = {}"
proof -
  have "stage (dm_procs d ! i) \<noteq> Active" if i: "i < length (dm_procs d)" for i
  proof -
    have lt: "i < length (sm_procs st)" using i demo_rel_length [OF assms(1)] by simp
    then have "p_state (sm_procs st ! i) \<notin> {Ready, Running, Waiting}" using assms(2-4) by (auto simp: procs_in_def)
    then show ?thesis using demo_rel_nth [OF assms(1) lt]
      by (cases "p_state (sm_procs st ! i)") (auto simp: proc_rel_def stage_def)
  qed
  then show ?thesis by (auto simp: in_stage_def lives_nth life_def)
qed

lemma all_gone:
  assumes "contig_inv (\<lambda>j a. a \<le> t) d" "5 \<le> t" "in_stage Active d = {}" "ct_mem_wait d = []"
  shows "all_done (dm_procs d)"
proof -
  have "p_state (dm_procs d ! i) = Terminated" if i: "i < length (dm_procs d)" for i
  proof -
    have l: "i < length (lives d)" using i by (simp add: lives_nth)
    have "arrival_at d i \<le> 5" using assms(1) l by (simp add: contig_inv_def ct_ok_def)
    then have "arrival_at d i \<le> t" using assms(2) by (rule order_trans)
    moreover have "{j \<in> in_stage Fresh d. arrival_at d j \<le> t} = {}" using assms(1,4) by (simp add: contig_inv_def mem_ok_def)
    ultimately have "i \<notin> in_stage Fresh d" by auto
    then have "stage (dm_procs d ! i) = Gone" using assms(3) i by (cases "stage (dm_procs d ! i)") (auto simp: active_at [symmetric])
    then show ?thesis by (cases "p_state (dm_procs d ! i)") (simp_all add: stage_def)
  qed
  then show ?thesis by (simp add: all_done_states)
qed

lemma contig_step_ok:
  assumes c: "coupled d st" and inv: "contig_inv (\<lambda>j a. a < dm_tick d) d" and small: "unat (dm_tick d) < 1000"
  obtains st' where "coupled (contig_step d) st'" "contig_inv (\<lambda>j a. a < dm_tick d + 1) (contig_step d)"
    "dm_tick (contig_step d) = dm_tick d + 1" "todo st' \<le> todo st"
    "5 \<le> dm_tick d \<longrightarrow> \<not> all_done (dm_procs d) \<longrightarrow> todo st' < todo st"
proof -
  let ?N = "\<lambda>(j::nat) a. a \<le> dm_tick d"
  define d1 where "d1 = contig_arrivals d"
  obtain s1 where s1: "coupled d1 s1" "todo s1 = todo st" "sm_waiting s1 = sm_waiting st" "contig_inv ?N d1" "dm_tick d1 = dm_tick d"
    unfolding d1_def by (rule contig_arrivals_ok [OF c inv])
  define d2 where "d2 = contig_io d1" define s2 where "s2 = io_completions RR s1"
  have s2: "coupled d2 s2" "todo s2 + length (sm_waiting s1) = todo s1" "contig_inv ?N d2"
    unfolding d2_def s2_def contig_io_def by (rule ct.coupled_io [OF s1(1)], rule ct.coupled_io [OF s1(1)], rule ct.minv_io [OF s1(4,1)])
  have i2: "ct_ok d2" "mem_ok ?N (ct_mem_wait d2) d2" using s2(3) by (simp_all add: contig_inv_def)
  define d3 where "d3 = contig_admissions d2"
  have d3: "d3 = mem_pass [] (ct_mem_wait d2) d2" by (simp add: d3_def contig_admissions_def)
  have "mem_ok ?N ([] @ ct_mem_wait d2) d2" using i2(2) by simp
  from mem_pass_ok [OF s2(1) i2(1) this, folded d3] obtain s3 where s3: "coupled d3 s3" "todo s3 = todo s2"
    "sm_waiting s3 = sm_waiting s2" "contig_inv ?N d3" "in_stage Active d3 = {} \<longrightarrow> ct_mem_wait d2 = []" "dm_tick d3 = dm_tick d2"
    by metis
  define d4 where "d4 = demo_preempt d3" define s4 where "s4 = preempt_check RR s3"
  have s4: "coupled d4 s4" "todo s4 = todo s3" "contig_inv ?N d4" "lives d4 = lives d3"
    unfolding d4_def s4_def by (rule coupled_preempt [OF s3(1)], rule coupled_preempt [OF s3(1)], rule ct.minv_preempt [OF s3(4,1)],
        rule lives_preempt [OF s3(1)])
  define d5 where "d5 = demo_schedule d4" define s5 where "s5 = dispatch RR free_cs s4"
  have s5: "coupled d5 s5" "todo s5 = todo s4" "contig_inv ?N d5"
    "sm_running s5 = None \<longleftrightarrow> sm_running s4 = None \<and> procs_in Ready (sm_procs s4) = {}"
    unfolding d5_def s5_def by (rule coupled_schedule [OF s4(1)], rule coupled_schedule [OF s4(1)], rule ct.minv_schedule [OF s4(3)],
        rule coupled_schedule [OF s4(1)])
  define d6 where "d6 = (case dm_running d5 of None \<Rightarrow> d5 | Some i \<Rightarrow> cpu_step contig_finish i d5)"
  have step: "contig_step d = d6\<lparr>dm_tick := dm_tick d6 + 1\<rparr>"
    unfolding contig_step_def Let_def d6_def d5_def d4_def d3_def d2_def d1_def ..
  have run: "dm_running d5 = sm_running s5" using s5(1) by (simp add: coupled_def demo_rel_def)
  obtain s6 where s6: "coupled d6 s6" "contig_inv ?N d6" "todo s6 \<le> todo s5" "dm_running d5 \<noteq> None \<longrightarrow> todo s6 < todo s5" "dm_tick d6 = dm_tick d5"
  proof (cases "dm_running d5")
    case None
    then show thesis using that [of s5] s5 by (simp add: d6_def)
  next
    case (Some i)
    note cpu = ct.coupled_cpu [OF s5(1) Some] and act = ct.running_active [OF s5(1) Some]
    have "dm_tick (cpu_step contig_finish i d5) = dm_tick d5"
      using cpu(1) s5(1) by (simp add: coupled_def demo_rel_def frame_tick)
    then show thesis using that [OF _ _ _ _ ] cpu(1,3) ct.minv_cpu [OF s5(3) act(1,2)] Some by (simp add: d6_def)
  qed
  have tick: "dm_tick d6 = dm_tick d"
  proof -
    have "dm_tick d2 = dm_tick d1" using s2(1) s1(1) by (simp add: coupled_def demo_rel_def s2_def)
    moreover have "dm_tick d4 = dm_tick d3" using s4(1) s3(1) by (simp add: coupled_def demo_rel_def s4_def)
    moreover have "dm_tick d5 = dm_tick d4" by (auto simp: d5_def demo_schedule_def split: option.split prod.split)
    ultimately show ?thesis using s1(5) s3(6) s6(5) by simp
  qed
  have "todo s6 < todo st" if late: "5 \<le> dm_tick d" and nd: "\<not> all_done (dm_procs d)"
  proof (cases "sm_waiting st = [] \<and> dm_running d5 = None")
    case False
    then have "0 < length (sm_waiting s1) \<or> todo s6 < todo s5" using s1(3) s6(4) by auto
    then show ?thesis using s1(2) s2(2) s3(2) s4(2) s5(2) s6(3) by linarith
  next
    case True
    have p4: "rr_placed s4" "jobs_ok (sm_waiting s4) s4" "demo_rel d4 s4" using s4(1) by (simp_all add: coupled_def)
    have w: "sm_waiting s1 = []" "sm_waiting s2 = []" "sm_waiting s4 = []"
      using True s1(3) s3(3) by (simp_all add: s2_def io_completions_def s4_def preempt_check_def split: option.split)
    have idle: "sm_running s4 = None" "procs_in Ready (sm_procs s4) = {}" using True run s5(4) by simp_all
    then have "procs_in Running (sm_procs s4) = {}" "procs_in Waiting (sm_procs s4) = {}"
      using p4(1) w(3) mset_set_empty_iff [of "procs_in Waiting (sm_procs s4)"] by (auto simp: in_places_def)
    then have none: "in_stage Active d3 = {}" "in_stage Active d4 = {}"
      using nobody_active [OF p4(3) idle(2)] s4(4) by (simp_all add: in_stage_def)
    then have "ct_mem_wait d3 = []" using s3(5) d3 by simp
    then have "all_done (dm_procs d3)" using all_gone [OF s3(4) late none(1)] by simp
    then have "all_done (sm_procs s3)" using all_done_rel s3(1) by (auto simp: coupled_def)
    then have "todo s3 = 0" using rr.remaining_zero s3(1) by (auto simp: coupled_def)
    then have "todo st = 0" using s1(2) s2(2) s3(2) w(1) by simp
    then have "all_done (sm_procs st)" using rr.remaining_zero [of "sm_waiting st" st] c by (simp add: coupled_def)
    then show ?thesis using nd all_done_rel [of d st] c by (simp add: coupled_def)
  qed
  moreover have "contig_inv (\<lambda>j a. a < dm_tick d + 1) (contig_step d)"
    unfolding step
  proof (rule contig_inv_N [OF ct.minv_frame(6) [OF s6(2)]])
    show "(a \<le> dm_tick d) = (a < dm_tick d + 1)" for a
      using small unat_plus_less [of "dm_tick d" 1] by (simp add: word_le_nat_alt word_less_nat_alt less_Suc_eq_le)
  qed
  ultimately show thesis using that [of "s6\<lparr>sm_tick := sm_tick s6 + 1\<rparr>"] coupled_tick [OF s6(1)] tick
      s1(2) s2(2) s3(2) s4(2) s5(2) s6(3) by (simp add: step)
qed

subsection \<open>The run of the demo\<close>

lemma contig_loop_completes:
  assumes "coupled d st" "contig_inv (\<lambda>j a. a < dm_tick d) d" "todo st + (unat (dm_tick d) - 5) \<le> R" "5 + R < 1000"
  shows "\<exists>d' N. contig_loop d = Some d' \<and> contig_inv N d' \<and> all_done (dm_procs d') \<and> unat (dm_tick d') \<le> 5 + R"
  using assms(1-3)
proof (induction "1000 - unat (dm_tick d)" arbitrary: d st rule: less_induct)
  case less
  have lt: "unat (dm_tick d) < 1000" using less.prems(3) assms(4) by linarith
  show ?case
  proof (cases "all_done (dm_procs d)")
    case True
    then show ?thesis using less.prems lt by (subst contig_loop.simps) auto
  next
    case False
    obtain st' where st': "coupled (contig_step d) st'" "contig_inv (\<lambda>j a. a < dm_tick d + 1) (contig_step d)"
      "dm_tick (contig_step d) = dm_tick d + 1" "todo st' \<le> todo st"
      "5 \<le> dm_tick d \<longrightarrow> \<not> all_done (dm_procs d) \<longrightarrow> todo st' < todo st"
      by (rule contig_step_ok [OF less.prems(1,2) lt])
    have tick: "unat (dm_tick d + 1) = unat (dm_tick d) + 1" using lt unat_plus_less [of "dm_tick d" 1] by simp
    have "todo st' + (unat (dm_tick d) + 1 - 5) \<le> R"
      using st'(4,5) False less.prems(3) by (cases "5 \<le> dm_tick d") (auto simp: word_le_nat_alt)
    then have "todo st' + (unat (dm_tick (contig_step d)) - 5) \<le> R" by (simp add: st'(3) tick)
    moreover have "contig_inv (\<lambda>j a. a < dm_tick (contig_step d)) (contig_step d)" using st'(2) by (simp add: st'(3))
    moreover have "1000 - unat (dm_tick (contig_step d)) < 1000 - unat (dm_tick d)" using lt by (simp add: st'(3) tick)
    ultimately have "\<exists>d' N. contig_loop (contig_step d) = Some d' \<and> contig_inv N d' \<and> all_done (dm_procs d') \<and> unat (dm_tick d') \<le> 5 + R"
      using less.hyps st'(1) by blast
    moreover have "dm_tick d < 1000" using lt by (simp add: word_less_nat_alt)
    ultimately show ?thesis using False by (subst contig_loop.simps) simp
  qed
qed

definition contig_job :: "nat \<Rightarrow> Process \<Rightarrow> bool" where
  "contig_job i p \<longleftrightarrow> p_pid p = int i + 1 \<and> proc_rel p (reset_process p) \<and> wf_bursts (p_bursts p) \<and> later 0 (p_bursts p) \<le> 26 \<and>
     p_arrival p \<le> 5 \<and> p_mem_bytes p \<in> set mem_sizes \<and> p_state p = New"

lemma contig_process_job:
  assumes "ints_in_range draw"
  shows "contig_job i (fst (contig_process draw rng i g))"
proof -
  define g1 where "g1 = snd (draw g 0 5)"
  define r1 where "r1 = fst (rng g1)"
  define r2 where "r2 = fst (rng (snd (rng g1)))"
  define bs where "bs = fst (drawn_bursts draw 2 6 1 4 (unat (r2 mod 3) + 1) (snd (rng (snd (rng g1)))))"
  have p: "fst (contig_process draw rng i g) = Process_default\<lparr>p_pid := int i + 1, p_name := viz_names ! i,
      p_arrival := of_int (fst (draw g 0 5)), p_mem_bytes := mem_sizes ! unat (r1 mod 5), p_bursts := bs, p_cur_burst := 0,
      p_burst_remaining := (if bs = [] then 0 else b_ticks (bs ! 0))\<rparr>"
    by (simp add: contig_process_def contig_bursts_def split_beta Let_def r1_def r2_def bs_def g1_def)
  have "unat (r2 mod 3) < 3" by (simp add: unat_mod)
  then have "wf_bursts bs" "later 0 bs \<le> 26"
    using drawn_bursts_wf [OF assms, of 2 6 1 4 "unat (r2 mod 3) + 1" 3] by (simp_all add: bs_def)
  moreover have "(of_int (fst (draw g 0 5)) :: u32) \<le> 5" using drawn_ticks [OF assms, of 0 5 g] by (simp add: word_le_nat_alt)
  moreover have "unat (r1 mod 5) < length mem_sizes" by (simp add: unat_mod mem_sizes_def)
  then have "mem_sizes ! unat (r1 mod 5) \<in> set mem_sizes" by (rule nth_mem)
  ultimately show ?thesis unfolding p contig_job_def by (simp add: proc_rel_def reset_process_def Process_default_def)
qed

lemma contig_processes_jobs:
  "ints_in_range draw \<Longrightarrow> list_all2 contig_job js (fst (contig_processes draw rng js g))"
  by (induction js arbitrary: g) (simp_all add: split_beta Let_def contig_process_job)

lemma contig_init_ok:
  assumes "ints_in_range draw"
  shows "\<exists>st. coupled (contig_init draw rng seed) st \<and> todo st \<le> 208" "contig_inv (\<lambda>j a. a < 0) (contig_init draw rng seed)"
proof -
  define ps where "ps = fst (contig_processes draw rng [0..<8] seed)"
  define d where "d = contig_init draw rng seed"
  define st where "st = sim_init (RoundRobin_new 4) ps"
  have d: "dm_sched d = RoundRobin_new 4" "dm_procs d = ps" "dm_tick d = 0" "dm_running d = None" "dm_ran d = 0" "dm_io d = []"
    "ct_alloc d = FirstFit_new 8192" "ct_mem_wait d = []" "ct_allocs d = (\<lambda>pid. nullptr)"
    by (simp_all add: d_def contig_init_def ps_def)
  have jobs: "list_all2 contig_job [0..<8] ps" unfolding ps_def by (rule contig_processes_jobs [OF assms])
  have len: "length ps = 8" using list_all2_lengthD [OF jobs] by (metis diff_zero length_upt)
  have job: "contig_job i (ps ! i)" if "i < 8" for i
    using list_all2_nthD [OF jobs, of i] that by (metis add_0 diff_zero length_upt nth_upt)
  then have ps: "\<forall>p \<in> set ps. proc_rel p (reset_process p) \<and> wf_bursts (p_bursts p) \<and> later 0 (p_bursts p) \<le> 26 \<and> unat (p_arrival p) \<le> 5"
    using len by (auto simp: in_set_conv_nth contig_job_def word_le_nat_alt)
  from start_coupled [OF d(1-6) ps st_def] len
  show "\<exists>st. coupled (contig_init draw rng seed) st \<and> todo st \<le> 208" unfolding d_def [symmetric] by auto
  have l: "lives d ! i = (int i + 1, asks (ps ! i), Fresh)" if "i < 8" for i
    using job [OF that] len that d(2) by (simp add: lives_nth life_def stage_def contig_job_def)
  have n: "length (lives d) = 8" using len d(2) by (simp add: lives_nth)
  have "0 < p_mem_bytes (ps ! i) \<and> p_mem_bytes (ps ! i) \<le> 2048 \<and> p_arrival (ps ! i) \<le> 5" if "i < 8" for i
    using job [OF that] by (auto simp: contig_job_def mem_sizes_def)
  then have sizes: "\<forall>i < length (lives d). 0 < size_at d i \<and> size_at d i \<le> 2048 \<and> arrival_at d i \<le> 5" using l n by simp
  have "map fst (lives d) = map (\<lambda>i. int i + 1) [0..<8]"
    using l n by (intro nth_equalityI) simp_all
  then have pids: "distinct (map fst (lives d))" by (simp add: distinct_map inj_on_def)
  have none: "in_stage Active d = {}" using l n by (auto simp: in_stage_def)
  have "ff_inv (FirstFit_new 8192) {} \<and> ff_end (FirstFit_new 8192) = 8192" by (rule FirstFit_new_inv) simp_all
  then have "ct_ok d" using sizes pids none d(7) by (simp add: ct_ok_def)
  then show "contig_inv (\<lambda>j a. a < 0) (contig_init draw rng seed)"
    unfolding d_def [symmetric] contig_inv_def mem_ok_def by (simp add: d(8))
qed

text \<open>The states of the demo, tick by tick (until the cap, which the loop never reaches).\<close>

lemma contig_run_ok:
  assumes "ints_in_range draw" "k \<le> 1000"
  shows "\<exists>st. coupled ((contig_step ^^ k) (contig_init draw rng seed)) st \<and>
    contig_inv (\<lambda>j a. a < of_nat k) ((contig_step ^^ k) (contig_init draw rng seed)) \<and>
    dm_tick ((contig_step ^^ k) (contig_init draw rng seed)) = of_nat k"
  using assms(2)
proof (induction k)
  case 0
  then show ?case using contig_init_ok [OF assms(1), of rng seed] by (auto simp: contig_init_def)
next
  case (Suc k)
  define d where "d = (contig_step ^^ k) (contig_init draw rng seed)"
  obtain st where st: "coupled d st" "contig_inv (\<lambda>j a. a < dm_tick d) d" "dm_tick d = of_nat k"
    using Suc by (auto simp: d_def)
  have "unat (dm_tick d) < 1000" using Suc.prems st(3) by (simp add: unat_of_nat)
  from contig_step_ok [OF st(1,2) this] obtain st' where "coupled (contig_step d) st'"
    "contig_inv (\<lambda>j a. a < dm_tick d + 1) (contig_step d)" "dm_tick (contig_step d) = dm_tick d + 1" by metis
  then show ?case using st(3) by (auto simp: d_def [symmetric] add.commute)
qed

definition holder :: "Process \<Rightarrow> bool" where
  "holder p \<longleftrightarrow> p_state p \<in> {Ready, Running, Waiting}"

text \<open>
  C30. Whatever the generator draws, at every tick the processes that have been admitted and have not
  terminated hold regions of the size they asked for that lie inside the arena of 8192 bytes and do not
  overlap, and a process that has arrived and not been admitted is in the waiting list, once.
\<close>

theorem contiguous_demo_regions:
  assumes "ints_in_range draw" "k \<le> 1000" "d = (contig_step ^^ k) (contig_init draw rng seed)"
  shows "(\<forall>p \<in> set (dm_procs d). holder p \<longrightarrow> 1 \<le> unat (ct_allocs d (p_pid p)) \<and>
      unat (ct_allocs d (p_pid p)) + unat (p_mem_bytes p) \<le> 8193 \<and>
      (\<forall>p' \<in> set (dm_procs d). holder p' \<and> p_pid p' \<noteq> p_pid p \<longrightarrow>
         disjoint_regions (unat (ct_allocs d (p_pid p))) (unat (p_mem_bytes p)) (unat (ct_allocs d (p_pid p'))) (unat (p_mem_bytes p')))) \<and>
    distinct (ct_mem_wait d) \<and>
    set (ct_mem_wait d) = {i. i < length (dm_procs d) \<and> p_state (dm_procs d ! i) = New \<and> p_arrival (dm_procs d ! i) < of_nat k}"
proof -
  have c: "contig_inv (\<lambda>j a. a < of_nat k) d" using contig_run_ok [OF assms(1,2), of rng seed] assms(3) by auto
  then have ok: "ff_inv (ct_alloc d) (held_region d ` in_stage Active d)" "ff_end (ct_alloc d) = 8192"
    "inj_on (\<lambda>i. ct_allocs d (pid_at d i)) (in_stage Active d)" "mem_ok (\<lambda>j a. a < of_nat k) (ct_mem_wait d) d"
    by (simp_all add: contig_inv_def ct_ok_def)
  have reg: "\<exists>i. i < length (dm_procs d) \<and> p = dm_procs d ! i \<and> i \<in> in_stage Active d \<and>
      held_region d i = (ct_allocs d (p_pid p), ucast (p_mem_bytes p)) \<and> pid_at d i = p_pid p" if p: "p \<in> set (dm_procs d)" "holder p" for p
  proof -
    obtain i where i: "i < length (dm_procs d)" "p = dm_procs d ! i" using p(1) by (auto simp: in_set_conv_nth)
    moreover have "stage p = Active" using p(2) by (auto simp: holder_def stage_def)
    ultimately show ?thesis by (intro exI [of _ i]) (simp add: active_at held_region_def lives_nth life_def)
  qed
  have inside: "1 \<le> unat (ct_allocs d (p_pid p)) \<and> unat (ct_allocs d (p_pid p)) + unat (p_mem_bytes p) \<le> 8193"
    if "p \<in> set (dm_procs d)" "holder p" for p
  proof -
    have "(ct_allocs d (p_pid p), ucast (p_mem_bytes p)) \<in> held_region d ` in_stage Active d" using reg [OF that] by (metis imageI)
    from first_fit.live_inside [OF ok(1) this] show ?thesis by (simp add: ok(2) unat_size)
  qed
  have apart: "disjoint_regions (unat (ct_allocs d (p_pid p))) (unat (p_mem_bytes p)) (unat (ct_allocs d (p_pid p'))) (unat (p_mem_bytes p'))"
    if p: "p \<in> set (dm_procs d)" "holder p" and p': "p' \<in> set (dm_procs d)" "holder p'" and ne: "p_pid p' \<noteq> p_pid p" for p p'
  proof -
    obtain i where i: "i \<in> in_stage Active d" "held_region d i = (ct_allocs d (p_pid p), ucast (p_mem_bytes p))" "pid_at d i = p_pid p"
      using reg [OF p] by auto
    obtain j where j: "j \<in> in_stage Active d" "held_region d j = (ct_allocs d (p_pid p'), ucast (p_mem_bytes p'))" "pid_at d j = p_pid p'"
      using reg [OF p'] by auto
    have "ct_allocs d (p_pid p) \<noteq> ct_allocs d (p_pid p')" using ok(3) i(1,3) j(1,3) ne unfolding inj_on_def by metis
    then have ne': "(ct_allocs d (p_pid p), ucast (p_mem_bytes p)) \<noteq> (ct_allocs d (p_pid p'), ucast (p_mem_bytes p') :: size_t)" by simp
    have m: "(ct_allocs d (p_pid p), ucast (p_mem_bytes p)) \<in> held_region d ` in_stage Active d"
      "(ct_allocs d (p_pid p'), ucast (p_mem_bytes p')) \<in> held_region d ` in_stage Active d"
      using imageI [OF i(1), of "held_region d"] imageI [OF j(1), of "held_region d"] unfolding i(2) j(2) .
    from first_fit.live_disjoint [OF ok(1) m ne'] show ?thesis by (simp add: unat_size)
  qed
  have new: "stage p = Fresh \<longleftrightarrow> p_state p = New" for p by (cases "p_state p") (simp_all add: stage_def)
  have "{i \<in> in_stage Fresh d. arrival_at d i < t} =
      {i. i < length (dm_procs d) \<and> p_state (dm_procs d ! i) = New \<and> p_arrival (dm_procs d ! i) < t}" for t
    unfolding in_stage_def by (rule set_eqI) (simp add: lives_nth(2) new [symmetric] lives_nth(1) life_def cong: conj_cong)
  then show ?thesis using ok(4) inside apart by (simp add: mem_ok_def)
qed

text \<open>
  C31. The demo ends.  Whatever the generator draws, every process is admitted and terminates, at the latest
  at tick 213 (so the cap of 1000 ticks is never what stops the loop), and the arena is then one free block again.
\<close>

theorem contiguous_demo_completes:
  assumes "ints_in_range draw"
  shows "\<exists>d. contiguous_demo draw rng seed = Some d \<and> all_done (dm_procs d) \<and> unat (dm_tick d) \<le> 213 \<and>
    ct_mem_wait d = [] \<and> ct_alloc d = FirstFit_new 8192"
proof -
  let ?d0 = "contig_init draw rng seed"
  obtain st where st: "coupled ?d0 st" "todo st \<le> 208" using contig_init_ok(1) [OF assms] by blast
  have t0: "dm_tick ?d0 = 0" by (simp add: contig_init_def)
  have "contig_inv (\<lambda>j a. a < dm_tick ?d0) ?d0" using contig_init_ok(2) [OF assms] by (simp add: t0)
  from contig_loop_completes [OF st(1) this, of 208] st(2) obtain d N
    where d: "contig_loop ?d0 = Some d" "contig_inv N d" "all_done (dm_procs d)" "unat (dm_tick d) \<le> 213" by (auto simp: t0)
  have none: "in_stage s d = {}" if "s \<noteq> Gone" for s
    using d(3) that by (auto simp: all_done_states in_stage_def lives_nth life_def stage_def)
  have ok: "ff_inv (ct_alloc d) {}" "ff_end (ct_alloc d) = 8192" and "ct_mem_wait d = []"
    using d(2) none [of Active] none [of Fresh] by (auto simp: contig_inv_def ct_ok_def mem_ok_def)
  have t: "tiles 0 (ct_alloc d) 8192" "coalesced (ct_alloc d)" "used (ct_alloc d) = {}" using ok by (simp_all add: ff_inv_def)
  obtain b where b: "ct_alloc d = [b]" "blk_free b" "unat (blk_size b) = 8192" using all_free_single [OF t(2,3,1)] by auto
  have "blk_offset b = 0" using t(1) b(1) by (simp add: unat_eq_0)
  moreover have "blk_size b = 8192" using b(3) by (intro unsigned_word_eqI [where 'a = nat]) simp
  ultimately have "ct_alloc d = FirstFit_new 8192" using b by (cases b) (simp add: FirstFit_new_def)
  then show ?thesis using d \<open>ct_mem_wait d = []\<close> by (simp add: contiguous_demo_def)
qed

theorem contiguous_demo_completes_witness:
  "\<exists>d. contiguous_demo draw_low rng_count 42 = Some d \<and> all_done (dm_procs d) \<and> ct_alloc d = FirstFit_new 8192"
  using contiguous_demo_completes [OF draw_low_range, of rng_count 42] by auto

theorem contiguous_demo_regions_witness:
  "let d = (contig_step ^^ 7) (contig_init draw_low rng_count 42)
   in distinct (ct_mem_wait d) \<and>
      (\<forall>p \<in> set (dm_procs d). holder p \<longrightarrow> unat (ct_allocs d (p_pid p)) + unat (p_mem_bytes p) \<le> 8193)"
  using contiguous_demo_regions [OF draw_low_range _ refl, of 7 rng_count 42] by (simp add: Let_def)

end
