(* ===== verification/PingPong.thy ===== *)
theory PingPong
  imports Prelude
begin

text \<open>
  The token exchange of \<^verbatim>\<open>memlab/bench/ctx_switch_bench.cpp\<close>: two threads hand a turn back and forth through a
  mutex and a condition variable.  A step is one access to the shared state; blocking is \<open>None\<close>.
  \<open>cv.wait\<close> releases the mutex and sleeps in one step; a sleeper runs again after a notification, or spuriously at any time,
  and then acquires the mutex and tests its condition again.  Pinning to cores and the clock are left out.
\<close>

datatype ping_pc =
  P_start | P_lock1 | P_set | P_unlock1 | P_notify | P_lock2 | P_check | P_sleep | P_relock | P_unlock2 |
  P_lockd | P_setd | P_unlockd | P_notifyall | P_join | P_end

datatype pong_pc =
  Q_start | Q_lock | Q_check | Q_sleep | Q_relock | Q_test | Q_unlock | Q_notify | Q_leave | Q_exit

datatype player = Ping | Pong

text \<open>\<open>mtx\<close> is the owner of the mutex; \<open>ping_i\<close> and \<open>pong_i\<close> are the loop counters.\<close>

record PingPong =
  mtx :: "player option"
  turn :: nat
  pp_done :: bool
  ping_pc :: ping_pc
  ping_i :: nat
  pong_pc :: pong_pc
  pong_i :: nat

definition PingPong_new :: PingPong where
  "PingPong_new = \<lparr>mtx = None, turn = 0, pp_done = False, ping_pc = P_start, ping_i = 0, pong_pc = Q_start, pong_i = 0\<rparr>"

definition acquire :: "player \<Rightarrow> PingPong \<Rightarrow> PingPong option" where
  "acquire w s = (if mtx s = None then Some (s\<lparr>mtx := Some w\<rparr>) else None)"

abbreviation release :: "PingPong \<Rightarrow> PingPong" where
  "release s \<equiv> s\<lparr>mtx := None\<rparr>"

text \<open>At most the other thread can be waiting, so \<open>notify_one\<close> and \<open>notify_all\<close> wake the same thread.\<close>

definition notify :: "player \<Rightarrow> PingPong \<Rightarrow> PingPong" where
  "notify w s =
     (case w of
        Ping \<Rightarrow> if ping_pc s = P_sleep then s\<lparr>ping_pc := P_relock\<rparr> else s
      | Pong \<Rightarrow> if pong_pc s = Q_sleep then s\<lparr>pong_pc := Q_relock\<rparr> else s)"

definition ping_step :: "nat \<Rightarrow> PingPong \<Rightarrow> PingPong option" where
  "ping_step kRoundTrips s =
     (case ping_pc s of
        P_start \<Rightarrow> Some (s\<lparr>ping_pc := if ping_i s < kRoundTrips then P_lock1 else P_lockd\<rparr>)
      | P_lock1 \<Rightarrow> acquire Ping (s\<lparr>ping_pc := P_set\<rparr>)
      | P_set \<Rightarrow> Some (s\<lparr>turn := 1, ping_pc := P_unlock1\<rparr>)
      | P_unlock1 \<Rightarrow> Some (release (s\<lparr>ping_pc := P_notify\<rparr>))
      | P_notify \<Rightarrow> Some (notify Pong (s\<lparr>ping_pc := P_lock2\<rparr>))
      | P_lock2 \<Rightarrow> acquire Ping (s\<lparr>ping_pc := P_check\<rparr>)
      | P_check \<Rightarrow> if turn s = 0 then Some (s\<lparr>ping_pc := P_unlock2\<rparr>) else Some (release (s\<lparr>ping_pc := P_sleep\<rparr>))
      | P_sleep \<Rightarrow> None
      | P_relock \<Rightarrow> acquire Ping (s\<lparr>ping_pc := P_check\<rparr>)
      | P_unlock2 \<Rightarrow> Some (release (s\<lparr>ping_i := ping_i s + 1, ping_pc := P_start\<rparr>))
      | P_lockd \<Rightarrow> acquire Ping (s\<lparr>ping_pc := P_setd\<rparr>)
      | P_setd \<Rightarrow> Some (s\<lparr>pp_done := True, ping_pc := P_unlockd\<rparr>)
      | P_unlockd \<Rightarrow> Some (release (s\<lparr>ping_pc := P_notifyall\<rparr>))
      | P_notifyall \<Rightarrow> Some (notify Pong (s\<lparr>ping_pc := P_join\<rparr>))
      | P_join \<Rightarrow> if pong_pc s = Q_exit then Some (s\<lparr>ping_pc := P_end\<rparr>) else None
      | P_end \<Rightarrow> None)"

definition pong_step :: "nat \<Rightarrow> PingPong \<Rightarrow> PingPong option" where
  "pong_step kRoundTrips s =
     (case pong_pc s of
        Q_start \<Rightarrow> Some (s\<lparr>pong_pc := if pong_i s < kRoundTrips then Q_lock else Q_exit\<rparr>)
      | Q_lock \<Rightarrow> acquire Pong (s\<lparr>pong_pc := Q_check\<rparr>)
      | Q_check \<Rightarrow> if turn s = 1 \<or> pp_done s then Some (s\<lparr>pong_pc := Q_test\<rparr>) else Some (release (s\<lparr>pong_pc := Q_sleep\<rparr>))
      | Q_sleep \<Rightarrow> None
      | Q_relock \<Rightarrow> acquire Pong (s\<lparr>pong_pc := Q_check\<rparr>)
      | Q_test \<Rightarrow> if pp_done s then Some (s\<lparr>pong_pc := Q_leave\<rparr>) else Some (s\<lparr>turn := 0, pong_pc := Q_unlock\<rparr>)
      | Q_unlock \<Rightarrow> Some (release (s\<lparr>pong_pc := Q_notify\<rparr>))
      | Q_notify \<Rightarrow> Some (notify Ping (s\<lparr>pong_i := pong_i s + 1, pong_pc := Q_start\<rparr>))
      | Q_leave \<Rightarrow> Some (release (s\<lparr>pong_pc := Q_exit\<rparr>))
      | Q_exit \<Rightarrow> None)"

definition pp_step :: "nat \<Rightarrow> player \<Rightarrow> PingPong \<Rightarrow> PingPong option" where
  "pp_step N w s = (case w of Ping \<Rightarrow> ping_step N s | Pong \<Rightarrow> pong_step N s)"

text \<open>A run with \<open>n\<close> steps and \<open>m\<close> spurious wake-ups.\<close>

inductive pp_run :: "nat \<Rightarrow> nat \<Rightarrow> nat \<Rightarrow> PingPong \<Rightarrow> bool" for N where
  pp_init: "pp_run N 0 0 PingPong_new"
| pp_next: "pp_run N n m s \<Longrightarrow> pp_step N w s = Some s' \<Longrightarrow> pp_run N (n + 1) m s'"
| pp_spurious: "pp_run N n m s \<Longrightarrow> pp_run N n (m + 1) (notify w s)"

subsection \<open>Invariant\<close>

text \<open>
  What the program counters say: who is inside the critical section; whether the turn of the current round
  has been given, respectively returned; in which rounds a thread can be; when ping has the turn.
\<close>

definition ping_owns :: "ping_pc \<Rightarrow> bool" where
  "ping_owns pc = (case pc of P_set \<Rightarrow> True | P_unlock1 \<Rightarrow> True | P_check \<Rightarrow> True | P_unlock2 \<Rightarrow> True | P_setd \<Rightarrow> True
     | P_unlockd \<Rightarrow> True | _ \<Rightarrow> False)"

definition pong_owns :: "pong_pc \<Rightarrow> bool" where
  "pong_owns pc = (case pc of Q_check \<Rightarrow> True | Q_test \<Rightarrow> True | Q_unlock \<Rightarrow> True | Q_leave \<Rightarrow> True | _ \<Rightarrow> False)"

definition ping_gave :: "ping_pc \<Rightarrow> nat" where
  "ping_gave pc = (case pc of P_unlock1 \<Rightarrow> 1 | P_notify \<Rightarrow> 1 | P_lock2 \<Rightarrow> 1 | P_check \<Rightarrow> 1 | P_sleep \<Rightarrow> 1 | P_relock \<Rightarrow> 1
     | P_unlock2 \<Rightarrow> 1 | _ \<Rightarrow> 0)"

definition pong_gave :: "pong_pc \<Rightarrow> nat" where
  "pong_gave pc = (case pc of Q_unlock \<Rightarrow> 1 | Q_notify \<Rightarrow> 1 | _ \<Rightarrow> 0)"

definition ping_last :: "ping_pc \<Rightarrow> bool" where
  "ping_last pc = (case pc of P_lockd \<Rightarrow> True | P_setd \<Rightarrow> True | P_unlockd \<Rightarrow> True | P_notifyall \<Rightarrow> True | P_join \<Rightarrow> True
     | P_end \<Rightarrow> True | _ \<Rightarrow> False)"

definition ping_turn :: "ping_pc \<Rightarrow> bool" where
  "ping_turn pc = (case pc of P_start \<Rightarrow> True | P_lock1 \<Rightarrow> True | P_set \<Rightarrow> True | P_unlock2 \<Rightarrow> True | _ \<Rightarrow> ping_last pc)"

definition ping_round :: "nat \<Rightarrow> ping_pc \<Rightarrow> nat \<Rightarrow> bool" where
  "ping_round N pc i = (if ping_last pc then i = N else if pc = P_start then i \<le> N else i < N)"

definition pong_round :: "nat \<Rightarrow> pong_pc \<Rightarrow> nat \<Rightarrow> bool" where
  "pong_round N pc i = (case pc of Q_exit \<Rightarrow> i = N | Q_start \<Rightarrow> i \<le> N | _ \<Rightarrow> i < N)"

lemmas ping_pc_defs = ping_owns_def ping_gave_def ping_last_def ping_turn_def ping_round_def
lemmas pong_pc_defs = pong_owns_def pong_gave_def pong_round_def

text \<open>
  The turn is where the counters say; nobody sleeps through its turn: a sleeper whose condition holds is about to be
  notified; and pong never finds the game over while it plays.
\<close>

definition pp_ok :: "nat \<Rightarrow> player option \<Rightarrow> nat \<Rightarrow> bool \<Rightarrow> ping_pc \<Rightarrow> nat \<Rightarrow> pong_pc \<Rightarrow> nat \<Rightarrow> bool" where
  "pp_ok N mx t over p i q j \<longleftrightarrow>
     (mx = Some Ping \<longleftrightarrow> ping_owns p) \<and> (mx = Some Pong \<longleftrightarrow> pong_owns q) \<and>
     i + ping_gave p = j + pong_gave q + t \<and> t \<le> 1 \<and>
     (ping_turn p \<longrightarrow> t = 0) \<and> (q = Q_test \<longrightarrow> t = 1) \<and>
     (over \<longrightarrow> ping_last p) \<and>
     ping_round N p i \<and> pong_round N q j \<and> q \<noteq> Q_leave \<and>
     (p = P_sleep \<longrightarrow> t = 1 \<or> q = Q_unlock \<or> q = Q_notify) \<and>
     (q = Q_sleep \<longrightarrow> t = 0 \<or> p = P_unlock1 \<or> p = P_notify) \<and>
     (p = P_end \<longrightarrow> q = Q_exit)"

lemmas ping_move = pp_ok_def ping_pc_defs
lemmas pong_move = pp_ok_def pong_pc_defs

definition pp_inv :: "nat \<Rightarrow> PingPong \<Rightarrow> bool" where
  "pp_inv N s = pp_ok N (mtx s) (turn s) (pp_done s) (ping_pc s) (ping_i s) (pong_pc s) (pong_i s)"

lemma pp_inv_new: "pp_inv N PingPong_new"
  by (simp add: pp_inv_def PingPong_new_def ping_move pong_move)

lemma ping_moves:
  "pp_ok N mx t d P_start i q j \<Longrightarrow> pp_ok N mx t d (if i < N then P_lock1 else P_lockd) i q j"
  "pp_ok N None t d P_lock1 i q j \<Longrightarrow> pp_ok N (Some Ping) t d P_set i q j"
  "pp_ok N mx t d P_set i q j \<Longrightarrow> pp_ok N mx 1 d P_unlock1 i q j"
  "pp_ok N mx t d P_unlock1 i q j \<Longrightarrow> pp_ok N None t d P_notify i q j"
  "pp_ok N None t d P_lock2 i q j \<Longrightarrow> pp_ok N (Some Ping) t d P_check i q j"
  "pp_ok N mx 0 d P_check i q j \<Longrightarrow> pp_ok N mx 0 d P_unlock2 i q j"
  "pp_ok N mx t d P_check i q j \<Longrightarrow> t \<noteq> 0 \<Longrightarrow> pp_ok N None t d P_sleep i q j"
  "pp_ok N None t d P_relock i q j \<Longrightarrow> pp_ok N (Some Ping) t d P_check i q j"
  "pp_ok N mx t d P_unlock2 i q j \<Longrightarrow> pp_ok N None t d P_start (Suc i) q j"
  "pp_ok N None t d P_lockd i q j \<Longrightarrow> pp_ok N (Some Ping) t d P_setd i q j"
  "pp_ok N mx t d P_setd i q j \<Longrightarrow> pp_ok N mx t True P_unlockd i q j"
  "pp_ok N mx t d P_unlockd i q j \<Longrightarrow> pp_ok N None t d P_notifyall i q j"
  "pp_ok N mx t d P_join i Q_exit j \<Longrightarrow> pp_ok N mx t d P_end i Q_exit j"
  by (auto simp: ping_move)

lemma ping_last_facts: "ping_last p \<Longrightarrow> ping_turn p" "ping_last p \<Longrightarrow> ping_gave p = 0" "ping_round N p i \<Longrightarrow> ping_last p \<Longrightarrow> i = N"
  by (cases p; simp add: ping_pc_defs)+

lemma pong_moves:
  "pp_ok N mx t d p i Q_start j \<Longrightarrow> pp_ok N mx t d p i (if j < N then Q_lock else Q_exit) j"
  "pp_ok N None t d p i Q_lock j \<Longrightarrow> pp_ok N (Some Pong) t d p i Q_check j"
  "pp_ok N mx t d p i Q_check j \<Longrightarrow> t = 1 \<Longrightarrow> pp_ok N mx t d p i Q_test j"
  "pp_ok N mx t d p i Q_check j \<Longrightarrow> t \<noteq> 1 \<Longrightarrow> pp_ok N None t d p i Q_sleep j"
  "pp_ok N None t d p i Q_relock j \<Longrightarrow> pp_ok N (Some Pong) t d p i Q_check j"
  "pp_ok N mx t d p i Q_test j \<Longrightarrow> pp_ok N mx 0 d p i Q_unlock j"
  "pp_ok N mx t d p i Q_unlock j \<Longrightarrow> pp_ok N None t d p i Q_notify j"
  by (auto simp: pong_move)

text \<open>Waking a thread keeps the invariant, at a notification as well as by itself.\<close>

lemma wake_moves:
  "pp_ok N mx t d p i Q_sleep j \<Longrightarrow> pp_ok N mx t d p i Q_relock j"
  "pp_ok N mx t d P_sleep i q j \<Longrightarrow> pp_ok N mx t d P_relock i q j"
  by (auto simp: ping_move pong_move)

lemma notify_moves:
  "pp_ok N mx t d P_notify i Q_sleep j \<Longrightarrow> pp_ok N mx t d P_lock2 i Q_relock j"
  "pp_ok N mx t d P_notify i q j \<Longrightarrow> q \<noteq> Q_sleep \<Longrightarrow> pp_ok N mx t d P_lock2 i q j"
  "pp_ok N mx t d P_notifyall i Q_sleep j \<Longrightarrow> pp_ok N mx t d P_join i Q_relock j"
  "pp_ok N mx t d P_notifyall i q j \<Longrightarrow> q \<noteq> Q_sleep \<Longrightarrow> pp_ok N mx t d P_join i q j"
  "pp_ok N mx t d P_sleep i Q_notify j \<Longrightarrow> pp_ok N mx t d P_relock i Q_start (Suc j)"
  "pp_ok N mx t d p i Q_notify j \<Longrightarrow> p \<noteq> P_sleep \<Longrightarrow> pp_ok N mx t d p i Q_start (Suc j)"
  by (auto simp: ping_move pong_move)

text \<open>While pong plays, the game is not over.\<close>

lemma pong_plays:
  assumes "pp_ok N mx t d p i q j" "q = Q_check \<or> q = Q_test"
  shows "\<not> d"
  using assms ping_last_facts(1,2)[of p] ping_last_facts(3)[of N p i] by (auto simp: pong_move)

lemma pong_stays: "\<not> pp_ok N mx t d p i Q_leave j"
  by (simp add: pp_ok_def)

lemmas pp_moves = ping_moves pong_moves notify_moves
lemmas pp_step_defs = ping_step_def pong_step_def acquire_def pp_inv_def

lemma notify_inv: "pp_inv N s \<Longrightarrow> pp_inv N (notify w s)"
  using wake_moves by (cases w) (auto simp: notify_def pp_inv_def)

lemma ping_step_inv:
  assumes "pp_inv N s" "ping_step N s = Some s'"
  shows "pp_inv N s'"
proof (cases "ping_pc s")
qed (use assms in \<open>auto simp: pp_step_defs notify_def split: if_splits dest: pp_moves\<close>)

lemma pong_step_inv:
  assumes "pp_inv N s" "pong_step N s = Some s'"
  shows "pp_inv N s'"
proof (cases "pong_pc s")
qed (use assms in \<open>auto simp: pp_step_defs notify_def pong_stays split: if_splits dest: pp_moves pong_plays\<close>)

subsection \<open>Progress and termination\<close>

text \<open>
  The steps a thread has left if nobody wakes it any more; a wake-up costs two more, which the notifier pays for.
\<close>

definition ping_left :: "nat \<Rightarrow> ping_pc \<Rightarrow> nat \<Rightarrow> nat" where
  "ping_left N pc i =
     (case pc of P_end \<Rightarrow> 0 | P_join \<Rightarrow> 1 | P_notifyall \<Rightarrow> 4 | P_unlockd \<Rightarrow> 5 | P_setd \<Rightarrow> 6 | P_lockd \<Rightarrow> 7
      | P_start \<Rightarrow> 8 + 10 * (N - i)
      | P_lock1 \<Rightarrow> 7 + 10 * (N - i) | P_set \<Rightarrow> 6 + 10 * (N - i) | P_unlock1 \<Rightarrow> 5 + 10 * (N - i) | P_notify \<Rightarrow> 4 + 10 * (N - i)
      | P_lock2 \<Rightarrow> 1 + 10 * (N - i) | P_relock \<Rightarrow> 1 + 10 * (N - i) | P_check \<Rightarrow> 10 * (N - i)
      | P_sleep \<Rightarrow> 10 * (N - i) - 1 | P_unlock2 \<Rightarrow> 10 * (N - i) - 1)"

definition pong_left :: "nat \<Rightarrow> pong_pc \<Rightarrow> nat \<Rightarrow> nat" where
  "pong_left N pc j =
     (case pc of Q_exit \<Rightarrow> 0 | Q_leave \<Rightarrow> 1 | Q_start \<Rightarrow> 1 + 8 * (N - j)
      | Q_lock \<Rightarrow> 8 * (N - j) | Q_relock \<Rightarrow> 8 * (N - j) | Q_check \<Rightarrow> 8 * (N - j) - 1
      | Q_sleep \<Rightarrow> 8 * (N - j) - 2 | Q_test \<Rightarrow> 8 * (N - j) - 2 | Q_unlock \<Rightarrow> 8 * (N - j) - 3 | Q_notify \<Rightarrow> 8 * (N - j) - 4)"

definition pp_left :: "nat \<Rightarrow> PingPong \<Rightarrow> nat" where
  "pp_left N s = ping_left N (ping_pc s) (ping_i s) + pong_left N (pong_pc s) (pong_i s)"

lemma wake_left: "ping_left N P_relock i \<le> ping_left N P_sleep i + 2" "pong_left N Q_relock j \<le> pong_left N Q_sleep j + 2"
  by (auto simp: ping_left_def pong_left_def)

lemma notify_left: "pp_left N (notify w s) \<le> pp_left N s + 2"
  using wake_left(1)[of N "ping_i s"] wake_left(2)[of N "pong_i s"] by (cases w) (auto simp: pp_left_def notify_def)

lemma ping_step_left:
  assumes "pp_inv N s" "ping_step N s = Some s'"
  shows "pp_left N s' < pp_left N s"
proof -
  have r: "ping_round N (ping_pc s) (ping_i s)" using assms(1) by (simp add: pp_inv_def pp_ok_def)
  show ?thesis
  proof (cases "ping_pc s")
  qed (use r assms(2) wake_left(2)[of N "pong_i s"] in
      \<open>auto simp: ping_step_def acquire_def notify_def pp_left_def ping_left_def ping_round_def ping_last_def split: if_splits\<close>)
qed

lemma pong_step_left:
  assumes "pp_inv N s" "pong_step N s = Some s'"
  shows "pp_left N s' < pp_left N s"
proof -
  have r: "pong_round N (pong_pc s) (pong_i s)" using assms(1) by (simp add: pp_inv_def pp_ok_def)
  show ?thesis
  proof (cases "pong_pc s")
  qed (use r assms(2) wake_left(1)[of N "ping_i s"] in
      \<open>auto simp: pong_step_def acquire_def notify_def pp_left_def pong_left_def pong_round_def split: if_splits\<close>)
qed

lemma pp_step_inv: "pp_inv N s \<Longrightarrow> pp_step N w s = Some s' \<Longrightarrow> pp_inv N s' \<and> pp_left N s' < pp_left N s"
  using ping_step_inv[of N s s'] ping_step_left[of N s s'] pong_step_inv[of N s s'] pong_step_left[of N s s']
  unfolding pp_step_def by (cases w) simp_all

lemma pp_run_inv: "pp_run N n m s \<Longrightarrow> pp_inv N s \<and> n + pp_left N s \<le> 18 * N + 9 + 2 * m"
proof (induction rule: pp_run.induct)
  case pp_init
  show ?case by (simp add: pp_inv_new) (simp add: PingPong_new_def pp_left_def ping_left_def pong_left_def)
next
  case (pp_next n m s w s')
  then show ?case using pp_step_inv[of N s w s'] by auto
next
  case (pp_spurious n m s w)
  then show ?case using notify_inv[of N s w] notify_left[of N w s] by auto
qed

text \<open>Some thread can always go on: the owner of the mutex, or a thread that is neither asleep nor waiting for the other to end.\<close>

lemma ping_blocked: "ping_step N s = None \<Longrightarrow> ping_pc s = P_sleep \<or> ping_pc s = P_join \<or> ping_pc s = P_end \<or> mtx s \<noteq> None"
  by (cases "ping_pc s") (auto simp: ping_step_def acquire_def split: if_splits)

lemma pong_blocked: "pong_step N s = None \<Longrightarrow> pong_pc s = Q_sleep \<or> pong_pc s = Q_exit \<or> mtx s \<noteq> None"
  by (cases "pong_pc s") (auto simp: pong_step_def acquire_def split: if_splits)

lemma owner_runs:
  "ping_owns (ping_pc s) \<Longrightarrow> ping_step N s \<noteq> None" "pong_owns (pong_pc s) \<Longrightarrow> pong_step N s \<noteq> None"
  by (cases "ping_pc s"; simp add: ping_owns_def ping_step_def)
    (cases "pong_pc s"; simp add: pong_owns_def pong_step_def)

lemma no_lost_turn:
  assumes "pp_ok N None t d p i q j" "p = P_sleep \<or> p = P_join"
  shows "q \<noteq> Q_sleep" "q = Q_exit \<Longrightarrow> p = P_join"
  using assms by (auto simp: ping_move pong_move)

lemma pp_progress:
  assumes inv: "pp_inv N s" and "ping_pc s \<noteq> P_end"
  shows "\<exists>w s'. pp_step N w s = Some s'"
proof (rule ccontr)
  assume "\<not> ?thesis"
  then have b: "ping_step N s = None" "pong_step N s = None"
    by (metis option.exhaust player.simps(3,4) pp_step_def)+
  have m: "mtx s = None"
  proof (cases "mtx s")
    case (Some w)
    then show ?thesis using inv owner_runs[of s N] b by (cases w) (auto simp: pp_inv_def pp_ok_def)
  qed simp
  then have ok: "pp_ok N None (turn s) (pp_done s) (ping_pc s) (ping_i s) (pong_pc s) (pong_i s)"
    using inv by (simp add: pp_inv_def)
  have p: "ping_pc s = P_sleep \<or> ping_pc s = P_join" using ping_blocked[OF b(1)] m assms(2) by simp
  then have "pong_pc s = Q_exit" "ping_pc s = P_join"
    using no_lost_turn[OF ok p] pong_blocked[OF b(2)] m by auto
  then show False using b(1) by (simp add: ping_step_def)
qed

lemma ping_gave_le: "ping_gave pc \<le> 1"
  by (cases pc) (simp_all add: ping_gave_def)

lemma pong_gave_le: "pong_gave pc \<le> 1"
  by (cases pc) (simp_all add: pong_gave_def)

lemma ping_turn_gave: "\<not> ping_turn pc \<Longrightarrow> ping_gave pc = 1"
  by (cases pc) (simp_all add: ping_pc_defs)

lemma pp_over:
  assumes "pp_inv N s" "ping_pc s = P_end"
  shows "pong_pc s = Q_exit \<and> ping_i s = N \<and> pong_i s = N \<and> turn s = 0 \<and> mtx s = None"
proof -
  have q: "pong_pc s = Q_exit" using assms by (simp add: pp_inv_def pp_ok_def)
  have ok: "pp_ok N (mtx s) (turn s) (pp_done s) P_end (ping_i s) Q_exit (pong_i s)" using assms by (simp add: pp_inv_def q)
  have "mtx s \<noteq> Some Ping" "mtx s \<noteq> Some Pong" using ok by (simp_all add: ping_move pong_move)
  then have "mtx s = None" by (metis not_None_eq player.exhaust)
  then show ?thesis using ok q by (simp add: ping_move pong_move)
qed

lemma pp_apart: "pp_inv N s \<Longrightarrow> pong_i s \<le> ping_i s + 1 \<and> ping_i s \<le> pong_i s + 1"
proof -
  assume "pp_inv N s"
  then have "ping_i s + ping_gave (ping_pc s) = pong_i s + pong_gave (pong_pc s) + turn s"
    "turn s \<le> 1" "ping_turn (ping_pc s) \<longrightarrow> turn s = 0"
    unfolding pp_inv_def pp_ok_def by blast+
  then show ?thesis using ping_gave_le[of "ping_pc s"] pong_gave_le[of "pong_pc s"] ping_turn_gave[of "ping_pc s"]
    by (cases "turn s = 0") simp_all
qed

text \<open>A schedule that is followed is a run.\<close>

fun pp_schedule :: "nat \<Rightarrow> player list \<Rightarrow> PingPong \<Rightarrow> PingPong option" where
  "pp_schedule N [] s = Some s"
| "pp_schedule N (w # ws) s = (case pp_step N w s of Some s' \<Rightarrow> pp_schedule N ws s' | None \<Rightarrow> None)"

lemma pp_schedule_run: "pp_run N n m s \<Longrightarrow> pp_schedule N ws s = Some s' \<Longrightarrow> pp_run N (n + length ws) m s'"
proof (induction ws arbitrary: n s)
  case (Cons w ws)
  then obtain s1 where "pp_step N w s = Some s1" "pp_schedule N ws s1 = Some s'" by (auto split: option.splits)
  then show ?case using Cons.IH[OF pp_next[OF Cons.prems(1)]] by simp
qed simp

text \<open>
  C33. The token exchange of \<open>ping_pong_ns\<close> ends without deadlock or lost wake-up: however the threads interleave, a run
  of \<open>n\<close> steps with \<open>m\<close> spurious wake-ups has \<open>n \<le> 18 * kRoundTrips + 9 + 2 * m\<close>; as long as the function has not
  returned some thread can go on; the two threads are never both in the critical section and at most one round
  apart, pong never leaves through its \<open>done\<close> test; and when the function has returned, both loops made
  \<open>kRoundTrips\<close> rounds, the turn is ping's and the mutex is free.
\<close>

theorem ping_pong_live:
  assumes "pp_run kRoundTrips n m s"
  shows "n \<le> 18 * kRoundTrips + 9 + 2 * m \<and>
    (ping_pc s \<noteq> P_end \<longrightarrow> (\<exists>w s'. pp_step kRoundTrips w s = Some s')) \<and>
    \<not> (ping_owns (ping_pc s) \<and> pong_owns (pong_pc s)) \<and>
    pong_i s \<le> ping_i s + 1 \<and> ping_i s \<le> pong_i s + 1 \<and> pong_pc s \<noteq> Q_leave \<and>
    (ping_pc s = P_end \<longrightarrow>
       pong_pc s = Q_exit \<and> ping_i s = kRoundTrips \<and> pong_i s = kRoundTrips \<and> turn s = 0 \<and> mtx s = None)"
proof -
  have i: "pp_inv kRoundTrips s" and l: "n + pp_left kRoundTrips s \<le> 18 * kRoundTrips + 9 + 2 * m"
    using pp_run_inv[OF assms] by auto
  have e: "\<not> (ping_owns (ping_pc s) \<and> pong_owns (pong_pc s))" "pong_pc s \<noteq> Q_leave"
    using i by (auto simp: pp_inv_def pp_ok_def)
  show ?thesis using l e pp_progress[OF i] pp_over[OF i] pp_apart[OF i] by simp
qed

theorem ping_pong_live_witness:
  "\<exists>s. pp_schedule 1 (replicate 7 Ping @ replicate 6 Pong @ replicate 8 Ping @ [Pong, Ping]) PingPong_new = Some s \<and>
     ping_pc s = P_end \<and> pong_pc s = Q_exit \<and> ping_i s = 1 \<and> pong_i s = 1 \<and> mtx s = None"
proof -
  let ?ws = "replicate 7 Ping @ replicate 6 Pong @ replicate 8 Ping @ [Pong, Ping]"
  obtain s where s: "pp_schedule 1 ?ws PingPong_new = Some s" "ping_pc s = P_end"
    by (simp add: PingPong_new_def pp_step_def ping_step_def pong_step_def acquire_def notify_def numeral_eq_Suc)
  have "pp_run 1 (0 + length ?ws) 0 s" by (rule pp_schedule_run[OF pp_init s(1)])
  from ping_pong_live[OF this] s show ?thesis by blast
qed

subsection \<open>The report\<close>

definition ping_pong_ns :: "nat \<Rightarrow> real \<Rightarrow> real" where
  "ping_pong_ns kRoundTrips total_ns = total_ns / (2 * real kRoundTrips)"

definition ctx_configs :: "nat \<Rightarrow> (string \<times> nat \<times> nat) list" where
  "ctx_configs ncores = [(''same_core'', 0, 0)] @ (if ncores \<ge> 2 then [(''diff_core'', 0, 1)] else [])"

definition ctx_summary :: "real list \<Rightarrow> real \<times> real" where
  "ctx_summary samples =
     (samples ! (length samples div 2), fold (\<lambda>v s. s + v) samples 0 / real (length samples))"

text \<open>The value printed as the median is the middle sample in time, not in size: it can be the largest one.\<close>

lemma ctx_median_is_third_run: "fst (ctx_summary [1, 2, 30, 4, 5]) = 30"
  by (simp add: ctx_summary_def)

end
