(* ===== verification/ThreadTeam.thy ===== *)
theory ThreadTeam
  imports Prelude
begin

text \<open>
  The frame of the multi-threaded benchmarks (\<^verbatim>\<open>run_scaling\<close>, \<^verbatim>\<open>bench_allocator\<close> and \<^verbatim>\<open>run_bench\<close> in \<^verbatim>\<open>memlab/bench\<close>): the
  main thread starts \<open>T\<close> workers, all of them and main meet at a barrier, every worker does its job on its own slot of a
  shared vector, all meet again, and main joins the workers.  A step is one access to the barrier or one job;
  jobs touch only their own slot, so that a job is one step.
\<close>

text \<open>\<open>std::barrier\<close>: how many have arrived in the current phase, and which phase it is; \<open>parties\<close> of them complete it.\<close>

record barrier =
  bar_arrived :: nat
  bar_phase :: nat

definition barrier_arrive :: "nat \<Rightarrow> barrier \<Rightarrow> barrier" where
  "barrier_arrive parties b =
     (if bar_arrived b + 1 = parties then \<lparr>bar_arrived = 0, bar_phase = bar_phase b + 1\<rparr> else b\<lparr>bar_arrived := bar_arrived b + 1\<rparr>)"

text \<open>\<open>arrive_and_wait\<close> is two steps: the arrival, and the return once the phase is over.\<close>

datatype worker_pc = W_arrive1 | W_wait1 | W_work | W_arrive2 | W_wait2 | W_done
datatype main_pc = M_spawn | M_arrive1 | M_wait1 | M_arrive2 | M_wait2 | M_join nat | M_end
datatype member = Main | Worker nat

record 'r Team =
  bar :: barrier
  main_pc :: main_pc
  workers :: "worker_pc list"
  team_slots :: "'r list"

definition Team_new :: "'r list \<Rightarrow> 'r Team" where
  "Team_new vs = \<lparr>bar = \<lparr>bar_arrived = 0, bar_phase = 0\<rparr>, main_pc = M_spawn, workers = [], team_slots = vs\<rparr>"

definition main_step :: "nat \<Rightarrow> 'r Team \<Rightarrow> 'r Team option" where
  "main_step T s =
     (case main_pc s of
        M_spawn \<Rightarrow> Some (if length (workers s) < T then s\<lparr>workers := workers s @ [W_arrive1]\<rparr> else s\<lparr>main_pc := M_arrive1\<rparr>)
      | M_arrive1 \<Rightarrow> Some (s\<lparr>bar := barrier_arrive (T + 1) (bar s), main_pc := M_wait1\<rparr>)
      | M_wait1 \<Rightarrow> if 0 < bar_phase (bar s) then Some (s\<lparr>main_pc := M_arrive2\<rparr>) else None
      | M_arrive2 \<Rightarrow> Some (s\<lparr>bar := barrier_arrive (T + 1) (bar s), main_pc := M_wait2\<rparr>)
      | M_wait2 \<Rightarrow> if 1 < bar_phase (bar s) then Some (s\<lparr>main_pc := M_join 0\<rparr>) else None
      | M_join i \<Rightarrow> if i < T then if workers s ! i = W_done then Some (s\<lparr>main_pc := M_join (i + 1)\<rparr>) else None
                    else Some (s\<lparr>main_pc := M_end\<rparr>)
      | M_end \<Rightarrow> None)"

definition worker_step :: "nat \<Rightarrow> (nat \<Rightarrow> 'r \<Rightarrow> 'r) \<Rightarrow> nat \<Rightarrow> 'r Team \<Rightarrow> 'r Team option" where
  "worker_step T job i s =
     (if i < length (workers s) then
        case workers s ! i of
          W_arrive1 \<Rightarrow> Some (s\<lparr>bar := barrier_arrive (T + 1) (bar s), workers := (workers s)[i := W_wait1]\<rparr>)
        | W_wait1 \<Rightarrow> if 0 < bar_phase (bar s) then Some (s\<lparr>workers := (workers s)[i := W_work]\<rparr>) else None
        | W_work \<Rightarrow> Some (s\<lparr>team_slots := (team_slots s)[i := job i (team_slots s ! i)], workers := (workers s)[i := W_arrive2]\<rparr>)
        | W_arrive2 \<Rightarrow> Some (s\<lparr>bar := barrier_arrive (T + 1) (bar s), workers := (workers s)[i := W_wait2]\<rparr>)
        | W_wait2 \<Rightarrow> if 1 < bar_phase (bar s) then Some (s\<lparr>workers := (workers s)[i := W_done]\<rparr>) else None
        | W_done \<Rightarrow> None
      else None)"

definition team_step :: "nat \<Rightarrow> (nat \<Rightarrow> 'r \<Rightarrow> 'r) \<Rightarrow> member \<Rightarrow> 'r Team \<Rightarrow> 'r Team option" where
  "team_step T job w s = (case w of Main \<Rightarrow> main_step T s | Worker i \<Rightarrow> worker_step T job i s)"

inductive team_run :: "nat \<Rightarrow> (nat \<Rightarrow> 'r \<Rightarrow> 'r) \<Rightarrow> 'r list \<Rightarrow> nat \<Rightarrow> 'r Team \<Rightarrow> bool" for T job vs where
  team_init: "team_run T job vs 0 (Team_new vs)"
| team_next: "team_run T job vs n s \<Longrightarrow> team_step T job w s = Some s' \<Longrightarrow> team_run T job vs (n + 1) s'"

subsection \<open>Invariant\<close>

text \<open>The number of elements with a property, and how an update of one changes it.\<close>

definition many :: "('a \<Rightarrow> bool) \<Rightarrow> 'a list \<Rightarrow> nat" where
  "many P xs = length (filter P xs)"

lemma many_simps [simp]: "many P [] = 0" "many P (x # xs) = (if P x then 1 else 0) + many P xs" "many P (xs @ ys) = many P xs + many P ys"
  by (simp_all add: many_def)

lemma many_update: "i < length xs \<Longrightarrow> many P (xs[i := x]) + (if P (xs ! i) then 1 else 0) = many P xs + (if P x then 1 else 0)"
proof (induction xs arbitrary: i)
  case (Cons y ys)
  then show ?case by (cases i) auto
qed simp

lemma many_le: "many P xs \<le> length xs"
  by (simp add: many_def)

lemma many_all: "many P xs = length xs \<Longrightarrow> x \<in> set xs \<Longrightarrow> P x"
  unfolding many_def by (metis length_filter_less less_irrefl)

lemma many_none: "\<forall>x \<in> set xs. \<not> P x \<Longrightarrow> many P xs = 0"
  by (simp add: many_def)

text \<open>How often a thread has arrived at the barrier, and how many phases it has left behind.\<close>

definition warr :: "worker_pc \<Rightarrow> nat" where
  "warr x = (case x of W_arrive1 \<Rightarrow> 0 | W_wait1 \<Rightarrow> 1 | W_work \<Rightarrow> 1 | W_arrive2 \<Rightarrow> 1 | W_wait2 \<Rightarrow> 2 | W_done \<Rightarrow> 2)"

definition wpassed :: "worker_pc \<Rightarrow> nat" where
  "wpassed x = (case x of W_arrive1 \<Rightarrow> 0 | W_wait1 \<Rightarrow> 0 | W_work \<Rightarrow> 1 | W_arrive2 \<Rightarrow> 1 | W_wait2 \<Rightarrow> 1 | W_done \<Rightarrow> 2)"

definition marr :: "main_pc \<Rightarrow> nat" where
  "marr m = (case m of M_spawn \<Rightarrow> 0 | M_arrive1 \<Rightarrow> 0 | M_wait1 \<Rightarrow> 1 | M_arrive2 \<Rightarrow> 1 | M_wait2 \<Rightarrow> 2 | M_join i \<Rightarrow> 2 | M_end \<Rightarrow> 2)"

definition mpassed :: "main_pc \<Rightarrow> nat" where
  "mpassed m = (case m of M_spawn \<Rightarrow> 0 | M_arrive1 \<Rightarrow> 0 | M_wait1 \<Rightarrow> 0 | M_arrive2 \<Rightarrow> 1 | M_wait2 \<Rightarrow> 1 | M_join i \<Rightarrow> 2 | M_end \<Rightarrow> 2)"

lemmas pc_defs = warr_def wpassed_def marr_def mpassed_def

text \<open>
  Everybody has arrived in all phases that are over, nobody has left a phase that is not; the barrier counts
  those that have arrived in the current one.
\<close>

definition team_ok :: "nat \<Rightarrow> barrier \<Rightarrow> main_pc \<Rightarrow> worker_pc list \<Rightarrow> bool" where
  "team_ok T b m ws \<longleftrightarrow>
     length ws \<le> T \<and> (m \<noteq> M_spawn \<longrightarrow> length ws = T) \<and>
     (\<forall>x \<in> set ws. (warr x = bar_phase b \<or> warr x = Suc (bar_phase b)) \<and> wpassed x \<le> bar_phase b) \<and>
     (marr m = bar_phase b \<or> marr m = Suc (bar_phase b)) \<and> mpassed m \<le> bar_phase b \<and>
     bar_arrived b = many (\<lambda>x. warr x = Suc (bar_phase b)) ws + (if marr m = Suc (bar_phase b) then 1 else 0) \<and> bar_arrived b \<le> T"

lemma team_okD:
  assumes "team_ok T b m ws"
  shows "length ws \<le> T" "m \<noteq> M_spawn \<Longrightarrow> length ws = T"
    "x \<in> set ws \<Longrightarrow> warr x = bar_phase b \<or> warr x = Suc (bar_phase b)" "x \<in> set ws \<Longrightarrow> wpassed x \<le> bar_phase b"
    "marr m = bar_phase b \<or> marr m = Suc (bar_phase b)" "mpassed m \<le> bar_phase b"
    "bar_arrived b = many (\<lambda>x. warr x = Suc (bar_phase b)) ws + (if marr m = Suc (bar_phase b) then 1 else 0)" "bar_arrived b \<le> T"
  using assms unfolding team_ok_def by blast+

text \<open>A phase ends when everybody has arrived.\<close>

lemma arrive_ok:
  assumes "length ws \<le> T" "m \<noteq> M_spawn \<longrightarrow> length ws = T"
    "\<forall>x \<in> set ws. (warr x = bar_phase b \<or> warr x = Suc (bar_phase b)) \<and> wpassed x \<le> bar_phase b"
    "marr m = bar_phase b \<or> marr m = Suc (bar_phase b)" "mpassed m \<le> bar_phase b"
    "bar_arrived b + 1 = many (\<lambda>x. warr x = Suc (bar_phase b)) ws + (if marr m = Suc (bar_phase b) then 1 else 0)" "bar_arrived b \<le> T"
  shows "team_ok T (barrier_arrive (Suc T) b) m ws"
proof (cases "bar_arrived b = T")
  case False
  then show ?thesis using assms by (simp add: team_ok_def barrier_arrive_def)
next
  case True
  note le = many_le[of "\<lambda>x. warr x = Suc (bar_phase b)" ws]
  have m: "marr m = Suc (bar_phase b)"
  proof (rule ccontr)
    assume "\<not> ?thesis"
    then show False using assms(1,6) True le by simp
  qed
  then have "many (\<lambda>x. warr x = Suc (bar_phase b)) ws = length ws" using assms(1,6) True le by simp
  then have w: "\<forall>x \<in> set ws. warr x = Suc (bar_phase b)" using many_all by fastforce
  then have "many (\<lambda>x. warr x = Suc (Suc (bar_phase b))) ws = 0" by (intro many_none) simp
  then show ?thesis using assms(1,2,3,5) w m True by (simp add: team_ok_def barrier_arrive_def le_SucI)
qed

lemma worker_arrive_ok:
  assumes ok: "team_ok T b m ws" and i: "i < length ws" "warr (ws ! i) = bar_phase b" "warr x = Suc (bar_phase b)" "wpassed x \<le> bar_phase b"
  shows "team_ok T (barrier_arrive (Suc T) b) m (ws[i := x])"
proof (rule arrive_ok)
  show "\<forall>y \<in> set (ws[i := x]). (warr y = bar_phase b \<or> warr y = Suc (bar_phase b)) \<and> wpassed y \<le> bar_phase b"
    using team_okD(3,4)[OF ok] i set_update_subset_insert[of ws i x] by blast
  show "bar_arrived b + 1 = many (\<lambda>x. warr x = Suc (bar_phase b)) (ws[i := x]) + (if marr m = Suc (bar_phase b) then 1 else 0)"
    using team_okD(7)[OF ok] many_update[OF i(1), of "\<lambda>x. warr x = Suc (bar_phase b)" x] i by simp
qed (use team_okD[OF ok] in simp_all)

lemma worker_move_ok:
  assumes ok: "team_ok T b m ws" and i: "i < length ws" "warr x = warr (ws ! i)" "wpassed x \<le> bar_phase b"
  shows "team_ok T b m (ws[i := x])"
proof -
  have "\<forall>y \<in> set (ws[i := x]). (warr y = bar_phase b \<or> warr y = Suc (bar_phase b)) \<and> wpassed y \<le> bar_phase b"
    using team_okD(3,4)[OF ok nth_mem[OF i(1)]] team_okD(3,4)[OF ok] i set_update_subset_insert[of ws i x]
    by (metis insertE subsetD)
  moreover have "many (\<lambda>x. warr x = Suc (bar_phase b)) (ws[i := x]) = many (\<lambda>x. warr x = Suc (bar_phase b)) ws"
    using many_update[OF i(1), of "\<lambda>x. warr x = Suc (bar_phase b)" x] i by simp
  ultimately show ?thesis using ok by (simp add: team_ok_def)
qed

lemma main_arrive_ok:
  assumes ok: "team_ok T b m ws" and "m \<noteq> M_spawn" "marr m = bar_phase b" "marr m' = Suc (bar_phase b)" "mpassed m' \<le> bar_phase b"
  shows "team_ok T (barrier_arrive (Suc T) b) m' ws"
  by (rule arrive_ok) (use assms team_okD[OF ok] in simp_all)

lemma main_move_ok:
  assumes "team_ok T b m ws" "marr m' = marr m" "mpassed m' \<le> bar_phase b" "length ws = T"
  shows "team_ok T b m' ws"
  using assms by (simp add: team_ok_def)

lemma spawn_ok:
  assumes ok: "team_ok T b M_spawn ws" and "length ws < T"
  shows "team_ok T b M_spawn (ws @ [W_arrive1])"
  using assms team_okD(5)[OF ok] by (auto simp: team_ok_def pc_defs)

definition team_inv :: "nat \<Rightarrow> 'r Team \<Rightarrow> bool" where
  "team_inv T s = team_ok T (bar s) (main_pc s) (workers s)"

lemma team_inv_new: "team_inv T (Team_new vs)"
  by (simp add: team_inv_def Team_new_def team_ok_def pc_defs)

lemma main_step_inv:
  assumes "team_inv T s" "main_step T s = Some s'"
  shows "team_inv T s'"
proof -
  have ok: "team_ok T (bar s) (main_pc s) (workers s)" using assms(1) by (simp add: team_inv_def)
  note D = team_okD(1,2,5,6)[OF ok]
  show ?thesis
  proof (cases "main_pc s")
    case M_spawn
    then show ?thesis using assms(2) ok D spawn_ok[of T "bar s" "workers s"] main_move_ok[OF ok, of M_arrive1]
      by (auto simp: main_step_def team_inv_def pc_defs split: if_splits)
  next
    case M_arrive1
    then show ?thesis using assms(2) D main_arrive_ok[OF ok, of M_wait1] by (auto simp: main_step_def team_inv_def pc_defs)
  next
    case M_arrive2
    then show ?thesis using assms(2) D main_arrive_ok[OF ok, of M_wait2] by (auto simp: main_step_def team_inv_def pc_defs)
  next
    case M_wait1
    then show ?thesis using assms(2) D main_move_ok[OF ok, of M_arrive2]
      by (auto simp: main_step_def team_inv_def pc_defs split: if_splits)
  next
    case M_wait2
    then show ?thesis using assms(2) D main_move_ok[OF ok, of "M_join 0"]
      by (auto simp: main_step_def team_inv_def pc_defs split: if_splits)
  next
    case (M_join i)
    then show ?thesis using assms(2) D main_move_ok[OF ok, of "M_join (i + 1)"] main_move_ok[OF ok, of M_end]
      by (auto simp: main_step_def team_inv_def pc_defs split: if_splits)
  next
    case M_end
    then show ?thesis using assms(2) by (simp add: main_step_def)
  qed
qed

lemma worker_step_inv:
  assumes "team_inv T s" "worker_step T job i s = Some s'"
  shows "team_inv T s'"
proof -
  have ok: "team_ok T (bar s) (main_pc s) (workers s)" using assms(1) by (simp add: team_inv_def)
  have i: "i < length (workers s)" using assms(2) by (simp add: worker_step_def split: if_splits)
  note D = team_okD(3,4)[OF ok nth_mem[OF i]]
  show ?thesis
  proof (cases "workers s ! i")
  qed (use assms(2) i D worker_arrive_ok[OF ok i, of W_wait1] worker_arrive_ok[OF ok i, of W_wait2] worker_move_ok[OF ok i, of W_work]
      worker_move_ok[OF ok i, of W_arrive2] worker_move_ok[OF ok i, of W_done] in
      \<open>auto simp: worker_step_def team_inv_def pc_defs split: if_splits\<close>)
qed

text \<open>Exactly the workers past their job have written their slot.\<close>

definition worked :: "worker_pc \<Rightarrow> bool" where
  "worked x \<longleftrightarrow> x = W_arrive2 \<or> x = W_wait2 \<or> x = W_done"

definition slots_ok :: "(nat \<Rightarrow> 'r \<Rightarrow> 'r) \<Rightarrow> 'r list \<Rightarrow> 'r Team \<Rightarrow> bool" where
  "slots_ok job vs s \<longleftrightarrow> length (team_slots s) = length vs \<and>
     (\<forall>i < length vs. team_slots s ! i = (if i < length (workers s) \<and> worked (workers s ! i) then job i (vs ! i) else vs ! i))"

lemma worker_step_slots:
  assumes "slots_ok job vs s" "worker_step T job i s = Some s'"
  shows "slots_ok job vs s'"
proof (cases "workers s ! i")
qed (use assms in \<open>auto simp: worker_step_def slots_ok_def nth_list_update worked_def split: if_splits\<close>)

lemma main_step_slots:
  assumes "slots_ok job vs s" "main_step T s = Some s'"
  shows "slots_ok job vs s'"
proof (cases "main_pc s")
qed (use assms in \<open>auto simp: main_step_def slots_ok_def nth_append worked_def less_Suc_eq split: if_splits\<close>)

subsection \<open>Progress and termination\<close>

definition wleft :: "worker_pc \<Rightarrow> nat" where
  "wleft x = (case x of W_arrive1 \<Rightarrow> 5 | W_wait1 \<Rightarrow> 4 | W_work \<Rightarrow> 3 | W_arrive2 \<Rightarrow> 2 | W_wait2 \<Rightarrow> 1 | W_done \<Rightarrow> 0)"

definition mleft :: "nat \<Rightarrow> nat \<Rightarrow> main_pc \<Rightarrow> nat" where
  "mleft T l m = (case m of M_spawn \<Rightarrow> 6 * (T - l) + T + 6 | M_arrive1 \<Rightarrow> T + 5 | M_wait1 \<Rightarrow> T + 4 | M_arrive2 \<Rightarrow> T + 3 | M_wait2 \<Rightarrow> T + 2
     | M_join i \<Rightarrow> T - i + 1 | M_end \<Rightarrow> 0)"

definition team_left :: "nat \<Rightarrow> 'r Team \<Rightarrow> nat" where
  "team_left T s = mleft T (length (workers s)) (main_pc s) + sum_list (map wleft (workers s))"

lemma wleft_update: "i < length ws \<Longrightarrow> sum_list (map wleft (ws[i := x])) + wleft (ws ! i) = sum_list (map wleft ws) + wleft x"
proof (induction ws arbitrary: i)
  case (Cons y ys)
  then show ?case by (cases i) auto
qed simp

lemma worker_step_left:
  assumes "worker_step T job i s = Some s'"
  shows "team_left T s = Suc (team_left T s')"
proof -
  have i: "i < length (workers s)" using assms by (simp add: worker_step_def split: if_splits)
  show ?thesis
  proof (cases "workers s ! i")
  qed (use assms wleft_update[OF i, of W_wait1] wleft_update[OF i, of W_work] wleft_update[OF i, of W_arrive2]
      wleft_update[OF i, of W_wait2] wleft_update[OF i, of W_done] in
      \<open>auto simp: worker_step_def team_left_def wleft_def split: if_splits\<close>)
qed

lemma main_step_left:
  assumes "team_inv T s" "main_step T s = Some s'"
  shows "team_left T s = Suc (team_left T s')"
proof -
  have "length (workers s) \<le> T" using assms(1) team_okD(1) unfolding team_inv_def by blast
  then show ?thesis
  proof (cases "main_pc s")
  qed (use assms(2) in \<open>auto simp: main_step_def team_left_def mleft_def wleft_def split: if_splits\<close>)
qed

lemma team_run_inv:
  "team_run T job vs n s \<Longrightarrow> team_inv T s \<and> slots_ok job vs s \<and> n + team_left T s = 7 * T + 6"
proof (induction rule: team_run.induct)
  case team_init
  show ?case by (simp add: team_inv_new) (simp add: slots_ok_def Team_new_def team_left_def mleft_def)
next
  case (team_next n s w s')
  then show ?case
    using main_step_inv[of T s s'] worker_step_inv[of T s job _ s'] main_step_slots[of job vs s T s'] worker_step_slots[of job vs s T _ s']
      main_step_left[of T s s'] worker_step_left[of T job _ s s']
    by (cases w) (simp_all add: team_step_def)
qed

lemma worker_blocked:
  assumes "team_ok T b m ws" "i < length ws" "worker_step T job i s = None" "ws = workers s" "b = bar s"
  shows "ws ! i = W_done \<or> warr (ws ! i) = Suc (bar_phase b)"
  using assms(3) team_okD(3,4)[OF assms(1) nth_mem[OF assms(2)]] assms(2) unfolding assms(4,5)
  by (cases "workers s ! i") (auto simp: worker_step_def pc_defs split: if_splits)

lemma team_progress:
  assumes inv: "team_inv T s" and ne: "main_pc s \<noteq> M_end"
  shows "\<exists>w s'. team_step T job w s = Some s'"
proof (rule ccontr)
  assume "\<not> ?thesis"
  then have b: "team_step T job w s = None" for w by (metis option.exhaust)
  have m: "main_step T s = None" using b[of Main] by (simp add: team_step_def)
  have w: "worker_step T job i s = None" for i using b[of "Worker i"] by (simp add: team_step_def)
  have ok: "team_ok T (bar s) (main_pc s) (workers s)" using inv by (simp add: team_inv_def)
  note D = team_okD[OF ok]
  have sp: "main_pc s \<noteq> M_spawn" using m by (auto simp: main_step_def)
  then have l: "length (workers s) = T" by (rule D(2))
  show False
  proof (cases "\<exists>i. main_pc s = M_join i")
    case True
    then obtain i where i: "main_pc s = M_join i" by blast
    then have "i < T" "workers s ! i \<noteq> W_done" using m by (auto simp: main_step_def split: if_splits)
    moreover have "bar_phase (bar s) \<ge> 2" using D(6) i by (simp add: pc_defs)
    ultimately have "warr (workers s ! i) = Suc (bar_phase (bar s))" using worker_blocked[OF ok _ w refl refl, of i] l by auto
    then show False using \<open>bar_phase (bar s) \<ge> 2\<close> by (simp add: warr_def split: worker_pc.splits)
  next
    case False
    then have mm: "marr (main_pc s) = Suc (bar_phase (bar s))" "bar_phase (bar s) \<le> 1"
      using m D(5,6) sp ne by (cases "main_pc s"; auto simp: main_step_def pc_defs split: if_splits)+
    have "many (\<lambda>x. warr x = Suc (bar_phase (bar s))) (workers s) = T"
    proof -
      have "warr (workers s ! i) = Suc (bar_phase (bar s))" if "i < length (workers s)" for i
        using worker_blocked[OF ok that w refl refl] D(4)[OF nth_mem[OF that]] mm(2) by (auto simp: wpassed_def)
      then have "\<forall>x \<in> set (workers s). warr x = Suc (bar_phase (bar s))" by (metis in_set_conv_nth)
      then show ?thesis using l by (simp add: many_def)
    qed
    then show False using D(7,8) mm by simp
  qed
qed

text \<open>Whoever has left the second phase knows that all jobs are done.\<close>

lemma team_all_worked:
  assumes ok: "team_ok T b m ws" and "marr m = 2" "mpassed m = 2"
  shows "length ws = T" "i < T \<Longrightarrow> worked (ws ! i)"
proof -
  show l: "length ws = T" using team_okD(2)[OF ok] assms(2) by (cases m) (simp_all add: marr_def)
  assume "i < T"
  then have "warr (ws ! i) \<ge> 2" using team_okD(3,6)[OF ok] assms(3) l nth_mem[of i ws] by fastforce
  then show "worked (ws ! i)" by (cases "ws ! i") (simp_all add: warr_def worked_def)
qed

lemma team_results:
  assumes "team_run T job vs n s" "length vs = T" "mpassed (main_pc s) = 2"
  shows "team_slots s = map (\<lambda>i. job i (vs ! i)) [0..<T]"
proof -
  have ok: "team_ok T (bar s) (main_pc s) (workers s)" and sl: "slots_ok job vs s"
    using team_run_inv[OF assms(1)] by (simp_all add: team_inv_def)
  have m: "marr (main_pc s) = 2" using assms(3) by (cases "main_pc s") (simp_all add: pc_defs)
  show ?thesis
    using sl assms(2) team_all_worked[OF ok m assms(3)] by (auto simp: slots_ok_def intro!: nth_equalityI)
qed

text \<open>A schedule that is followed is a run.\<close>

fun team_schedule :: "nat \<Rightarrow> (nat \<Rightarrow> 'r \<Rightarrow> 'r) \<Rightarrow> member list \<Rightarrow> 'r Team \<Rightarrow> 'r Team option" where
  "team_schedule T job [] s = Some s"
| "team_schedule T job (w # ws) s = (case team_step T job w s of Some s' \<Rightarrow> team_schedule T job ws s' | None \<Rightarrow> None)"

lemma team_schedule_run:
  "team_run T job vs n s \<Longrightarrow> team_schedule T job ws s = Some s' \<Longrightarrow> team_run T job vs (n + length ws) s'"
proof (induction ws arbitrary: n s)
  case (Cons w ws)
  then obtain s1 where "team_step T job w s = Some s1" "team_schedule T job ws s1 = Some s'" by (auto split: option.splits)
  then show ?case using Cons.IH[OF team_next[OF Cons.prems(1)]] by simp
qed simp

end
