(* ===== verification/Benchmarks.thy ===== *)
theory Benchmarks
  imports ThreadTeam Stats PoolAllocator
begin

text \<open>
  The benchmarks of \<^verbatim>\<open>memlab/bench\<close> and \<^verbatim>\<open>examples/PacketProcessingDemo.cpp\<close>: what they compute besides the times.
  Clocks and resource counters are parameters; times and rates are over the reals.
\<close>

subsection \<open>thread\_scaling\_bench\<close>

text \<open>\<open>kTotalItems\<close> is the length of \<open>data\<close>; the counters of \<open>getrusage\<close> before and after the work are parameters.\<close>

record ThreadResult =
  checksum :: "32 word"
  vcsw :: int
  ivcsw :: int

fun hash_loop :: "32 word list \<Rightarrow> 32 word \<Rightarrow> 32 word" where
  "hash_loop [] acc = acc"
| "hash_loop (x # xs) acc = hash_loop xs (acc XOR (x * 2654435761))"

definition hash_work :: "int \<times> int \<Rightarrow> int \<times> int \<Rightarrow> 32 word list \<Rightarrow> ThreadResult \<Rightarrow> ThreadResult" where
  "hash_work ru0 ru1 xs out = out\<lparr>checksum := hash_loop xs 0, vcsw := fst ru1 - fst ru0, ivcsw := snd ru1 - snd ru0\<rparr>"

definition work_slice :: "nat \<Rightarrow> nat \<Rightarrow> nat \<Rightarrow> nat \<times> nat" where
  "work_slice kTotalItems T i =
     (let per_thread = kTotalItems div T;
          start = i * per_thread
      in (start, if i = T - 1 then kTotalItems - start else per_thread))"

definition scaling_job ::
  "(nat \<Rightarrow> (int \<times> int) \<times> (int \<times> int)) \<Rightarrow> 32 word list \<Rightarrow> nat \<Rightarrow> nat \<Rightarrow> ThreadResult \<Rightarrow> ThreadResult" where
  "scaling_job ru data T i out =
     (case work_slice (length data) T i of
        (start, cnt) \<Rightarrow> hash_work (fst (ru i)) (snd (ru i)) (take cnt (drop start data)) out)"

record ScalingResult =
  threads :: nat
  elapsed_ms :: real
  throughput_mops :: real
  speedup :: real
  efficiency :: real
  total_vcsw :: int
  total_ivcsw :: int

text \<open>The second part of \<open>run_scaling\<close>: from the results of the workers and the (positive) time to the numbers reported and the baseline.\<close>

definition run_scaling :: "nat \<Rightarrow> nat \<Rightarrow> real \<Rightarrow> ThreadResult list \<Rightarrow> real \<Rightarrow> ScalingResult \<times> real" where
  "run_scaling kTotalItems T elapsed results g_t1_ms =
     (let vc = fold (\<lambda>r a. a + vcsw r) results 0;
          ivc = fold (\<lambda>r a. a + ivcsw r) results 0;
          g = (if T = 1 then elapsed else g_t1_ms);
          sp = g / elapsed
      in (\<lparr>threads = T, elapsed_ms = elapsed, throughput_mops = real kTotalItems / elapsed / 1000, speedup = sp,
           efficiency = sp / real T, total_vcsw = vc, total_ivcsw = ivc\<rparr>, g))"

fun serial_loop :: "ScalingResult list \<Rightarrow> real \<Rightarrow> nat \<Rightarrow> real \<times> nat" where
  "serial_loop [] sum_s cnt = (sum_s, cnt)"
| "serial_loop (r # rs) sum_s cnt =
     (if threads r \<le> 1 \<or> speedup r \<le> 0 then serial_loop rs sum_s cnt
      else let inv_T = 1 / real (threads r);
               inv_S = 1 / speedup r;
               denom = 1 - inv_T
           in if denom < 1 / 10 ^ 9 then serial_loop rs sum_s cnt
              else serial_loop rs (sum_s + (inv_S - inv_T) / denom) (cnt + 1))"

definition estimate_serial_fraction :: "ScalingResult list \<Rightarrow> real" where
  "estimate_serial_fraction results =
     (case serial_loop results 0 0 of (sum_s, cnt) \<Rightarrow> if cnt > 0 then sum_s / real cnt else 0)"

definition work_item :: "nat \<Rightarrow> 32 word" where
  "work_item i = ucast (drop_bit 33 ((of_nat i :: 64 word) * 6364136223846793005))"

text \<open>The slices are the data, in order; the checksum of a concatenation is the XOR of the checksums.\<close>

lemma hash_loop_acc: "hash_loop xs acc = acc XOR hash_loop xs 0"
proof (induction xs arbitrary: acc)
  case (Cons x xs)
  have "hash_loop (x # xs) acc = (acc XOR (x * 2654435761)) XOR hash_loop xs 0" by (simp add: Cons.IH[of "acc XOR (x * 2654435761)"])
  also have "\<dots> = acc XOR hash_loop xs (x * 2654435761)" by (simp add: Cons.IH[of "x * 2654435761"] xor.assoc)
  finally show ?case by simp
qed simp

lemma hash_loop_app: "hash_loop (xs @ ys) 0 = hash_loop xs 0 XOR hash_loop ys 0"
proof -
  have "hash_loop (xs @ ys) acc = hash_loop ys (hash_loop xs acc)" for acc by (induction xs arbitrary: acc) simp_all
  then show ?thesis by (metis hash_loop_acc)
qed

lemma hash_loop_concat: "fold (XOR) (map (\<lambda>xs. hash_loop xs 0) xss) 0 = hash_loop (concat xss) 0"
proof -
  have "fold (XOR) (map (\<lambda>xs. hash_loop xs 0) xss) acc = acc XOR hash_loop (concat xss) 0" for acc
    by (induction xss arbitrary: acc) (simp_all add: hash_loop_app xor.left_commute xor.assoc xor.commute)
  then show ?thesis by simp
qed

lemma slices_prefix: "j * per \<le> length xs \<Longrightarrow> concat (map (\<lambda>i. take per (drop (i * per) xs)) [0..<j]) = take (j * per) xs"
proof (induction j)
  case (Suc j)
  then show ?case by (simp add: take_add add.commute[of per])
qed simp

lemma slices_concat:
  assumes "0 < T"
  shows "concat (map (\<lambda>i. case work_slice (length xs) T i of (start, cnt) \<Rightarrow> take cnt (drop start xs)) [0..<T]) = xs"
proof -
  let ?per = "length xs div T" and ?f = "\<lambda>i. case work_slice (length xs) T i of (start, cnt) \<Rightarrow> take cnt (drop start xs)"
  have "map ?f [0..<T - 1] = map (\<lambda>i. take ?per (drop (i * ?per) xs)) [0..<T - 1]"
    by (simp add: work_slice_def Let_def)
  moreover have "(T - 1) * ?per \<le> length xs"
    by (metis diff_le_self div_times_less_eq_dividend dual_order.trans mult.commute mult_le_mono1)
  ultimately have "concat (map ?f [0..<T - 1]) = take ((T - 1) * ?per) xs" using slices_prefix[of "T - 1" ?per xs] by (simp only:)
  moreover have "?f (T - 1) = drop ((T - 1) * ?per) xs" by (simp add: work_slice_def Let_def)
  moreover have "[0..<T] = [0..<T - 1] @ [T - 1]" using assms by (metis Suc_diff_1 upt_Suc_append zero_le)
  ultimately show ?thesis by simp
qed

text \<open>
  C34. \<open>run_scaling\<close>: however its threads interleave, every run of \<open>n\<close> steps of the team has exactly \<open>7 * T + 6 - n\<close> steps
  to go and goes on until main is through; and once main has left the second barrier (where it reads the clock)
  every worker has stored its result, each item has been hashed by exactly one worker, and the XOR of the
  workers' checksums is the checksum of the whole data, whatever the number of threads.
\<close>

theorem thread_scaling_checksum:
  assumes run: "team_run T (scaling_job ru data T) (replicate T z) n s" and T: "0 < T"
  shows "n + team_left T s = 7 * T + 6 \<and>
    (main_pc s \<noteq> M_end \<longrightarrow> (\<exists>w s'. team_step T (scaling_job ru data T) w s = Some s')) \<and>
    (mpassed (main_pc s) = 2 \<longrightarrow>
       length (team_slots s) = T \<and> fold (XOR) (map checksum (team_slots s)) 0 = hash_loop data 0)"
proof -
  have i: "team_inv T s" "n + team_left T s = 7 * T + 6" using team_run_inv[OF run] by simp_all
  let ?f = "\<lambda>i. case work_slice (length data) T i of (start, cnt) \<Rightarrow> take cnt (drop start data)"
  have "length (team_slots s) = T \<and> fold (XOR) (map checksum (team_slots s)) 0 = hash_loop data 0" if "mpassed (main_pc s) = 2"
  proof -
    have sl: "team_slots s = map (\<lambda>i. scaling_job ru data T i (replicate T z ! i)) [0..<T]"
      using team_results[OF run _ that] by simp
    have "map checksum (team_slots s) = map (\<lambda>xs. hash_loop xs 0) (map ?f [0..<T])"
      unfolding sl by (simp add: scaling_job_def hash_work_def split: prod.splits)
    then have "fold (XOR) (map checksum (team_slots s)) 0 = hash_loop data 0"
      using hash_loop_concat[of "map ?f [0..<T]"] slices_concat[OF T, of data] by (simp only:)
    then show ?thesis using sl by simp
  qed
  then show ?thesis using i(2) team_progress[OF i(1)] by blast
qed

theorem thread_scaling_checksum_witness:
  "\<exists>s. team_schedule 2 (scaling_job (\<lambda>_. ((0, 0), (1, 0))) [5, 6, 7] 2)
       [Main, Main, Worker 1, Main, Worker 0, Main, Main, Main, Worker 1, Worker 1, Worker 1, Worker 0, Worker 0, Worker 0, Main]
       (Team_new (replicate 2 \<lparr>checksum = 0, vcsw = 0, ivcsw = 0\<rparr>)) = Some s \<and>
     mpassed (main_pc s) = 2 \<and> fold (XOR) (map checksum (team_slots s)) 0 = hash_loop [5, 6, 7] 0"
proof -
  let ?job = "scaling_job (\<lambda>_. ((0, 0), (1, 0))) [5, 6, 7] 2" and ?z = "\<lparr>checksum = 0, vcsw = 0, ivcsw = 0\<rparr>"
  let ?ws = "[Main, Main, Worker 1, Main, Worker 0, Main, Main, Main, Worker 1, Worker 1, Worker 1, Worker 0, Worker 0, Worker 0, Main]"
  obtain s where s: "team_schedule 2 ?job ?ws (Team_new (replicate 2 ?z)) = Some s" "mpassed (main_pc s) = 2"
    by (simp add: Team_new_def team_step_def main_step_def worker_step_def barrier_arrive_def mpassed_def)
  have "team_run 2 ?job (replicate 2 ?z) (0 + length ?ws) s" by (rule team_schedule_run[OF team_init s(1)])
  from thread_scaling_checksum[OF this] s show ?thesis by simp
qed

text \<open>The estimate inverts Amdahl's law.\<close>

lemma amdahl_inverts:
  fixes f :: real
  assumes "1 < t" "0 \<le> f" "f \<le> 1" "sp = 1 / (f + (1 - f) / real t)"
  shows "0 < sp" "(1 / sp - 1 / real t) / (1 - 1 / real t) = f" "1 / 10 ^ 9 \<le> 1 - 1 / real t"
proof -
  have t: "2 \<le> real t" using assms(1) by simp
  have "0 < f + (1 - f) / real t"
  proof (cases "f = 0")
    case False
    then show ?thesis using assms(2,3) t by (intro add_pos_nonneg) simp_all
  qed (use t in simp)
  then show "0 < sp" by (simp add: assms(4))
  have "1 / real t \<le> 1 / 2" using t by (intro divide_left_mono) simp_all
  then show "1 / 10 ^ 9 \<le> 1 - 1 / real t" by simp
  have "1 / sp - 1 / real t = f * (1 - 1 / real t)" using t by (simp add: assms(4) field_simps)
  moreover have "1 - 1 / real t \<noteq> 0" using t by simp
  ultimately show "(1 / sp - 1 / real t) / (1 - 1 / real t) = f" by simp
qed

definition amdahl :: "real \<Rightarrow> ScalingResult \<Rightarrow> bool" where
  "amdahl f r \<longleftrightarrow> (threads r > 1 \<longrightarrow> speedup r = 1 / (f + (1 - f) / real (threads r)))"

lemma serial_loop_amdahl:
  assumes "0 \<le> f" "f \<le> 1" "\<forall>r \<in> set rs. amdahl f r"
  shows "serial_loop rs (real k * f) k = (real (k + length (filter (\<lambda>r. threads r > 1) rs)) * f,
     k + length (filter (\<lambda>r. threads r > 1) rs))"
  using assms(3)
proof (induction rs arbitrary: k)
  case (Cons r rs)
  show ?case
  proof (cases "threads r > 1")
    case True
    note a = amdahl_inverts[OF True assms(1,2), of "speedup r"]
    have "serial_loop (r # rs) (real k * f) k = serial_loop rs (real (Suc k) * f) (Suc k)"
      using True a Cons.prems by (simp add: amdahl_def Let_def algebra_simps)
    then show ?thesis using Cons.IH[of "Suc k"] Cons.prems True by simp
  next
    case False
    then show ?thesis using Cons by simp
  qed
qed simp

lemma estimate_serial_fraction_amdahl:
  assumes "0 \<le> f" "f \<le> 1" "\<forall>r \<in> set rs. amdahl f r" "\<exists>r \<in> set rs. threads r > 1"
  shows "estimate_serial_fraction rs = f"
proof -
  have "length (filter (\<lambda>r. threads r > 1) rs) \<noteq> 0" using assms(4) by (auto simp: filter_empty_conv)
  then show ?thesis using serial_loop_amdahl[OF assms(1-3), of 0] by (simp add: estimate_serial_fraction_def)
qed

subsection \<open>false\_sharing\_bench\<close>

text \<open>Each worker increments its own counter \<open>kOpsPerThread\<close> times; the counters are 64-bit \<open>long\<close>s.\<close>

fun increment_loop :: "nat \<Rightarrow> 64 word \<Rightarrow> 64 word" where
  "increment_loop 0 c = c"
| "increment_loop (Suc k) c = increment_loop k (c + 1)"

lemma increment_loop_sum: "increment_loop k c = c + of_nat k"
  by (induction k arbitrary: c) simp_all

lemma false_sharing_counters:
  assumes "team_run T (\<lambda>i. increment_loop kOps) (replicate T 0) n s" "mpassed (main_pc s) = 2" "kOps < 2 ^ 63"
  shows "map sint (team_slots s) = replicate T (int kOps)"
proof -
  have "team_slots s = replicate T (of_nat kOps)"
    using team_results[OF assms(1) _ assms(2)]
    by (auto simp: increment_loop_sum intro: nth_equalityI)
  moreover have "sint (of_nat kOps :: 64 word) = int kOps"
    using assms(3) by (simp add: signed_of_nat signed_take_bit_int_eq_self)
  ultimately show ?thesis by simp
qed

subsection \<open>alloc\_contention\_bench\<close>

text \<open>
  The heap behind \<open>malloc\<close> and \<open>free\<close> is a parameter.  \<open>TLSAlloc\<close> has one cache per thread, a vector whose back is the end of the
  list.  Calls of \<open>MutexAlloc\<close> hold the mutex for their whole length and so are calls of \<open>MallocAlloc\<close> one after another.
\<close>

record 'h heap_api =
  heap_malloc :: "'h \<Rightarrow> size_t \<Rightarrow> ptr \<times> 'h"
  heap_free :: "'h \<Rightarrow> ptr \<Rightarrow> 'h"

definition MallocAlloc_alloc :: "'h heap_api \<Rightarrow> 'h \<Rightarrow> size_t \<Rightarrow> ptr \<times> 'h" where
  "MallocAlloc_alloc api h sz = heap_malloc api h sz"

definition MallocAlloc_free :: "'h heap_api \<Rightarrow> 'h \<Rightarrow> ptr \<Rightarrow> 'h" where
  "MallocAlloc_free api h p = heap_free api h p"

definition kTLSCacheSize :: nat where
  "kTLSCacheSize = 32"

record 'h TLSAlloc =
  tls_heap :: 'h
  tls_cache :: "nat \<Rightarrow> ptr list"

definition TLSAlloc_alloc :: "'h heap_api \<Rightarrow> nat \<Rightarrow> 'h TLSAlloc \<Rightarrow> size_t \<Rightarrow> ptr \<times> 'h TLSAlloc" where
  "TLSAlloc_alloc api t s sz =
     (let cache = tls_cache s t in
      if cache \<noteq> [] then (last cache, s\<lparr>tls_cache := (tls_cache s)(t := butlast cache)\<rparr>)
      else case heap_malloc api (tls_heap s) sz of (p, h) \<Rightarrow> (p, s\<lparr>tls_heap := h\<rparr>))"

definition TLSAlloc_free :: "'h heap_api \<Rightarrow> nat \<Rightarrow> 'h TLSAlloc \<Rightarrow> ptr \<Rightarrow> 'h TLSAlloc" where
  "TLSAlloc_free api t s p =
     (let cache = tls_cache s t in
      if length cache < kTLSCacheSize then s\<lparr>tls_cache := (tls_cache s)(t := cache @ [p])\<rparr>
      else s\<lparr>tls_heap := heap_free api (tls_heap s) p\<rparr>)"

text \<open>The \<open>thread_local\<close> vector dies with its thread; the blocks it points to stay allocated.\<close>

definition TLSAlloc_thread_exit :: "nat \<Rightarrow> 'h TLSAlloc \<Rightarrow> 'h TLSAlloc" where
  "TLSAlloc_thread_exit t s = s\<lparr>tls_cache := (tls_cache s)(t := [])\<rparr>"

text \<open>The loop of a worker of \<open>bench_allocator\<close>: it writes to the block without a test for null.\<close>

fun bench_worker :: "('s \<Rightarrow> size_t \<Rightarrow> ptr \<times> 's) \<Rightarrow> ('s \<Rightarrow> ptr \<Rightarrow> 's) \<Rightarrow> nat \<Rightarrow> 's \<Rightarrow> 's result" where
  "bench_worker alloc free 0 s = Inr s"
| "bench_worker alloc free (Suc k) s =
     (case alloc s 64 of (p, s') \<Rightarrow> if p = nullptr then Inl Undefined else bench_worker alloc free k (free s' p))"

text \<open>What \<open>malloc\<close> and \<open>free\<close> document, in terms of the set of live blocks.\<close>

definition heap_spec :: "'h heap_api \<Rightarrow> ('h \<Rightarrow> ptr set) \<Rightarrow> bool" where
  "heap_spec api live \<longleftrightarrow>
     (\<forall>h sz p h'. heap_malloc api h sz = (p, h') \<longrightarrow>
        (if p = nullptr then live h' = live h else p \<notin> live h \<and> live h' = insert p (live h))) \<and>
     (\<forall>h p. p \<in> live h \<longrightarrow> live (heap_free api h p) = live h - {p})"

text \<open>
  Histories: threads allocate, free any block that is out, and end.  Beside the allocator go the blocks that are out
  and those lost with the caches of threads that ended.
\<close>

datatype tls_op = TAlloc nat size_t | TFree nat ptr | TExit nat

fun tls_run :: "'h heap_api \<Rightarrow> tls_op list \<Rightarrow> 'h TLSAlloc \<times> ptr set \<times> ptr set \<Rightarrow> ('h TLSAlloc \<times> ptr set \<times> ptr set) option" where
  "tls_run api [] st = Some st"
| "tls_run api (TAlloc t sz # ops) (s, out, lost) =
     (case TLSAlloc_alloc api t s sz of (p, s') \<Rightarrow> tls_run api ops (s', if p = nullptr then out else insert p out, lost))"
| "tls_run api (TFree t p # ops) (s, out, lost) =
     (if p \<in> out then tls_run api ops (TLSAlloc_free api t s p, out - {p}, lost) else None)"
| "tls_run api (TExit t # ops) (s, out, lost) =
     tls_run api ops (TLSAlloc_thread_exit t s, out, lost \<union> set (tls_cache s t))"

text \<open>Every block has one owner: the rest of the program, a client, a cache, or nobody any more.\<close>

definition cached :: "(nat \<Rightarrow> ptr list) \<Rightarrow> ptr set" where
  "cached c = (\<Union>t. set (c t))"

definition caches_ok :: "(nat \<Rightarrow> ptr list) \<Rightarrow> bool" where
  "caches_ok c \<longleftrightarrow> (\<forall>t. distinct (c t) \<and> length (c t) \<le> kTLSCacheSize) \<and> (\<forall>t u. t \<noteq> u \<longrightarrow> set (c t) \<inter> set (c u) = {})"

definition tls_inv :: "('h \<Rightarrow> ptr set) \<Rightarrow> ptr set \<Rightarrow> 'h TLSAlloc \<times> ptr set \<times> ptr set \<Rightarrow> bool" where
  "tls_inv live rest st \<longleftrightarrow>
     (case st of (s, out, lost) \<Rightarrow> let C = cached (tls_cache s) in
        live (tls_heap s) = rest \<union> out \<union> lost \<union> C \<and> nullptr \<notin> out \<union> C \<and>
        out \<inter> (rest \<union> lost \<union> C) = {} \<and> C \<inter> (rest \<union> lost) = {} \<and> caches_ok (tls_cache s))"

lemma cached_upd: "caches_ok c \<Longrightarrow> cached (c(t := xs)) = set xs \<union> (cached c - set (c t))"
  unfolding cached_def caches_ok_def by (fastforce split: if_splits)

lemma cached_mem: "set (c t) \<subseteq> cached c"
  by (auto simp: cached_def)

lemma caches_ok_upd:
  assumes "caches_ok c" "distinct xs" "length xs \<le> kTLSCacheSize" "set xs \<inter> (cached c - set (c t)) = {}"
  shows "caches_ok (c(t := xs))"
proof -
  have "set xs \<inter> set (c u) = {}" if "u \<noteq> t" for u
    using assms(4) cached_mem[of c u] assms(1) that unfolding caches_ok_def by blast
  then show ?thesis using assms(1-3) unfolding caches_ok_def by (simp add: Int_commute)
qed

lemma tls_alloc_inv:
  assumes spec: "heap_spec api live" and inv: "tls_inv live rest (s, out, lost)" and a: "TLSAlloc_alloc api t s sz = (p, s')"
  shows "tls_inv live rest (s', if p = nullptr then out else insert p out, lost)" "p \<noteq> nullptr \<Longrightarrow> p \<notin> rest \<union> out \<union> lost"
proof -
  define C where "C = cached (tls_cache s)"
  have I: "live (tls_heap s) = rest \<union> out \<union> lost \<union> C" "nullptr \<notin> out \<union> C" "out \<inter> (rest \<union> lost \<union> C) = {}" "C \<inter> (rest \<union> lost) = {}"
    and ok: "caches_ok (tls_cache s)"
    using inv unfolding tls_inv_def C_def Let_def prod.case by blast+
  have "tls_inv live rest (s', if p = nullptr then out else insert p out, lost) \<and> (p \<noteq> nullptr \<longrightarrow> p \<notin> rest \<union> out \<union> lost)"
  proof (cases "tls_cache s t = []")
    case True
    then obtain h where h: "heap_malloc api (tls_heap s) sz = (p, h)" "s' = s\<lparr>tls_heap := h\<rparr>"
      using a by (auto simp: TLSAlloc_alloc_def split: prod.splits)
    then have "if p = nullptr then live h = live (tls_heap s) else p \<notin> live (tls_heap s) \<and> live h = insert p (live (tls_heap s))"
      using spec unfolding heap_spec_def by blast
    then show ?thesis using I ok h(2) by (cases "p = nullptr") (simp_all add: tls_inv_def Let_def C_def)
  next
    case False
    define xs where "xs = butlast (tls_cache s t)"
    have c: "tls_cache s t = xs @ [p]" "s' = s\<lparr>tls_cache := (tls_cache s)(t := xs)\<rparr>"
      using False a by (auto simp: TLSAlloc_alloc_def Let_def xs_def)
    have d: "distinct (xs @ [p])" "length (xs @ [p]) \<le> kTLSCacheSize" using ok unfolding c(1)[symmetric] caches_ok_def by blast+
    have p: "p \<in> C" using cached_mem[of "tls_cache s" t] c(1) by (auto simp: C_def)
    have "set xs \<subseteq> C" using cached_mem[of "tls_cache s" t] c(1) by (auto simp: C_def)
    then have cc: "cached (tls_cache s') = C - {p}" using cached_upd[OF ok, of t xs] c d(1) unfolding C_def by auto
    have "caches_ok (tls_cache s')"
      using caches_ok_upd[OF ok, of xs t] c d by auto
    moreover have "p \<noteq> nullptr" using p I(2) by auto
    moreover have "tls_heap s' = tls_heap s" by (simp add: c(2))
    moreover have "rest \<union> out \<union> lost \<union> C = rest \<union> insert p out \<union> lost \<union> (C - {p})" using p by blast
    moreover have "insert p out \<inter> (rest \<union> lost \<union> (C - {p})) = {}" "p \<notin> rest \<union> out \<union> lost" using p I(3,4) by blast+
    ultimately show ?thesis using I cc unfolding tls_inv_def Let_def prod.case by simp blast
  qed
  then show "tls_inv live rest (s', if p = nullptr then out else insert p out, lost)" "p \<noteq> nullptr \<Longrightarrow> p \<notin> rest \<union> out \<union> lost" by blast+
qed

lemma tls_free_inv:
  assumes spec: "heap_spec api live" and inv: "tls_inv live rest (s, out, lost)" and p: "p \<in> out"
  shows "tls_inv live rest (TLSAlloc_free api t s p, out - {p}, lost)"
proof -
  define C where "C = cached (tls_cache s)"
  define s' where "s' = TLSAlloc_free api t s p"
  have I: "live (tls_heap s) = rest \<union> out \<union> lost \<union> C" "nullptr \<notin> out \<union> C" "out \<inter> (rest \<union> lost \<union> C) = {}" "C \<inter> (rest \<union> lost) = {}"
    and ok: "caches_ok (tls_cache s)"
    using inv unfolding tls_inv_def C_def Let_def prod.case by blast+
  have pC: "p \<notin> C" "p \<notin> rest \<union> lost" using I(3) p by blast+
  show ?thesis
  proof (cases "length (tls_cache s t) < kTLSCacheSize")
    case False
    have "p \<in> live (tls_heap s)" using I(1) p by simp
    then have "live (heap_free api (tls_heap s) p) = live (tls_heap s) - {p}" using spec by (simp add: heap_spec_def)
    also have "\<dots> = rest \<union> (out - {p}) \<union> lost \<union> C" using I(1) pC by blast
    finally show ?thesis using I(2-4) ok False unfolding tls_inv_def TLSAlloc_free_def Let_def prod.case C_def by simp blast
  next
    case True
    have c: "s' = s\<lparr>tls_cache := (tls_cache s)(t := tls_cache s t @ [p])\<rparr>"
      using True by (simp add: s'_def TLSAlloc_free_def Let_def)
    have cc: "cached (tls_cache s') = insert p C"
      using cached_upd[OF ok, of t "tls_cache s t @ [p]"] cached_mem[of "tls_cache s" t] by (auto simp: c C_def)
    have "distinct (tls_cache s t)" using ok by (simp add: caches_ok_def)
    then have "caches_ok (tls_cache s')"
      using caches_ok_upd[OF ok, of "tls_cache s t @ [p]" t] cached_mem[of "tls_cache s" t] True pC(1) by (auto simp: c C_def)
    moreover have "tls_heap s' = tls_heap s" by (simp add: c)
    moreover have "rest \<union> out \<union> lost \<union> C = rest \<union> (out - {p}) \<union> lost \<union> insert p C" using p by blast
    moreover have "(out - {p}) \<inter> (rest \<union> lost \<union> insert p C) = {}" "insert p C \<inter> (rest \<union> lost) = {}" "nullptr \<notin> (out - {p}) \<union> insert p C"
      using p pC I(2,3,4) by blast+
    ultimately show ?thesis using I(1) cc unfolding s'_def[symmetric] tls_inv_def Let_def prod.case by simp blast
  qed
qed

lemma tls_exit_inv:
  assumes inv: "tls_inv live rest (s, out, lost)"
  shows "tls_inv live rest (TLSAlloc_thread_exit t s, out, lost \<union> set (tls_cache s t))"
proof -
  define C where "C = cached (tls_cache s)"
  have I: "live (tls_heap s) = rest \<union> out \<union> lost \<union> C" "nullptr \<notin> out \<union> C" "out \<inter> (rest \<union> lost \<union> C) = {}" "C \<inter> (rest \<union> lost) = {}"
    and ok: "caches_ok (tls_cache s)"
    using inv unfolding tls_inv_def C_def Let_def prod.case by blast+
  have cc: "cached ((tls_cache s)(t := [])) = C - set (tls_cache s t)" "caches_ok ((tls_cache s)(t := []))" "set (tls_cache s t) \<subseteq> C"
    using cached_upd[OF ok, of t "[]"] caches_ok_upd[OF ok, of "[]" t] cached_mem[of "tls_cache s" t] by (simp_all add: C_def)
  define K where "K = set (tls_cache s t)"
  have "K \<subseteq> C" using cc(3) by (simp add: K_def)
  then have "rest \<union> out \<union> lost \<union> C = rest \<union> out \<union> (lost \<union> K) \<union> (C - K)" "nullptr \<notin> out \<union> (C - K)"
    "out \<inter> (rest \<union> (lost \<union> K) \<union> (C - K)) = {}" "(C - K) \<inter> (rest \<union> (lost \<union> K)) = {}"
    using I(2-4) by blast+
  then show ?thesis
    unfolding tls_inv_def TLSAlloc_thread_exit_def Let_def prod.case K_def using I(1) cc(1,2) by simp
qed

lemma tls_run_inv:
  assumes spec: "heap_spec api live"
  shows "tls_run api ops st = Some st' \<Longrightarrow> tls_inv live rest st \<Longrightarrow> tls_inv live rest st'"
proof (induction ops arbitrary: st)
  case (Cons x ops)
  obtain s out lost where st: "st = (s, out, lost)" by (cases st)
  show ?case
  proof (cases x)
    case (TAlloc t sz)
    obtain p s' where a: "TLSAlloc_alloc api t s sz = (p, s')" by fastforce
    show ?thesis using Cons.IH[OF _ tls_alloc_inv(1)[OF spec _ a]] Cons.prems TAlloc st a by simp
  next
    case (TFree t p)
    then show ?thesis using Cons.IH[OF _ tls_free_inv[OF spec]] Cons.prems st by (simp split: if_splits)
  next
    case (TExit t)
    then show ?thesis using Cons.IH[OF _ tls_exit_inv] Cons.prems st by simp
  qed
qed simp

text \<open>
  C35. \<open>TLSAlloc\<close> over any heap that does what \<open>malloc\<close> and \<open>free\<close> document, used by any number of threads that allocate, free
  blocks that are out (also another thread's) and end: a block handed out is not null, not live before or out already;
  no cache has more than 32 blocks; and the live blocks are exactly those of the rest of the program, those that are
  out, those in the caches of running threads, and those that ended threads had in their caches, which are lost.
\<close>

theorem TLSAlloc_ownership:
  assumes "heap_spec api live"
    and "tls_run api ops (\<lparr>tls_heap = h, tls_cache = (\<lambda>_. [])\<rparr>, {}, {}) = Some (s, out, lost)"
  shows "(case TLSAlloc_alloc api t s sz of (p, s') \<Rightarrow> p \<noteq> nullptr \<longrightarrow> p \<notin> live h \<union> out \<union> lost) \<and>
    length (tls_cache s t) \<le> 32 \<and> live (tls_heap s) = live h \<union> out \<union> lost \<union> cached (tls_cache s) \<and>
    out \<inter> (live h \<union> lost \<union> cached (tls_cache s)) = {} \<and> cached (tls_cache s) \<inter> (live h \<union> lost) = {}"
proof -
  have "tls_inv live (live h) (\<lparr>tls_heap = h, tls_cache = (\<lambda>_. [])\<rparr>, {}, {})"
    by (simp add: tls_inv_def cached_def caches_ok_def)
  then have i: "tls_inv live (live h) (s, out, lost)" by (rule tls_run_inv[OF assms])
  then have "live (tls_heap s) = live h \<union> out \<union> lost \<union> cached (tls_cache s)"
    "out \<inter> (live h \<union> lost \<union> cached (tls_cache s)) = {}" "cached (tls_cache s) \<inter> (live h \<union> lost) = {}" "caches_ok (tls_cache s)"
    unfolding tls_inv_def Let_def prod.case by blast+
  moreover have "length (tls_cache s t) \<le> 32" using calculation(4) by (simp add: caches_ok_def kTLSCacheSize_def)
  moreover have "case TLSAlloc_alloc api t s sz of (p, s') \<Rightarrow> p \<noteq> nullptr \<longrightarrow> p \<notin> live h \<union> out \<union> lost"
    using tls_alloc_inv(2)[OF assms(1) i] by (auto split: prod.split)
  ultimately show ?thesis by blast
qed

text \<open>A heap that hands out ever higher addresses, for examples: its state is the live blocks and the next address.\<close>

definition bump_heap :: "(ptr list \<times> nat) heap_api" where
  "bump_heap = \<lparr>heap_malloc = \<lambda>(l, k) sz. if of_nat k \<in> set l \<or> (of_nat k :: ptr) = 0 then (0, (l, k)) else (of_nat k, (of_nat k # l, k + 64)),
     heap_free = \<lambda>(l, k) p. (removeAll p l, k)\<rparr>"

lemma bump_heap_spec: "heap_spec bump_heap (\<lambda>h. set (fst h))"
  by (auto simp: heap_spec_def bump_heap_def split: if_splits)

theorem TLSAlloc_ownership_witness:
  "\<exists>s. tls_run bump_heap [TAlloc 1 64, TAlloc 2 64, TFree 2 64, TAlloc 2 4096, TFree 1 128, TExit 1]
      (\<lparr>tls_heap = ([], 64), tls_cache = (\<lambda>_. [])\<rparr>, {}, {}) = Some (s, {64}, {128}) \<and> set (fst (tls_heap s)) = {64, 128}"
proof -
  let ?ops = "[TAlloc 1 64, TAlloc 2 64, TFree 2 64, TAlloc 2 4096, TFree 1 128, TExit 1]"
  obtain s where s: "tls_run bump_heap ?ops (\<lparr>tls_heap = ([], 64), tls_cache = (\<lambda>_. [])\<rparr>, {}, {}) = Some (s, {64}, {128})"
    "cached (tls_cache s) = {}"
    by (auto simp: bump_heap_def TLSAlloc_alloc_def TLSAlloc_free_def TLSAlloc_thread_exit_def kTLSCacheSize_def cached_def insert_Diff_if fun_upd_def Let_def)
  from TLSAlloc_ownership[OF bump_heap_spec s(1), of 1 64] s show ?thesis by auto
qed

text \<open>
  The worker of \<open>bench_allocator\<close> on \<open>TLSAlloc\<close>, from an empty cache: one call of \<open>malloc\<close> however many rounds, and the block ends in the
  cache, that is, it is lost when the thread ends.
\<close>

lemma bench_worker_tls:
  assumes "tls_cache s t = []" "heap_malloc api (tls_heap s) 64 = (p, h)" "p \<noteq> nullptr"
  shows "bench_worker (TLSAlloc_alloc api t) (TLSAlloc_free api t) (Suc k) s =
    Inr (s\<lparr>tls_heap := h, tls_cache := (tls_cache s)(t := [p])\<rparr>)"
proof -
  let ?s = "s\<lparr>tls_heap := h, tls_cache := (tls_cache s)(t := [p])\<rparr>"
  have loop: "bench_worker (TLSAlloc_alloc api t) (TLSAlloc_free api t) k ?s = Inr ?s" for k
    using assms(3) by (induction k) (simp_all add: TLSAlloc_alloc_def TLSAlloc_free_def kTLSCacheSize_def)
  then show ?thesis using assms by (simp add: TLSAlloc_alloc_def TLSAlloc_free_def kTLSCacheSize_def)
qed

text \<open>The cache does not look at the size: a block of 64 bytes answers a request of any size.\<close>

lemma TLSAlloc_ignores_size: "TLSAlloc_alloc api t (TLSAlloc_free api t s p) sz = (p, s) \<or> length (tls_cache s t) \<ge> kTLSCacheSize"
  by (auto simp: TLSAlloc_alloc_def TLSAlloc_free_def Let_def)

subsection \<open>prefault\_bench\<close>

text \<open>
  \<open>run_policy\<close>: the vector of latencies starts with zeros, one per page; the first \<open>kWarmupPages\<close> pages are touched without being
  timed, and the ticks of the others overwrite their entries.
\<close>

definition kWarmupPages :: nat where
  "kWarmupPages = 64"

fun latency_loop :: "(nat \<Rightarrow> int) \<Rightarrow> nat \<Rightarrow> nat \<Rightarrow> int list \<Rightarrow> int list" where
  "latency_loop ticks pg 0 lat = lat"
| "latency_loop ticks pg (Suc k) lat = latency_loop ticks (pg + 1) k (lat[pg := ticks pg])"

definition run_policy_latencies :: "(nat \<Rightarrow> int) \<Rightarrow> nat \<Rightarrow> int list" where
  "run_policy_latencies ticks num_pages =
     latency_loop ticks kWarmupPages (num_pages - kWarmupPages) (replicate num_pages 0)"

definition run_policy_latency :: "(nat \<Rightarrow> int) \<Rightarrow> nat \<Rightarrow> Percentiles" where
  "run_policy_latency ticks num_pages = compute_percentiles (run_policy_latencies ticks num_pages)"

lemma latency_loop_nth:
  "length (latency_loop ticks pg k lat) = length lat \<and>
   (i < length lat \<longrightarrow> latency_loop ticks pg k lat ! i = (if pg \<le> i \<and> i < pg + k then ticks i else lat ! i))"
  by (induction ticks pg k lat rule: latency_loop.induct) (auto simp: nth_list_update not_less_eq_eq dest: le_antisym)

lemma run_policy_latencies_split:
  assumes "kWarmupPages \<le> num_pages"
  shows "run_policy_latencies ticks num_pages = replicate kWarmupPages 0 @ map ticks [kWarmupPages..<num_pages]"
  using assms latency_loop_nth[of ticks kWarmupPages "num_pages - kWarmupPages" "replicate num_pages 0"]
  by (auto simp: run_policy_latencies_def nth_append intro!: nth_equalityI)

text \<open>The zeros count as samples: a percentile is never above the one of the times measured, and can be far below.\<close>

lemma nearest_rank_zeros:
  assumes v: "nearest_rank xs p v" and w: "nearest_rank (replicate k 0 @ xs) p w" and p: "0 \<le> p" "p \<le> 100" and nn: "\<forall>x \<in> set xs. 0 \<le> x"
  shows "w \<le> v"
proof (rule ccontr)
  assume "\<not> w \<le> v"
  moreover have v0: "v \<in> set xs" "0 \<le> v" using v nn by (auto simp: nearest_rank_def)
  ultimately have "real (not_above (replicate k 0 @ xs) v) < p / 100 * real (k + length xs)"
    using w by (auto simp: nearest_rank_def)
  moreover have "not_above (replicate k 0 @ xs) v = k + not_above xs v" using v0 by (simp add: not_above_def)
  moreover have "p / 100 * real (length xs) \<le> real (not_above xs v)" using v by (simp add: nearest_rank_def)
  moreover have "p / 100 * real k \<le> 1 * real k" using p by (intro mult_right_mono) simp_all
  ultimately show False by (simp add: distrib_left)
qed

lemma prefault_percentiles_low:
  assumes "kWarmupPages < num_pages" "\<forall>pg. 0 \<le> ticks pg"
  shows "\<exists>reported true_value. p50 (run_policy_latency ticks num_pages) = Inr reported \<and>
    p50 (compute_percentiles (map ticks [kWarmupPages..<num_pages])) = Inr true_value \<and> reported \<le> true_value"
proof -
  let ?xs = "map ticks [kWarmupPages..<num_pages]" and ?ys = "replicate kWarmupPages 0 @ map ticks [kWarmupPages..<num_pages]"
  have l: "run_policy_latencies ticks num_pages = ?ys" using run_policy_latencies_split assms(1) by simp
  have ne: "sort ?xs \<noteq> []" "sort ?ys \<noteq> []" using assms(1) by (simp_all add: kWarmupPages_def flip: length_0_conv)
  obtain v where v: "percentile_sorted (sort ?xs) 50 = Inr (real_of_int v)" "nearest_rank (sort ?xs) 50 v"
    by (rule percentile_sorted_nearest[OF sorted_sort ne(1), of 50]) simp_all
  obtain w where w: "percentile_sorted (sort ?ys) 50 = Inr (real_of_int w)" "nearest_rank (sort ?ys) 50 w"
    by (rule percentile_sorted_nearest[OF sorted_sort ne(2), of 50]) simp_all
  have "w \<le> v" using nearest_rank_zeros[of ?xs 50 v kWarmupPages w] v(2) w(2) assms(2) by (simp add: nearest_rank_sort)
  then show ?thesis using v(1) w(1) by (simp add: run_policy_latency_def l compute_percentiles_def Let_def del: map_upt_Suc)
qed

text \<open>128 pages of 1000 ticks each: the median reported is 0.\<close>

lemma prefault_median_zero: "p50 (run_policy_latency (\<lambda>_. 1000) 128) = Inr 0"
proof -
  have "run_policy_latencies (\<lambda>_. 1000) 128 = replicate 64 0 @ replicate 64 1000"
    using run_policy_latencies_split[of 128 "\<lambda>_. 1000"] by (simp add: kWarmupPages_def map_replicate_const del: upt_Suc upt_rec_numeral)
  moreover have "sort (replicate 64 (0::int) @ replicate 64 1000) = replicate 64 0 @ replicate 64 1000"
    by (intro sorted_sort_id) (simp add: sorted_append)
  ultimately show ?thesis
    by (simp add: run_policy_latency_def compute_percentiles_def percentile_sorted_def Let_def nth_append)
qed

subsection \<open>PacketProcessingDemo\<close>

text \<open>
  The loop of \<open>RunSimulation\<close> over a pool: \<open>timestamp\<close> is the first word of a packet, where the pool keeps its link.  The result has the
  values read back.
\<close>

fun packet_loop :: "nat \<Rightarrow> nat \<Rightarrow> PoolAllocator \<times> node_mem \<Rightarrow> (ptr list \<times> PoolAllocator \<times> node_mem) result" where
  "packet_loop i 0 s = Inr ([], s)"
| "packet_loop i (Suc k) s =
     (case PoolAllocator_Allocate s of (p, pool, m) \<Rightarrow>
        if p = nullptr then Inl Undefined
        else let m' = m(p := of_nat i);
                 dummy = m' p
             in case packet_loop (i + 1) k (PoolAllocator_Free (pool, m') p) of
                  Inl e \<Rightarrow> Inl e
                | Inr (ds, s') \<Rightarrow> Inr (dummy # ds, s'))"

lemma packet_round:
  assumes "pool_holds s (x # xs)" "PoolAllocator_Allocate s = (p, pool, m)"
  shows "p = x" "p \<noteq> nullptr" "pool_holds (PoolAllocator_Free (pool, m(p := v)) p) (x # xs)"
proof -
  obtain pl mm where s: "s = (pl, mm)" by (cases s)
  have "nodes mm (pool_freeList pl) (x # xs)" using assms(1) s by (simp add: pool_holds_def)
  then show "p = x" "p \<noteq> nullptr" "pool_holds (PoolAllocator_Free (pool, m(p := v)) p) (x # xs)"
    using assms(2) s nodes_distinct[of mm "pool_freeList pl" "x # xs"]
    by (auto simp: PoolAllocator_Allocate_def PoolAllocator_Free_def pool_holds_def)
qed

text \<open>
  C36. The packet simulation over a freshly made pool of at least one slot: every iteration gets a packet, reads back the
  time stamp it wrote although the stamp lies on the link of the free list, and at the end the pool again holds all its slots in
  the order it started with.
\<close>

theorem packet_simulation_restores_pool:
  assumes "PoolAllocator_new api os m sizeof_T (2 ^ n) k = (Inr (pool, m'), os')" "pool_fits pool sizeof_T n"
  shows "\<exists>s'. packet_loop 0 iterations (pool, m') = Inr (map of_nat [0..<iterations], s') \<and>
    pool_holds s' (pool_slots pool sizeof_T n)"
proof -
  have h: "pool_holds (pool, m') (pool_slots pool sizeof_T n)" by (rule PoolAllocator_new_holds[OF assms])
  have "k \<noteq> 0" "pool_numSlots pool = k" using PoolAllocator_new_storage(1,2)[OF assms] by simp_all
  then obtain x xs where x: "pool_slots pool sizeof_T n = x # xs"
    by (cases "pool_slots pool sizeof_T n") (auto simp: pool_slots_def slot_list_def unat_eq_0)
  have "\<exists>s'. packet_loop i l s = Inr (map of_nat [i..<i + l], s') \<and> pool_holds s' (x # xs)" if "pool_holds s (x # xs)" for i l s
    using that
  proof (induction l arbitrary: i s)
    case (Suc l)
    obtain p pl mm where a: "PoolAllocator_Allocate s = (p, pl, mm)" by (cases "PoolAllocator_Allocate s")
    note r = packet_round[OF Suc.prems a]
    have u: "[i..<i + Suc l] = i # [Suc i..<Suc i + l]" by (simp add: upt_conv_Cons del: upt_Suc)
    show ?case using Suc.IH[OF r(3), of "Suc i" "of_nat i"] a r(2) unfolding u by (auto simp: Let_def)
  qed simp
  from this[OF h[unfolded x], of 0 iterations] show ?thesis by (simp add: x)
qed

theorem packet_simulation_restores_pool_witness:
  "\<exists>pool m' s'. PoolAllocator_new page_pool_os 0 (\<lambda>_. 0) 56 (2 ^ 3) 2 = (Inr (pool, m'), 0) \<and>
     packet_loop 0 1000000 (pool, m') = Inr (map of_nat [0..<1000000], s') \<and> pool_holds s' [8192, 8248]"
proof -
  obtain pool m' where n: "PoolAllocator_new page_pool_os 0 (\<lambda>_. 0) 56 (2 ^ 3) 2 = (Inr (pool, m'), 0)"
    and p: "pool = \<lparr>pool_numSlots = 2, pool_storage = \<lparr>vm_ptr = 8192, vm_size = 4096\<rparr>, pool_freeList = 8192\<rparr>"
    by (simp add: PoolAllocator_new_def SlotSize_def AlignUp_def VirtualMemory_new_def page_pool_os_def
      AllocateVirtualMemory_def Let_def)
  have f: "pool_fits pool 56 3" by (simp add: pool_fits_def p SlotSize_def AlignUp_def)
  have "pool_slots pool 56 3 = [8192, 8248]"
    by (simp add: pool_slots_def slot_list_def p SlotSize_def AlignUp_def upt_conv_Cons)
  with packet_simulation_restores_pool[OF n f, of 1000000] n show ?thesis by (auto simp del: upt_Suc upt_rec_numeral)
qed

subsection \<open>cacheline.hpp\<close>

definition kCacheLine :: size_t where
  "kCacheLine = 64"

definition is_aligned :: "ptr \<Rightarrow> size_t \<Rightarrow> bool" where
  "is_aligned p align = ((p AND (align - 1)) = 0)"

definition align_up :: "size_t \<Rightarrow> size_t \<Rightarrow> size_t" where
  "align_up v align = (v + align - 1) AND NOT (align - 1)"

lemma align_up_AlignUp: "align_up v align = AlignUp v align"
  by (simp add: align_up_def AlignUp_def)

lemma is_aligned_align_up: "is_aligned (align_up v align) align"
  by (simp add: is_aligned_def align_up_def and.assoc)

subsection \<open>timer.hpp\<close>

text \<open>The clock is a parameter: readings in nanoseconds.  Calibration takes the counter and the clock before and after each of its sleeps.\<close>

definition elapsed_us :: "int \<Rightarrow> int" where
  "elapsed_us ns = ns div 1000"

definition elapsed_ms_of :: "int \<Rightarrow> int" where
  "elapsed_ms_of ns = ns div 1000000"

fun calibrate_loop :: "(64 word \<times> 64 word \<times> real) list \<Rightarrow> real \<Rightarrow> real" where
  "calibrate_loop [] best = best"
| "calibrate_loop ((c0, c1, ns) # rs) best =
     (let ticks_per_ns = real (unat (c1 - c0)) / ns
      in calibrate_loop rs (if ticks_per_ns > best then ticks_per_ns else best))"

definition tsc_ticks_per_ns :: "(64 word \<times> 64 word \<times> real) list \<Rightarrow> real" where
  "tsc_ticks_per_ns samples = calibrate_loop samples 0"

text \<open>The calibration is the largest ratio of its samples, also across a wrap-around of the counter.\<close>

lemma calibrate_loop_max:
  "calibrate_loop rs best = Max (insert best ((\<lambda>(c0, c1, ns). real (unat (c1 - c0)) / ns) ` set rs))"
proof (induction rs arbitrary: best)
  case (Cons r rs)
  obtain c0 c1 ns where r: "r = (c0, c1, ns)" by (cases r)
  let ?q = "real (unat (c1 - c0)) / ns" and ?S = "(\<lambda>(c0, c1, ns). real (unat (c1 - c0)) / ns) ` set rs"
  have "calibrate_loop (r # rs) best = calibrate_loop rs (max ?q best)" by (simp add: r Let_def max_def not_less)
  also have "\<dots> = Max (insert (max ?q best) ?S)" by (rule Cons.IH)
  also have "\<dots> = Max (insert best (insert ?q ?S))"
    by (cases "?S = {}") (simp_all add: max.left_commute max.assoc max.commute)
  finally show ?case by (simp add: r)
qed simp

subsection \<open>affinity.hpp\<close>

text \<open>The Linux branch; the calls of the operating system are parameters.  A \<open>cpu_set_t\<close> has 1024 bits.\<close>

record 'os affinity_os =
  aff_get :: "'os \<Rightarrow> nat set"
  aff_set :: "'os \<Rightarrow> nat set \<Rightarrow> bool \<times> 'os"

definition pin_thread_to_core :: "'os affinity_os \<Rightarrow> 'os \<Rightarrow> nat \<Rightarrow> unit result \<times> 'os" where
  "pin_thread_to_core api os core_id =
     (case aff_set api os (if core_id < 1024 then {core_id} else {}) of
        (ok, os') \<Rightarrow> (if ok then Inr () else Inl Runtime_error, os'))"

definition hardware_concurrency :: "nat \<Rightarrow> nat" where
  "hardware_concurrency n = (if n = 0 then 1 else n)"

definition ScopedAffinity_new :: "'os affinity_os \<Rightarrow> 'os \<Rightarrow> nat \<Rightarrow> nat set result \<times> 'os" where
  "ScopedAffinity_new api os core_id =
     (let prev = aff_get api os in
      case pin_thread_to_core api os core_id of (Inl e, os') \<Rightarrow> (Inl e, os') | (Inr u, os') \<Rightarrow> (Inr prev, os'))"

definition ScopedAffinity_destroy :: "'os affinity_os \<Rightarrow> 'os \<Rightarrow> nat set \<Rightarrow> 'os" where
  "ScopedAffinity_destroy api os prev = snd (aff_set api os prev)"

text \<open>What the operating system documents: a mask is set or, on an error, left as it was; the masks it accepts do not change.\<close>

definition affinity_spec :: "'os affinity_os \<Rightarrow> (nat set \<Rightarrow> bool) \<Rightarrow> bool" where
  "affinity_spec api valid \<longleftrightarrow>
     (\<forall>os mk. case aff_set api os mk of (ok, os') \<Rightarrow> ok = valid mk \<and> aff_get api os' = (if ok then mk else aff_get api os))"

lemma ScopedAffinity_restores:
  assumes "affinity_spec api valid" "valid (aff_get api os)" "\<forall>os. aff_get api (body os) = aff_get api os"
  shows "case ScopedAffinity_new api os core_id of
      (Inl e, os') \<Rightarrow> e = Runtime_error \<and> aff_get api os' = aff_get api os
    | (Inr prev, os') \<Rightarrow> aff_get api os' = (if core_id < 1024 then {core_id} else {}) \<and>
        aff_get api (ScopedAffinity_destroy api (body os') prev) = aff_get api os"
proof -
  have s: "fst (aff_set api os mk) = valid mk" "aff_get api (snd (aff_set api os mk)) = (if valid mk then mk else aff_get api os)" for os mk
    using assms(1) unfolding affinity_spec_def by (metis (mono_tags, lifting) case_prod_unfold)+
  show ?thesis using assms(2,3) s
    by (auto simp: ScopedAffinity_new_def pin_thread_to_core_def ScopedAffinity_destroy_def Let_def case_prod_unfold split: sum.split)
qed

end
