(* ===== verification/Spec2Isabelle.thy ===== *)
theory Spec2Isabelle
  imports Arenas PoolAllocator MemoryAllocator LockFreeFreelist VMSystem SchedSimProofs OsScheduler
    SlabCache Stats VmemRegion VmExperiments VisualizerDemo ContiguousDemo
    PingPong Benchmarks
begin

text \<open>
  A verification development of the Memory\_Allocator repository: a family of C++ memory allocators
  (\<^verbatim>\<open>src/include\<close>), and a laboratory of virtual memory and CPU scheduling on top of them (\<^verbatim>\<open>src/memlab\<close>,
  \<^verbatim>\<open>src/examples\<close>).  The model is a shallow embedding: classes are records, methods are functions from
  state to state, machine integers are words of their width, exceptions, undefined behaviour and null are
  values (\<open>cpp_error + 'a\<close>, called \<open>result\<close>).

  \<^bold>\<open>Allocators.\<close>
  \<^item> \<open>Prelude\<close>: types, \<open>named_theorems\<close>, and the word and list lemmas that all components share.
  \<^item> \<open>MemoryUtils\<close> (\<^verbatim>\<open>MemoryUtils.hpp\<close>, \<^verbatim>\<open>VirtualMemory.hpp\<close>): alignment arithmetic at 64 bits; the RAII owner of
    mapped memory over an operating system that is a parameter.  Whatever is constructed, moved, assigned and
    destroyed, exactly what the objects hold is mapped; a failed \<open>mmap\<close> is not noticed and leaves an object at
    the address \<open>MAP_FAILED\<close> that holds nothing.
  \<^item> \<open>Arenas\<close> (\<^verbatim>\<open>LinearArena.hpp\<close>, \<^verbatim>\<open>StackArena.hpp\<close>): granted regions are inside, in order, disjoint; the overflow of
    the bounds check.
  \<^item> \<open>Freelist\<close>, \<open>PoolAllocator\<close> (\<^verbatim>\<open>PoolAllocator.hpp\<close>): an intrusive free list in a memory of words (the store is
    explicit, the links live in the blocks); \<open>Freelist\<close> is the library of linked lists in memory.
  \<^item> \<open>BuddySpec\<close>, \<open>BuddyAllocator\<close> (\<^verbatim>\<open>BuddyAllocator.hpp\<close>): the abstract buddy system, and the code over its
    free lists in memory as a refinement of it: safety of every history, full coalescing, exact refusal.  A list
    node is 8 bytes; \<open>bd_defined\<close> records whether every node read or written so far was 8-byte aligned and inside the
    mapped storage, and the theorems show that it stays true for minimum blocks of at least 8 bytes on an arena
    mapped at a multiple of its size, and that freeing makes it false when the base has a bit of a block size set.
  \<^item> \<open>RegionAllocator\<close>: the contract of an allocator of regions as a locale (and its extension for clients that
    free by block size); \<open>BuddyAllocator\<close> and \<open>FirstFit\<close> interpret it, \<open>MemoryAllocator\<close> (\<^verbatim>\<open>MemoryAllocator.hpp\<close>, the
    STL allocator with its exceptions) and \<open>OsScheduler\<close> use it.
  \<^item> \<open>LockFreeFreelist\<close> (\<^verbatim>\<open>LockFreeFreelist.hpp\<close>, \<^verbatim>\<open>TaggedPointer.hpp\<close>): push and pop as steps of one atomic access, any
    number of threads, spurious failures and writes of clients to their blocks: linearizability, exclusive
    ownership, obstruction freedom, up to the wrap-around of the 64-bit tag.
  \<^item> \<open>SlabCache\<close> (\<^verbatim>\<open>SlabCache.hpp\<close>): slabs, magazines per thread, and what a constructor that writes the first word
    of an object does to the free list.

  \<^bold>\<open>Virtual memory.\<close>
  \<^item> \<open>Paging\<close> (\<^verbatim>\<open>memlab/vm/frame_allocator.hpp\<close>, \<^verbatim>\<open>page_table.hpp\<close>, \<^verbatim>\<open>tlb.hpp\<close>), \<open>Replacement\<close> (\<^verbatim>\<open>replacement/*.hpp\<close>; the
    interface \<open>IReplacement\<close> as the locale \<open>replacement_policy\<close>, interpreted by FIFO, LRU, Clock and Optimal),
    \<open>VMSystem\<close> (the simulator class of \<^verbatim>\<open>vm_sim_main.cpp\<close>, proved over the locale), \<open>VmExperiments\<close> (its workload
    generators and the experiments of \<open>main\<close>).
  \<^item> \<open>VmemRegion\<close> (\<^verbatim>\<open>vm/vmem_region.hpp\<close>): the life of a region over a kernel that is a parameter (\<open>madvise\<close> may fail,
    \<open>munmap\<close> of huge pages needs a multiple of their size), and the adaptive prefault worker as a concurrent state
    machine, which the destructor joins from any of its states.

  \<^bold>\<open>Scheduling.\<close>
  \<^item> \<open>BinaryHeap\<close> (the heap operations of \<open>std::priority_queue\<close>), \<open>SchedPolicies\<close> (\<^verbatim>\<open>memlab/sched\<close>: processes and six
    policies; the interface \<open>IScheduler\<close> as the locale \<open>scheduler\<close>), \<open>SchedSim\<close> and \<open>SchedSimProofs\<close> (\<^verbatim>\<open>sched_sim_main.cpp\<close>:
    the simulator phase by phase, its invariants, its bound on the running time, simulations between policies).
  \<^item> \<open>OsScheduler\<close> (\<^verbatim>\<open>Process.hpp\<close>, \<^verbatim>\<open>Scheduler.hpp\<close>, \<^verbatim>\<open>OSSimDemo.cpp\<close>): the process simulator over the buddy allocator.
  \<^item> \<open>TextFormat\<close>, \<open>EventLog\<close> (\<^verbatim>\<open>EventLogger.hpp\<close>, \<^verbatim>\<open>trace_writer.hpp\<close>), \<open>Stats\<close> (\<^verbatim>\<open>common/stats.hpp\<close>): the text written, with
    readers for the round trips; percentiles.

  \<^bold>\<open>Compositions.\<close>  \<open>DemoCore\<close> has the scheduling loop that \<^verbatim>\<open>visualizer_demo.cpp\<close> and \<^verbatim>\<open>contiguous_demo.cpp\<close> share and
  couples it with the simulator of \<open>SchedSim\<close>; the locale \<open>demo_memory\<close> says what an invariant of the memory has
  to satisfy to be kept by every phase.  \<open>VisualizerDemo\<close> (TLB, page table, frames) and \<open>ContiguousDemo\<close> (first fit,
  \<open>FirstFit\<close>, and a list of processes waiting for memory) interpret it: in both demos memory is consistent
  in every reachable state and the loop ends by itself.

  \<^bold>\<open>Benchmarks.\<close>  \<open>PingPong\<close> (\<^verbatim>\<open>bench/ctx_switch_bench.cpp\<close>): two threads over a mutex and a condition variable, with spurious
  wake-ups; no deadlock, no lost wake-up, a bound on the steps.  \<open>ThreadTeam\<close>: the frame of the other multi-threaded
  benchmarks (threads that meet at a barrier, work on their own slots and meet again); in every interleaving all jobs
  are done when main reads the clock.  \<open>Benchmarks\<close>: slices and checksums, the Amdahl estimate, \<open>TLSAlloc\<close> with its
  per-thread caches over a heap that is a parameter, the latencies of \<^verbatim>\<open>prefault_bench.cpp\<close>, the packet demo over the pool
  of \<open>PoolAllocator\<close>, and the helpers of \<^verbatim>\<open>common/timer.hpp\<close>, \<^verbatim>\<open>affinity.hpp\<close> and \<^verbatim>\<open>cacheline.hpp\<close>.

  \<^bold>\<open>Bounds and fuel.\<close>  Loops that the code bounds are recursive over the bound; the loops of the simulators are
  \<open>partial_function (option)\<close>, and that they return is proved: the simulator's clock grows up to its cap of
  50000 ticks, the demos end before their cap of 1000.  The readers of the log formats have the length of the
  text as fuel, which is enough because every call consumes a character.  Retry loops of the lock-free
  list are step relations, not functions.

  \<^bold>\<open>Parameters.\<close>  The operating system (mapping, unmapping, locking memory, masks of processors), the heap behind \<open>malloc\<close>, clocks,
  \<open>std::mt19937\<close> with its distributions.  What is assumed of them is what they document: a number drawn lies between the
  bounds asked for, \<open>malloc\<close> returns null or a block that is not live, \<open>mmap\<close> fails or maps a fresh page-aligned region.
  Where a theorem needs more of a mapping (an arena at a multiple of its size) it says so as a hypothesis.  Hash maps
  that the code iterates are lists: the TLB theorem lets any operation be preceded by a rearrangement of the list and shows that
  every order gives the same mapping; the eviction scan of \<open>VMSystem\<close> is proved for any order of the page tables; the
  order in which the optimal policy visits its hash set is a parameter (\<open>op_order\<close>) of which only the visited set is known.

  \<^bold>\<open>Not modelled.\<close>  Floating point (averages, rates and \<open>std::log2\<close> are over the reals); C++ memory orders
  (interleavings are sequentially consistent); the Windows branches; files and console output beyond their
  text; the printing loops of the benchmarks, cache behaviour, page-fault counters, the inline assembly that
  reads the time stamp counter; the tests, the Python plots and the browser front end.
\<close>

end
